(* ===== verification/Prelude.thy ===== *)
theory Prelude
  imports Main "HOL-Library.Word"
begin

text \<open>
  Shared foundations of the development: the machine types of \<^verbatim>\<open>kernel/types.h\<close>, the ways a
  kernel routine can stop, the state-passing computations in which every component is written,
  their weakest-precondition rules, and the byte-addressed memory with its 32-bit loads and
  stores. The collections \<open>wp\<close> (one equation per construct) and \<open>mem_simps\<close> (loads after
  stores) carry the component proofs.
\<close>

unbundle bit_operations_syntax

section \<open>Machine types\<close>

type_synonym uchar = "8 word"
type_synonym ushort = "16 word"
type_synonym uint = "32 word"
type_synonym uint64 = "64 word"
type_synonym addr = "32 word"

named_theorems wp \<open>weakest-precondition equations of the kernel computations\<close>
named_theorems mem_simps \<open>loads after stores\<close>

section \<open>How a kernel routine can stop\<close>

text \<open>
  Channels are the addresses a process may sleep on. Distinct objects have distinct addresses,
  so a channel is named by the object.
\<close>

datatype chan =
    NoChan
  | ChanProc nat        \<comment> \<open>a \<open>struct proc\<close>, slept on by \<open>wait\<close>\<close>
  | ChanTicks
  | ChanLog
  | ChanBuf nat         \<comment> \<open>a \<open>struct buf\<close>, slept on by \<open>iderw\<close>\<close>
  | ChanBufLock nat     \<comment> \<open>the sleeplock of a buffer\<close>
  | ChanInodeLock nat   \<comment> \<open>the sleeplock of an inode\<close>
  | ChanPipeR addr      \<comment> \<open>\<open>&p->nread\<close>\<close>
  | ChanPipeW addr      \<comment> \<open>\<open>&p->nwrite\<close>\<close>
  | ChanInput           \<comment> \<open>\<open>&input.r\<close>\<close>

text \<open>
  \<open>Panic\<close> is a call of \<open>panic\<close>, \<open>Fault\<close> a dereference of a null pointer or an access outside an
  array, \<open>Spin\<close> a spinlock held by another processor, \<open>Sleeps\<close> a call that has to wait on a
  channel, \<open>Exits\<close> a call that does not return because the process became a zombie, and \<open>OutOfFuel\<close>
  a loop cut off by the bound of the model.
\<close>

datatype stop = Panic string | Fault string | Spin | Sleeps chan | Exits | OutOfFuel

datatype ('a, 's) res = Done 'a 's | Stop stop

type_synonym ('s, 'a) kop = "'s \<Rightarrow> ('a, 's) res"

section \<open>State-passing computations\<close>

definition ret :: "'a \<Rightarrow> ('s, 'a) kop" where
  "ret x = (\<lambda>s. Done x s)"

definition halt :: "stop \<Rightarrow> ('s, 'a) kop" where
  "halt e = (\<lambda>s. Stop e)"

definition bnd :: "('s, 'a) kop \<Rightarrow> ('a \<Rightarrow> ('s, 'b) kop) \<Rightarrow> ('s, 'b) kop" where
  "bnd m f = (\<lambda>s. case m s of Done x s' \<Rightarrow> f x s' | Stop e \<Rightarrow> Stop e)"

definition seqk :: "('s, 'a) kop \<Rightarrow> ('s, 'b) kop \<Rightarrow> ('s, 'b) kop" where
  "seqk m k = bnd m (\<lambda>_. k)"

definition gets :: "('s \<Rightarrow> 'a) \<Rightarrow> ('s, 'a) kop" where
  "gets f = (\<lambda>s. Done (f s) s)"

definition upd :: "('s \<Rightarrow> 's) \<Rightarrow> ('s, unit) kop" where
  "upd f = (\<lambda>s. Done () (f s))"

definition panic :: "string \<Rightarrow> ('s, 'a) kop" where
  "panic msg = halt (Panic msg)"

definition whenk :: "bool \<Rightarrow> ('s, unit) kop \<Rightarrow> ('s, unit) kop" where
  "whenk b m = (if b then m else ret ())"

text \<open>
  A component's computation acts on a part of a larger state: \<open>get\<close> selects the part and \<open>put\<close>
  writes it back.
\<close>

definition zoom :: "('t \<Rightarrow> 's) \<Rightarrow> ('s \<Rightarrow> 't \<Rightarrow> 't) \<Rightarrow> ('s, 'a) kop \<Rightarrow> ('t, 'a) kop" where
  "zoom get put m = (\<lambda>t. case m (get t) of Done x s \<Rightarrow> Done x (put s t) | Stop e \<Rightarrow> Stop e)"

fun foreach :: "'b list \<Rightarrow> ('b \<Rightarrow> ('s, unit) kop) \<Rightarrow> ('s, unit) kop" where
  "foreach [] f = ret ()"
| "foreach (x # xs) f = seqk (f x) (foreach xs f)"

fun repeatk :: "nat \<Rightarrow> ('s, 'a) kop \<Rightarrow> ('s, 'a list) kop" where
  "repeatk 0 m = ret []"
| "repeatk (Suc n) m = bnd m (\<lambda>x. bnd (repeatk n m) (\<lambda>xs. ret (x # xs)))"

section \<open>Weakest preconditions\<close>

text \<open>
  \<open>ok m s Q\<close>: from state \<open>s\<close> the computation returns, and its result and final state satisfy \<open>Q\<close>.
  \<open>safe m s Q\<close>: if it returns, its result and final state satisfy \<open>Q\<close>.
\<close>

definition ok :: "('s, 'a) kop \<Rightarrow> 's \<Rightarrow> ('a \<Rightarrow> 's \<Rightarrow> bool) \<Rightarrow> bool" where
  "ok m s Q = (case m s of Done x s' \<Rightarrow> Q x s' | Stop e \<Rightarrow> False)"

definition safe :: "('s, 'a) kop \<Rightarrow> 's \<Rightarrow> ('a \<Rightarrow> 's \<Rightarrow> bool) \<Rightarrow> bool" where
  "safe m s Q = (case m s of Done x s' \<Rightarrow> Q x s' | Stop e \<Rightarrow> True)"

lemma ok_ret [wp]: "ok (ret x) s Q = Q x s"
  by (simp add: ok_def ret_def)

lemma ok_halt [wp]: "ok (halt e) s Q = False"
  by (simp add: ok_def halt_def)

lemma ok_panic [wp]: "ok (panic msg) s Q = False"
  by (simp add: panic_def ok_halt)

lemma ok_bnd [wp]: "ok (bnd m f) s Q = ok m s (\<lambda>x s'. ok (f x) s' Q)"
  by (simp add: ok_def bnd_def split: res.split)

lemma ok_seqk [wp]: "ok (seqk m k) s Q = ok m s (\<lambda>_ s'. ok k s' Q)"
  by (simp add: seqk_def ok_bnd)

lemma ok_gets [wp]: "ok (gets f) s Q = Q (f s) s"
  by (simp add: ok_def gets_def)

lemma ok_upd [wp]: "ok (upd f) s Q = Q () (f s)"
  by (simp add: ok_def upd_def)

lemma ok_if [wp]: "ok (if b then m else k) s Q = (if b then ok m s Q else ok k s Q)"
  by simp

lemma ok_whenk [wp]: "ok (whenk b m) s Q = (if b then ok m s Q else Q () s)"
  by (simp add: whenk_def ok_ret)

lemma ok_zoom [wp]: "ok (zoom get put m) t Q = ok m (get t) (\<lambda>x s. Q x (put s t))"
  by (simp add: ok_def zoom_def split: res.split)

lemma ok_case_prod [wp]: "ok (case p of (x, y) \<Rightarrow> f x y) s Q = (case p of (x, y) \<Rightarrow> ok (f x y) s Q)"
  by (simp split: prod.split)

lemma ok_case_option [wp]:
  "ok (case r of None \<Rightarrow> m | Some x \<Rightarrow> f x) s Q = (case r of None \<Rightarrow> ok m s Q | Some x \<Rightarrow> ok (f x) s Q)"
  by (simp split: option.split)

lemma safe_case_prod [wp]: "safe (case p of (x, y) \<Rightarrow> f x y) s Q = (case p of (x, y) \<Rightarrow> safe (f x y) s Q)"
  by (simp split: prod.split)

lemma safe_case_option [wp]:
  "safe (case r of None \<Rightarrow> m | Some x \<Rightarrow> f x) s Q = (case r of None \<Rightarrow> safe m s Q | Some x \<Rightarrow> safe (f x) s Q)"
  by (simp split: option.split)

lemma safe_ret [wp]: "safe (ret x) s Q = Q x s"
  by (simp add: safe_def ret_def)

lemma safe_halt [wp]: "safe (halt e) s Q = True"
  by (simp add: safe_def halt_def)

lemma safe_panic [wp]: "safe (panic msg) s Q = True"
  by (simp add: panic_def safe_halt)

lemma safe_bnd [wp]: "safe (bnd m f) s Q = safe m s (\<lambda>x s'. safe (f x) s' Q)"
  by (simp add: safe_def bnd_def split: res.split)

lemma safe_seqk [wp]: "safe (seqk m k) s Q = safe m s (\<lambda>_ s'. safe k s' Q)"
  by (simp add: seqk_def safe_bnd)

lemma safe_gets [wp]: "safe (gets f) s Q = Q (f s) s"
  by (simp add: safe_def gets_def)

lemma safe_upd [wp]: "safe (upd f) s Q = Q () (f s)"
  by (simp add: safe_def upd_def)

lemma safe_if [wp]: "safe (if b then m else k) s Q = (if b then safe m s Q else safe k s Q)"
  by simp

lemma safe_whenk [wp]: "safe (whenk b m) s Q = (if b then safe m s Q else Q () s)"
  by (simp add: whenk_def safe_ret)

lemma safe_zoom [wp]: "safe (zoom get put m) t Q = safe m (get t) (\<lambda>x s. Q x (put s t))"
  by (simp add: safe_def zoom_def split: res.split)

lemma ok_mono: "ok m s Q \<Longrightarrow> (\<And>x s'. Q x s' \<Longrightarrow> R x s') \<Longrightarrow> ok m s R"
  by (simp add: ok_def split: res.splits)

lemma ok_mono_pair: "ok m s (\<lambda>(a, b) s'. Q a b s') \<Longrightarrow> (\<And>a b s'. Q a b s' \<Longrightarrow> R a b s') \<Longrightarrow> ok m s (\<lambda>(a, b) s'. R a b s')"
  by (auto simp: ok_def split: res.splits)

lemma safe_mono: "safe m s Q \<Longrightarrow> (\<And>x s'. Q x s' \<Longrightarrow> R x s') \<Longrightarrow> safe m s R"
  by (simp add: safe_def split: res.splits)

lemma ok_conj: "ok m s Q \<Longrightarrow> safe m s R \<Longrightarrow> ok m s (\<lambda>x s'. Q x s' \<and> R x s')"
  by (simp add: ok_def safe_def split: res.splits)

lemma safe_conj: "safe m s Q \<Longrightarrow> safe m s R \<Longrightarrow> safe m s (\<lambda>x s'. Q x s' \<and> R x s')"
  by (simp add: safe_def split: res.splits)

lemma ok_safe: "ok m s Q \<Longrightarrow> safe m s Q"
  by (simp add: ok_def safe_def split: res.splits)

lemma ok_Done: "ok m s Q \<longleftrightarrow> (\<exists>x s'. m s = Done x s' \<and> Q x s')"
  by (auto simp add: ok_def split: res.splits)

lemma okE: "ok m s Q \<Longrightarrow> (\<And>x s'. m s = Done x s' \<Longrightarrow> Q x s' \<Longrightarrow> thesis) \<Longrightarrow> thesis"
  by (auto simp add: ok_Done)

lemma safeD: "safe m s Q \<Longrightarrow> m s = Done x s' \<Longrightarrow> Q x s'"
  by (simp add: safe_def)

lemma safeI: "(\<And>x s'. m s = Done x s' \<Longrightarrow> Q x s') \<Longrightarrow> safe m s Q"
  by (simp add: safe_def split: res.split)

lemma ok_Done_eq: "m s = Done x s' \<Longrightarrow> ok m s Q = Q x s'"
  by (simp add: ok_def)

text \<open>A loop over a list keeps an invariant that its body keeps.\<close>

lemma safe_foreach:
  assumes "\<And>x s. x \<in> set xs \<Longrightarrow> I s \<Longrightarrow> safe (f x) s (\<lambda>_ s'. I s')" and "I s"
  shows "safe (foreach xs f) s (\<lambda>_ s'. I s')"
  using assms
proof (induction xs arbitrary: s)
  case Nil
  then show ?case by (simp add: wp)
next
  case (Cons x xs)
  from Cons.prems have "safe (f x) s (\<lambda>_ s'. I s')" by simp
  then have "safe (f x) s (\<lambda>_ s'. safe (foreach xs f) s' (\<lambda>_ s'. I s'))"
    by (rule safe_mono) (rule Cons.IH, use Cons.prems in auto)
  then show ?case by (simp add: wp)
qed

lemma ok_foreach:
  assumes "\<And>x s. x \<in> set xs \<Longrightarrow> I s \<Longrightarrow> ok (f x) s (\<lambda>_ s'. I s')" and "I s"
  shows "ok (foreach xs f) s (\<lambda>_ s'. I s')"
  using assms
proof (induction xs arbitrary: s)
  case Nil
  then show ?case by (simp add: wp)
next
  case (Cons x xs)
  from Cons.prems have "ok (f x) s (\<lambda>_ s'. I s')" by simp
  then have "ok (f x) s (\<lambda>_ s'. ok (foreach xs f) s' (\<lambda>_ s'. I s'))"
    by (rule ok_mono) (rule Cons.IH, use Cons.prems in auto)
  then show ?case by (simp add: wp)
qed

section \<open>Spinlocks as the executing processor sees them\<close>

text \<open>
  A spinlock is free, held by the processor that runs the code, or held by another one; this
  is what \<open>lk->locked\<close> and \<open>lk->cpu == mycpu()\<close> say together. \<open>acquire\<close> panics on a lock it
  already holds and spins on one held elsewhere, \<open>release\<close> panics on a lock it does not hold. The
  concrete fields, the interrupt bookkeeping and the proof that they implement this view are in
  the theory \<open>Spinlock\<close>.
\<close>

datatype lockview = Unlocked | Mine | Theirs

definition acquire :: "('s \<Rightarrow> lockview) \<Rightarrow> (lockview \<Rightarrow> 's \<Rightarrow> 's) \<Rightarrow> ('s, unit) kop" where
  "acquire get put = (\<lambda>s. case get s of
      Unlocked \<Rightarrow> Done () (put Mine s)
    | Mine \<Rightarrow> Stop (Panic ''acquire'')
    | Theirs \<Rightarrow> Stop Spin)"

definition release :: "('s \<Rightarrow> lockview) \<Rightarrow> (lockview \<Rightarrow> 's \<Rightarrow> 's) \<Rightarrow> ('s, unit) kop" where
  "release get put = (\<lambda>s. if get s = Mine then Done () (put Unlocked s) else Stop (Panic ''release''))"

lemma ok_acquire [wp]: "ok (acquire get put) s Q = (get s = Unlocked \<and> Q () (put Mine s))"
  by (simp add: ok_def acquire_def split: lockview.split)

lemma safe_acquire [wp]: "safe (acquire get put) s Q = (get s = Unlocked \<longrightarrow> Q () (put Mine s))"
  by (simp add: safe_def acquire_def split: lockview.split)

lemma ok_release [wp]: "ok (release get put) s Q = (get s = Mine \<and> Q () (put Unlocked s))"
  by (simp add: ok_def release_def)

lemma safe_release [wp]: "safe (release get put) s Q = (get s = Mine \<longrightarrow> Q () (put Unlocked s))"
  by (simp add: safe_def release_def)

section \<open>Words\<close>

lemma unat_lt32: "unat (x :: uint) < 4294967296"
  using unsigned_less [of x] by simp

lemma unat_add32: "unat x + unat y < 4294967296 \<Longrightarrow> unat (x + y :: uint) = unat x + unat y"
  using unat_add_lem [of x y] by simp

lemma unat_plus32: "unat (x + y :: uint) = (unat x + unat y) mod 4294967296"
  by (simp add: unat_word_ariths)

lemma unat_sub32: "unat y \<le> unat x \<Longrightarrow> unat (x - y :: uint) = unat x - unat y"
  by (simp add: unat_sub word_le_nat_alt)

lemma unat_minus32: "unat (x - y :: uint) = (unat x + 4294967296 - unat y) mod 4294967296"
proof (cases "unat y \<le> unat x")
  case True
  then have "unat x + 4294967296 - unat y = (unat x - unat y) + 4294967296" by simp
  moreover have "unat x - unat y < 4294967296" using unat_lt32 [of x] by linarith
  ultimately show ?thesis using True by (simp only: unat_sub32 mod_add_self2 mod_less)
next
  case False
  then show ?thesis
    using unat_lt32 [of x] unat_lt32 [of y]
    by (simp add: unat_sub_if_size word_size)
qed

lemma unat_of_nat32: "n < 4294967296 \<Longrightarrow> unat (of_nat n :: uint) = n"
  by (simp add: unat_of_nat)

lemma uint_eqI: "unat x = unat y \<Longrightarrow> x = (y :: uint)"
  by (simp add: word_unat_eq_iff)

lemma uint_inject [simp]: "uint x = uint y \<longleftrightarrow> x = y"
  by (simp add: word_uint_eq_iff)

declare uint_0_iff [simp]

lemma bit32_eqI: "(\<And>n. n < 32 \<Longrightarrow> bit x n = bit y n) \<Longrightarrow> x = (y :: uint)"
  by (rule bit_word_eqI) simp

section \<open>Byte-addressed memory\<close>

type_synonym memory = "addr \<Rightarrow> uchar"

definition load32 :: "memory \<Rightarrow> addr \<Rightarrow> uint" where
  "load32 m a = ucast (m a) OR push_bit 8 (ucast (m (a + 1)))
     OR push_bit 16 (ucast (m (a + 2))) OR push_bit 24 (ucast (m (a + 3)))"

definition store32 :: "addr \<Rightarrow> uint \<Rightarrow> memory \<Rightarrow> memory" where
  "store32 a v m = m(a := ucast v, a + 1 := ucast (drop_bit 8 v),
     a + 2 := ucast (drop_bit 16 v), a + 3 := ucast (drop_bit 24 v))"

lemma load_store_same [mem_simps]: "load32 (store32 a v m) a = v"
proof (rule bit32_eqI)
  fix n :: nat assume n: "n < 32"
  have ne: "a \<noteq> a + 1" "a \<noteq> a + 2" "a \<noteq> a + 3" "a + 1 \<noteq> a + 2" "a + 1 \<noteq> a + 3" "a + 2 \<noteq> a + 3"
    by simp_all
  consider "n < 8" | "8 \<le> n" "n < 16" | "16 \<le> n" "n < 24" | "24 \<le> n" by linarith
  then show "bit (load32 (store32 a v m) a) n = bit v n"
    by cases (use n ne [symmetric] in \<open>auto simp: load32_def store32_def bit_simps\<close>)
qed

definition span :: "addr \<Rightarrow> nat \<Rightarrow> addr set" where
  "span a n = {a + of_nat i | i. i < n}"

lemma store32_other [mem_simps]: "b \<notin> span a 4 \<Longrightarrow> store32 a v m b = m b"
proof -
  assume b: "b \<notin> span a 4"
  have "a + of_nat i \<in> span a 4" if "i < 4" for i
    using that by (auto simp: span_def)
  from this [of 0] this [of 1] this [of 2] this [of 3] b
  have "b \<noteq> a" "b \<noteq> a + 1" "b \<noteq> a + 2" "b \<noteq> a + 3" by auto
  then show ?thesis by (simp add: store32_def)
qed

lemma load32_cong: "(\<And>b. b \<in> span a 4 \<Longrightarrow> m b = m' b) \<Longrightarrow> load32 m a = load32 m' a"
proof -
  assume eq: "\<And>b. b \<in> span a 4 \<Longrightarrow> m b = m' b"
  have "a + of_nat i \<in> span a 4" if "i < 4" for i
    using that by (auto simp: span_def)
  from this [of 0] this [of 1] this [of 2] this [of 3]
  have "m a = m' a" "m (a + 1) = m' (a + 1)" "m (a + 2) = m' (a + 2)" "m (a + 3) = m' (a + 3)"
    by (auto intro: eq)
  then show ?thesis by (simp add: load32_def)
qed

lemma load_store_other [mem_simps]: "span a 4 \<inter> span b 4 = {} \<Longrightarrow> load32 (store32 a v m) b = load32 m b"
  by (rule load32_cong) (rule store32_other, blast)

end
