(* ===== verification/Mmu.thy ===== *)
theory Mmu
  imports Prelude
begin

text \<open>
  The address-space layout of \<^verbatim>\<open>kernel/memlayout.h\<close> and the paging macros of \<^verbatim>\<open>kernel/mmu.h\<close>, as
  functions on 32-bit words, with their reading as division and remainder on natural numbers.
  The segment and gate descriptors of \<^verbatim>\<open>kernel/mmu.h\<close> are 64-bit words.
\<close>

section \<open>Layout\<close>

definition EXTMEM :: uint where "EXTMEM = 0x100000"
definition PHYSTOP :: uint where "PHYSTOP = 0xE000000"
definition DEVSPACE :: uint where "DEVSPACE = 0xFE000000"
definition KERNBASE :: uint where "KERNBASE = 0x80000000"
definition SHAREDBASE :: uint where "SHAREDBASE = 0x40000000"
definition KERNLINK :: uint where "KERNLINK = KERNBASE + EXTMEM"

definition V2P :: "uint \<Rightarrow> uint" where "V2P a = a - KERNBASE"
definition P2V :: "uint \<Rightarrow> uint" where "P2V a = a + KERNBASE"

lemmas layout_defs = EXTMEM_def PHYSTOP_def DEVSPACE_def KERNBASE_def SHAREDBASE_def KERNLINK_def

lemma V2P_P2V [simp]: "V2P (P2V a) = a"
  by (simp add: V2P_def P2V_def)

lemma P2V_V2P [simp]: "P2V (V2P a) = a"
  by (simp add: V2P_def P2V_def)

lemma P2V_inject [simp]: "P2V a = P2V b \<longleftrightarrow> a = b"
  by (simp add: P2V_def)

section \<open>Paging macros\<close>

definition PGSIZE :: uint where "PGSIZE = 4096"
definition PTXSHIFT :: nat where "PTXSHIFT = 12"
definition PDXSHIFT :: nat where "PDXSHIFT = 22"
definition NPDENTRIES :: nat where "NPDENTRIES = 1024"
definition PTE_P :: uint where "PTE_P = 0x001"
definition PTE_W :: uint where "PTE_W = 0x002"
definition PTE_U :: uint where "PTE_U = 0x004"
definition PTE_PS :: uint where "PTE_PS = 0x080"

lemmas pte_flags = PTE_P_def PTE_W_def PTE_U_def PTE_PS_def

definition PDX :: "uint \<Rightarrow> uint" where
  "PDX va = drop_bit PDXSHIFT va AND 0x3FF"

definition PTX :: "uint \<Rightarrow> uint" where
  "PTX va = drop_bit PTXSHIFT va AND 0x3FF"

definition PGADDR :: "uint \<Rightarrow> uint \<Rightarrow> uint \<Rightarrow> uint" where
  "PGADDR d t off = push_bit PDXSHIFT d OR push_bit PTXSHIFT t OR off"

definition PGROUNDUP :: "uint \<Rightarrow> uint" where
  "PGROUNDUP sz = (sz + PGSIZE - 1) AND NOT (PGSIZE - 1)"

definition PGROUNDDOWN :: "uint \<Rightarrow> uint" where
  "PGROUNDDOWN a = a AND NOT (PGSIZE - 1)"

definition PTE_ADDR :: "uint \<Rightarrow> uint" where
  "PTE_ADDR pte = pte AND NOT 0xFFF"

definition PTE_FLAGS :: "uint \<Rightarrow> uint" where
  "PTE_FLAGS pte = pte AND 0xFFF"

section \<open>Reading the macros as arithmetic\<close>

lemma mask_FFF: "(0xFFF :: uint) = mask 12"
  by (simp add: mask_eq_exp_minus_1)

lemma mask_3FF: "(0x3FF :: uint) = mask 10"
  by (simp add: mask_eq_exp_minus_1)

lemma and_mask_unat: "unat (x AND mask n :: uint) = unat x mod 2 ^ n"
  by (metis take_bit_eq_mask take_bit_eq_mod unsigned_take_bit_eq)

lemma unat_PTE_FLAGS: "unat (PTE_FLAGS x) = unat x mod 4096"
  unfolding PTE_FLAGS_def mask_FFF and_mask_unat by simp

lemma split_FFF: "(x AND NOT 0xFFF) + (x AND 0xFFF) = (x :: uint)"
proof -
  have "(x AND NOT 0xFFF) AND (x AND 0xFFF) = 0" by (rule bit_word_eqI) (auto simp: bit_simps)
  then have "(x AND NOT 0xFFF) + (x AND 0xFFF) = (x AND NOT 0xFFF) OR (x AND 0xFFF)"
    by (rule disjunctive_add_eq_or)
  also have "\<dots> = x" by (rule bit_word_eqI) (auto simp: bit_simps)
  finally show ?thesis .
qed

lemma unat_and_not_FFF: "unat (x AND NOT 0xFFF :: uint) = unat x div 4096 * 4096"
proof -
  have "x AND NOT 0xFFF = x - (x AND 0xFFF)" using split_FFF [of x] by (simp add: eq_diff_eq)
  moreover have "unat (x AND 0xFFF) = unat x mod 4096" unfolding mask_FFF and_mask_unat by simp
  ultimately have "unat (x AND NOT 0xFFF) = unat x - unat x mod 4096"
    by (simp add: unat_sub32)
  then show ?thesis by (simp add: minus_mod_eq_div_mult)
qed

lemma PTE_ADDR_round: "PTE_ADDR x = PGROUNDDOWN x"
  by (simp add: PTE_ADDR_def PGROUNDDOWN_def PGSIZE_def)

lemma unat_PGROUNDDOWN: "unat (PGROUNDDOWN x) = unat x div 4096 * 4096"
  by (simp only: PTE_ADDR_round [symmetric] PTE_ADDR_def unat_and_not_FFF)

lemma unat_PTE_ADDR: "unat (PTE_ADDR x) = unat x div 4096 * 4096"
  by (simp only: PTE_ADDR_round unat_PGROUNDDOWN)

lemma unat_PGROUNDUP:
  assumes "unat sz + 4095 < 4294967296"
  shows "unat (PGROUNDUP sz) = (unat sz + 4095) div 4096 * 4096"
proof -
  have "unat (sz + 4095) = unat sz + 4095" using assms by (simp add: unat_add32)
  moreover have "PGROUNDUP sz = (sz + 4095) AND NOT 0xFFF"
    by (simp add: PGROUNDUP_def PGSIZE_def add.commute)
  ultimately show ?thesis by (simp only: unat_and_not_FFF)
qed

lemma unat_PDX: "unat (PDX va) = unat va div 4194304"
proof -
  have "unat (PDX va) = unat va div 4194304 mod 1024"
    unfolding PDX_def PDXSHIFT_def mask_3FF and_mask_unat
    by (simp add: drop_bit_eq_div unat_div)
  moreover have "unat va div 4194304 < 1024" using unat_lt32 [of va] by simp
  ultimately show ?thesis by simp
qed

lemma unat_PTX: "unat (PTX va) = unat va div 4096 mod 1024"
  unfolding PTX_def PTXSHIFT_def mask_3FF and_mask_unat
  by (simp add: drop_bit_eq_div unat_div)

lemma PDX_lt: "unat (PDX va) < 1024"
  using unat_lt32 [of va] by (simp add: unat_PDX)

lemma PTX_lt: "unat (PTX va) < 1024"
  by (simp add: unat_PTX)

lemma div_4M: "n div 4194304 = n div 4096 div (1024 :: nat)"
  by (simp add: div_mult2_eq [symmetric])

text \<open>The two indices determine the page.\<close>

lemma page_eq_iff: "PDX a = PDX b \<and> PTX a = PTX b \<longleftrightarrow> PGROUNDDOWN a = PGROUNDDOWN b"
proof
  assume h: "PDX a = PDX b \<and> PTX a = PTX b"
  then have "unat (PDX a) = unat (PDX b)" "unat (PTX a) = unat (PTX b)" by simp_all
  then have "unat a div 4096 div 1024 = unat b div 4096 div 1024"
    and "unat a div 4096 mod 1024 = unat b div 4096 mod 1024"
    by (simp_all add: unat_PDX unat_PTX div_4M)
  then have "unat a div 4096 = unat b div 4096" by (metis div_mult_mod_eq)
  then show "PGROUNDDOWN a = PGROUNDDOWN b"
    by (intro uint_eqI) (simp add: unat_PGROUNDDOWN)
next
  assume "PGROUNDDOWN a = PGROUNDDOWN b"
  then have "unat (PGROUNDDOWN a) = unat (PGROUNDDOWN b)" by simp
  then have "unat a div 4096 = unat b div 4096" by (simp add: unat_PGROUNDDOWN)
  then show "PDX a = PDX b \<and> PTX a = PTX b"
    by (intro conjI uint_eqI) (simp_all add: unat_PDX unat_PTX div_4M)
qed

section \<open>Page alignment and table entries\<close>

definition aligned :: "uint \<Rightarrow> bool" where
  "aligned a \<longleftrightarrow> unat a mod 4096 = 0"

definition present :: "uint \<Rightarrow> bool" where
  "present pte \<longleftrightarrow> pte AND PTE_P \<noteq> 0"

lemma aligned_PGROUNDDOWN [simp]: "aligned (PGROUNDDOWN a)"
  by (simp add: aligned_def unat_PGROUNDDOWN)

lemma aligned_PTE_ADDR [simp]: "aligned (PTE_ADDR a)"
  by (simp add: PTE_ADDR_round)

lemma PGROUNDDOWN_aligned: "aligned a \<Longrightarrow> PGROUNDDOWN a = a"
  by (rule uint_eqI) (simp add: aligned_def unat_PGROUNDDOWN flip: minus_mod_eq_div_mult)

lemma PGROUNDDOWN_idem [simp]: "PGROUNDDOWN (PGROUNDDOWN a) = PGROUNDDOWN a"
  by (simp add: PGROUNDDOWN_aligned)

lemma aligned_0 [simp]: "aligned 0"
  by (simp add: aligned_def)

lemma aligned_PGROUNDUP [simp]: "aligned (PGROUNDUP a)"
proof -
  have "PGROUNDUP a = PGROUNDDOWN (a + PGSIZE - 1)" by (simp add: PGROUNDUP_def PGROUNDDOWN_def)
  then show ?thesis by simp
qed

lemma aligned_dvd: "aligned a \<longleftrightarrow> 4096 dvd unat a"
  by (simp add: aligned_def dvd_eq_mod_eq_0)

lemma dvd_mod_4G: "4096 dvd n \<Longrightarrow> 4096 dvd n mod (4294967296 :: nat)"
  by (rule dvd_mod) simp_all

lemma aligned_add: "aligned a \<Longrightarrow> aligned b \<Longrightarrow> aligned (a + b)"
  unfolding aligned_dvd unat_plus32 by (intro dvd_mod_4G dvd_add)

lemma aligned_diff: "aligned a \<Longrightarrow> aligned b \<Longrightarrow> aligned (a - b)"
  unfolding aligned_dvd unat_minus32 by (intro dvd_mod_4G dvd_diff_nat dvd_add) simp_all

lemma aligned_PGSIZE [simp]: "aligned PGSIZE"
  by (simp add: aligned_def PGSIZE_def)

lemma aligned_KERNBASE [simp]: "aligned KERNBASE"
  by (simp add: aligned_def KERNBASE_def)

lemma aligned_SHAREDBASE [simp]: "aligned SHAREDBASE"
  by (simp add: aligned_def SHAREDBASE_def)

lemma aligned_P2V [simp]: "aligned (P2V a) \<longleftrightarrow> aligned a"
proof
  assume "aligned (P2V a)"
  then have "aligned (P2V a - KERNBASE)" by (rule aligned_diff) simp
  then show "aligned a" by (simp add: P2V_def)
next
  assume "aligned a"
  then show "aligned (P2V a)" by (simp add: P2V_def aligned_add)
qed

lemma aligned_V2P [simp]: "aligned (V2P a) \<longleftrightarrow> aligned a"
  using aligned_P2V [of "V2P a"] by simp

lemma PTE_ADDR_or:
  assumes "aligned pa" and "unat f < 4096"
  shows "PTE_ADDR (pa OR f) = pa" and "PTE_FLAGS (pa OR f) = f"
proof -
  have pa: "pa AND 0xFFF = 0"
    using assms(1) unat_PTE_FLAGS [of pa] by (simp add: aligned_def PTE_FLAGS_def unat_eq_0)
  have f: "f AND 0xFFF = f"
    using assms(2) unat_PTE_FLAGS [of f] by (intro uint_eqI) (simp add: PTE_FLAGS_def)
  have pa': "pa AND NOT 0xFFF = pa" using split_FFF [of pa] pa by simp
  have f': "f AND NOT 0xFFF = 0" using split_FFF [of f] f by simp
  show "PTE_ADDR (pa OR f) = pa"
    by (simp only: PTE_ADDR_def bit.conj_disj_distrib2 pa' f' or.right_neutral)
  show "PTE_FLAGS (pa OR f) = f"
    by (simp only: PTE_FLAGS_def bit.conj_disj_distrib2 pa f or.left_neutral)
qed

lemma PTE_parts: "PTE_ADDR pte + PTE_FLAGS pte = pte"
  by (simp only: PTE_ADDR_def PTE_FLAGS_def split_FFF)

lemma present_or [simp]: "present (x OR PTE_P)"
  by (simp add: present_def PTE_P_def bit.conj_disj_distrib2 or_eq_0_iff)

lemma not_present_0 [simp]: "\<not> present 0"
  by (simp add: present_def)

lemma or_lt_4096: "unat a < 4096 \<Longrightarrow> unat b < 4096 \<Longrightarrow> unat (a OR b :: uint) < 4096"
proof -
  assume a: "unat a < 4096" and b: "unat b < 4096"
  have "a AND 0xFFF = a" "b AND 0xFFF = b"
    using a b unat_PTE_FLAGS [of a] unat_PTE_FLAGS [of b] by (auto intro!: uint_eqI simp: PTE_FLAGS_def)
  then have "(a OR b) AND 0xFFF = a OR b" by (simp only: bit.conj_disj_distrib2)
  then have "unat (a OR b) = unat (PTE_FLAGS (a OR b))" by (simp add: PTE_FLAGS_def)
  then show ?thesis by (simp add: unat_PTE_FLAGS)
qed

lemma PTE_FLAGS_lt [simp]: "unat (PTE_FLAGS x) < 4096"
  by (simp add: unat_PTE_FLAGS)

section \<open>Pages as sets of addresses\<close>

text \<open>\<open>PGROUNDDOWN x = f\<close> says that byte \<open>x\<close> lies in the page that starts at \<open>f\<close>.\<close>

lemma page_off_iff: "aligned f \<Longrightarrow> unat (x - f) < 4096 \<longleftrightarrow> PGROUNDDOWN x = f"
proof -
  assume al: "aligned f"
  then obtain k where k: "unat f = 4096 * k" by (auto simp: aligned_dvd)
  show ?thesis
  proof
    assume lt: "unat (x - f) < 4096"
    have "x = f + (x - f)" by simp
    moreover have "k < 1048576" using k unat_lt32 [of f] by simp
    then have "unat f + unat (x - f) < 4294967296" using k lt by simp
    ultimately have "unat x = unat f + unat (x - f)" by (metis unat_add32)
    then have "unat x div 4096 * 4096 = unat f" using k lt by simp
    then show "PGROUNDDOWN x = f" by (intro uint_eqI) (simp add: unat_PGROUNDDOWN)
  next
    assume "PGROUNDDOWN x = f"
    then have "unat f = unat x div 4096 * 4096" by (simp flip: unat_PGROUNDDOWN)
    then show "unat (x - f) < 4096" by (simp add: unat_sub32 minus_div_mult_eq_mod)
  qed
qed

lemma PGROUNDDOWN_off:
  assumes "aligned f" and "k < 4096"
  shows "PGROUNDDOWN (f + of_nat k) = f"
  using assms by (simp add: page_off_iff [symmetric] unat_of_nat)

lemma PGROUNDDOWN_add: "aligned a \<Longrightarrow> PGROUNDDOWN (a + x) = a + PGROUNDDOWN x"
proof -
  assume a: "aligned a"
  have "unat (x - PGROUNDDOWN x) < 4096" by (simp add: page_off_iff)
  moreover have "a + x - (a + PGROUNDDOWN x) = x - PGROUNDDOWN x" by simp
  ultimately have "unat (a + x - (a + PGROUNDDOWN x)) < 4096" by simp
  with page_off_iff [of "a + PGROUNDDOWN x" "a + x"] show ?thesis using a by (simp add: aligned_add)
qed

lemma off_eq_diff: "x AND 0xFFF = x - PGROUNDDOWN x"
  using split_FFF [of x] by (simp add: PGROUNDDOWN_def PGSIZE_def eq_diff_eq add.commute)

lemma off_add: "aligned a \<Longrightarrow> (a + x) AND 0xFFF = x AND (0xFFF :: uint)"
  by (simp add: off_eq_diff PGROUNDDOWN_add)

lemma PGROUNDDOWN_le: "unat (PGROUNDDOWN x) \<le> unat x"
  by (simp add: unat_PGROUNDDOWN)

lemma PGROUNDDOWN_frame: "aligned f \<Longrightarrow> PGROUNDDOWN (f + (x AND 0xFFF)) = f"
  by (simp add: off_eq_diff page_off_iff [symmetric]) (simp add: page_off_iff)

text \<open>A 32-bit word at a multiple of four inside a page lies in that page.\<close>

lemma span_page:
  assumes "aligned f" and "i < 1024" and "x \<in> span (f + 4 * of_nat i) 4"
  shows "PGROUNDDOWN x = f"
proof -
  from assms(3) obtain j where j: "j < 4" "x = f + of_nat (4 * i + j)"
    by (auto simp: span_def algebra_simps)
  have "4 * i + j < 4096" using assms(2) j(1) by simp
  with assms(1) show ?thesis unfolding j(2) by (rule PGROUNDDOWN_off)
qed

lemma span_disjoint:
  assumes "aligned f" and "i < 1024" and "j < 1024" and "i \<noteq> j"
  shows "span (f + 4 * of_nat i) 4 \<inter> span (f + 4 * of_nat j) 4 = {}"
proof (rule ccontr)
  assume "\<not> ?thesis"
  then obtain k l where kl: "k < 4" "l < 4"
    and "f + 4 * of_nat i + of_nat k = f + 4 * of_nat j + of_nat l"
    unfolding span_def by blast
  then have "(of_nat (4 * i + k) :: uint) = of_nat (4 * j + l)" by simp
  then have "unat (of_nat (4 * i + k) :: uint) = unat (of_nat (4 * j + l) :: uint)"
    by (rule arg_cong)
  moreover have "4 * i + k < 4294967296" "4 * j + l < 4294967296" using assms kl by simp_all
  ultimately have "4 * i + k = 4 * j + l" by (simp only: unat_of_nat32)
  with kl assms(4) show False by arith
qed

end
