(* ===== verification/CString.thy ===== *)
theory CString
  imports Prelude
begin

text \<open>
  The kernel's byte and string routines (\<^verbatim>\<open>kernel/string.c\<close>, whose user copies are in
  \<^verbatim>\<open>user/ulib.c\<close>), with the string instructions of \<^verbatim>\<open>kernel/x86.h\<close> they use. Routines that write
  through pointers into memory act on the byte-addressed memory; routines that only read a
  string take it as the sequence of bytes that starts at the pointer, so that they apply to user
  strings and to the character arrays inside kernel structures alike.
\<close>

section \<open>Definitions\<close>

text \<open>\<open>rep stosb\<close> and \<open>rep stosl\<close>: addresses wrap around at 32 bits.\<close>

definition stosb :: "addr \<Rightarrow> uchar \<Rightarrow> nat \<Rightarrow> memory \<Rightarrow> memory" where
  "stosb a d cnt m = (\<lambda>x. if unat (x - a) < cnt then d else m x)"

definition stosl :: "addr \<Rightarrow> uint \<Rightarrow> nat \<Rightarrow> memory \<Rightarrow> memory" where
  "stosl a d cnt m = (\<lambda>x. if unat (x - a) < 4 * cnt
     then ucast (drop_bit (8 * (unat (x - a) mod 4)) d) else m x)"

definition memset :: "addr \<Rightarrow> uint \<Rightarrow> uint \<Rightarrow> memory \<Rightarrow> memory" where
  "memset dst c n m =
     (if unat dst mod 4 = 0 \<and> unat n mod 4 = 0
      then let c = c AND 0xFF in
        stosl dst (push_bit 24 c OR push_bit 16 c OR push_bit 8 c OR c) (unat n div 4) m
      else stosb dst (ucast c) (unat n) m)"

fun memcmp :: "memory \<Rightarrow> addr \<Rightarrow> addr \<Rightarrow> nat \<Rightarrow> int" where
  "memcmp m s1 s2 0 = 0"
| "memcmp m s1 s2 (Suc n) =
     (if m s1 \<noteq> m s2 then uint (m s1) - uint (m s2) else memcmp m (s1 + 1) (s2 + 1) n)"

text \<open>The two copying loops of \<open>memmove\<close>: upwards from \<open>d\<close>, \<open>s\<close>, and downwards below \<open>d\<close>, \<open>s\<close>.\<close>

fun copy_up :: "addr \<Rightarrow> addr \<Rightarrow> nat \<Rightarrow> memory \<Rightarrow> memory" where
  "copy_up d s 0 m = m"
| "copy_up d s (Suc n) m = copy_up (d + 1) (s + 1) n (m(d := m s))"

fun copy_down :: "addr \<Rightarrow> addr \<Rightarrow> nat \<Rightarrow> memory \<Rightarrow> memory" where
  "copy_down d s 0 m = m"
| "copy_down d s (Suc n) m = copy_down (d - 1) (s - 1) n (m(d - 1 := m (s - 1)))"

definition memmove :: "addr \<Rightarrow> addr \<Rightarrow> uint \<Rightarrow> memory \<Rightarrow> memory" where
  "memmove dst src n m =
     (if src < dst \<and> src + n > dst then copy_down (dst + n) (src + n) (unat n) m
      else copy_up dst src (unat n) m)"

text \<open>The bytes from a pointer on.\<close>

type_synonym bytes_at = "nat \<Rightarrow> uchar"

definition cstr :: "memory \<Rightarrow> addr \<Rightarrow> bytes_at" where
  "cstr m a = (\<lambda>i. m (a + of_nat i))"

definition arr :: "uchar list \<Rightarrow> bytes_at" where
  "arr bs = (\<lambda>i. if i < length bs then bs ! i else 0)"

text \<open>The bytes of a string literal.\<close>

definition lit :: "string \<Rightarrow> uchar list" where
  "lit s = map (\<lambda>c. of_nat (of_char c)) s"

fun strncmp :: "bytes_at \<Rightarrow> bytes_at \<Rightarrow> nat \<Rightarrow> int" where
  "strncmp p q 0 = 0"
| "strncmp p q (Suc n) =
     (if p 0 \<noteq> 0 \<and> p 0 = q 0 then strncmp (\<lambda>i. p (Suc i)) (\<lambda>i. q (Suc i)) n
      else uint (p 0) - uint (q 0))"

text \<open>The \<open>n\<close> bytes that \<open>strncpy\<close> writes at \<open>s\<close>.\<close>

fun strncpy :: "bytes_at \<Rightarrow> nat \<Rightarrow> uchar list" where
  "strncpy t 0 = []"
| "strncpy t (Suc n) =
     (if t 0 \<noteq> 0 then t 0 # strncpy (\<lambda>i. t (Suc i)) n else 0 # replicate n 0)"

text \<open>
  The bytes that \<open>safestrcpy\<close> writes at \<open>s\<close>: when the copying loop meets the terminator it has
  already stored it, and the final assignment stores one more.
\<close>

fun safestrcpy_bytes :: "bytes_at \<Rightarrow> nat \<Rightarrow> uchar list" where
  "safestrcpy_bytes t 0 = []"
| "safestrcpy_bytes t (Suc 0) = [0]"
| "safestrcpy_bytes t (Suc (Suc n)) =
     (if t 0 \<noteq> 0 then t 0 # safestrcpy_bytes (\<lambda>i. t (Suc i)) (Suc n) else [0, 0])"

definition safestrcpy :: "uchar list \<Rightarrow> bytes_at \<Rightarrow> nat \<Rightarrow> uchar list" where
  "safestrcpy s t n = (let bs = safestrcpy_bytes t n in bs @ drop (length bs) s)"

text \<open>\<open>strlen\<close> runs until it finds a terminator; on a string without one it does not return.\<close>

partial_function (option) strlen_from :: "bytes_at \<Rightarrow> nat \<Rightarrow> nat option" where
  "strlen_from s n = (if s n = 0 then Some n else strlen_from s (Suc n))"

definition strlen :: "bytes_at \<Rightarrow> nat option" where
  "strlen s = strlen_from s 0"

section \<open>Filling memory\<close>

lemma fill_byte:
  fixes c :: uint and k :: nat
  assumes "k < 4"
  shows "ucast (drop_bit (8 * k)
     (push_bit 24 (c AND 0xFF) OR push_bit 16 (c AND 0xFF) OR push_bit 8 (c AND 0xFF) OR (c AND 0xFF)))
     = (ucast c :: uchar)"
proof -
  have FF: "bit (0xFF :: int) i = (i < 8)" for i
  proof -
    have "bit (0xFF :: int) i = bit (mask 8 :: int) i" by (simp add: mask_eq_exp_minus_1)
    also have "\<dots> = (i < 8)" by (simp only: bit_mask_iff) auto
    finally show ?thesis .
  qed
  from assms consider "k = 0" | "k = 1" | "k = 2" | "k = 3" by linarith
  then show ?thesis
    by cases (auto intro!: bit_word_eqI simp: bit_simps FF)
qed

lemma memset_apply:
  "memset dst c n m x = (if unat (x - dst) < unat n then ucast c else m x)"
proof (cases "unat dst mod 4 = 0 \<and> unat n mod 4 = 0")
  case True
  then have n: "4 * (unat n div 4) = unat n" by presburger
  have "unat (x - dst) mod 4 < 4" by simp
  from fill_byte [OF this] True n show ?thesis
    by (simp add: memset_def stosl_def Let_def)
next
  case False
  then show ?thesis by (auto simp add: memset_def stosb_def)
qed

lemma load32_memset_zero:
  assumes "unat (a - dst) + 3 < unat n"
  shows "load32 (memset dst 0 n m) a = 0"
proof -
  have "memset dst 0 n m (a + of_nat i) = 0" if "i < 4" for i
  proof -
    have "a + of_nat i - dst = (a - dst) + of_nat i" by simp
    moreover have "unat (of_nat i :: uint) = i" using that by (simp add: unat_of_nat)
    ultimately have "unat (a + of_nat i - dst) = unat (a - dst) + i"
      using assms that unat_lt32 [of n] by (simp only: unat_plus32) simp
    then show ?thesis using assms that by (simp add: memset_apply)
  qed
  from this [of 0] this [of 1] this [of 2] this [of 3] show ?thesis
    by (simp add: load32_def)
qed

section \<open>Copying memory\<close>

lemma off_Suc: "x \<noteq> d \<Longrightarrow> unat (x - d) = Suc (unat (x - (d + 1 :: uint)))"
proof -
  assume "x \<noteq> d"
  then have "x - d \<noteq> 0" by simp
  then have "unat (x - d) = Suc (unat (x - d - 1))"
    by (simp add: unat_minus_one unat_gt_0)
  moreover have "x - d - 1 = x - (d + 1)" by (simp add: algebra_simps)
  ultimately show ?thesis by simp
qed

text \<open>
  Copying upwards reads every source byte before the loop overwrites it when the destination
  does not start strictly inside the source; copying downwards when the source does not start
  strictly inside the destination.
\<close>

lemma copy_up_apply:
  assumes "d = s \<or> n \<le> unat (d - s)"
  shows "copy_up d s n m x = (if unat (x - d) < n then m (s + (x - d)) else m x)"
  using assms
proof (induction n arbitrary: d s m)
  case 0
  then show ?case by simp
next
  case (Suc n)
  have IH: "copy_up (d + 1) (s + 1) n (m(d := m s)) x
      = (if unat (x - (d + 1)) < n then (m(d := m s)) (s + 1 + (x - (d + 1))) else (m(d := m s)) x)"
    by (rule Suc.IH) (use Suc.prems in auto)
  have src: "s + 1 + (x - (d + 1)) = s + (x - d)" by simp
  show ?case
  proof (cases "x = d")
    case True
    then show ?thesis using IH src by simp
  next
    case False
    have "(m(d := m s)) (s + (x - d)) = m (s + (x - d))" if lt: "unat (x - (d + 1)) < n"
    proof (cases "s + (x - d) = d")
      case True
      then have "x - d = d - s" by (simp add: algebra_simps)
      moreover have "unat (x - d) < Suc n" using lt off_Suc [OF False] by simp
      ultimately have "d = s" using Suc.prems by simp
      with True False show ?thesis by simp
    qed simp
    then show ?thesis using IH src False off_Suc [OF False] by auto
  qed
qed

lemma unat_off: "k < 4294967296 \<Longrightarrow> unat (d + of_nat k - d :: uint) = k"
  by (simp add: unat_of_nat)

lemma copy_down_apply:
  assumes "d = s \<or> n \<le> unat (s - d)" and "n < 4294967296"
  shows "copy_down (d + of_nat n) (s + of_nat n) n m x
     = (if unat (x - d) < n then m (s + (x - d)) else m x)"
  using assms
proof (induction n arbitrary: m)
  case 0
  then show ?case by simp
next
  case (Suc n)
  let ?m = "m(d + of_nat n := m (s + of_nat n))"
  have "copy_down (d + of_nat (Suc n)) (s + of_nat (Suc n)) (Suc n) m x
      = copy_down (d + of_nat n) (s + of_nat n) n ?m x"
    by (simp add: algebra_simps)
  also have "\<dots> = (if unat (x - d) < n then ?m (s + (x - d)) else ?m x)"
    by (rule Suc.IH) (use Suc.prems in auto)
  also have "\<dots> = (if unat (x - d) < Suc n then m (s + (x - d)) else m x)"
  proof (cases "unat (x - d) < n")
    case True
    have "s + (x - d) \<noteq> d + of_nat n"
    proof
      assume "s + (x - d) = d + of_nat n"
      then have e: "s - d + (x - d) = of_nat n" by (simp add: algebra_simps)
      have "unat (of_nat n :: uint) = n" using Suc.prems by (simp add: unat_of_nat)
      with e have u: "(unat (s - d) + unat (x - d)) mod 4294967296 = n"
        by (metis unat_plus32)
      from Suc.prems(1) show False
      proof
        assume "d = s" with u True show False by simp
      next
        assume "Suc n \<le> unat (s - d)"
        moreover have "unat (s - d) + unat (x - d) < 4294967296 + n"
          using True unat_lt32 [of "s - d"] by simp
        ultimately show False
          using u True Suc.prems(2) by (cases "unat (s - d) + unat (x - d) < 4294967296")
            (simp_all add: le_mod_geq)
      qed
    qed
    then show ?thesis using True by simp
  next
    case False
    then show ?thesis
    proof (cases "unat (x - d) = n")
      case True
      then have "x - d = of_nat n"
        using Suc.prems(2) by (simp add: word_unat_eq_iff unat_of_nat)
      then have "x = d + of_nat n" by (simp add: algebra_simps)
      then show ?thesis using True by simp
    next
      case ne: False
      have "x \<noteq> d + of_nat n" using ne unat_off [of n d] Suc.prems(2) by auto
      then show ?thesis using False ne by simp
    qed
  qed
  finally show ?case .
qed

lemma memmove_apply:
  assumes src: "unat src + unat n < 4294967296" and dst: "unat dst + unat n \<le> 4294967296"
  shows "memmove dst src n m x = (if unat (x - dst) < unat n then m (src + (x - dst)) else m x)"
proof -
  have sn: "unat (src + n) = unat src + unat n" using src by (rule unat_add32)
  show ?thesis
  proof (cases "src < dst \<and> src + n > dst")
    case True
    then have "unat src < unat dst" by (simp add: word_less_nat_alt)
    then have "unat (src - dst) = unat src + 4294967296 - unat dst"
      by (simp add: unat_minus32)
    then have "unat n \<le> unat (src - dst)" using dst by simp
    from copy_down_apply [OF disjI2 [OF this] unat_lt32, of m x] show ?thesis
      using True by (simp add: memmove_def)
  next
    case False
    have "dst = src \<or> unat n \<le> unat (dst - src)"
    proof (cases "src < dst")
      case True
      then have "unat (dst - src) = unat dst - unat src"
        by (simp add: unat_sub32 word_less_nat_alt)
      moreover have "unat src + unat n \<le> unat dst"
        using True False sn by (simp add: word_less_nat_alt not_less)
      ultimately show ?thesis by (intro disjI2) linarith
    next
      case le: False
      show ?thesis
      proof (cases "dst = src")
        case ne: False
        then have "unat dst \<noteq> unat src" using uint_eqI by blast
        with le have "unat dst < unat src" by (simp add: word_less_nat_alt)
        then have "unat (dst - src) = unat dst + 4294967296 - unat src"
          by (simp add: unat_minus32)
        then show ?thesis using src by (intro disjI2) linarith
      qed simp
    qed
    from copy_up_apply [OF this, of m x] show ?thesis
      unfolding memmove_def if_not_P [OF False] .
  qed
qed

section \<open>Strings\<close>

lemma strncmp_self: "strncmp p p n = 0"
  by (induction n arbitrary: p) simp_all

text \<open>
  \<open>strncmp\<close> answers 0 exactly when the two strings agree up to the first terminator or up to
  \<open>n\<close> bytes.
\<close>

lemma strncmp_zero_iff:
  "strncmp p q n = 0 \<longleftrightarrow> (\<forall>i < n. (\<forall>j < i. p j \<noteq> 0) \<longrightarrow> p i = q i)"
proof (induction n arbitrary: p q)
  case 0
  then show ?case by simp
next
  case (Suc n)
  have sub: "uint (p 0) - uint (q 0) = 0 \<longleftrightarrow> p 0 = q 0"
    by simp
  have split_Suc: "(\<forall>i < Suc n. (\<forall>j < i. p j \<noteq> 0) \<longrightarrow> p i = q i) \<longleftrightarrow>
      p 0 = q 0 \<and> (p 0 \<noteq> 0 \<longrightarrow> (\<forall>i < n. (\<forall>j < i. p (Suc j) \<noteq> 0) \<longrightarrow> p (Suc i) = q (Suc i)))"
    by (simp add: All_less_Suc2) blast
  show ?case
  proof (cases "p 0 \<noteq> 0 \<and> p 0 = q 0")
    case True
    have h: "p 0 \<noteq> 0" "q 0 = p 0" using True by metis+
    then have "strncmp p q (Suc n) = strncmp (\<lambda>i. p (Suc i)) (\<lambda>i. q (Suc i)) n" by simp
    then show ?thesis unfolding split_Suc using h Suc.IH by simp
  next
    case False
    then have "strncmp p q (Suc n) = 0 \<longleftrightarrow> p 0 = q 0"
      by (simp only: strncmp.simps if_False sub)
    with False show ?thesis unfolding split_Suc by blast
  qed
qed

lemma strncmp_sym_zero: "strncmp p q n = 0 \<longleftrightarrow> strncmp q p n = 0"
proof (induction n arbitrary: p q)
  case (Suc n)
  show ?case using Suc.IH [of "\<lambda>i. p (Suc i)" "\<lambda>i. q (Suc i)"] by auto
qed simp

lemma strncmp_trans_zero: "strncmp p q n = 0 \<Longrightarrow> strncmp q r n = 0 \<Longrightarrow> strncmp p r n = 0"
proof (induction n arbitrary: p q r)
  case (Suc n)
  show ?case
    using Suc.prems Suc.IH [of "\<lambda>i. p (Suc i)" "\<lambda>i. q (Suc i)" "\<lambda>i. r (Suc i)"]
    by (auto split: if_splits)
qed simp

lemma length_strncpy [simp]: "length (strncpy t n) = n"
  by (induction n arbitrary: t) simp_all

lemma arr_Cons_Suc: "(\<lambda>i. arr (b # bs) (Suc i)) = arr bs"
  by (auto simp: arr_def)

lemma arr_Cons_0 [simp]: "arr (b # bs) 0 = b"
  by (simp add: arr_def)

text \<open>A bounded copy compares equal to its source under the same bound.\<close>

lemma strncmp_strncpy: "strncmp t (arr (strncpy t n)) n = 0"
  by (induction n arbitrary: t) (auto simp: arr_Cons_Suc)

lemma length_safestrcpy_bytes: "length (safestrcpy_bytes t n) \<le> n"
  by (induction t n rule: safestrcpy_bytes.induct) auto

lemma length_safestrcpy: "n \<le> length s \<Longrightarrow> length (safestrcpy s t n) = length s"
  using length_safestrcpy_bytes [of t n] by (simp add: safestrcpy_def Let_def)

lemma safestrcpy_bytes_last: "0 < n \<Longrightarrow> safestrcpy_bytes t n \<noteq> [] \<and> last (safestrcpy_bytes t n) = 0"
  by (induction t n rule: safestrcpy_bytes.induct) auto

lemma safestrcpy_terminated: "0 < n \<Longrightarrow> \<exists>i < n. i < length (safestrcpy s t n) \<and> safestrcpy s t n ! i = 0"
proof -
  assume n: "0 < n"
  let ?bs = "safestrcpy_bytes t n"
  from safestrcpy_bytes_last [OF n, of t] have ne: "?bs \<noteq> []" and l: "last ?bs = 0" by auto
  have "length ?bs - 1 < length ?bs" using ne by simp
  moreover have "safestrcpy s t n ! (length ?bs - 1) = 0"
    using ne l by (simp add: safestrcpy_def Let_def nth_append last_conv_nth)
  ultimately show ?thesis
    using length_safestrcpy_bytes [of t n]
    by (intro exI [of _ "length ?bs - 1"]) (simp add: safestrcpy_def Let_def)
qed

lemma strlen_from_Some:
  assumes "s k = 0" and "\<forall>j. n \<le> j \<and> j < k \<longrightarrow> s j \<noteq> 0" and "n \<le> k"
  shows "strlen_from s n = Some k"
  using assms(3,2)
proof (induction n rule: inc_induct)
  case base
  then show ?case using assms(1) by (subst strlen_from.simps) simp
next
  case (step n)
  then have "s n \<noteq> 0" by auto
  with step show ?case by (subst strlen_from.simps) auto
qed

text \<open>On a string with a terminator \<open>strlen\<close> returns, and returns the position of the first one.\<close>

lemma strlen_returns: "s k = 0 \<Longrightarrow> \<forall>j < k. s j \<noteq> 0 \<Longrightarrow> strlen s = Some k"
  unfolding strlen_def by (rule strlen_from_Some) auto

end
