(* ===== verification/Kalloc.thy ===== *)
theory Kalloc
  imports Mmu CString
begin

text \<open>
  The physical page allocator (\<^verbatim>\<open>kernel/kalloc.c\<close>). Free pages form a linked list through their
  own first word: the model keeps that list in the byte-addressed memory, as the code does, and
  the invariant relates it to a list of page addresses. Memory is indexed by the kernel virtual
  address of the direct map. The linker symbols \<open>end\<close> and \<open>data\<close> of \<^verbatim>\<open>kernel/kernel.ld\<close> are
  constants of the state.
\<close>

section \<open>State and operations\<close>

record kmem =
  kmem_lock :: lockview
  use_lock :: bool
  freelist :: addr
  mem :: memory
  end_sym :: addr
  data_sym :: addr

definition kmem_acquire :: "(kmem, unit) kop" where
  "kmem_acquire = acquire kmem_lock (\<lambda>l s. s\<lparr>kmem_lock := l\<rparr>)"

definition kmem_release :: "(kmem, unit) kop" where
  "kmem_release = release kmem_lock (\<lambda>l s. s\<lparr>kmem_lock := l\<rparr>)"

definition set_mem :: "(memory \<Rightarrow> memory) \<Rightarrow> (kmem, unit) kop" where
  "set_mem f = upd (\<lambda>s. s\<lparr>mem := f (mem s)\<rparr>)"

definition get32 :: "addr \<Rightarrow> (kmem, uint) kop" where
  "get32 a = gets (\<lambda>s. load32 (mem s) a)"

definition kfree :: "addr \<Rightarrow> (kmem, unit) kop" where
  "kfree v = bnd (gets end_sym) (\<lambda>end.
     if v mod PGSIZE \<noteq> 0 \<or> v < end \<or> V2P v \<ge> PHYSTOP then panic ''kfree''
     else
       seqk (set_mem (memset v 1 PGSIZE))
      (bnd (gets use_lock) (\<lambda>ul. seqk (whenk ul kmem_acquire)
      (bnd (gets freelist) (\<lambda>head.
       seqk (set_mem (store32 v head))
      (seqk (upd (\<lambda>s. s\<lparr>freelist := v\<rparr>))
      (bnd (gets use_lock) (\<lambda>ul. whenk ul kmem_release))))))))"

definition kalloc :: "(kmem, addr) kop" where
  "kalloc =
     bnd (gets use_lock) (\<lambda>ul. seqk (whenk ul kmem_acquire)
    (bnd (gets freelist) (\<lambda>r.
     seqk (whenk (r \<noteq> 0) (bnd (get32 r) (\<lambda>next. upd (\<lambda>s. s\<lparr>freelist := next\<rparr>))))
    (bnd (gets use_lock) (\<lambda>ul. seqk (whenk ul kmem_release)
    (ret r))))))"

text \<open>
  The loop of \<open>freerange\<close>. A 32-bit address space has \<open>2 ^ 20\<close> pages, so that much fuel covers
  every run: see \<open>freerange_ok\<close>.
\<close>

fun freerange_loop :: "nat \<Rightarrow> addr \<Rightarrow> addr \<Rightarrow> (kmem, unit) kop" where
  "freerange_loop 0 p vend = halt OutOfFuel"
| "freerange_loop (Suc fuel) p vend =
     (if p + PGSIZE \<le> vend then seqk (kfree p) (freerange_loop fuel (p + PGSIZE) vend) else ret ())"

definition freerange :: "addr \<Rightarrow> addr \<Rightarrow> (kmem, unit) kop" where
  "freerange vstart vend = freerange_loop 1048577 (PGROUNDUP vstart) vend"

definition kinit1 :: "addr \<Rightarrow> addr \<Rightarrow> (kmem, unit) kop" where
  "kinit1 vstart vend =
     seqk (upd (\<lambda>s. s\<lparr>kmem_lock := Unlocked\<rparr>))
    (seqk (upd (\<lambda>s. s\<lparr>use_lock := False\<rparr>))
     (freerange vstart vend))"

definition kinit2 :: "addr \<Rightarrow> addr \<Rightarrow> (kmem, unit) kop" where
  "kinit2 vstart vend = seqk (freerange vstart vend) (upd (\<lambda>s. s\<lparr>use_lock := True\<rparr>))"

section \<open>Pages and the free list\<close>

definition same_on :: "addr set \<Rightarrow> memory \<Rightarrow> memory \<Rightarrow> bool" where
  "same_on F m m' \<longleftrightarrow> (\<forall>x. PGROUNDDOWN x \<in> F \<longrightarrow> m' x = m x)"

definition same_off :: "addr set \<Rightarrow> memory \<Rightarrow> memory \<Rightarrow> bool" where
  "same_off F m m' \<longleftrightarrow> (\<forall>x. PGROUNDDOWN x \<notin> F \<longrightarrow> m' x = m x)"

definition vframe :: "kmem \<Rightarrow> addr \<Rightarrow> bool" where
  "vframe s f \<longleftrightarrow> aligned f \<and> end_sym s \<le> f \<and> V2P f < PHYSTOP"

fun flist :: "memory \<Rightarrow> addr \<Rightarrow> addr list \<Rightarrow> bool" where
  "flist m p [] \<longleftrightarrow> p = 0"
| "flist m p (f # fs) \<longleftrightarrow> p = f \<and> f \<noteq> 0 \<and> flist m (load32 m f) fs"

definition kmem_inv :: "addr list \<Rightarrow> kmem \<Rightarrow> bool" where
  "kmem_inv fs s \<longleftrightarrow> flist (mem s) (freelist s) fs \<and> distinct fs \<and> (\<forall>f \<in> set fs. vframe s f)
     \<and> kmem_lock s = Unlocked"

lemma same_off_refl [simp]: "same_off F m m"
  by (simp add: same_off_def)

lemma same_off_trans: "same_off F m m' \<Longrightarrow> same_off F m' m'' \<Longrightarrow> same_off F m m''"
  by (simp add: same_off_def)

lemma same_off_mono: "same_off F m m' \<Longrightarrow> F \<subseteq> G \<Longrightarrow> same_off G m m'"
  by (auto simp: same_off_def)

lemma same_off_on: "same_off F m m' \<Longrightarrow> F \<inter> G = {} \<Longrightarrow> same_on G m m'"
  by (auto simp: same_off_def same_on_def)

lemma load32_same_on:
  assumes "same_on F m m'" and "f \<in> F" and "aligned f" and "i < 1024"
  shows "load32 m' (f + 4 * of_nat i) = load32 m (f + 4 * of_nat i)"
proof (rule load32_cong)
  fix b assume "b \<in> span (f + 4 * of_nat i) 4"
  then have "PGROUNDDOWN b = f" by (rule span_page [OF assms(3,4)])
  with assms(1,2) show "m' b = m b" by (simp add: same_on_def)
qed

lemma same_off_store:
  assumes "aligned f" and "i < 1024"
  shows "same_off {f} m (store32 (f + 4 * of_nat i) v m)"
  unfolding same_off_def
proof (intro allI impI)
  fix x assume "PGROUNDDOWN x \<notin> {f}"
  then have "x \<notin> span (f + 4 * of_nat i) 4" using span_page [OF assms] by blast
  then show "store32 (f + 4 * of_nat i) v m x = m x" by (rule store32_other)
qed

lemma same_off_store_head: "aligned f \<Longrightarrow> same_off {f} m (store32 f v m)"
  using same_off_store [of f 0] by simp

lemma same_off_memset_page: "aligned f \<Longrightarrow> same_off {f} m (memset f c PGSIZE m)"
  by (simp add: same_off_def memset_apply page_off_iff PGSIZE_def)

lemma vframe_aligned: "vframe s f \<Longrightarrow> aligned f"
  by (simp add: vframe_def)

lemma vframe_range: "vframe s f \<Longrightarrow> unat KERNBASE \<le> unat f \<and> unat f < unat KERNBASE + unat PHYSTOP"
proof -
  assume "vframe s f"
  then have lt: "unat (V2P f) < unat PHYSTOP" by (simp add: vframe_def word_less_nat_alt)
  have "f = KERNBASE + V2P f" by (simp add: V2P_def)
  moreover have "unat KERNBASE + unat (V2P f) < 4294967296"
    using lt by (simp add: KERNBASE_def PHYSTOP_def)
  ultimately have "unat f = unat KERNBASE + unat (V2P f)" by (metis unat_add32)
  with lt show ?thesis by simp
qed

lemma vframe_not_0: "vframe s f \<Longrightarrow> f \<noteq> 0"
  using vframe_range [of s f] by (auto simp: KERNBASE_def)

lemma vframe_cong: "end_sym s' = end_sym s \<Longrightarrow> vframe s' f = vframe s f"
  by (simp add: vframe_def)

lemma flist_cong: "(\<And>f. f \<in> set fs \<Longrightarrow> load32 m' f = load32 m f) \<Longrightarrow> flist m' p fs = flist m p fs"
  by (induction fs arbitrary: p) auto

lemma kmem_inv_frame:
  assumes "kmem_inv fs s" and "same_on (set fs) (mem s) (mem s')" and "freelist s' = freelist s"
    and "end_sym s' = end_sym s" and "kmem_lock s' = kmem_lock s"
  shows "kmem_inv fs s'"
proof -
  have "load32 (mem s') f = load32 (mem s) f" if "f \<in> set fs" for f
    using load32_same_on [OF assms(2) that, of 0] assms(1) that
    by (simp add: kmem_inv_def vframe_def)
  then have "flist (mem s') p fs = flist (mem s) p fs" for p by (rule flist_cong)
  with assms show ?thesis by (simp add: kmem_inv_def vframe_def)
qed

section \<open>What the allocator does\<close>

lemma lock_cycle: "kmem_lock s = Unlocked \<Longrightarrow> s\<lparr>kmem_lock := Unlocked\<rparr> = s"
  by simp

lemma kalloc_empty: "kmem_inv [] s \<Longrightarrow> kalloc s = Done 0 s"
  by (auto simp: kmem_inv_def kalloc_def bnd_def seqk_def gets_def upd_def whenk_def ret_def
      kmem_acquire_def kmem_release_def acquire_def release_def)

lemma kalloc_Cons:
  assumes "kmem_inv (f # fs) s"
  shows "kalloc s = Done f (s\<lparr>freelist := load32 (mem s) f\<rparr>)"
proof -
  have "f = freelist s" "f \<noteq> 0" "kmem_lock s = Unlocked" using assms by (auto simp: kmem_inv_def)
  then show ?thesis
    by (cases s) (auto simp: kalloc_def bnd_def seqk_def gets_def upd_def whenk_def ret_def get32_def
      kmem_acquire_def kmem_release_def acquire_def release_def)
qed

lemma kmem_inv_pop: "kmem_inv (f # fs) s \<Longrightarrow> kmem_inv fs (s\<lparr>freelist := load32 (mem s) f\<rparr>)"
  by (auto simp: kmem_inv_def vframe_def)

definition kfree_mem :: "addr \<Rightarrow> addr \<Rightarrow> memory \<Rightarrow> memory" where
  "kfree_mem v head m = store32 v head (memset v 1 PGSIZE m)"

lemma mod_PGSIZE: "v mod PGSIZE = 0 \<longleftrightarrow> aligned v"
  by (simp add: aligned_def PGSIZE_def unat_mod flip: unat_0_iff)

lemma kfree_panic: "\<not> vframe s v \<Longrightarrow> kfree v s = Stop (Panic ''kfree'')"
  by (auto simp: kfree_def vframe_def bnd_def gets_def panic_def halt_def mod_PGSIZE)

lemma kfree_Done:
  assumes "vframe s v" and "kmem_lock s = Unlocked"
  shows "kfree v s = Done () (s\<lparr>mem := kfree_mem v (freelist s) (mem s), freelist := v\<rparr>)"
  using assms
  by (cases s) (auto simp: kfree_def vframe_def bnd_def gets_def mod_PGSIZE seqk_def set_mem_def upd_def
      whenk_def ret_def kmem_acquire_def kmem_release_def acquire_def release_def kfree_mem_def)

lemma same_off_kfree_mem: "aligned v \<Longrightarrow> same_off {v} m (kfree_mem v head m)"
  unfolding kfree_mem_def
  by (rule same_off_trans [OF same_off_memset_page same_off_store_head])

lemma kmem_inv_push:
  assumes "kmem_inv fs s" and "vframe s v" and "v \<notin> set fs"
  shows "kmem_inv (v # fs) (s\<lparr>mem := kfree_mem v (freelist s) (mem s), freelist := v\<rparr>)"
proof -
  let ?m = "kfree_mem v (freelist s) (mem s)"
  have "same_on (set fs) (mem s) ?m"
    using same_off_on [OF same_off_kfree_mem] assms(2,3) by (simp add: vframe_def)
  then have "load32 ?m f = load32 (mem s) f" if "f \<in> set fs" for f
    using load32_same_on [of "set fs" "mem s" ?m f 0] that assms(1)
    by (simp add: kmem_inv_def vframe_def)
  then have "flist ?m p fs = flist (mem s) p fs" for p by (rule flist_cong)
  moreover have "load32 ?m v = freelist s" by (simp add: kfree_mem_def load_store_same)
  ultimately show ?thesis
    using assms vframe_not_0 [OF assms(2)] by (auto simp: kmem_inv_def vframe_def)
qed

section \<open>The allocator's contract\<close>

text \<open>
  What a client of a page allocator relies on: an allocation hands out the head of the list of
  free pages and writes nothing, freeing a page puts it on the list and writes nothing outside
  it, an empty list is answered by the null pointer.
\<close>

locale page_allocator =
  fixes alloc :: "('s, addr) kop"
    and free :: "addr \<Rightarrow> ('s, unit) kop"
    and inv :: "addr list \<Rightarrow> 's \<Rightarrow> bool"
    and valid :: "'s \<Rightarrow> addr \<Rightarrow> bool"
    and bytes :: "'s \<Rightarrow> memory"
  assumes inv_pages: "inv fs s \<Longrightarrow> distinct fs \<and> (\<forall>f \<in> set fs. valid s f)"
    and valid_page: "valid s f \<Longrightarrow> f \<noteq> 0 \<and> aligned f"
    and alloc_some: "inv (f # fs) s \<Longrightarrow>
      ok alloc s (\<lambda>r s'. r = f \<and> inv fs s' \<and> bytes s' = bytes s \<and> (\<forall>g. valid s' g = valid s g))"
    and alloc_none: "inv [] s \<Longrightarrow> ok alloc s (\<lambda>r s'. r = 0 \<and> s' = s)"
    and free_page: "inv fs s \<Longrightarrow> valid s f \<Longrightarrow> f \<notin> set fs \<Longrightarrow>
      ok (free f) s (\<lambda>_ s'. inv (f # fs) s' \<and> same_off {f} (bytes s) (bytes s')
        \<and> (\<forall>g. valid s' g = valid s g))"
begin

lemma alloc_many:
  "inv (fs @ gs) s \<Longrightarrow> ok (repeatk (length fs) alloc) s
     (\<lambda>rs s'. rs = fs \<and> inv gs s' \<and> bytes s' = bytes s \<and> (\<forall>g. valid s' g = valid s g))"
proof (induction fs arbitrary: s)
  case Nil
  then show ?case by (simp add: wp)
next
  case (Cons f fs)
  then have "inv (f # (fs @ gs)) s" by simp
  from alloc_some [OF this] have "ok alloc s (\<lambda>r s1. r = f \<and> inv (fs @ gs) s1 \<and> bytes s1 = bytes s
      \<and> (\<forall>g. valid s1 g = valid s g))" .
  then have "ok alloc s (\<lambda>r s1. ok (repeatk (length fs) alloc) s1 (\<lambda>rs s'. r # rs = f # fs \<and> inv gs s'
      \<and> bytes s' = bytes s \<and> (\<forall>g. valid s' g = valid s g)))"
    by (rule ok_mono) (erule conjE, rule ok_mono [OF Cons.IH], auto)
  then show ?case by (simp add: wp)
qed

text \<open>
  Pages handed out together are pairwise distinct, non-null and page aligned, and handing them
  out changes no byte of memory.
\<close>

lemma alloc_many_distinct:
  assumes "inv fs s" and "n \<le> length fs"
  shows "ok (repeatk n alloc) s (\<lambda>rs s'. length rs = n \<and> distinct rs \<and> 0 \<notin> set rs
     \<and> (\<forall>r \<in> set rs. aligned r) \<and> set rs \<inter> set (drop n fs) = {} \<and> inv (drop n fs) s'
     \<and> bytes s' = bytes s)"
proof -
  have "inv (take n fs @ drop n fs) s" using assms(1) by simp
  from alloc_many [OF this] have "ok (repeatk n alloc) s (\<lambda>rs s'. rs = take n fs \<and> inv (drop n fs) s'
      \<and> bytes s' = bytes s \<and> (\<forall>g. valid s' g = valid s g))"
    using assms(2) by simp
  moreover have "distinct (take n fs @ drop n fs)" and "\<forall>r \<in> set (take n fs). r \<noteq> 0 \<and> aligned r"
    using inv_pages [OF assms(1)] valid_page by (auto dest: in_set_takeD)
  ultimately show ?thesis
    using assms(2) by (elim ok_mono) (auto simp del: append_take_drop_id)
qed

text \<open>A page just freed is the next one handed out, and the free list is as before.\<close>

lemma free_then_alloc:
  assumes "inv fs s" and "valid s f" and "f \<notin> set fs"
  shows "ok (seqk (free f) alloc) s (\<lambda>r s'. r = f \<and> inv fs s' \<and> same_off {f} (bytes s) (bytes s'))"
proof -
  have "ok (free f) s (\<lambda>_ s1. inv (f # fs) s1 \<and> same_off {f} (bytes s) (bytes s1))"
    using free_page [OF assms] by (rule ok_mono) simp
  then have "ok (free f) s (\<lambda>_ s1. ok alloc s1 (\<lambda>r s'. r = f \<and> inv fs s'
      \<and> same_off {f} (bytes s) (bytes s')))"
    by (rule ok_mono) (erule conjE, rule ok_mono [OF alloc_some], auto)
  then show ?thesis by (simp add: wp)
qed

text \<open>When the list is used up the answer is the null pointer.\<close>

lemma alloc_exhausted:
  assumes "inv fs s"
  shows "ok (seqk (repeatk (length fs) alloc) alloc) s (\<lambda>r s'. r = 0 \<and> inv [] s' \<and> bytes s' = bytes s)"
proof -
  from assms have "inv (fs @ []) s" by simp
  from alloc_many [OF this]
  have "ok (repeatk (length fs) alloc) s (\<lambda>_ s1. ok alloc s1 (\<lambda>r s'. r = 0 \<and> inv [] s'
      \<and> bytes s' = bytes s))"
    by (rule ok_mono) (elim conjE, rule ok_mono [OF alloc_none], auto)
  then show ?thesis by (simp add: wp)
qed

end

interpretation pages: page_allocator kalloc kfree kmem_inv vframe mem
proof unfold_locales
  fix fs s
  assume "kmem_inv fs s"
  then show "distinct fs \<and> (\<forall>f \<in> set fs. vframe s f)" by (simp add: kmem_inv_def)
next
  fix s f
  assume "vframe s f"
  then show "f \<noteq> 0 \<and> aligned f" using vframe_not_0 by (simp add: vframe_def)
next
  fix f fs s
  assume inv: "kmem_inv (f # fs) s"
  show "ok kalloc s (\<lambda>r s'. r = f \<and> kmem_inv fs s' \<and> mem s' = mem s \<and> (\<forall>g. vframe s' g = vframe s g))"
    using kmem_inv_pop [OF inv] by (simp add: ok_def kalloc_Cons [OF inv] vframe_def)
next
  fix s
  assume "kmem_inv [] s"
  then show "ok kalloc s (\<lambda>r s'. r = 0 \<and> s' = s)" by (simp add: ok_def kalloc_empty)
next
  fix fs s f
  assume h: "kmem_inv fs s" "vframe s f" "f \<notin> set fs"
  then have "kmem_lock s = Unlocked" by (simp add: kmem_inv_def)
  then show "ok (kfree f) s (\<lambda>_ s'. kmem_inv (f # fs) s' \<and> same_off {f} (mem s) (mem s')
      \<and> (\<forall>g. vframe s' g = vframe s g))"
    using kmem_inv_push [OF h] same_off_kfree_mem [OF vframe_aligned [OF h(2)]]
    by (simp add: ok_def kfree_Done [OF h(2)] vframe_def)
qed

section \<open>Filling the free list\<close>

text \<open>The pages that lie entirely in the range from \<open>lo\<close> to \<open>hi\<close>.\<close>

definition whole_pages :: "nat \<Rightarrow> nat \<Rightarrow> addr set" where
  "whole_pages lo hi = {f. aligned f \<and> lo \<le> unat f \<and> unat f + 4096 \<le> hi}"

lemma whole_pages_step:
  assumes "aligned p" and "unat p + 4096 \<le> hi" and "hi < 4294967296"
  shows "whole_pages (unat p) hi = insert p (whole_pages (unat (p + PGSIZE)) hi)"
    and "p \<notin> whole_pages (unat (p + PGSIZE)) hi"
proof -
  have u: "unat (p + PGSIZE) = unat p + 4096"
    using assms(2,3) by (simp add: unat_add32 PGSIZE_def)
  have next_page: "unat p + 4096 \<le> unat f" if "aligned f" "unat p \<le> unat f" "f \<noteq> p" for f
  proof -
    have "unat f \<noteq> unat p" using that(3) by (simp add: word_unat_eq_iff)
    moreover have "4096 dvd unat f - unat p" using assms(1) that(1) by (simp add: aligned_dvd dvd_diff_nat)
    then obtain k where "unat f - unat p = 4096 * k" by (rule dvdE)
    ultimately show ?thesis using that(2) by (cases k) simp_all
  qed
  show "whole_pages (unat p) hi = insert p (whole_pages (unat (p + PGSIZE)) hi)"
    using assms next_page u by (auto simp: whole_pages_def)
  show "p \<notin> whole_pages (unat (p + PGSIZE)) hi" by (simp add: whole_pages_def u)
qed

lemma freerange_loop_ok:
  assumes "kmem_inv fs s" and "aligned p" and "unat vend < 4294963200" and "unat p < 4294963200"
    and "\<forall>f \<in> whole_pages (unat p) (unat vend). vframe s f \<and> f \<notin> set fs"
    and "unat vend - unat p < 4096 * fuel"
  shows "ok (freerange_loop fuel p vend) s (\<lambda>_ s'. \<exists>new. kmem_inv (new @ fs) s'
     \<and> set new = whole_pages (unat p) (unat vend) \<and> use_lock s' = use_lock s)"
  using assms
proof (induction fuel arbitrary: p fs s)
  case 0
  then show ?case by simp
next
  case (Suc fuel)
  have u: "unat (p + PGSIZE) = unat p + 4096"
    using Suc.prems(4) by (simp add: unat_add32 PGSIZE_def)
  show ?case
  proof (cases "p + PGSIZE \<le> vend")
    case False
    then have "whole_pages (unat p) (unat vend) = {}"
      using u by (auto simp: whole_pages_def word_le_nat_alt)
    with False Suc.prems(1) show ?thesis by (auto simp: wp)
  next
    case True
    then have p4: "unat p + 4096 \<le> unat vend" using u by (simp add: word_le_nat_alt)
    note step = whole_pages_step [OF Suc.prems(2) p4 unat_lt32]
    then have p: "vframe s p" "p \<notin> set fs" using Suc.prems(5) by auto
    let ?s = "s\<lparr>mem := kfree_mem p (freelist s) (mem s), freelist := p\<rparr>"
    have inv: "kmem_inv (p # fs) ?s" by (rule kmem_inv_push [OF Suc.prems(1) p])
    have "kfree p s = Done () ?s"
      using Suc.prems(1) by (intro kfree_Done [OF p(1)]) (simp add: kmem_inv_def)
    moreover have "ok (freerange_loop fuel (p + PGSIZE) vend) ?s (\<lambda>_ s'. \<exists>new.
        kmem_inv (new @ p # fs) s' \<and> set new = whole_pages (unat (p + PGSIZE)) (unat vend)
        \<and> use_lock s' = use_lock ?s)"
    proof (rule Suc.IH [OF inv])
      show "aligned (p + PGSIZE)" using Suc.prems(2) by (simp add: aligned_add)
      show "\<forall>f \<in> whole_pages (unat (p + PGSIZE)) (unat vend). vframe ?s f \<and> f \<notin> set (p # fs)"
        using Suc.prems(5) step by (auto simp: vframe_def)
    qed (use Suc.prems p4 u in auto)
    then have "ok (freerange_loop fuel (p + PGSIZE) vend) ?s (\<lambda>_ s'. \<exists>new. kmem_inv (new @ fs) s'
        \<and> set new = whole_pages (unat p) (unat vend) \<and> use_lock s' = use_lock s)"
      by (rule ok_mono) (use step(1) in \<open>force intro: exI [of _ "_ @ [p]"]\<close>)
    ultimately show ?thesis using True by (simp add: wp ok_Done_eq)
  qed
qed

lemma freerange_ok:
  assumes "kmem_inv fs s" and "unat vstart + 4095 < 4294963200" and "unat vend < 4294963200"
    and "\<forall>f \<in> whole_pages (unat vstart) (unat vend). vframe s f \<and> f \<notin> set fs"
  shows "ok (freerange vstart vend) s (\<lambda>_ s'. \<exists>new. kmem_inv (new @ fs) s'
     \<and> set new = whole_pages (unat vstart) (unat vend) \<and> use_lock s' = use_lock s)"
proof -
  have up: "unat (PGROUNDUP vstart) = (unat vstart + 4095) div 4096 * 4096"
    using assms(2) by (simp add: unat_PGROUNDUP)
  have "unat (PGROUNDUP vstart) \<le> unat f \<longleftrightarrow> unat vstart \<le> unat f" if "aligned f" for f
  proof -
    from that obtain k where "unat f = 4096 * k" by (auto simp: aligned_dvd)
    moreover have "(unat vstart + 4095) div 4096 < Suc k \<longleftrightarrow> unat vstart + 4095 < Suc k * 4096"
      by (rule div_less_iff_less_mult) simp
    ultimately show ?thesis unfolding up by auto
  qed
  then have eq: "whole_pages (unat (PGROUNDUP vstart)) (unat vend) = whole_pages (unat vstart) (unat vend)"
    by (auto simp: whole_pages_def)
  have "unat (PGROUNDUP vstart) \<le> unat vstart + 4095" unfolding up by simp
  then have lt: "unat (PGROUNDUP vstart) < 4294963200" using assms(2) by simp
  have "ok (freerange_loop 1048577 (PGROUNDUP vstart) vend) s (\<lambda>_ s'. \<exists>new. kmem_inv (new @ fs) s'
     \<and> set new = whole_pages (unat (PGROUNDUP vstart)) (unat vend) \<and> use_lock s' = use_lock s)"
    by (rule freerange_loop_ok [OF assms(1) aligned_PGROUNDUP assms(3) lt])
      (use assms(3,4) eq in auto)
  then show ?thesis unfolding freerange_def eq .
qed

end
