(* ===== verification/Vm.thy ===== *)
theory Vm
  imports Kalloc
begin

text \<open>
  Two-level page tables and user address spaces (\<^verbatim>\<open>kernel/vm.c\<close>). Page directories and page
  tables are pages of the byte-addressed memory, entries are 32-bit words in them, and every
  routine reads and writes them there, taking pages from and returning them to the allocator of
  \<open>Kalloc\<close>. Pointers are kernel virtual addresses and 0 is the null pointer. Messages printed on
  the console by \<open>cprintf\<close> are not part of this state.
\<close>

section \<open>Operations\<close>

definition walkpgdir :: "addr \<Rightarrow> addr \<Rightarrow> bool \<Rightarrow> (kmem, addr) kop" where
  "walkpgdir pgdir va alloc =
     (let pde = pgdir + 4 * PDX va in
      bnd (get32 pde) (\<lambda>e.
        if e AND PTE_P \<noteq> 0 then ret (P2V (PTE_ADDR e) + 4 * PTX va)
        else if \<not> alloc then ret 0
        else bnd kalloc (\<lambda>pgtab.
          if pgtab = 0 then ret 0
          else
            seqk (set_mem (memset pgtab 0 PGSIZE))
           (seqk (set_mem (store32 pde (V2P pgtab OR PTE_P OR PTE_W OR PTE_U)))
           (ret (pgtab + 4 * PTX va))))))"

text \<open>
  The loop of \<open>mappages\<close> visits at most every page of the 32-bit address space once, so \<open>2 ^ 20\<close>
  units of fuel are enough: see \<open>mappages_ok\<close>.
\<close>

fun mappages_loop :: "nat \<Rightarrow> addr \<Rightarrow> addr \<Rightarrow> addr \<Rightarrow> uint \<Rightarrow> uint \<Rightarrow> (kmem, int) kop" where
  "mappages_loop 0 pgdir a lst pa perm = halt OutOfFuel"
| "mappages_loop (Suc fuel) pgdir a lst pa perm =
     bnd (walkpgdir pgdir a True) (\<lambda>pte.
       if pte = 0 then ret (-1)
       else bnd (get32 pte) (\<lambda>v.
         if v AND PTE_P \<noteq> 0 then panic ''remap''
         else
           seqk (set_mem (store32 pte (pa OR perm OR PTE_P)))
          (if a = lst then ret 0
           else mappages_loop fuel pgdir (a + PGSIZE) lst (pa + PGSIZE) perm)))"

definition mappages :: "addr \<Rightarrow> addr \<Rightarrow> uint \<Rightarrow> uint \<Rightarrow> uint \<Rightarrow> (kmem, int) kop" where
  "mappages pgdir va sz pa perm =
     mappages_loop 1048576 pgdir (PGROUNDDOWN va) (PGROUNDDOWN (va + sz - 1)) pa perm"

text \<open>
  The loop of \<open>deallocuvm\<close>. A missing page table makes it skip to the next directory entry.
\<close>

fun deallocuvm_loop :: "nat \<Rightarrow> addr \<Rightarrow> uint \<Rightarrow> uint \<Rightarrow> (kmem, unit) kop" where
  "deallocuvm_loop 0 pgdir a oldsz = halt OutOfFuel"
| "deallocuvm_loop (Suc fuel) pgdir a oldsz =
     (if a < oldsz then
        bnd (walkpgdir pgdir a False) (\<lambda>pte.
          if pte = 0 then
            deallocuvm_loop fuel pgdir (PGADDR (PDX a + 1) 0 0 - PGSIZE + PGSIZE) oldsz
          else bnd (get32 pte) (\<lambda>v.
            if v AND PTE_P \<noteq> 0 then
              (let pa = PTE_ADDR v in
               if pa = 0 then panic ''kfree''
               else
                 seqk (kfree (P2V pa))
                (seqk (set_mem (store32 pte 0))
                (deallocuvm_loop fuel pgdir (a + PGSIZE) oldsz)))
            else deallocuvm_loop fuel pgdir (a + PGSIZE) oldsz))
      else ret ())"

definition deallocuvm :: "addr \<Rightarrow> uint \<Rightarrow> uint \<Rightarrow> (kmem, uint) kop" where
  "deallocuvm pgdir oldsz newsz =
     (if newsz \<ge> oldsz then ret oldsz
      else seqk (deallocuvm_loop 1048577 pgdir (PGROUNDUP newsz) oldsz) (ret newsz))"

definition freevm_entry :: "addr \<Rightarrow> nat \<Rightarrow> (kmem, unit) kop" where
  "freevm_entry pgdir i = bnd (get32 (pgdir + 4 * of_nat i)) (\<lambda>e.
     whenk (e AND PTE_P \<noteq> 0) (kfree (P2V (PTE_ADDR e))))"

definition freevm :: "addr \<Rightarrow> (kmem, unit) kop" where
  "freevm pgdir =
     (if pgdir = 0 then panic ''freevm: no pgdir''
      else
        bnd (deallocuvm pgdir SHAREDBASE 0) (\<lambda>_.
        seqk (foreach [0..<NPDENTRIES] (freevm_entry pgdir))
       (kfree pgdir)))"

text \<open>The kernel's mappings: virtual start, physical start and end, permissions.\<close>

definition kmap :: "addr \<Rightarrow> (addr \<times> uint \<times> uint \<times> uint) list" where
  "kmap data =
     [(KERNBASE, 0, EXTMEM, PTE_W),
      (KERNLINK, V2P KERNLINK, V2P data, 0),
      (data, V2P data, PHYSTOP, PTE_W),
      (DEVSPACE, DEVSPACE, 0, PTE_W)]"

fun setupkvm_loop :: "addr \<Rightarrow> (addr \<times> uint \<times> uint \<times> uint) list \<Rightarrow> (kmem, addr) kop" where
  "setupkvm_loop pgdir [] = ret pgdir"
| "setupkvm_loop pgdir ((virt, phys_start, phys_end, perm) # ks) =
     bnd (mappages pgdir virt (phys_end - phys_start) phys_start perm) (\<lambda>r.
       if r < 0 then seqk (freevm pgdir) (ret 0) else setupkvm_loop pgdir ks)"

definition setupkvm :: "(kmem, addr) kop" where
  "setupkvm =
     bnd kalloc (\<lambda>pgdir.
       if pgdir = 0 then ret 0
       else
         seqk (set_mem (memset pgdir 0 PGSIZE))
        (if P2V PHYSTOP > DEVSPACE then panic ''PHYSTOP too high''
         else bnd (gets data_sym) (\<lambda>data. setupkvm_loop pgdir (kmap data))))"

text \<open>Bytes stored by a \<open>memmove\<close> from kernel memory that is not part of the page memory.\<close>

definition write_bytes :: "addr \<Rightarrow> uchar list \<Rightarrow> memory \<Rightarrow> memory" where
  "write_bytes a bs m = (\<lambda>x. if unat (x - a) < length bs then bs ! unat (x - a) else m x)"

definition inituvm :: "addr \<Rightarrow> uchar list \<Rightarrow> (kmem, unit) kop" where
  "inituvm pgdir init =
     (if length init \<ge> unat PGSIZE then panic ''inituvm: more than a page''
      else bnd kalloc (\<lambda>mem.
        if mem = 0 then halt (Fault ''inituvm: memset'')
        else
          seqk (set_mem (memset mem 0 PGSIZE))
         (bnd (mappages pgdir 0 PGSIZE (V2P mem) (PTE_W OR PTE_U)) (\<lambda>_.
          set_mem (write_bytes mem init)))))"

fun allocuvm_loop :: "nat \<Rightarrow> addr \<Rightarrow> uint \<Rightarrow> uint \<Rightarrow> uint \<Rightarrow> (kmem, uint) kop" where
  "allocuvm_loop 0 pgdir a oldsz newsz = halt OutOfFuel"
| "allocuvm_loop (Suc fuel) pgdir a oldsz newsz =
     (if a < newsz then
        bnd kalloc (\<lambda>mem.
          if mem = 0 then seqk (deallocuvm pgdir newsz oldsz) (ret 0)
          else
            seqk (set_mem (memset mem 0 PGSIZE))
           (bnd (mappages pgdir a PGSIZE (V2P mem) (PTE_W OR PTE_U)) (\<lambda>r.
             if r < 0 then seqk (deallocuvm pgdir newsz oldsz) (seqk (kfree mem) (ret 0))
             else allocuvm_loop fuel pgdir (a + PGSIZE) oldsz newsz)))
      else ret newsz)"

definition allocuvm :: "addr \<Rightarrow> uint \<Rightarrow> uint \<Rightarrow> (kmem, uint) kop" where
  "allocuvm pgdir oldsz newsz =
     (if newsz \<ge> SHAREDBASE then ret 0
      else if newsz < oldsz then ret oldsz
      else allocuvm_loop 1048576 pgdir (PGROUNDUP oldsz) oldsz newsz)"

definition clearpteu :: "addr \<Rightarrow> addr \<Rightarrow> (kmem, unit) kop" where
  "clearpteu pgdir uva =
     bnd (walkpgdir pgdir uva False) (\<lambda>pte.
       if pte = 0 then panic ''clearpteu''
       else bnd (get32 pte) (\<lambda>v. set_mem (store32 pte (v AND NOT PTE_U))))"

fun copyuvm_loop :: "nat \<Rightarrow> addr \<Rightarrow> addr \<Rightarrow> uint \<Rightarrow> uint \<Rightarrow> (kmem, addr) kop" where
  "copyuvm_loop 0 pgdir d i sz = halt OutOfFuel"
| "copyuvm_loop (Suc fuel) pgdir d i sz =
     (if i < sz then
        bnd (walkpgdir pgdir i False) (\<lambda>pte.
          if pte = 0 then panic ''copyuvm: pte should exist''
          else bnd (get32 pte) (\<lambda>v.
            if v AND PTE_P = 0 then panic ''copyuvm: page not present''
            else
              (let pa = PTE_ADDR v; flags = PTE_FLAGS v in
               bnd kalloc (\<lambda>mem.
                 if mem = 0 then seqk (freevm d) (ret 0)
                 else
                   seqk (set_mem (memmove mem (P2V pa) PGSIZE))
                  (bnd (mappages d i PGSIZE (V2P mem) flags) (\<lambda>r.
                    if r < 0 then seqk (kfree mem) (seqk (freevm d) (ret 0))
                    else copyuvm_loop fuel pgdir d (i + PGSIZE) sz))))))
      else ret d)"

definition copyuvm :: "addr \<Rightarrow> uint \<Rightarrow> (kmem, addr) kop" where
  "copyuvm pgdir sz =
     bnd setupkvm (\<lambda>d. if d = 0 then ret 0 else copyuvm_loop 1048577 pgdir d 0 sz)"

text \<open>\<open>uva2ka\<close> reads through the pointer it gets from \<open>walkpgdir\<close> without testing it.\<close>

definition uva2ka :: "addr \<Rightarrow> addr \<Rightarrow> (kmem, addr) kop" where
  "uva2ka pgdir uva =
     bnd (walkpgdir pgdir uva False) (\<lambda>pte.
       if pte = 0 then halt (Fault ''uva2ka: null pte'')
       else bnd (get32 pte) (\<lambda>v.
         if v AND PTE_P = 0 then ret 0
         else if v AND PTE_U = 0 then ret 0
         else ret (P2V (PTE_ADDR v))))"

fun copyout_loop :: "nat \<Rightarrow> addr \<Rightarrow> addr \<Rightarrow> uchar list \<Rightarrow> (kmem, int) kop" where
  "copyout_loop 0 pgdir va buf = halt OutOfFuel"
| "copyout_loop (Suc fuel) pgdir va buf =
     (if buf \<noteq> [] then
        (let va0 = PGROUNDDOWN va in
         bnd (uva2ka pgdir va0) (\<lambda>pa0.
           if pa0 = 0 then ret (-1)
           else
             (let n = min (unat (PGSIZE - (va - va0))) (length buf) in
              seqk (set_mem (write_bytes (pa0 + (va - va0)) (take n buf)))
             (copyout_loop fuel pgdir (va0 + PGSIZE) (drop n buf)))))
      else ret 0)"

definition copyout :: "addr \<Rightarrow> addr \<Rightarrow> uchar list \<Rightarrow> (kmem, int) kop" where
  "copyout pgdir va buf = copyout_loop (Suc (length buf)) pgdir va buf"

section \<open>Page tables as a map from pages to entries\<close>

text \<open>
  Directory entry \<open>i\<close>, the page table it points to, the entry \<open>j\<close> of that table, and the entry
  that governs a virtual address. An address without a page table has the entry 0.
\<close>

definition pde_at :: "memory \<Rightarrow> addr \<Rightarrow> nat \<Rightarrow> uint" where
  "pde_at m pgdir i = load32 m (pgdir + 4 * of_nat i)"

definition tab :: "memory \<Rightarrow> addr \<Rightarrow> nat \<Rightarrow> addr" where
  "tab m pgdir i = P2V (PTE_ADDR (pde_at m pgdir i))"

definition pte_at :: "memory \<Rightarrow> addr \<Rightarrow> nat \<Rightarrow> nat \<Rightarrow> uint" where
  "pte_at m pgdir i j = (if present (pde_at m pgdir i) then load32 m (tab m pgdir i + 4 * of_nat j) else 0)"

definition pte_val :: "memory \<Rightarrow> addr \<Rightarrow> addr \<Rightarrow> uint" where
  "pte_val m pgdir va = pte_at m pgdir (unat (PDX va)) (unat (PTX va))"

definition pte_addr :: "memory \<Rightarrow> addr \<Rightarrow> addr \<Rightarrow> addr" where
  "pte_addr m pgdir va = tab m pgdir (unat (PDX va)) + 4 * PTX va"

definition tables :: "memory \<Rightarrow> addr \<Rightarrow> addr set" where
  "tables m pgdir = {tab m pgdir i | i. i < 1024 \<and> present (pde_at m pgdir i)}"

definition pt_pages :: "memory \<Rightarrow> addr \<Rightarrow> addr set" where
  "pt_pages m pgdir = insert pgdir (tables m pgdir)"

definition pt_inv :: "addr \<Rightarrow> kmem \<Rightarrow> bool" where
  "pt_inv pgdir s \<longleftrightarrow> vframe s pgdir \<and>
     (\<forall>i < 1024. present (pde_at (mem s) pgdir i) \<longrightarrow>
        vframe s (tab (mem s) pgdir i) \<and> tab (mem s) pgdir i \<noteq> pgdir) \<and>
     (\<forall>i < 1024. \<forall>j < 1024. present (pde_at (mem s) pgdir i) \<longrightarrow> present (pde_at (mem s) pgdir j) \<longrightarrow>
        tab (mem s) pgdir i = tab (mem s) pgdir j \<longrightarrow> i = j)"

definition vm_inv :: "addr \<Rightarrow> addr list \<Rightarrow> kmem \<Rightarrow> bool" where
  "vm_inv pgdir fs s \<longleftrightarrow> kmem_inv fs s \<and> pt_inv pgdir s \<and> pt_pages (mem s) pgdir \<inter> set fs = {}"

lemma of_nat_PDX [simp]: "of_nat (unat (PDX va)) = PDX va"
  by simp

lemma pde_at_PDX: "pde_at m pgdir (unat (PDX va)) = load32 m (pgdir + 4 * PDX va)"
  by (simp add: pde_at_def)

lemma pt_inv_aligned:
  assumes "pt_inv pgdir s"
  shows "aligned pgdir" and "i < 1024 \<Longrightarrow> present (pde_at (mem s) pgdir i) \<Longrightarrow> aligned (tab (mem s) pgdir i)"
  using assms by (auto simp: pt_inv_def vframe_def)

lemma pgdir_in_pt_pages [simp]: "pgdir \<in> pt_pages m pgdir"
  by (simp add: pt_pages_def)

lemma tab_in_pt_pages: "i < 1024 \<Longrightarrow> present (pde_at m pgdir i) \<Longrightarrow> tab m pgdir i \<in> pt_pages m pgdir"
  by (auto simp: pt_pages_def tables_def)

text \<open>The view of an address space depends only on its directory and tables.\<close>

lemma pde_at_same_on:
  "same_on F m m' \<Longrightarrow> pgdir \<in> F \<Longrightarrow> aligned pgdir \<Longrightarrow> i < 1024 \<Longrightarrow> pde_at m' pgdir i = pde_at m pgdir i"
  by (simp add: pde_at_def load32_same_on)

lemma pt_view_same_on:
  assumes "same_on (pt_pages (mem s) pgdir) (mem s) m'" and "pt_inv pgdir s"
  shows "i < 1024 \<Longrightarrow> pde_at m' pgdir i = pde_at (mem s) pgdir i"
    and "i < 1024 \<Longrightarrow> j < 1024 \<Longrightarrow> pte_at m' pgdir i j = pte_at (mem s) pgdir i j"
    and "pte_val m' pgdir va = pte_val (mem s) pgdir va"
    and "pt_pages m' pgdir = pt_pages (mem s) pgdir"
proof -
  show pde: "pde_at m' pgdir i = pde_at (mem s) pgdir i" if "i < 1024" for i
    using assms that by (intro pde_at_same_on [OF assms(1)]) (auto simp: pt_inv_aligned)
  show pte: "pte_at m' pgdir i j = pte_at (mem s) pgdir i j" if "i < 1024" "j < 1024" for i j
  proof (cases "present (pde_at (mem s) pgdir i)")
    case True
    then have "load32 m' (tab (mem s) pgdir i + 4 * of_nat j) = load32 (mem s) (tab (mem s) pgdir i + 4 * of_nat j)"
      using that assms by (intro load32_same_on [OF assms(1)]) (auto simp: tab_in_pt_pages pt_inv_aligned)
    then show ?thesis using that by (simp add: pte_at_def tab_def pde)
  qed (use that in \<open>simp add: pte_at_def pde\<close>)
  show "pte_val m' pgdir va = pte_val (mem s) pgdir va"
    by (simp add: pte_val_def pte PDX_lt PTX_lt)
  have "tables m' pgdir = tables (mem s) pgdir"
    unfolding tables_def by (intro Collect_cong) (metis pde tab_def)
  then show "pt_pages m' pgdir = pt_pages (mem s) pgdir" by (simp add: pt_pages_def)
qed

lemma pt_inv_same_on:
  assumes "same_on (pt_pages (mem s) pgdir) (mem s) (mem s')" and "pt_inv pgdir s"
    and "end_sym s' = end_sym s"
  shows "pt_inv pgdir s'"
  using assms(2) pt_view_same_on(1) [OF assms(1,2)] vframe_cong [OF assms(3)]
  by (simp add: pt_inv_def tab_def)

lemma pt_inv_cong: "mem s' = mem s \<Longrightarrow> end_sym s' = end_sym s \<Longrightarrow> pt_inv pgdir s' = pt_inv pgdir s"
  by (simp add: pt_inv_def vframe_def)

section \<open>Walking a page table\<close>

lemma walk_present:
  "present (pde_at (mem s) pgdir (unat (PDX va))) \<Longrightarrow>
     walkpgdir pgdir va alloc s = Done (pte_addr (mem s) pgdir va) s"
  by (simp add: walkpgdir_def bnd_def get32_def gets_def ret_def pte_addr_def tab_def pde_at_PDX present_def Let_def)

lemma walk_absent:
  "\<not> present (pde_at (mem s) pgdir (unat (PDX va))) \<Longrightarrow> walkpgdir pgdir va False s = Done 0 s"
  by (simp add: walkpgdir_def bnd_def get32_def gets_def ret_def pde_at_PDX present_def Let_def)

definition new_table :: "addr \<Rightarrow> addr \<Rightarrow> addr \<Rightarrow> memory \<Rightarrow> memory" where
  "new_table pgdir va t m =
     store32 (pgdir + 4 * PDX va) (V2P t OR PTE_P OR PTE_W OR PTE_U) (memset t 0 PGSIZE m)"

lemma walk_alloc_none:
  assumes "kmem_inv [] s" and "\<not> present (pde_at (mem s) pgdir (unat (PDX va)))"
  shows "walkpgdir pgdir va True s = Done 0 s"
  using assms
  by (simp add: walkpgdir_def bnd_def get32_def gets_def ret_def pde_at_PDX present_def Let_def kalloc_empty)

lemma walk_alloc_new:
  assumes "kmem_inv (t # fs) s" and "\<not> present (pde_at (mem s) pgdir (unat (PDX va)))"
  shows "walkpgdir pgdir va True s = Done (t + 4 * PTX va)
     (s\<lparr>freelist := load32 (mem s) t, mem := new_table pgdir va t (mem s)\<rparr>)"
proof -
  have "t \<noteq> 0" using assms(1) by (simp add: kmem_inv_def)
  with assms show ?thesis
    by (simp add: walkpgdir_def bnd_def get32_def gets_def ret_def pde_at_PDX present_def Let_def
        kalloc_Cons [OF assms(1)] seqk_def set_mem_def upd_def new_table_def)
qed

lemma table_entry:
  assumes "aligned t"
  shows "PTE_ADDR (V2P t OR PTE_P OR PTE_W OR PTE_U) = V2P t"
    and "present (V2P t OR PTE_P OR PTE_W OR PTE_U)"
proof -
  have f: "PTE_P OR PTE_W OR PTE_U = 7" by (simp add: pte_flags)
  have "V2P t OR PTE_P OR PTE_W OR PTE_U = V2P t OR 7" by (simp only: or.assoc f)
  moreover have "PTE_ADDR (V2P t OR 7) = V2P t" by (rule PTE_ADDR_or(1)) (use assms in simp_all)
  ultimately show "PTE_ADDR (V2P t OR PTE_P OR PTE_W OR PTE_U) = V2P t" by (simp only:)
  have "V2P t OR PTE_P OR PTE_W OR PTE_U = (V2P t OR PTE_W OR PTE_U) OR PTE_P"
    by (simp only: or.assoc or.commute or.left_commute)
  then show "present (V2P t OR PTE_P OR PTE_W OR PTE_U)" by (simp only: present_or)
qed

text \<open>
  Allocating a page table for \<open>va\<close> takes one free page, makes it the table of \<open>va\<close>'s directory
  entry and leaves every translation as it was.
\<close>

lemma new_table_view:
  assumes inv: "vm_inv pgdir (t # fs) s" and absent: "\<not> present (pde_at (mem s) pgdir (unat (PDX va)))"
  defines "m' \<equiv> new_table pgdir va t (mem s)"
  shows "i < 1024 \<Longrightarrow> pde_at m' pgdir i =
      (if i = unat (PDX va) then V2P t OR PTE_P OR PTE_W OR PTE_U else pde_at (mem s) pgdir i)"
    and "i < 1024 \<Longrightarrow> j < 1024 \<Longrightarrow> pte_at m' pgdir i j = pte_at (mem s) pgdir i j"
    and "same_off {pgdir, t} (mem s) m'"
proof -
  have al: "aligned pgdir" "aligned t" and ne: "pgdir \<noteq> t" and notin: "t \<notin> pt_pages (mem s) pgdir"
    using inv by (auto simp: vm_inv_def pt_inv_def kmem_inv_def vframe_def)
  let ?m1 = "memset t 0 PGSIZE (mem s)"
  have m1: "same_off {t} (mem s) ?m1" using al(2) by (rule same_off_memset_page)
  have st: "same_off {pgdir} ?m1 m'"
    using same_off_store [OF al(1) PDX_lt [of va], of ?m1] by (simp add: m'_def new_table_def)
  show off: "same_off {pgdir, t} (mem s) m'"
    using same_off_trans [OF same_off_mono [OF m1] same_off_mono [OF st]] by blast
  show pde: "pde_at m' pgdir i =
      (if i = unat (PDX va) then V2P t OR PTE_P OR PTE_W OR PTE_U else pde_at (mem s) pgdir i)"
    if i: "i < 1024" for i
  proof (cases "i = unat (PDX va)")
    case True
    then show ?thesis by (simp add: pde_at_PDX m'_def new_table_def load_store_same)
  next
    case False
    have "pde_at m' pgdir i = pde_at ?m1 pgdir i"
      using load_store_other [OF span_disjoint [OF al(1) PDX_lt i False [symmetric]]]
      by (simp add: pde_at_def m'_def new_table_def)
    also have "\<dots> = pde_at (mem s) pgdir i"
      using same_off_on [OF m1, of "{pgdir}"] ne al(1) i by (intro pde_at_same_on) auto
    finally show ?thesis using False by simp
  qed
  show "pte_at m' pgdir i j = pte_at (mem s) pgdir i j" if i: "i < 1024" and j: "j < 1024"
  proof (cases "i = unat (PDX va)")
    case True
    have "tab m' pgdir i = t" using True i by (simp add: tab_def pde table_entry(1) [OF al(2)])
    moreover have "load32 m' (t + 4 * of_nat j) = load32 ?m1 (t + 4 * of_nat j)"
      using same_off_on [OF st, of "{t}"] ne al(2) j by (intro load32_same_on) auto
    moreover have "load32 ?m1 (t + 4 * of_nat j) = 0"
    proof (rule load32_memset_zero)
      have "t + 4 * of_nat j - t = of_nat (4 * j)" by simp
      then have "unat (t + 4 * of_nat j - t) = 4 * j" using j by (simp only: unat_of_nat32) 
      then show "unat (t + 4 * of_nat j - t) + 3 < unat PGSIZE" using j by (simp add: PGSIZE_def)
    qed
    ultimately show ?thesis using True absent by (simp add: pte_at_def)
  next
    case False
    show ?thesis
    proof (cases "present (pde_at (mem s) pgdir i)")
      case True
      let ?t = "tab (mem s) pgdir i"
      have "?t \<notin> {pgdir, t}" "aligned ?t"
        using inv True i notin tab_in_pt_pages [OF i True] by (auto simp: vm_inv_def pt_inv_def vframe_def)
      then have "load32 m' (?t + 4 * of_nat j) = load32 (mem s) (?t + 4 * of_nat j)"
        using same_off_on [OF off, of "{?t}"] j by (intro load32_same_on) auto
      then show ?thesis using False i by (simp add: pte_at_def tab_def pde)
    qed (use False i in \<open>simp add: pte_at_def pde\<close>)
  qed
qed

lemma new_table_inv:
  assumes inv: "vm_inv pgdir (t # fs) s" and absent: "\<not> present (pde_at (mem s) pgdir (unat (PDX va)))"
  defines "s' \<equiv> s\<lparr>freelist := load32 (mem s) t, mem := new_table pgdir va t (mem s)\<rparr>"
  shows "vm_inv pgdir fs s'" and "pt_pages (mem s') pgdir = insert t (pt_pages (mem s) pgdir)"
    and "tab (mem s') pgdir (unat (PDX va)) = t" and "present (pde_at (mem s') pgdir (unat (PDX va)))"
proof -
  note view = new_table_view [OF inv absent]
  have kinv: "kmem_inv (t # fs) s" and pinv: "pt_inv pgdir s"
    and notin: "t \<notin> pt_pages (mem s) pgdir" "pt_pages (mem s) pgdir \<inter> set fs = {}"
    using inv by (auto simp: vm_inv_def)
  have al: "aligned t" and vt: "vframe s t" and nf: "t \<notin> set fs"
    using kinv by (auto simp: kmem_inv_def vframe_def)
  have nf': "pgdir \<notin> set fs" using notin(2) pgdir_in_pt_pages by blast
  have vf: "vframe s' f = vframe s f" for f by (simp add: s'_def vframe_def)
  have pde: "pde_at (mem s') pgdir i =
      (if i = unat (PDX va) then V2P t OR PTE_P OR PTE_W OR PTE_U else pde_at (mem s) pgdir i)"
    if "i < 1024" for i using view(1) [OF that] by (simp add: s'_def)
  have tab': "tab (mem s') pgdir i = (if i = unat (PDX va) then t else tab (mem s) pgdir i)"
    if "i < 1024" for i using that by (simp add: tab_def pde table_entry(1) [OF al])
  have pres: "present (pde_at (mem s') pgdir i) \<longleftrightarrow> i = unat (PDX va) \<or> present (pde_at (mem s) pgdir i)"
    if "i < 1024" for i using that by (simp add: pde table_entry(2) [OF al])
  show "tab (mem s') pgdir (unat (PDX va)) = t" "present (pde_at (mem s') pgdir (unat (PDX va)))"
    by (simp_all add: tab' pres PDX_lt)
  have "tables (mem s') pgdir = insert t (tables (mem s) pgdir)"
  proof (intro equalityI subsetI)
    fix x assume "x \<in> tables (mem s') pgdir"
    then obtain i where "i < 1024" "present (pde_at (mem s') pgdir i)" "x = tab (mem s') pgdir i"
      by (auto simp: tables_def)
    then show "x \<in> insert t (tables (mem s) pgdir)" by (auto simp: tables_def tab' pres split: if_splits)
  next
    fix x assume "x \<in> insert t (tables (mem s) pgdir)"
    then consider "x = t" | i where "i < 1024" "present (pde_at (mem s) pgdir i)" "x = tab (mem s) pgdir i"
      by (auto simp: tables_def)
    then show "x \<in> tables (mem s') pgdir"
    proof cases
      case 1
      then show ?thesis using PDX_lt [of va] by (auto simp: tables_def tab' pres intro!: exI [of _ "unat (PDX va)"])
    next
      case 2
      then show ?thesis using absent by (auto simp: tables_def tab' pres intro!: exI [of _ i])
    qed
  qed
  then show pg: "pt_pages (mem s') pgdir = insert t (pt_pages (mem s) pgdir)"
    by (auto simp: pt_pages_def)
  have "kmem_inv fs (s\<lparr>freelist := load32 (mem s) t\<rparr>)" by (rule kmem_inv_pop [OF kinv])
  then have "kmem_inv fs s'"
    using view(3) nf nf' by (elim kmem_inv_frame) (auto simp: s'_def intro: same_off_on)
  moreover have "pt_inv pgdir s'"
    unfolding pt_inv_def
  proof (intro conjI allI impI)
    show "vframe s' pgdir" using pinv by (simp add: pt_inv_def vf)
  next
    fix i assume i: "i < 1024" "present (pde_at (mem s') pgdir i)"
    then show "vframe s' (tab (mem s') pgdir i)" "tab (mem s') pgdir i \<noteq> pgdir"
      using pinv vt notin(1) by (auto simp: tab' pres pt_inv_def vf split: if_splits)
  next
    fix i j assume i: "i < 1024" "j < 1024" "present (pde_at (mem s') pgdir i)"
      "present (pde_at (mem s') pgdir j)" and eq: "tab (mem s') pgdir i = tab (mem s') pgdir j"
    have "tab (mem s) pgdir k \<noteq> t" if "k < 1024" "present (pde_at (mem s) pgdir k)" for k
      using tab_in_pt_pages [OF that] notin(1) by auto
    with i eq show "i = j"
      using pinv by (auto simp: tab' pres pt_inv_def split: if_splits)
  qed
  ultimately show "vm_inv pgdir fs s'"
    using notin nf by (auto simp: vm_inv_def pg)
qed

text \<open>
  A walk that may allocate: it fails only when no page is free, and otherwise returns the address
  of the entry that governs \<open>va\<close>, with every translation as before.
\<close>

lemma pte_addr_not_0:
  assumes vf: "vframe s' (tab m pgdir (unat (PDX va)))"
  shows "pte_addr m pgdir va \<noteq> 0"
proof
  let ?t = "tab m pgdir (unat (PDX va))"
  assume "pte_addr m pgdir va = 0"
  then have "?t + of_nat (4 * unat (PTX va)) = 0" by (simp add: pte_addr_def)
  moreover have "PGROUNDDOWN (?t + of_nat (4 * unat (PTX va))) = ?t"
    by (rule PGROUNDDOWN_off) (use vf PTX_lt [of va] in \<open>auto simp: vframe_def\<close>)
  ultimately have "?t = 0" by (metis PGROUNDDOWN_aligned aligned_0)
  with vframe_not_0 [OF vf] show False by simp
qed

lemma walk_alloc_ok:
  assumes inv: "vm_inv pgdir fs s"
  shows "ok (walkpgdir pgdir va True) s (\<lambda>p s'.
     p = 0 \<and> s' = s \<and> fs = [] \<or>
     p \<noteq> 0 \<and> (\<exists>used fs'. fs = used @ fs' \<and> length used \<le> 1 \<and> vm_inv pgdir fs' s'
       \<and> pt_pages (mem s') pgdir = pt_pages (mem s) pgdir \<union> set used
       \<and> same_off (pt_pages (mem s') pgdir) (mem s) (mem s')
       \<and> end_sym s' = end_sym s \<and> data_sym s' = data_sym s
       \<and> present (pde_at (mem s') pgdir (unat (PDX va))) \<and> p = pte_addr (mem s') pgdir va
       \<and> (\<forall>va. pte_val (mem s') pgdir va = pte_val (mem s) pgdir va)))"
proof -
  note nz = pte_addr_not_0
  show ?thesis
  proof (cases "present (pde_at (mem s) pgdir (unat (PDX va)))")
    case True
    then have "vframe s (tab (mem s) pgdir (unat (PDX va)))"
      using inv PDX_lt by (auto simp: vm_inv_def pt_inv_def)
    then have "pte_addr (mem s) pgdir va \<noteq> 0" by (rule nz)
    with True inv show ?thesis by (simp add: ok_def walk_present) (rule exI [of _ "[]"], simp)
  next
    case absent: False
    show ?thesis
    proof (cases fs)
      case Nil
      with inv absent show ?thesis by (simp add: ok_def walk_alloc_none vm_inv_def)
    next
      case (Cons t fs')
      have inv': "vm_inv pgdir (t # fs') s" using inv Cons by simp
      then have k: "kmem_inv (t # fs') s" by (simp add: vm_inv_def)
      let ?s = "s\<lparr>freelist := load32 (mem s) t, mem := new_table pgdir va t (mem s)\<rparr>"
      note ni = new_table_inv [OF inv' absent]
      have p: "t + 4 * PTX va = pte_addr (mem ?s) pgdir va" using ni(3) by (simp add: pte_addr_def)
      have "vframe ?s t" using k by (simp add: kmem_inv_def vframe_def)
      then have "pte_addr (mem ?s) pgdir va \<noteq> 0" using nz [of ?s "mem ?s"] ni(3) by simp
      moreover have "pte_val (mem ?s) pgdir va' = pte_val (mem s) pgdir va'" for va'
        using new_table_view(2) [OF inv' absent PDX_lt PTX_lt] by (simp add: pte_val_def)
      moreover have "same_off (pt_pages (mem ?s) pgdir) (mem s) (mem ?s)"
        using new_table_view(3) [OF inv' absent] ni(2) by (auto elim: same_off_mono)
      ultimately show ?thesis
        using ni Cons p by (simp add: ok_def walk_alloc_new [OF k absent] exI [of _ "[t]"])
    qed
  qed
qed

section \<open>Setting an entry\<close>

lemma store_pte:
  fixes v :: uint and va va' :: addr
  assumes inv: "vm_inv pgdir fs s" and pr: "present (pde_at (mem s) pgdir (unat (PDX va)))"
  defines "s' \<equiv> s\<lparr>mem := store32 (pte_addr (mem s) pgdir va) v (mem s)\<rparr>"
  shows "vm_inv pgdir fs s'" and "pt_pages (mem s') pgdir = pt_pages (mem s) pgdir"
    and "pte_val (mem s') pgdir va' = (if PGROUNDDOWN va' = PGROUNDDOWN va then v else pte_val (mem s) pgdir va')"
    and "same_off (pt_pages (mem s) pgdir) (mem s) (mem s')"
    and "same_off {tab (mem s) pgdir (unat (PDX va))} (mem s) (mem s')"
proof -
  let ?I = "unat (PDX va)" and ?J = "unat (PTX va)"
  let ?t = "tab (mem s) pgdir ?I"
  have I: "?I < 1024" and J: "?J < 1024" by (simp_all add: PDX_lt PTX_lt)
  have kinv: "kmem_inv fs s" and pinv: "pt_inv pgdir s" and disj: "pt_pages (mem s) pgdir \<inter> set fs = {}"
    using inv by (auto simp: vm_inv_def)
  have t: "aligned ?t" "?t \<noteq> pgdir" "?t \<in> pt_pages (mem s) pgdir"
    using pinv pr I tab_in_pt_pages [OF I pr] by (auto simp: pt_inv_def vframe_def)
  have pa: "pte_addr (mem s) pgdir va = ?t + 4 * of_nat ?J" by (simp add: pte_addr_def)
  show off: "same_off {?t} (mem s) (mem s')"
    unfolding s'_def pa using same_off_store [OF t(1) J, of "mem s" v] by simp
  show off': "same_off (pt_pages (mem s) pgdir) (mem s) (mem s')"
    using off by (rule same_off_mono) (use t(3) in simp)
  have pde: "pde_at (mem s') pgdir i = pde_at (mem s) pgdir i" if "i < 1024" for i
    using same_off_on [OF off, of "{pgdir}"] t pinv that
    by (intro pde_at_same_on) (auto simp: pt_inv_aligned)
  then have tabs: "tab (mem s') pgdir i = tab (mem s) pgdir i" if "i < 1024" for i
    using that by (simp add: tab_def)
  show pages: "pt_pages (mem s') pgdir = pt_pages (mem s) pgdir"
    unfolding pt_pages_def tables_def by (intro arg_cong [of _ _ "insert pgdir"] Collect_cong) (metis pde tab_def)
  have pte: "pte_at (mem s') pgdir i j = (if i = ?I \<and> j = ?J then v else pte_at (mem s) pgdir i j)"
    if i: "i < 1024" and j: "j < 1024" for i j
  proof (cases "present (pde_at (mem s) pgdir i)")
    case True
    consider "i = ?I" "j = ?J" | "i = ?I" "j \<noteq> ?J" | "i \<noteq> ?I" by blast
    then show ?thesis
    proof cases
      case 1
      then show ?thesis using pr I tabs [OF I] pde [OF I] by (simp add: pte_at_def s'_def pa load_store_same)
    next
      case 2
      have "load32 (mem s') (?t + 4 * of_nat j) = load32 (mem s) (?t + 4 * of_nat j)"
        unfolding s'_def pa using load_store_other [OF span_disjoint [OF t(1) J j]] 2(2) by simp
      then show ?thesis using 2 tabs [OF I] pde [OF I] by (simp add: pte_at_def)
    next
      case 3
      let ?u = "tab (mem s) pgdir i"
      have "?u \<noteq> ?t" "aligned ?u" using pinv True pr I i 3 by (auto simp: pt_inv_def vframe_def)
      then have "load32 (mem s') (?u + 4 * of_nat j) = load32 (mem s) (?u + 4 * of_nat j)"
        using same_off_on [OF off, of "{?u}"] j by (intro load32_same_on) auto
      then show ?thesis using 3 i tabs pde by (simp add: pte_at_def)
    qed
  next
    case False
    then have "i \<noteq> ?I" using pr by auto
    with False show ?thesis using i pde by (simp add: pte_at_def)
  qed
  have "(unat (PDX va') = ?I \<and> unat (PTX va') = ?J) \<longleftrightarrow> PGROUNDDOWN va' = PGROUNDDOWN va"
    using page_eq_iff [of va' va] by (simp add: word_unat_eq_iff)
  then show "pte_val (mem s') pgdir va' =
      (if PGROUNDDOWN va' = PGROUNDDOWN va then v else pte_val (mem s) pgdir va')"
    by (simp add: pte_val_def pte PDX_lt PTX_lt)
  have "kmem_inv fs s'"
    using kinv same_off_on [OF off' disj] by (elim kmem_inv_frame) (auto simp: s'_def)
  moreover have "pt_inv pgdir s'"
  proof -
    have vf: "vframe s' f = vframe s f" for f by (simp add: s'_def vframe_def)
    show ?thesis using pinv by (simp add: pt_inv_def vf pde tabs)
  qed
  ultimately show "vm_inv pgdir fs s'" using disj pages by (simp add: vm_inv_def)
qed

end
