(* ===== verification/AddrSpace.thy ===== *)
theory AddrSpace
  imports Vm
begin

text \<open>
  What the routines of \<^verbatim>\<open>kernel/vm.c\<close> do to an address space, stated on the map from virtual
  pages to page-table entries (\<open>pte_val\<close>) instead of the words of the tables: mapping a range,
  taking the user part down, growing it and copying it. The theorems account for every page of
  memory: a page is a directory or table, a page of the free list, or is left alone.
\<close>

section \<open>Growing an address space\<close>

text \<open>
  From \<open>s\<close> to \<open>s'\<close> the address space only took pages from the head of the free list and wrote
  nothing outside its own directory and tables and the pages it took.
\<close>

definition grows :: "addr \<Rightarrow> addr list \<Rightarrow> kmem \<Rightarrow> addr list \<Rightarrow> kmem \<Rightarrow> bool" where
  "grows pgdir fs s fs' s' \<longleftrightarrow> vm_inv pgdir fs' s' \<and>
     (\<exists>used. fs = used @ fs' \<and> pt_pages (mem s') pgdir = pt_pages (mem s) pgdir \<union> set used) \<and>
     same_off (pt_pages (mem s') pgdir) (mem s) (mem s') \<and> end_sym s' = end_sym s \<and> data_sym s' = data_sym s"

text \<open>The pages from \<open>a\<close> up to \<open>hi\<close> were given consecutive frames from \<open>pa\<close> on.\<close>

definition remapped :: "addr \<Rightarrow> addr \<Rightarrow> nat \<Rightarrow> uint \<Rightarrow> uint \<Rightarrow> memory \<Rightarrow> memory \<Rightarrow> bool" where
  "remapped pgdir a hi pa perm m m' \<longleftrightarrow> (\<forall>va. pte_val m' pgdir va =
     (if unat a \<le> unat (PGROUNDDOWN va) \<and> unat (PGROUNDDOWN va) < hi
      then (pa + (PGROUNDDOWN va - a)) OR perm OR PTE_P else pte_val m pgdir va))"

lemma grows_refl: "vm_inv pgdir fs s \<Longrightarrow> grows pgdir fs s fs s"
  by (simp add: grows_def)

lemma grows_inv: "grows pgdir fs s fs' s' \<Longrightarrow> vm_inv pgdir fs' s'"
  by (simp add: grows_def)

lemma grows_trans:
  assumes "grows pgdir fs s fs1 s1" and "grows pgdir fs1 s1 fs2 s2"
  shows "grows pgdir fs s fs2 s2"
proof -
  from assms(1) obtain u where u: "fs = u @ fs1" "pt_pages (mem s1) pgdir = pt_pages (mem s) pgdir \<union> set u"
    "same_off (pt_pages (mem s1) pgdir) (mem s) (mem s1)"
    by (auto simp: grows_def)
  from assms(2) obtain v where v: "fs1 = v @ fs2" "pt_pages (mem s2) pgdir = pt_pages (mem s1) pgdir \<union> set v"
    "same_off (pt_pages (mem s2) pgdir) (mem s1) (mem s2)"
    by (auto simp: grows_def)
  have "same_off (pt_pages (mem s2) pgdir) (mem s) (mem s2)"
    by (rule same_off_trans [OF same_off_mono [OF u(3)] v(3)]) (use v(2) in auto)
  moreover have "fs = (u @ v) @ fs2" "pt_pages (mem s2) pgdir = pt_pages (mem s) pgdir \<union> set (u @ v)"
    using u v by auto
  ultimately show ?thesis using assms unfolding grows_def by metis
qed

lemma load_pte: "present (pde_at m pgdir (unat (PDX va))) \<Longrightarrow> load32 m (pte_addr m pgdir va) = pte_val m pgdir va"
  by (simp add: pte_val_def pte_at_def pte_addr_def)

lemma walk_alloc_step:
  assumes "vm_inv pgdir fs s"
  shows "ok (walkpgdir pgdir a True) s (\<lambda>p s1. p = 0 \<and> s1 = s \<and> fs = [] \<or>
     p \<noteq> 0 \<and> (\<exists>fs'. length fs \<le> Suc (length fs') \<and> load32 (mem s1) p = pte_val (mem s) pgdir a \<and>
       (\<forall>v. grows pgdir fs s fs' (s1\<lparr>mem := store32 p v (mem s1)\<rparr>) \<and>
         (\<forall>va. pte_val (store32 p v (mem s1)) pgdir va =
            (if PGROUNDDOWN va = PGROUNDDOWN a then v else pte_val (mem s) pgdir va)))))"
proof (rule ok_mono [OF walk_alloc_ok [OF assms, of a]], elim disjE)
  fix p s1
  assume "p \<noteq> 0 \<and> (\<exists>used fs'. fs = used @ fs' \<and> length used \<le> 1 \<and> vm_inv pgdir fs' s1
       \<and> pt_pages (mem s1) pgdir = pt_pages (mem s) pgdir \<union> set used
       \<and> same_off (pt_pages (mem s1) pgdir) (mem s) (mem s1)
       \<and> end_sym s1 = end_sym s \<and> data_sym s1 = data_sym s
       \<and> present (pde_at (mem s1) pgdir (unat (PDX a))) \<and> p = pte_addr (mem s1) pgdir a
       \<and> (\<forall>va. pte_val (mem s1) pgdir va = pte_val (mem s) pgdir va))"
  then obtain used fs' where w: "p \<noteq> 0" "fs = used @ fs'" "vm_inv pgdir fs' s1"
    "pt_pages (mem s1) pgdir = pt_pages (mem s) pgdir \<union> set used"
    "same_off (pt_pages (mem s1) pgdir) (mem s) (mem s1)"
    "end_sym s1 = end_sym s" "data_sym s1 = data_sym s"
    "present (pde_at (mem s1) pgdir (unat (PDX a)))" "p = pte_addr (mem s1) pgdir a"
    "\<And>va. pte_val (mem s1) pgdir va = pte_val (mem s) pgdir va" "length used \<le> 1"
    by blast
  note st = store_pte [OF w(3,8)]
  have "grows pgdir fs s fs' (s1\<lparr>mem := store32 p v (mem s1)\<rparr>)" for v
    unfolding grows_def w(9)
    using st(1,2) [of v] same_off_trans [OF w(5) st(4) [of v]] w(2,4,6,7) by auto
  moreover have "load32 (mem s1) p = pte_val (mem s) pgdir a" using load_pte [OF w(8)] w(9,10) by simp
  ultimately show "p = 0 \<and> s1 = s \<and> fs = [] \<or> p \<noteq> 0 \<and> (\<exists>fs'. length fs \<le> Suc (length fs') \<and> load32 (mem s1) p = pte_val (mem s) pgdir a \<and>
       (\<forall>v. grows pgdir fs s fs' (s1\<lparr>mem := store32 p v (mem s1)\<rparr>) \<and>
         (\<forall>va. pte_val (store32 p v (mem s1)) pgdir va =
            (if PGROUNDDOWN va = PGROUNDDOWN a then v else pte_val (mem s) pgdir va))))"
    using w(1,2,9,10,11) st(3) by (auto intro!: exI [of _ fs'])
qed simp

lemma aligned_step:
  assumes "aligned a" and "aligned b" and "unat a < unat b"
  shows "unat (a + PGSIZE) = unat a + 4096" and "unat a + 4096 \<le> unat b"
proof -
  from assms obtain j k where jk: "unat a = 4096 * j" "unat b = 4096 * k"
    unfolding aligned_dvd by (elim dvdE)
  with assms(3) show le: "unat a + 4096 \<le> unat b" by simp
  with unat_lt32 [of b] show "unat (a + PGSIZE) = unat a + 4096"
    by (intro trans [OF unat_add32]) (simp_all add: PGSIZE_def)
qed

lemma page_cases:
  assumes "aligned a" and "unat a \<le> unat (PGROUNDDOWN va)"
  shows "PGROUNDDOWN va = a \<or> unat a + 4096 \<le> unat (PGROUNDDOWN va)"
  using aligned_step(2) [OF assms(1) aligned_PGROUNDDOWN [of va]] assms(2)
  by (cases "unat a = unat (PGROUNDDOWN va)") (auto dest: uint_eqI)

lemma remapped_first:
  assumes "aligned a" and "\<And>va. pte_val m1 pgdir va = (if PGROUNDDOWN va = a then pa OR perm OR PTE_P else pte_val m pgdir va)"
  shows "remapped pgdir a (unat a + 4096) pa perm m m1"
  unfolding remapped_def
proof (intro allI)
  fix va
  show "pte_val m1 pgdir va = (if unat a \<le> unat (PGROUNDDOWN va) \<and> unat (PGROUNDDOWN va) < unat a + 4096
      then (pa + (PGROUNDDOWN va - a)) OR perm OR PTE_P else pte_val m pgdir va)"
    using page_cases [OF assms(1), of va] by (auto simp: assms(2))
qed

lemma remapped_trans:
  assumes "remapped pgdir a (unat b) pa perm m m1" and "remapped pgdir b hi (pa + (b - a)) perm m1 m2"
    and "unat a \<le> unat b" and "unat b \<le> hi"
  shows "remapped pgdir a hi pa perm m m2"
  using assms unfolding remapped_def by (auto simp: algebra_simps)

lemma mappages_loop_ok:
  assumes "vm_inv pgdir fs s" and "aligned a" and "aligned lst" and "unat a \<le> unat lst"
    and "unat lst - unat a < 4096 * fuel"
    and "\<And>va. unat a \<le> unat (PGROUNDDOWN va) \<Longrightarrow> unat (PGROUNDDOWN va) \<le> unat lst \<Longrightarrow>
           \<not> present (pte_val (mem s) pgdir va)"
  shows "ok (mappages_loop fuel pgdir a lst pa perm) s (\<lambda>r s'. \<exists>fs'. grows pgdir fs s fs' s' \<and>
     (r = 0 \<and> remapped pgdir a (unat lst + 4096) pa perm (mem s) (mem s') \<and>
        length fs \<le> length fs' + (unat lst - unat a) div 4096 + 1 \<or>
      r = -1 \<and> fs' = [] \<and> (\<exists>hi. unat a \<le> hi \<and> hi \<le> unat lst \<and> length fs \<le> (hi - unat a) div 4096 \<and>
        remapped pgdir a hi pa perm (mem s) (mem s'))))"
  using assms
proof (induction fuel arbitrary: a pa fs s)
  case (Suc fuel)
  let ?Q = "\<lambda>(r :: int) s'. \<exists>fs'. grows pgdir fs s fs' s' \<and>
     (r = 0 \<and> remapped pgdir a (unat lst + 4096) pa perm (mem s) (mem s') \<and>
        length fs \<le> length fs' + (unat lst - unat a) div 4096 + 1 \<or>
      r = -1 \<and> fs' = [] \<and> (\<exists>hi. unat a \<le> hi \<and> hi \<le> unat lst \<and> length fs \<le> (hi - unat a) div 4096 \<and>
        remapped pgdir a hi pa perm (mem s) (mem s')))"
  have pa: "PGROUNDDOWN a = a" using Suc.prems(2) by (rule PGROUNDDOWN_aligned)
  have np: "\<not> present (pte_val (mem s) pgdir a)" using Suc.prems(4,6) pa by simp
  from walk_alloc_step [OF Suc.prems(1), of a] obtain p s1 where walk: "walkpgdir pgdir a True s = Done p s1"
    and cases: "p = 0 \<and> s1 = s \<and> fs = [] \<or> p \<noteq> 0 \<and> (\<exists>fs'. length fs \<le> Suc (length fs') \<and> load32 (mem s1) p = pte_val (mem s) pgdir a \<and>
       (\<forall>v. grows pgdir fs s fs' (s1\<lparr>mem := store32 p v (mem s1)\<rparr>) \<and>
         (\<forall>va. pte_val (store32 p v (mem s1)) pgdir va =
            (if PGROUNDDOWN va = PGROUNDDOWN a then v else pte_val (mem s) pgdir va))))"
    by (rule okE)
  show ?case
  proof (cases "p = 0")
    case True
    then have "s1 = s" "fs = []" using cases by auto
    then have "?Q (-1) s1" using Suc.prems(1,4)
      by (auto simp: remapped_def intro!: exI [of _ "[]"] exI [of _ "unat a"] grows_refl)
    with True show ?thesis by (simp add: wp ok_Done_eq walk)
  next
    case p: False
    with cases obtain fs1 where old: "length fs \<le> Suc (length fs1)" "load32 (mem s1) p = pte_val (mem s) pgdir a"
      and all: "\<forall>v. grows pgdir fs s fs1 (s1\<lparr>mem := store32 p v (mem s1)\<rparr>) \<and>
         (\<forall>va. pte_val (store32 p v (mem s1)) pgdir va =
            (if PGROUNDDOWN va = PGROUNDDOWN a then v else pte_val (mem s) pgdir va))"
      by blast
    let ?s2 = "s1\<lparr>mem := store32 p (pa OR perm OR PTE_P) (mem s1)\<rparr>"
    have g: "grows pgdir fs s fs1 ?s2" using all by blast
    have first: "remapped pgdir a (unat a + 4096) pa perm (mem s) (mem ?s2)"
      by (rule remapped_first) (use Suc.prems(2) all pa in simp_all)
    have "ok (if a = lst then ret 0 else mappages_loop fuel pgdir (a + PGSIZE) lst (pa + PGSIZE) perm) ?s2 ?Q"
    proof (cases "a = lst")
      case True
      with g first old(1) show ?thesis by (auto simp: wp)
    next
      case False
      then have lt: "unat a < unat lst" using Suc.prems(4) by (metis uint_eqI le_neq_implies_less)
      note b = aligned_step [OF Suc.prems(2,3) lt]
      have next_page: "(h - unat a) div 4096 = Suc ((h - unat (a + PGSIZE)) div 4096)" if "unat (a + PGSIZE) \<le> h" for h
        using that b(1) div_add_self2 [of 4096 "h - unat (a + PGSIZE)"] by simp
      have "ok (mappages_loop fuel pgdir (a + PGSIZE) lst (pa + PGSIZE) perm) ?s2
        (\<lambda>r s'. \<exists>fs'. grows pgdir fs1 ?s2 fs' s' \<and>
          (r = 0 \<and> remapped pgdir (a + PGSIZE) (unat lst + 4096) (pa + PGSIZE) perm (mem ?s2) (mem s') \<and>
             length fs1 \<le> length fs' + (unat lst - unat (a + PGSIZE)) div 4096 + 1 \<or>
           r = -1 \<and> fs' = [] \<and> (\<exists>hi. unat (a + PGSIZE) \<le> hi \<and> hi \<le> unat lst \<and>
             length fs1 \<le> (hi - unat (a + PGSIZE)) div 4096 \<and>
             remapped pgdir (a + PGSIZE) hi (pa + PGSIZE) perm (mem ?s2) (mem s'))))"
        by (rule Suc.IH [OF grows_inv [OF g]])
          (use Suc.prems b all pa in \<open>auto simp: aligned_add\<close>)
      then have "ok (mappages_loop fuel pgdir (a + PGSIZE) lst (pa + PGSIZE) perm) ?s2 ?Q"
      proof (rule ok_mono)
        fix r :: int and s' :: kmem
        have tr: "remapped pgdir a hi pa perm (mem s) (mem s')"
          if "remapped pgdir (a + PGSIZE) hi (pa + PGSIZE) perm (mem ?s2) (mem s')" "unat (a + PGSIZE) \<le> hi" for hi
          using remapped_trans [OF first [folded b(1)], of hi "mem s'"] that b by simp
        assume "\<exists>fs'. grows pgdir fs1 ?s2 fs' s' \<and>
          (r = 0 \<and> remapped pgdir (a + PGSIZE) (unat lst + 4096) (pa + PGSIZE) perm (mem ?s2) (mem s') \<and>
             length fs1 \<le> length fs' + (unat lst - unat (a + PGSIZE)) div 4096 + 1 \<or>
           r = -1 \<and> fs' = [] \<and> (\<exists>hi. unat (a + PGSIZE) \<le> hi \<and> hi \<le> unat lst \<and>
             length fs1 \<le> (hi - unat (a + PGSIZE)) div 4096 \<and>
             remapped pgdir (a + PGSIZE) hi (pa + PGSIZE) perm (mem ?s2) (mem s')))"
        then obtain fs' where "grows pgdir fs1 ?s2 fs' s'" and "r = 0 \<and> remapped pgdir a (unat lst + 4096) pa perm (mem s) (mem s') \<and>
             length fs \<le> length fs' + (unat lst - unat a) div 4096 + 1 \<or>
           r = -1 \<and> fs' = [] \<and> (\<exists>hi. unat a \<le> hi \<and> hi \<le> unat lst \<and> length fs \<le> (hi - unat a) div 4096 \<and>
             remapped pgdir a hi pa perm (mem s) (mem s'))"
          using tr b old(1) by (elim exE conjE disjE) (fastforce simp: next_page intro: add_leD1)+
        then show "?Q r s'" using grows_trans [OF g] by blast
      qed
      with False show ?thesis by simp
    qed
    with p np old show ?thesis
      by (simp add: wp ok_Done_eq walk get32_def set_mem_def present_def)
  qed
qed simp

lemma last_page:
  assumes "0 < unat sz" and "unat va + unat sz \<le> 4294967296"
  shows "unat (PGROUNDDOWN (va + sz - 1)) = (unat va + unat sz - 1) div 4096 * 4096"
    and "unat (PGROUNDDOWN va) \<le> unat (PGROUNDDOWN (va + sz - 1))"
proof -
  have "unat (sz - 1) = unat sz - 1" using assms(1) by (intro trans [OF unat_sub32]) simp_all
  then have "unat (va + (sz - 1)) = unat va + unat sz - 1"
    using assms by (intro trans [OF unat_add32]) simp_all
  then have u: "unat (va + sz - 1) = unat va + unat sz - 1" by (simp add: add_diff_eq)
  then show "unat (PGROUNDDOWN (va + sz - 1)) = (unat va + unat sz - 1) div 4096 * 4096"
    by (simp add: unat_PGROUNDDOWN)
  show "unat (PGROUNDDOWN va) \<le> unat (PGROUNDDOWN (va + sz - 1))"
    unfolding unat_PGROUNDDOWN u using assms(1) by (intro mult_le_mono1 div_le_mono) simp
qed

lemma mappages_ok:
  assumes "vm_inv pgdir fs s" and "0 < unat sz" and "unat va + unat sz \<le> 4294967296"
    and "\<And>va'. unat (PGROUNDDOWN va) \<le> unat (PGROUNDDOWN va') \<Longrightarrow> unat (PGROUNDDOWN va') < unat va + unat sz \<Longrightarrow>
           \<not> present (pte_val (mem s) pgdir va')"
  shows "ok (mappages pgdir va sz pa perm) s (\<lambda>r s'. \<exists>fs'. grows pgdir fs s fs' s' \<and>
     (r = 0 \<and> remapped pgdir (PGROUNDDOWN va) (unat va + unat sz) pa perm (mem s) (mem s') \<and>
        length fs \<le> length fs' + (unat (PGROUNDDOWN (va + sz - 1)) - unat (PGROUNDDOWN va)) div 4096 + 1 \<or>
      r = -1 \<and> fs' = [] \<and> (\<exists>hi. unat (PGROUNDDOWN va) \<le> hi \<and> hi \<le> unat (PGROUNDDOWN (va + sz - 1)) \<and>
        length fs \<le> (hi - unat (PGROUNDDOWN va)) div 4096 \<and>
        remapped pgdir (PGROUNDDOWN va) hi pa perm (mem s) (mem s'))))"
proof -
  note l = last_page [OF assms(2,3)]
  let ?lst = "PGROUNDDOWN (va + sz - 1)"
  have below: "unat (PGROUNDDOWN v) < unat ?lst + 4096 \<longleftrightarrow> unat (PGROUNDDOWN v) < unat va + unat sz" for v
  proof -
    have "unat v div 4096 < (unat va + unat sz - 1) div 4096 + 1 \<longleftrightarrow>
        unat v div 4096 * 4096 \<le> unat va + unat sz - 1"
      by (simp add: less_Suc_eq_le less_eq_div_iff_mult_less_eq)
    moreover have "unat (PGROUNDDOWN v) = unat v div 4096 * 4096" by (rule unat_PGROUNDDOWN)
    ultimately show ?thesis using assms(2) l(1) by linarith
  qed
  have "ok (mappages_loop 1048576 pgdir (PGROUNDDOWN va) ?lst pa perm) s (\<lambda>r s'. \<exists>fs'. grows pgdir fs s fs' s' \<and>
     (r = 0 \<and> remapped pgdir (PGROUNDDOWN va) (unat ?lst + 4096) pa perm (mem s) (mem s') \<and>
        length fs \<le> length fs' + (unat ?lst - unat (PGROUNDDOWN va)) div 4096 + 1 \<or>
      r = -1 \<and> fs' = [] \<and> (\<exists>hi. unat (PGROUNDDOWN va) \<le> hi \<and> hi \<le> unat ?lst \<and>
        length fs \<le> (hi - unat (PGROUNDDOWN va)) div 4096 \<and>
        remapped pgdir (PGROUNDDOWN va) hi pa perm (mem s) (mem s'))))"
  proof (rule mappages_loop_ok [OF assms(1) _ _ l(2)])
    show "unat ?lst - unat (PGROUNDDOWN va) < 4096 * 1048576" using unat_lt32 [of ?lst] by simp
    show "\<not> present (pte_val (mem s) pgdir v)"
      if "unat (PGROUNDDOWN va) \<le> unat (PGROUNDDOWN v)" "unat (PGROUNDDOWN v) \<le> unat ?lst" for v
      using that below [of v] by (intro assms(4)) simp_all
  qed simp_all
  moreover have "remapped pgdir a (unat ?lst + 4096) pa perm m m' = remapped pgdir a (unat va + unat sz) pa perm m m'"
    for a m m' by (simp add: remapped_def below)
  ultimately show ?thesis by (simp add: mappages_def)
qed

text \<open>A single page: on failure nothing is mapped.\<close>

lemma mappages_page:
  assumes "vm_inv pgdir fs s" and "aligned a" and "\<not> present (pte_val (mem s) pgdir a)"
  shows "ok (mappages pgdir a PGSIZE pa perm) s (\<lambda>r s'. \<exists>fs'. grows pgdir fs s fs' s' \<and>
     (r = 0 \<and> (\<forall>va. pte_val (mem s') pgdir va =
         (if PGROUNDDOWN va = a then pa OR perm OR PTE_P else pte_val (mem s) pgdir va)) \<and>
         length fs \<le> Suc (length fs') \<or>
      r = -1 \<and> fs = [] \<and> fs' = [] \<and> (\<forall>va. pte_val (mem s') pgdir va = pte_val (mem s) pgdir va)))"
proof -
  have a: "PGROUNDDOWN a = a" using assms(2) by (rule PGROUNDDOWN_aligned)
  obtain k where k: "unat a = 4096 * k" using assms(2) unfolding aligned_dvd by (elim dvdE)
  have le: "unat a + unat PGSIZE \<le> 4294967296" using k unat_lt32 [of a] by (simp add: PGSIZE_def)
  have one: "unat a \<le> unat (PGROUNDDOWN va) \<and> unat (PGROUNDDOWN va) < unat a + 4096 \<longleftrightarrow> PGROUNDDOWN va = a" for va
    using page_cases [OF assms(2), of va] by auto
  have "pte_val (mem s) pgdir va = pte_val (mem s) pgdir a" if "PGROUNDDOWN va = a" for va
    using that page_eq_iff [of va a] a by (simp add: pte_val_def)
  then have np: "\<not> present (pte_val (mem s) pgdir va)" if "PGROUNDDOWN va = a" for va
    using that assms(3) by simp
  have lst: "unat (PGROUNDDOWN (a + PGSIZE - 1)) = unat a"
    using last_page(1) [of PGSIZE a] le k by (simp add: PGSIZE_def)
  have P: "unat PGSIZE = 4096" by (simp add: PGSIZE_def)
  have "ok (mappages pgdir a PGSIZE pa perm) s (\<lambda>r s'. \<exists>fs'. grows pgdir fs s fs' s' \<and>
     (r = 0 \<and> remapped pgdir a (unat a + 4096) pa perm (mem s) (mem s') \<and>
        length fs \<le> length fs' + (unat a - unat a) div 4096 + 1 \<or>
      r = -1 \<and> fs' = [] \<and> (\<exists>hi. unat a \<le> hi \<and> hi \<le> unat a \<and> length fs \<le> (hi - unat a) div 4096 \<and> remapped pgdir a hi pa perm (mem s) (mem s'))))"
    using mappages_ok [OF assms(1), of PGSIZE a pa perm] le np [OF iffD1 [OF one]] unfolding a lst P by simp
  then show ?thesis
    by (rule ok_mono) (use one in \<open>auto simp: remapped_def\<close>)
qed

section \<open>Two address spaces\<close>

text \<open>
  Another address space, whose directory and tables are neither free nor part of the growing
  one, keeps all its translations.
\<close>

definition apart :: "addr \<Rightarrow> addr \<Rightarrow> addr list \<Rightarrow> kmem \<Rightarrow> bool" where
  "apart other pgdir fs s \<longleftrightarrow> pt_inv other s \<and>
     pt_pages (mem s) other \<inter> (pt_pages (mem s) pgdir \<union> set fs) = {}"

lemma grows_apart:
  assumes "grows pgdir fs s fs' s'" and "apart other pgdir fs s"
  shows "apart other pgdir fs' s'" and "pte_val (mem s') other va = pte_val (mem s) other va"
    and "pt_pages (mem s') other = pt_pages (mem s) other"
proof -
  from assms(1) obtain used where u: "fs = used @ fs'"
    "pt_pages (mem s') pgdir = pt_pages (mem s) pgdir \<union> set used"
    "same_off (pt_pages (mem s) pgdir \<union> set used) (mem s) (mem s')" "end_sym s' = end_sym s"
    by (auto simp: grows_def)
  have inv: "pt_inv other s" using assms(2) by (simp add: apart_def)
  have on: "same_on (pt_pages (mem s) other) (mem s) (mem s')"
    using same_off_on [OF u(3)] assms(2) u(1) by (simp add: apart_def) blast
  note view = pt_view_same_on [OF on inv]
  show "pte_val (mem s') other va = pte_val (mem s) other va" by (rule view(3))
  show p: "pt_pages (mem s') other = pt_pages (mem s) other" by (rule view(4))
  show "apart other pgdir fs' s'"
    using pt_inv_same_on [OF on inv u(4)] assms(2) p u(1,2) unfolding apart_def by auto
qed

lemma pte_val_page: "PGROUNDDOWN va = PGROUNDDOWN vb \<Longrightarrow> pte_val m pgdir va = pte_val m pgdir vb"
  using page_eq_iff [of va vb] by (simp add: pte_val_def)

section \<open>The user part of an address space\<close>

text \<open>
  Below \<open>hi\<close>, every mapped page has a frame of its own, which is neither free nor one of the
  directory and tables. The allocator's pages lie above the start of the kernel.
\<close>

definition uframe :: "memory \<Rightarrow> addr \<Rightarrow> addr \<Rightarrow> addr" where
  "uframe m pgdir va = P2V (PTE_ADDR (pte_val m pgdir va))"

definition mapped :: "memory \<Rightarrow> addr \<Rightarrow> nat \<Rightarrow> nat \<Rightarrow> addr \<Rightarrow> bool" where
  "mapped m pgdir lo hi va \<longleftrightarrow> lo \<le> unat (PGROUNDDOWN va) \<and> unat (PGROUNDDOWN va) < hi \<and> present (pte_val m pgdir va)"

definition frames :: "memory \<Rightarrow> addr \<Rightarrow> nat \<Rightarrow> nat \<Rightarrow> addr set" where
  "frames m pgdir lo hi = {uframe m pgdir va | va. mapped m pgdir lo hi va}"

definition user_inv :: "addr \<Rightarrow> nat \<Rightarrow> addr list \<Rightarrow> kmem \<Rightarrow> bool" where
  "user_inv pgdir hi fs s \<longleftrightarrow> vm_inv pgdir fs s \<and> unat KERNBASE < unat (end_sym s) \<and>
     (\<forall>v. mapped (mem s) pgdir 0 hi v \<longrightarrow> vframe s (uframe (mem s) pgdir v) \<and>
        uframe (mem s) pgdir v \<notin> pt_pages (mem s) pgdir \<union> set fs) \<and>
     (\<forall>v w. mapped (mem s) pgdir 0 hi v \<longrightarrow> mapped (mem s) pgdir 0 hi w \<longrightarrow>
        uframe (mem s) pgdir v = uframe (mem s) pgdir w \<longrightarrow> PGROUNDDOWN v = PGROUNDDOWN w)"

lemma user_invD:
  assumes "user_inv pgdir hi fs s"
  shows "vm_inv pgdir fs s" and "unat KERNBASE < unat (end_sym s)"
    and "mapped (mem s) pgdir 0 hi v \<Longrightarrow> vframe s (uframe (mem s) pgdir v)"
    and "mapped (mem s) pgdir 0 hi v \<Longrightarrow> uframe (mem s) pgdir v \<notin> pt_pages (mem s) pgdir"
    and "mapped (mem s) pgdir 0 hi v \<Longrightarrow> uframe (mem s) pgdir v \<notin> set fs"
    and "mapped (mem s) pgdir 0 hi v \<Longrightarrow> mapped (mem s) pgdir 0 hi w \<Longrightarrow>
      uframe (mem s) pgdir v = uframe (mem s) pgdir w \<Longrightarrow> PGROUNDDOWN v = PGROUNDDOWN w"
  using assms unfolding user_inv_def by blast+

lemma user_invI:
  assumes "vm_inv pgdir fs s" and "unat KERNBASE < unat (end_sym s)"
    and "\<And>v. mapped (mem s) pgdir 0 hi v \<Longrightarrow> vframe s (uframe (mem s) pgdir v)"
    and "\<And>v. mapped (mem s) pgdir 0 hi v \<Longrightarrow> uframe (mem s) pgdir v \<notin> pt_pages (mem s) pgdir"
    and "\<And>v. mapped (mem s) pgdir 0 hi v \<Longrightarrow> uframe (mem s) pgdir v \<notin> set fs"
    and "\<And>v w. mapped (mem s) pgdir 0 hi v \<Longrightarrow> mapped (mem s) pgdir 0 hi w \<Longrightarrow>
      uframe (mem s) pgdir v = uframe (mem s) pgdir w \<Longrightarrow> PGROUNDDOWN v = PGROUNDDOWN w"
  shows "user_inv pgdir hi fs s"
  using assms unfolding user_inv_def by blast

lemma mapped_mono: "mapped m pgdir lo hi v \<Longrightarrow> lo' \<le> lo \<Longrightarrow> hi \<le> hi' \<Longrightarrow> mapped m pgdir lo' hi' v"
  by (simp add: mapped_def)

lemma pte_val_present: "present (pte_val m pgdir va) \<Longrightarrow> present (pde_at m pgdir (unat (PDX va)))"
  by (auto simp: pte_val_def pte_at_def split: if_splits)

text \<open>Returning the frame of one page and clearing its entry.\<close>

lemma release_page:
  assumes inv: "user_inv pgdir hi fs s" and m: "mapped (mem s) pgdir 0 hi a"
  defines "f \<equiv> uframe (mem s) pgdir a"
  defines "s1 \<equiv> s\<lparr>mem := kfree_mem f (freelist s) (mem s), freelist := f\<rparr>"
  defines "s2 \<equiv> s1\<lparr>mem := store32 (pte_addr (mem s) pgdir a) 0 (mem s1)\<rparr>"
  shows "kfree f s = Done () s1" and "user_inv pgdir hi (f # fs) s2"
    and "pte_val (mem s2) pgdir v = (if PGROUNDDOWN v = PGROUNDDOWN a then 0 else pte_val (mem s) pgdir v)"
    and "pt_pages (mem s2) pgdir = pt_pages (mem s) pgdir"
    and "same_off (insert f (pt_pages (mem s) pgdir)) (mem s) (mem s2)"
    and "PTE_ADDR (pte_val (mem s) pgdir a) \<noteq> 0"
proof -
  have vm: "vm_inv pgdir fs s" and vf: "vframe s f" and nin: "f \<notin> pt_pages (mem s) pgdir" "f \<notin> set fs"
    and k: "kmem_inv fs s" and pt: "pt_inv pgdir s"
    using user_invD(1) [OF inv] user_invD(3-5) [OF inv m] unfolding f_def vm_inv_def by blast+
  show "kfree f s = Done () s1"
    unfolding s1_def by (rule kfree_Done [OF vf]) (use k in \<open>simp add: kmem_inv_def\<close>)
  show "PTE_ADDR (pte_val (mem s) pgdir a) \<noteq> 0"
  proof
    assume "PTE_ADDR (pte_val (mem s) pgdir a) = 0"
    then have "f = KERNBASE" by (simp add: f_def uframe_def P2V_def)
    then show False using vf user_invD(2) [OF inv] by (simp add: vframe_def word_le_nat_alt)
  qed
  have off1: "same_off {f} (mem s) (mem s1)"
    unfolding s1_def using same_off_kfree_mem [OF vframe_aligned [OF vf]] by simp
  have on: "same_on (pt_pages (mem s) pgdir) (mem s) (mem s1)" by (rule same_off_on [OF off1]) (use nin in simp)
  note view = pt_view_same_on [OF on pt]
  have vm1: "vm_inv pgdir (f # fs) s1"
    using kmem_inv_push [OF k vf nin(2)] pt_inv_same_on [OF on pt] vm nin view(4)
    by (auto simp: vm_inv_def s1_def)
  have pde: "present (pde_at (mem s) pgdir (unat (PDX a)))" using m pte_val_present by (simp add: mapped_def)
  then have pde1: "present (pde_at (mem s1) pgdir (unat (PDX a)))" by (simp add: view(1) PDX_lt)
  have pa: "pte_addr (mem s) pgdir a = pte_addr (mem s1) pgdir a" by (simp add: pte_addr_def tab_def view(1) PDX_lt)
  note st = store_pte [OF vm1 pde1, of 0, folded pa, folded s2_def]
  show ptes: "pte_val (mem s2) pgdir v = (if PGROUNDDOWN v = PGROUNDDOWN a then 0 else pte_val (mem s) pgdir v)" for v
    by (simp add: st(3) view(3))
  show pages: "pt_pages (mem s2) pgdir = pt_pages (mem s) pgdir" by (simp add: st(2) view(4))
  show "same_off (insert f (pt_pages (mem s) pgdir)) (mem s) (mem s2)"
    by (rule same_off_trans [OF same_off_mono [OF off1] same_off_mono [OF st(4)]]) (auto simp: view(4))
  have m2: "mapped (mem s2) pgdir 0 hi v \<longleftrightarrow> mapped (mem s) pgdir 0 hi v \<and> PGROUNDDOWN v \<noteq> PGROUNDDOWN a"
    and f2: "PGROUNDDOWN v \<noteq> PGROUNDDOWN a \<Longrightarrow> uframe (mem s2) pgdir v = uframe (mem s) pgdir v" for v
    by (auto simp: mapped_def uframe_def ptes)
  have e2: "end_sym s2 = end_sym s" by (simp add: s2_def s1_def)
  show "user_inv pgdir hi (f # fs) s2"
  proof (rule user_invI [OF st(1)])
    show "unat KERNBASE < unat (end_sym s2)" using user_invD(2) [OF inv] e2 by simp
    show "PGROUNDDOWN v = PGROUNDDOWN w"
      if "mapped (mem s2) pgdir 0 hi v" "mapped (mem s2) pgdir 0 hi w" "uframe (mem s2) pgdir v = uframe (mem s2) pgdir w" for v w
      by (rule user_invD(6) [OF inv]) (use that m2 [of v] m2 [of w] f2 in simp_all)
    fix v
    assume "mapped (mem s2) pgdir 0 hi v"
    then have v: "mapped (mem s) pgdir 0 hi v" "PGROUNDDOWN v \<noteq> PGROUNDDOWN a" by (simp_all add: m2)
    show "vframe s2 (uframe (mem s2) pgdir v)" "uframe (mem s2) pgdir v \<notin> pt_pages (mem s2) pgdir"
      using user_invD(3,4) [OF inv v(1)] v(2) by (simp_all add: f2 pages vframe_cong [OF e2])
    have "uframe (mem s) pgdir v \<noteq> f" using user_invD(6) [OF inv v(1) m] v(2) by (auto simp: f_def)
    then show "uframe (mem s2) pgdir v \<notin> set (f # fs)" using user_invD(5) [OF inv v(1)] v(2) by (simp add: f2)
  qed
qed

section \<open>Taking down the user part\<close>

text \<open>
  The pages from \<open>lo\<close> up to \<open>hi'\<close> are unmapped, exactly their frames go to the free list, and
  nothing but these frames and the page tables is written.
\<close>

definition unmapped :: "addr \<Rightarrow> nat \<Rightarrow> nat \<Rightarrow> nat \<Rightarrow> addr list \<Rightarrow> kmem \<Rightarrow> addr list \<Rightarrow> kmem \<Rightarrow> bool" where
  "unmapped pgdir hi lo hi' fs s fs' s' \<longleftrightarrow> user_inv pgdir hi fs' s' \<and>
     (\<exists>new. fs' = new @ fs \<and> set new = frames (mem s) pgdir lo hi' \<and>
        same_off (pt_pages (mem s) pgdir \<union> set new) (mem s) (mem s')) \<and>
     (\<forall>v. pte_val (mem s') pgdir v = (if mapped (mem s) pgdir lo hi' v then 0 else pte_val (mem s) pgdir v)) \<and>
     pt_pages (mem s') pgdir = pt_pages (mem s) pgdir \<and> end_sym s' = end_sym s \<and> data_sym s' = data_sym s"

lemma unmapped_none:
  assumes "user_inv pgdir hi fs s" and "\<And>v. \<not> mapped (mem s) pgdir lo hi' v"
  shows "unmapped pgdir hi lo hi' fs s fs s"
  using assms by (simp add: unmapped_def frames_def)

lemma unmapped_cong:
  assumes "\<And>v. mapped (mem s) pgdir lo hi' v = mapped (mem s) pgdir lo1 hi' v"
  shows "unmapped pgdir hi lo hi' fs s fs' s' = unmapped pgdir hi lo1 hi' fs s fs' s'"
  using assms by (simp add: unmapped_def frames_def)

lemma frames_page:
  assumes "mapped (mem s) pgdir 0 hi a" and "aligned a" and "unat a + 4096 \<le> lo" and "lo \<le> unat a + 4096"
    and "unat a < hi'"
    and "\<And>v. pte_val m1 pgdir v = (if PGROUNDDOWN v = a then 0 else pte_val (mem s) pgdir v)"
  shows "frames (mem s) pgdir (unat a) hi' = insert (uframe (mem s) pgdir a) (frames m1 pgdir lo hi')"
    and "mapped (mem s) pgdir (unat a) hi' v \<longleftrightarrow> PGROUNDDOWN v = a \<or> mapped m1 pgdir lo hi' v"
proof -
  have a: "PGROUNDDOWN a = a" using assms(2) by (rule PGROUNDDOWN_aligned)
  have pa: "present (pte_val (mem s) pgdir a)" using assms(1) by (simp add: mapped_def)
  have at: "pte_val (mem s) pgdir v = pte_val (mem s) pgdir a" if "PGROUNDDOWN v = a" for v
    by (rule pte_val_page) (use that a in simp)
  show m: "mapped (mem s) pgdir (unat a) hi' v \<longleftrightarrow> PGROUNDDOWN v = a \<or> mapped m1 pgdir lo hi' v" for v
    using page_cases [OF assms(2), of v] assms(3-6) pa at [of v] by (auto simp: mapped_def)
  have u1: "uframe (mem s) pgdir v = uframe m1 pgdir v" if "mapped m1 pgdir lo hi' v" for v
    using that assms(3,6) by (auto simp: mapped_def uframe_def)
  have u2: "uframe (mem s) pgdir v = uframe (mem s) pgdir a" if "PGROUNDDOWN v = a" for v
    by (simp add: uframe_def at [OF that])
  have "frames (mem s) pgdir (unat a) hi' =
      {uframe (mem s) pgdir v | v. PGROUNDDOWN v = a} \<union> {uframe (mem s) pgdir v | v. mapped m1 pgdir lo hi' v}"
    unfolding frames_def m by blast
  also have "{uframe (mem s) pgdir v | v. PGROUNDDOWN v = a} = {uframe (mem s) pgdir a}" using a u2 by blast
  also have "{uframe (mem s) pgdir v | v. mapped m1 pgdir lo hi' v} = frames m1 pgdir lo hi'"
    unfolding frames_def using u1 by (intro Collect_cong) metis
  finally show "frames (mem s) pgdir (unat a) hi' = insert (uframe (mem s) pgdir a) (frames m1 pgdir lo hi')" by simp
qed

lemma next_dir:
  assumes "unat a < unat KERNBASE"
  shows "unat (PGADDR (PDX a + 1) 0 0 - PGSIZE + PGSIZE) = (unat a div 4194304 + 1) * 4194304"
    and "aligned (PGADDR (PDX a + 1) 0 0 - PGSIZE + PGSIZE)"
proof -
  have "unat a div 4194304 < 512" using assms by (simp add: KERNBASE_def)
  moreover have "unat (PDX a) + 1 < 1024" using calculation by (simp add: unat_PDX)
  then have "unat (PDX a + 1) = unat a div 4194304 + 1"
    by (intro trans [OF unat_add32]) (simp_all add: unat_PDX)
  moreover have "unat (push_bit 22 d) = unat d * 4194304 mod 4294967296" for d :: uint
    by (simp add: push_bit_eq_mult unat_word_ariths)
  ultimately show "unat (PGADDR (PDX a + 1) 0 0 - PGSIZE + PGSIZE) = (unat a div 4194304 + 1) * 4194304"
    by (simp only: PGADDR_def PDXSHIFT_def diff_add_cancel) simp
  then show "aligned (PGADDR (PDX a + 1) 0 0 - PGSIZE + PGSIZE)"
    by (simp only: aligned_dvd) (simp add: dvd_mult)
qed

lemma unmapped_step:
  assumes m: "mapped (mem s) pgdir 0 hi a" and al: "aligned a" and lt: "unat a < hi'"
    and ptes: "\<And>v. pte_val (mem s2) pgdir v = (if PGROUNDDOWN v = a then 0 else pte_val (mem s) pgdir v)"
    and pages: "pt_pages (mem s2) pgdir = pt_pages (mem s) pgdir"
    and off: "same_off (insert (uframe (mem s) pgdir a) (pt_pages (mem s) pgdir)) (mem s) (mem s2)"
    and syms: "end_sym s2 = end_sym s" "data_sym s2 = data_sym s"
    and rest: "unmapped pgdir hi (unat a + 4096) hi' (uframe (mem s) pgdir a # fs) s2 fs' s'"
  shows "unmapped pgdir hi (unat a) hi' fs s fs' s'"
proof -
  let ?f = "uframe (mem s) pgdir a"
  note fp = frames_page [OF m al order_refl order_refl lt ptes]
  from rest obtain new where new: "fs' = new @ ?f # fs" "set new = frames (mem s2) pgdir (unat a + 4096) hi'"
    "same_off (pt_pages (mem s2) pgdir \<union> set new) (mem s2) (mem s')"
    by (auto simp: unmapped_def)
  have "same_off (pt_pages (mem s) pgdir \<union> set (new @ [?f])) (mem s) (mem s')"
    by (rule same_off_trans [OF same_off_mono [OF off] same_off_mono [OF new(3)]]) (auto simp: pages)
  moreover have "set (new @ [?f]) = frames (mem s) pgdir (unat a) hi'" using fp(1) new(2) by simp
  moreover have "fs' = (new @ [?f]) @ fs" using new(1) by simp
  ultimately have "\<exists>new. fs' = new @ fs \<and> set new = frames (mem s) pgdir (unat a) hi' \<and>
      same_off (pt_pages (mem s) pgdir \<union> set new) (mem s) (mem s')" by blast
  moreover have "pte_val (mem s') pgdir v = (if mapped (mem s) pgdir (unat a) hi' v then 0 else pte_val (mem s) pgdir v)" for v
    using rest by (simp add: unmapped_def fp(2) ptes)
  ultimately show ?thesis using rest syms pages by (simp add: unmapped_def)
qed

lemma absent_table:
  assumes "\<not> present (pde_at m pgdir (unat (PDX a)))" and "unat a \<le> unat (PGROUNDDOWN v)"
    and "unat (PGROUNDDOWN v) < (unat a div 4194304 + 1) * 4194304"
  shows "pte_val m pgdir v = 0"
proof -
  let ?q = "unat v div 4096"
  have q: "unat a \<le> ?q * 4096" "?q * 4096 < (unat a div 4194304 + 1) * 1024 * 4096"
    using assms(2,3) by (simp_all add: unat_PGROUNDDOWN)
  then have "?q < (unat a div 4194304 + 1) * 1024" by simp
  then have "?q div 1024 \<le> unat a div 4194304" by (simp add: div_less_iff_less_mult less_Suc_eq_le flip: less_Suc_eq_le)
  moreover have "unat a div 4096 \<le> ?q" using div_le_mono [OF q(1), of 4096] by simp
  then have "unat a div 4194304 \<le> ?q div 1024" unfolding div_4M by (rule div_le_mono)
  ultimately have "unat (PDX v) = unat (PDX a)" by (simp add: unat_PDX div_4M)
  with assms(1) show ?thesis by (simp add: pte_val_def pte_at_def)
qed

lemma deallocuvm_loop_ok:
  assumes "user_inv pgdir hi fs s" and "aligned a" and "unat oldsz \<le> hi" and "unat oldsz \<le> unat KERNBASE"
    and "0 < fuel" and "unat oldsz \<le> unat a + 4096 * (fuel - 1)"
  shows "ok (deallocuvm_loop fuel pgdir a oldsz) s (\<lambda>_ s'. \<exists>fs'. unmapped pgdir hi (unat a) (unat oldsz) fs s fs' s')"
  using assms
proof (induction fuel arbitrary: a fs s)
  case 0
  then show ?case by simp
next
  case (Suc fuel)
  show ?case
  proof (cases "a < oldsz")
    case False
    then show ?thesis using Suc.prems(1)
      by (auto simp: wp mapped_def word_less_nat_alt intro!: exI unmapped_none)
  next
    case True
    then have lt: "unat a < unat oldsz" by (simp add: word_less_nat_alt)
    then have ak: "unat a < unat KERNBASE" using Suc.prems(4) by simp
    have fuel: "0 < fuel" "unat oldsz \<le> unat a + 4096 + 4096 * (fuel - 1)"
      using Suc.prems(6) lt by (cases fuel; simp)+
    have a4: "unat (a + PGSIZE) = unat a + 4096"
      using ak by (intro trans [OF unat_add32]) (simp_all add: PGSIZE_def KERNBASE_def)
    have al4: "aligned (a + PGSIZE)" using Suc.prems(2) by (simp add: aligned_add)
    have a: "PGROUNDDOWN a = a" using Suc.prems(2) by (rule PGROUNDDOWN_aligned)
    have skip: "ok (deallocuvm_loop fuel pgdir b oldsz) s (\<lambda>_ s'. \<exists>fs'. unmapped pgdir hi (unat a) (unat oldsz) fs s fs' s')"
      if b: "aligned b" "unat a + 4096 \<le> unat b" and none: "\<And>v. mapped (mem s) pgdir (unat a) (unat oldsz) v \<Longrightarrow> unat b \<le> unat (PGROUNDDOWN v)" for b
    proof -
      have "mapped (mem s) pgdir (unat a) (unat oldsz) v = mapped (mem s) pgdir (unat b) (unat oldsz) v" for v
        using none [of v] b(2) by (auto simp: mapped_def)
      from unmapped_cong [OF this] Suc.IH [OF Suc.prems(1) b(1) Suc.prems(3,4) fuel(1)] b(2) fuel(2) show ?thesis by simp
    qed
    show ?thesis
    proof (cases "present (pde_at (mem s) pgdir (unat (PDX a)))")
      case False
      let ?b = "PGADDR (PDX a + 1) 0 0 - PGSIZE + PGSIZE"
      note nd = next_dir [OF ak]
      have "unat a < unat ?b" unfolding nd(1) using dividend_less_div_times [of 4194304 "unat a"] by simp
      from aligned_step(2) [OF Suc.prems(2) nd(2) this] have "unat a + 4096 \<le> unat ?b" .
      moreover have "unat ?b \<le> unat (PGROUNDDOWN v)" if "mapped (mem s) pgdir (unat a) (unat oldsz) v" for v
        using that absent_table [OF False, of v] unfolding nd(1) by (force simp: mapped_def)
      ultimately have "ok (deallocuvm_loop fuel pgdir ?b oldsz) s (\<lambda>_ s'. \<exists>fs'. unmapped pgdir hi (unat a) (unat oldsz) fs s fs' s')"
        by (rule skip [OF nd(2)])
      then show ?thesis using True by (simp add: wp ok_Done_eq walk_absent [OF False])
    next
      case pde: True
      note walk = walk_present [OF pde, of False] and load = load_pte [OF pde]
      have nz: "pte_addr (mem s) pgdir a \<noteq> 0"
        using user_invD(1) [OF Suc.prems(1)] pde PDX_lt [of a]
        by (intro pte_addr_not_0 [of s]) (simp add: vm_inv_def pt_inv_def)
      show ?thesis
      proof (cases "present (pte_val (mem s) pgdir a)")
        case False
        have "unat (a + PGSIZE) \<le> unat (PGROUNDDOWN v)" if "mapped (mem s) pgdir (unat a) (unat oldsz) v" for v
          using that page_cases [OF Suc.prems(2), of v] False pte_val_page [of v a "mem s" pgdir] a a4 by (auto simp: mapped_def)
        then show ?thesis
          using True False nz load skip [OF al4] a4 by (simp add: wp ok_Done_eq walk get32_def present_def)
      next
        case pr: True
        have m: "mapped (mem s) pgdir 0 hi a" using pr lt Suc.prems(3) a by (simp add: mapped_def)
        note rel = release_page [OF Suc.prems(1) m]
        let ?f = "uframe (mem s) pgdir a"
        let ?s1 = "s\<lparr>mem := kfree_mem ?f (freelist s) (mem s), freelist := ?f\<rparr>"
        let ?s2 = "?s1\<lparr>mem := store32 (pte_addr (mem s) pgdir a) 0 (mem ?s1)\<rparr>"
        have "ok (deallocuvm_loop fuel pgdir (a + PGSIZE) oldsz) ?s2
            (\<lambda>_ s'. \<exists>fs'. unmapped pgdir hi (unat (a + PGSIZE)) (unat oldsz) (?f # fs) ?s2 fs' s')"
          by (rule Suc.IH [OF rel(2) al4 Suc.prems(3,4) fuel(1)]) (use fuel(2) a4 in simp)
        then have "ok (deallocuvm_loop fuel pgdir (a + PGSIZE) oldsz) ?s2
            (\<lambda>_ s'. \<exists>fs'. unmapped pgdir hi (unat a) (unat oldsz) fs s fs' s')"
          unfolding a4
          by (rule ok_mono) (use unmapped_step [OF m Suc.prems(2) lt _ rel(4,5), unfolded a, OF rel(3) [unfolded a]] in auto)
        moreover have "P2V (PTE_ADDR (pte_val (mem s) pgdir a)) = ?f" by (simp add: uframe_def)
        ultimately show ?thesis
          using True pr nz load rel(6) rel(1)
          by (simp add: wp ok_Done_eq walk get32_def present_def set_mem_def)
      qed
    qed
  qed
qed

lemma deallocuvm_ok:
  assumes "user_inv pgdir hi fs s" and "newsz < oldsz" and "unat oldsz \<le> hi" and "unat oldsz \<le> unat KERNBASE"
  shows "ok (deallocuvm pgdir oldsz newsz) s (\<lambda>r s'. r = newsz \<and>
     (\<exists>fs'. unmapped pgdir hi (unat (PGROUNDUP newsz)) (unat oldsz) fs s fs' s'))"
proof -
  have "ok (deallocuvm_loop 1048577 pgdir (PGROUNDUP newsz) oldsz) s
     (\<lambda>_ s'. \<exists>fs'. unmapped pgdir hi (unat (PGROUNDUP newsz)) (unat oldsz) fs s fs' s')"
    by (rule deallocuvm_loop_ok [OF assms(1)]) (use assms(3,4) unat_lt32 [of oldsz] in simp_all)
  moreover have "\<not> oldsz \<le> newsz" using assms(2) by simp
  ultimately show ?thesis by (simp add: deallocuvm_def wp)
qed

lemma freevm_entry_eq:
  "freevm_entry pgdir i s = (if present (pde_at (mem s) pgdir i) then kfree (tab (mem s) pgdir i) s else Done () s)"
  by (simp add: freevm_entry_def get32_def bnd_def gets_def whenk_def ret_def present_def pde_at_def tab_def)

lemma freevm_entries:
  assumes "kmem_inv fs s" and "same_on {pgdir} m (mem s)" and "aligned pgdir" and "distinct is"
    and "\<forall>i \<in> set is. i < 1024 \<and> (present (pde_at m pgdir i) \<longrightarrow>
           vframe s (tab m pgdir i) \<and> tab m pgdir i \<noteq> pgdir \<and> tab m pgdir i \<notin> set fs)"
    and "inj_on (tab m pgdir) {i \<in> set is. present (pde_at m pgdir i)}"
  shows "ok (foreach is (freevm_entry pgdir)) s (\<lambda>_ s'. \<exists>new. kmem_inv (new @ fs) s' \<and>
     set new = tab m pgdir ` {i \<in> set is. present (pde_at m pgdir i)} \<and> same_off (set new) (mem s) (mem s') \<and>
     end_sym s' = end_sym s \<and> data_sym s' = data_sym s)"
  using assms
proof (induction "is" arbitrary: fs s)
  case Nil
  then show ?case by (simp add: wp)
next
  case (Cons i js)
  have pde: "pde_at (mem s) pgdir i = pde_at m pgdir i"
    using pde_at_same_on [OF Cons.prems(2) _ Cons.prems(3), of i] Cons.prems(5) by simp
  then have tab: "tab (mem s) pgdir i = tab m pgdir i" by (simp add: tab_def)
  show ?case
  proof (cases "present (pde_at m pgdir i)")
    case False
    then have "{k \<in> set (i # js). present (pde_at m pgdir k)} = {k \<in> set js. present (pde_at m pgdir k)}" by auto
    with False pde Cons.IH [OF Cons.prems(1-3)] Cons.prems(4-6) show ?thesis
      by (simp add: wp ok_Done_eq freevm_entry_eq)
  next
    case True
    let ?t = "tab m pgdir i"
    let ?s = "s\<lparr>mem := kfree_mem ?t (freelist s) (mem s), freelist := ?t\<rparr>"
    have t: "vframe s ?t" "?t \<noteq> pgdir" "?t \<notin> set fs" using Cons.prems(5) True by simp_all
    have eq: "{k \<in> set (i # js). present (pde_at m pgdir k)} = insert i {k \<in> set js. present (pde_at m pgdir k)}"
      using True by auto
    have off: "same_off {?t} (mem s) (mem ?s)" using same_off_kfree_mem [OF vframe_aligned [OF t(1)]] by simp
    have "ok (foreach js (freevm_entry pgdir)) ?s (\<lambda>_ s'. \<exists>new. kmem_inv (new @ ?t # fs) s' \<and>
       set new = tab m pgdir ` {i \<in> set js. present (pde_at m pgdir i)} \<and> same_off (set new) (mem ?s) (mem s') \<and>
       end_sym s' = end_sym ?s \<and> data_sym s' = data_sym ?s)"
    proof (rule Cons.IH [OF kmem_inv_push [OF Cons.prems(1) t(1,3)]])
      show "same_on {pgdir} m (mem ?s)"
        using Cons.prems(2) same_off_on [OF off, of "{pgdir}"] t(2) by (simp add: same_on_def)
      have "?t \<noteq> tab m pgdir k" if "k \<in> set js" "present (pde_at m pgdir k)" for k
        using Cons.prems(4,6) that True unfolding eq by (auto simp: inj_on_def)
      then show "\<forall>i \<in> set js. i < 1024 \<and> (present (pde_at m pgdir i) \<longrightarrow>
          vframe ?s (tab m pgdir i) \<and> tab m pgdir i \<noteq> pgdir \<and> tab m pgdir i \<notin> set (?t # fs))"
        using Cons.prems(5) by (auto simp: vframe_def dest: sym)
      show "inj_on (tab m pgdir) {i \<in> set js. present (pde_at m pgdir i)}"
        using Cons.prems(6) by (rule inj_on_subset) auto
    qed (use Cons.prems in simp_all)
    then have "ok (foreach js (freevm_entry pgdir)) ?s (\<lambda>_ s'. \<exists>new. kmem_inv (new @ fs) s' \<and>
       set new = tab m pgdir ` {k \<in> set (i # js). present (pde_at m pgdir k)} \<and> same_off (set new) (mem s) (mem s') \<and>
       end_sym s' = end_sym s \<and> data_sym s' = data_sym s)"
    proof (rule ok_mono, elim exE conjE)
      fix x :: unit and s' new
      assume new: "kmem_inv (new @ ?t # fs) s'" "set new = tab m pgdir ` {i \<in> set js. present (pde_at m pgdir i)}"
        "same_off (set new) (mem ?s) (mem s')" "end_sym s' = end_sym ?s" "data_sym s' = data_sym ?s"
      have "same_off (set (new @ [?t])) (mem s) (mem s')"
        by (rule same_off_trans [OF same_off_mono [OF off] same_off_mono [OF new(3)]]) auto
      then show "\<exists>new. kmem_inv (new @ fs) s' \<and>
       set new = tab m pgdir ` {k \<in> set (i # js). present (pde_at m pgdir k)} \<and> same_off (set new) (mem s) (mem s') \<and>
       end_sym s' = end_sym s \<and> data_sym s' = data_sym s"
        unfolding eq using new by (intro exI [of _ "new @ [?t]"]) simp
    qed
    moreover have "kfree ?t s = Done () ?s" by (rule kfree_Done [OF t(1)]) (use Cons.prems(1) in \<open>simp add: kmem_inv_def\<close>)
    then have "freevm_entry pgdir i s = Done () ?s" using True pde tab by (simp add: freevm_entry_eq)
    ultimately show ?thesis by (simp add: wp ok_Done_eq)
  qed
qed

text \<open>
  Freeing an address space returns exactly its frames below \<open>SHAREDBASE\<close>, its page tables and its
  directory to the allocator.
\<close>

lemma freevm_ok:
  assumes inv: "user_inv pgdir (unat SHAREDBASE) fs s"
  shows "ok (freevm pgdir) s (\<lambda>_ s'. \<exists>new. kmem_inv (new @ fs) s' \<and>
     set new = frames (mem s) pgdir 0 (unat SHAREDBASE) \<union> pt_pages (mem s) pgdir \<and>
     same_off (set new) (mem s) (mem s') \<and> end_sym s' = end_sym s \<and> data_sym s' = data_sym s)"
proof -
  let ?hi = "unat SHAREDBASE"
  have vm: "vm_inv pgdir fs s" by (rule user_invD(1) [OF inv])
  have nz: "pgdir \<noteq> 0" using vm vframe_not_0 by (auto simp: vm_inv_def pt_inv_def)
  have "ok (deallocuvm pgdir SHAREDBASE 0) s (\<lambda>r s1. \<exists>fs1. unmapped pgdir ?hi 0 ?hi fs s fs1 s1)"
    using deallocuvm_ok [OF inv, of 0 SHAREDBASE]
    by (simp add: SHAREDBASE_def KERNBASE_def PGROUNDUP_def PGSIZE_def) (erule ok_mono, simp)
  then have "ok (deallocuvm pgdir SHAREDBASE 0) s (\<lambda>_ s1. ok (seqk (foreach [0..<NPDENTRIES] (freevm_entry pgdir)) (kfree pgdir)) s1
     (\<lambda>_ s'. \<exists>new. kmem_inv (new @ fs) s' \<and> set new = frames (mem s) pgdir 0 ?hi \<union> pt_pages (mem s) pgdir \<and>
        same_off (set new) (mem s) (mem s') \<and> end_sym s' = end_sym s \<and> data_sym s' = data_sym s))"
  proof (rule ok_mono, elim exE)
    fix x :: uint and s1 fs1
    assume un: "unmapped pgdir ?hi 0 ?hi fs s fs1 s1"
    then obtain n1 where n1: "fs1 = n1 @ fs" "set n1 = frames (mem s) pgdir 0 ?hi"
      "same_off (pt_pages (mem s) pgdir \<union> set n1) (mem s) (mem s1)"
      and inv1: "user_inv pgdir ?hi fs1 s1" and pages: "pt_pages (mem s1) pgdir = pt_pages (mem s) pgdir"
      and syms: "end_sym s1 = end_sym s" "data_sym s1 = data_sym s"
      by (auto simp: unmapped_def)
    have vm1: "vm_inv pgdir fs1 s1" by (rule user_invD(1) [OF inv1])
    then have k1: "kmem_inv fs1 s1" and p1: "pt_inv pgdir s1" and d1: "pt_pages (mem s1) pgdir \<inter> set fs1 = {}"
      by (simp_all add: vm_inv_def)
    let ?T = "tab (mem s1) pgdir ` {i \<in> set [0..<NPDENTRIES]. present (pde_at (mem s1) pgdir i)}"
    have T: "insert pgdir ?T = pt_pages (mem s1) pgdir" by (auto simp: pt_pages_def tables_def NPDENTRIES_def)
    have "ok (foreach [0..<NPDENTRIES] (freevm_entry pgdir)) s1 (\<lambda>_ s2. \<exists>new. kmem_inv (new @ fs1) s2 \<and>
       set new = ?T \<and> same_off (set new) (mem s1) (mem s2) \<and> end_sym s2 = end_sym s1 \<and> data_sym s2 = data_sym s1)"
    proof (rule freevm_entries [OF k1])
      show "inj_on (tab (mem s1) pgdir) {i \<in> set [0..<NPDENTRIES]. present (pde_at (mem s1) pgdir i)}"
        using p1 by (auto simp: inj_on_def pt_inv_def NPDENTRIES_def)
      show "\<forall>i \<in> set [0..<NPDENTRIES]. i < 1024 \<and> (present (pde_at (mem s1) pgdir i) \<longrightarrow> vframe s1 (tab (mem s1) pgdir i) \<and>
          tab (mem s1) pgdir i \<noteq> pgdir \<and> tab (mem s1) pgdir i \<notin> set fs1)"
        using p1 d1 tab_in_pt_pages [of _ "mem s1" pgdir] by (auto simp: pt_inv_def NPDENTRIES_def disjoint_iff)
    qed (use p1 in \<open>simp_all add: same_on_def pt_inv_aligned\<close>)
    then show "ok (seqk (foreach [0..<NPDENTRIES] (freevm_entry pgdir)) (kfree pgdir)) s1
     (\<lambda>_ s'. \<exists>new. kmem_inv (new @ fs) s' \<and> set new = frames (mem s) pgdir 0 ?hi \<union> pt_pages (mem s) pgdir \<and>
        same_off (set new) (mem s) (mem s') \<and> end_sym s' = end_sym s \<and> data_sym s' = data_sym s)"
      unfolding ok_seqk
    proof (rule ok_mono, elim exE conjE)
      fix y :: unit and s2 n2
      assume n2: "kmem_inv (n2 @ fs1) s2" "set n2 = ?T" "same_off (set n2) (mem s1) (mem s2)"
        "end_sym s2 = end_sym s1" "data_sym s2 = data_sym s1"
      let ?s = "s2\<lparr>mem := kfree_mem pgdir (freelist s2) (mem s2), freelist := pgdir\<rparr>"
      have pd: "vframe s2 pgdir" using p1 n2(4) by (simp add: pt_inv_def vframe_def)
      have "pgdir \<notin> set n2" using n2(2) p1 by (auto simp: pt_inv_def NPDENTRIES_def)
      moreover have "pgdir \<notin> set fs1" using d1 pgdir_in_pt_pages by blast
      ultimately have "kmem_inv (pgdir # n2 @ fs1) ?s" by (intro kmem_inv_push [OF n2(1) pd]) simp
      moreover have "same_off (set (pgdir # n2 @ n1)) (mem s) (mem ?s)"
      proof (rule same_off_trans [OF same_off_mono [OF n1(3)] same_off_trans [OF same_off_mono [OF n2(3)]]])
        show "same_off (set (pgdir # n2 @ n1)) (mem s2) (mem ?s)"
          using same_off_mono [OF same_off_kfree_mem [OF vframe_aligned [OF pd]]] by simp
      qed (use T n2(2) pages in auto)
      moreover have "set (pgdir # n2 @ n1) = frames (mem s) pgdir 0 ?hi \<union> pt_pages (mem s) pgdir"
        using T n2(2) n1(2) pages by auto
      ultimately have "\<exists>new. kmem_inv (new @ fs) ?s \<and> set new = frames (mem s) pgdir 0 ?hi \<union> pt_pages (mem s) pgdir \<and>
        same_off (set new) (mem s) (mem ?s) \<and> end_sym ?s = end_sym s \<and> data_sym ?s = data_sym s"
        using n1(1) n2(4,5) syms by (intro exI [of _ "pgdir # n2 @ n1"]) simp
      moreover have "kfree pgdir s2 = Done () ?s" by (rule kfree_Done [OF pd]) (use n2(1) in \<open>simp add: kmem_inv_def\<close>)
      ultimately show "ok (kfree pgdir) s2
     (\<lambda>_ s'. \<exists>new. kmem_inv (new @ fs) s' \<and> set new = frames (mem s) pgdir 0 ?hi \<union> pt_pages (mem s) pgdir \<and>
        same_off (set new) (mem s) (mem s') \<and> end_sym s' = end_sym s \<and> data_sym s' = data_sym s)"
        by (simp add: ok_Done_eq)
    qed
  qed
  then show ?thesis using nz by (simp add: freevm_def ok_bnd)
qed

end
