(* ===== verification/UserSpace.thy ===== *)
theory UserSpace
  imports AddrSpace
begin

text \<open>
  Growing the user part of an address space with fresh pages (\<open>allocuvm\<close>), setting up the kernel
  part (\<open>setupkvm\<close>) and copying an address space for a child (\<open>copyuvm\<close>), all of
  \<^verbatim>\<open>kernel/vm.c\<close>: what each maps, where the pages come from, and that a failure gives every page back.
\<close>

section \<open>One more page\<close>

lemma frame_entry:
  assumes "aligned f" and "unat perm < 4096"
  shows "P2V (PTE_ADDR (V2P f OR perm OR PTE_P)) = f" and "present (V2P f OR perm OR PTE_P)"
    and "PTE_FLAGS (V2P f OR perm OR PTE_P) = perm OR PTE_P"
proof -
  have "unat (perm OR PTE_P) < 4096" using assms(2) by (intro or_lt_4096) (simp_all add: PTE_P_def)
  then show "P2V (PTE_ADDR (V2P f OR perm OR PTE_P)) = f" "PTE_FLAGS (V2P f OR perm OR PTE_P) = perm OR PTE_P"
    using PTE_ADDR_or [of "V2P f" "perm OR PTE_P"] assms(1) by simp_all
  show "present (V2P f OR perm OR PTE_P)" using present_or [of "V2P f OR perm"] by (simp add: or.assoc)
qed

text \<open>
  A page \<open>f\<close> just taken from the allocator and filled is mapped at \<open>a\<close>; if there is no page left
  for a page table, nothing changes but the content of \<open>f\<close>.
\<close>

lemma add_page:
  assumes inv: "user_inv pgdir hi (f # fs) s" and a: "aligned a" "unat a < hi" and perm: "unat perm < 4096"
    and absent: "\<not> present (pte_val (mem s) pgdir a)" and M: "same_off {f} (mem s) M"
  defines "s2 \<equiv> s\<lparr>freelist := load32 (mem s) f, mem := M\<rparr>"
  shows "ok (mappages pgdir a PGSIZE (V2P f) perm) s2 (\<lambda>r s3.
     end_sym s3 = end_sym s \<and> data_sym s3 = data_sym s \<and> (\<forall>x. PGROUNDDOWN x = f \<longrightarrow> mem s3 x = M x) \<and>
     (r = 0 \<and> (\<exists>used fs'. fs = used @ fs' \<and> user_inv pgdir hi fs' s3 \<and>
        pt_pages (mem s3) pgdir = pt_pages (mem s) pgdir \<union> set used \<and>
        same_off (insert f (pt_pages (mem s3) pgdir)) (mem s) (mem s3)) \<and>
        (\<forall>v. pte_val (mem s3) pgdir v = (if PGROUNDDOWN v = a then V2P f OR perm OR PTE_P else pte_val (mem s) pgdir v)) \<or>
      r = -1 \<and> fs = [] \<and> user_inv pgdir hi [] s3 \<and> pt_pages (mem s3) pgdir = pt_pages (mem s) pgdir \<and>
        same_off (insert f (pt_pages (mem s3) pgdir)) (mem s) (mem s3) \<and>
        (\<forall>v. pte_val (mem s3) pgdir v = pte_val (mem s) pgdir v)))"
proof -
  have vm: "vm_inv pgdir (f # fs) s" by (rule user_invD(1) [OF inv])
  then have k: "kmem_inv (f # fs) s" and pt: "pt_inv pgdir s" and f: "f \<notin> pt_pages (mem s) pgdir" "f \<notin> set fs" "aligned f" "vframe s f"
    and disj: "pt_pages (mem s) pgdir \<inter> set fs = {}"
    by (auto simp: vm_inv_def kmem_inv_def vframe_def)
  have on: "same_on (pt_pages (mem s) pgdir) (mem s) M" by (rule same_off_on [OF M]) (use f in simp)
  note view = pt_view_same_on [OF on pt]
  have m2: "mem s2 = M" "end_sym s2 = end_sym s" "data_sym s2 = data_sym s" by (simp_all add: s2_def)
  have k2: "kmem_inv fs s2"
  proof -
    have "same_on (set fs) (mem s) M" by (rule same_off_on [OF M]) (use f in simp)
    then show ?thesis using kmem_inv_frame [OF kmem_inv_pop [OF k], of s2] by (simp add: s2_def)
  qed
  have vm2: "vm_inv pgdir fs s2"
    using k2 pt_inv_same_on [OF _ pt, of s2] on disj view(4) by (simp add: vm_inv_def m2)
  have fr: "f \<notin> set fs \<union> pt_pages (mem s2) pgdir" using f view(4) by (simp add: m2)
  show ?thesis
  proof (rule ok_mono [OF mappages_page [OF vm2 a(1)]], goal_cases)
    case 1
    show ?case using absent view(3) by (simp add: m2)
  next
    case (2 r s3)
    then obtain fs' where g: "grows pgdir fs s2 fs' s3"
      and res: "r = 0 \<and> (\<forall>v. pte_val (mem s3) pgdir v = (if PGROUNDDOWN v = a then V2P f OR perm OR PTE_P else pte_val (mem s) pgdir v)) \<or>
       r = -1 \<and> fs = [] \<and> fs' = [] \<and> (\<forall>v. pte_val (mem s3) pgdir v = pte_val (mem s) pgdir v)"
      using view(3) by (auto simp: m2)
    obtain used where used: "fs = used @ fs'" "pt_pages (mem s3) pgdir = pt_pages (mem s) pgdir \<union> set used"
      "same_off (pt_pages (mem s3) pgdir) M (mem s3)" "end_sym s3 = end_sym s" "data_sym s3 = data_sym s"
      using g view(4) by (auto simp: grows_def m2)
    have f3: "f \<notin> pt_pages (mem s3) pgdir" using fr used(1,2) view(4) by (auto simp: m2)
    have page: "\<forall>x. PGROUNDDOWN x = f \<longrightarrow> mem s3 x = M x" using used(3) f3 by (auto simp: same_off_def)
    have off: "same_off (insert f (pt_pages (mem s3) pgdir)) (mem s) (mem s3)"
      by (rule same_off_trans [OF same_off_mono [OF M] same_off_mono [OF used(3)]]) auto
    have base: "unat KERNBASE < unat (end_sym s3)" using user_invD(2) [OF inv] used(4) by simp
    have old: "vframe s3 (uframe (mem s) pgdir v)" "uframe (mem s) pgdir v \<notin> pt_pages (mem s3) pgdir"
      "uframe (mem s) pgdir v \<notin> set fs'" "uframe (mem s) pgdir v \<noteq> f" if "mapped (mem s) pgdir 0 hi v" for v
      using user_invD(3-5) [OF inv that] used(1,2) vframe_cong [OF used(4)] by auto
    consider "r = 0" "\<And>v. pte_val (mem s3) pgdir v = (if PGROUNDDOWN v = a then V2P f OR perm OR PTE_P else pte_val (mem s) pgdir v)"
      | "r = -1" "fs = []" "fs' = []" "\<And>v. pte_val (mem s3) pgdir v = pte_val (mem s) pgdir v"
      using res by blast
    then show ?case
    proof cases
      case 1
      have fr1: "uframe (mem s3) pgdir v = (if PGROUNDDOWN v = a then f else uframe (mem s) pgdir v)" for v
        by (simp add: uframe_def 1(2) frame_entry(1) [OF f(3) perm])
      have map1: "mapped (mem s3) pgdir 0 hi v \<longleftrightarrow> PGROUNDDOWN v = a \<or> mapped (mem s) pgdir 0 hi v \<and> PGROUNDDOWN v \<noteq> a" for v
        using a(2) frame_entry(2) [OF f(3) perm] by (auto simp: mapped_def 1(2))
      have "user_inv pgdir hi fs' s3"
      proof (rule user_invI [OF grows_inv [OF g] base])
        fix v
        assume v: "mapped (mem s3) pgdir 0 hi v"
        show "vframe s3 (uframe (mem s3) pgdir v)" "uframe (mem s3) pgdir v \<notin> pt_pages (mem s3) pgdir" "uframe (mem s3) pgdir v \<notin> set fs'"
          using v old [of v] f f3 used(1) vframe_cong [OF used(4)] by (auto simp: map1 fr1)
        fix w
        assume w: "mapped (mem s3) pgdir 0 hi w" "uframe (mem s3) pgdir v = uframe (mem s3) pgdir w"
        show "PGROUNDDOWN v = PGROUNDDOWN w"
        proof (cases "PGROUNDDOWN v = a \<or> PGROUNDDOWN w = a")
          case True
          then show ?thesis using v w old(4) [of v] old(4) [of w] by (auto simp: map1 fr1 split: if_splits)
        next
          case False
          then show ?thesis by (intro user_invD(6) [OF inv]) (use v w in \<open>simp_all add: map1 fr1\<close>)
        qed
      qed
      then show ?thesis using 1 used(1,2,4,5) page off by blast
    next
      case 2
      have mp: "mapped (mem s3) pgdir 0 hi v = mapped (mem s) pgdir 0 hi v" and uf: "uframe (mem s3) pgdir v = uframe (mem s) pgdir v" for v
        by (simp_all add: mapped_def uframe_def 2(4))
      have "user_inv pgdir hi [] s3"
      proof (rule user_invI [OF _ base])
        show "vm_inv pgdir [] s3" using grows_inv [OF g] 2(3) by simp
        show "PGROUNDDOWN v = PGROUNDDOWN w" if "mapped (mem s3) pgdir 0 hi v" "mapped (mem s3) pgdir 0 hi w"
          "uframe (mem s3) pgdir v = uframe (mem s3) pgdir w" for v w
          by (rule user_invD(6) [OF inv]) (use that in \<open>simp_all only: mp uf\<close>)
      qed (use old in \<open>simp_all add: mp uf\<close>)
      then show ?thesis using 2 used page off by simp
    qed
  qed
qed

section \<open>Growing the user part\<close>

lemma user_inv_push:
  assumes inv: "user_inv pgdir hi fs s" and f: "vframe s f" "f \<notin> set fs" "f \<notin> pt_pages (mem s) pgdir" "f \<notin> frames (mem s) pgdir 0 hi"
  defines "s1 \<equiv> s\<lparr>mem := kfree_mem f (freelist s) (mem s), freelist := f\<rparr>"
  shows "kfree f s = Done () s1" and "user_inv pgdir hi (f # fs) s1" and "pte_val (mem s1) pgdir v = pte_val (mem s) pgdir v"
    and "pt_pages (mem s1) pgdir = pt_pages (mem s) pgdir" and "same_off {f} (mem s) (mem s1)"
proof -
  have vm: "vm_inv pgdir fs s" by (rule user_invD(1) [OF inv])
  then have k: "kmem_inv fs s" and pt: "pt_inv pgdir s" by (simp_all add: vm_inv_def)
  show "kfree f s = Done () s1"
    unfolding s1_def by (rule kfree_Done [OF f(1)]) (use k in \<open>simp add: kmem_inv_def\<close>)
  show off: "same_off {f} (mem s) (mem s1)"
    unfolding s1_def using same_off_kfree_mem [OF vframe_aligned [OF f(1)]] by simp
  have on: "same_on (pt_pages (mem s) pgdir) (mem s) (mem s1)" by (rule same_off_on [OF off]) (use f(3) in simp)
  note view = pt_view_same_on [OF on pt]
  show ptes: "pte_val (mem s1) pgdir v = pte_val (mem s) pgdir v" for v by (rule view(3))
  show pages: "pt_pages (mem s1) pgdir = pt_pages (mem s) pgdir" by (rule view(4))
  have syms: "end_sym s1 = end_sym s" by (simp add: s1_def)
  have vm1: "vm_inv pgdir (f # fs) s1"
    using kmem_inv_push [OF k f(1,2)] pt_inv_same_on [OF on pt syms] vm f(3) pages by (simp add: vm_inv_def s1_def)
  have mp: "mapped (mem s1) pgdir 0 hi v = mapped (mem s) pgdir 0 hi v" and uf: "uframe (mem s1) pgdir v = uframe (mem s) pgdir v" for v
    by (simp_all add: mapped_def uframe_def ptes)
  show "user_inv pgdir hi (f # fs) s1"
  proof (rule user_invI [OF vm1])
    show "unat KERNBASE < unat (end_sym s1)" using user_invD(2) [OF inv] syms by simp
    show "PGROUNDDOWN v = PGROUNDDOWN w" if "mapped (mem s1) pgdir 0 hi v" "mapped (mem s1) pgdir 0 hi w"
      "uframe (mem s1) pgdir v = uframe (mem s1) pgdir w" for v w
      by (rule user_invD(6) [OF inv]) (use that in \<open>simp_all only: mp uf\<close>)
    fix v
    assume "mapped (mem s1) pgdir 0 hi v"
    then have v: "mapped (mem s) pgdir 0 hi v" by (simp add: mp)
    show "vframe s1 (uframe (mem s1) pgdir v)" "uframe (mem s1) pgdir v \<notin> pt_pages (mem s1) pgdir"
      using user_invD(3,4) [OF inv v] by (simp_all add: uf pages vframe_cong [OF syms])
    show "uframe (mem s1) pgdir v \<notin> set (f # fs)"
      using user_invD(5) [OF inv v] f(4) v by (auto simp: uf frames_def)
  qed
qed

text \<open>
  The pages from \<open>lo\<close> up to \<open>lim\<close> got frames of their own, filled with zeros and open to the user;
  the pages taken from the allocator are exactly these frames and the new page tables.
\<close>

definition allocated :: "addr \<Rightarrow> nat \<Rightarrow> nat \<Rightarrow> nat \<Rightarrow> addr list \<Rightarrow> kmem \<Rightarrow> addr list \<Rightarrow> kmem \<Rightarrow> bool" where
  "allocated pgdir hi lo lim fs s fs' s' \<longleftrightarrow> user_inv pgdir hi fs' s' \<and>
     (\<exists>used. fs = used @ fs' \<and> pt_pages (mem s') pgdir \<union> frames (mem s') pgdir lo lim = pt_pages (mem s) pgdir \<union> set used \<and>
        same_off (pt_pages (mem s) pgdir \<union> set used) (mem s) (mem s') \<and>
        (\<forall>v. lo \<le> unat (PGROUNDDOWN v) \<longrightarrow> unat (PGROUNDDOWN v) < lim \<longrightarrow> (\<exists>f \<in> set used.
           pte_val (mem s') pgdir v = V2P f OR (PTE_W OR PTE_U) OR PTE_P \<and> (\<forall>x. PGROUNDDOWN x = f \<longrightarrow> mem s' x = 0)))) \<and>
     (\<forall>v. \<not> (lo \<le> unat (PGROUNDDOWN v) \<and> unat (PGROUNDDOWN v) < lim) \<longrightarrow> pte_val (mem s') pgdir v = pte_val (mem s) pgdir v) \<and>
     end_sym s' = end_sym s \<and> data_sym s' = data_sym s"

text \<open>
  The pages from \<open>lo\<close> up to \<open>lim\<close> are unmapped, and every page that was free or a frame of that range
  is free again or has become a page table.
\<close>

definition given_back :: "addr \<Rightarrow> nat \<Rightarrow> nat \<Rightarrow> nat \<Rightarrow> addr list \<Rightarrow> kmem \<Rightarrow> addr list \<Rightarrow> kmem \<Rightarrow> bool" where
  "given_back pgdir hi lo lim fs s fs' s' \<longleftrightarrow> user_inv pgdir hi fs' s' \<and>
     set fs' \<union> pt_pages (mem s') pgdir = set fs \<union> pt_pages (mem s) pgdir \<union> frames (mem s) pgdir lo lim \<and>
     pt_pages (mem s) pgdir \<subseteq> pt_pages (mem s') pgdir \<and>
     same_off (pt_pages (mem s) pgdir \<union> set fs \<union> frames (mem s) pgdir lo lim) (mem s) (mem s') \<and>
     (\<forall>v. if lo \<le> unat (PGROUNDDOWN v) \<and> unat (PGROUNDDOWN v) < lim then \<not> present (pte_val (mem s') pgdir v)
          else pte_val (mem s') pgdir v = pte_val (mem s) pgdir v) \<and>
     end_sym s' = end_sym s \<and> data_sym s' = data_sym s"

lemma unmapped_given_back:
  assumes "unmapped pgdir hi lo lim fs s fs' s'"
  shows "given_back pgdir hi lo lim fs s fs' s'"
proof -
  from assms obtain new where new: "fs' = new @ fs" "set new = frames (mem s) pgdir lo lim"
    "same_off (pt_pages (mem s) pgdir \<union> set new) (mem s) (mem s')"
    and pages: "pt_pages (mem s') pgdir = pt_pages (mem s) pgdir" and inv: "user_inv pgdir hi fs' s'"
    and ptes: "\<And>v. pte_val (mem s') pgdir v = (if mapped (mem s) pgdir lo lim v then 0 else pte_val (mem s) pgdir v)"
    and syms: "end_sym s' = end_sym s" "data_sym s' = data_sym s"
    by (auto simp: unmapped_def)
  have "same_off (pt_pages (mem s) pgdir \<union> set fs \<union> frames (mem s) pgdir lo lim) (mem s) (mem s')"
    using new(3) by (rule same_off_mono) (use new(2) in auto)
  moreover have "if lo \<le> unat (PGROUNDDOWN v) \<and> unat (PGROUNDDOWN v) < lim then \<not> present (pte_val (mem s') pgdir v)
          else pte_val (mem s') pgdir v = pte_val (mem s) pgdir v" for v
    by (auto simp: ptes mapped_def)
  ultimately show ?thesis
    unfolding given_back_def using inv pages syms new(1,2) by auto
qed

lemma given_back_push:
  assumes gb: "given_back pgdir hi lo lim fs s fs1 s1" and f: "vframe s f" "f \<notin> set fs" "f \<notin> pt_pages (mem s) pgdir"
    "f \<notin> frames (mem s) pgdir 0 hi" and lim: "lim \<le> hi"
  shows "ok (kfree f) s1 (\<lambda>_ s'. \<exists>fs'. user_inv pgdir hi fs' s' \<and> given_back pgdir hi lo lim (f # fs) s fs' s')"
proof -
  have inv1: "user_inv pgdir hi fs1 s1" and syms: "end_sym s1 = end_sym s" "data_sym s1 = data_sym s"
    and pages: "set fs1 \<union> pt_pages (mem s1) pgdir = set fs \<union> pt_pages (mem s) pgdir \<union> frames (mem s) pgdir lo lim"
    and off: "same_off (pt_pages (mem s) pgdir \<union> set fs \<union> frames (mem s) pgdir lo lim) (mem s) (mem s1)"
    using gb by (simp_all add: given_back_def)
  have sub: "frames (mem s) pgdir lo lim \<subseteq> frames (mem s) pgdir 0 hi"
    using lim by (auto simp: frames_def mapped_def)
  then have nin: "f \<notin> set fs1" "f \<notin> pt_pages (mem s1) pgdir" using pages f(2-4) by auto
  have "frames (mem s1) pgdir 0 hi \<subseteq> frames (mem s) pgdir 0 hi"
  proof
    fix g
    assume "g \<in> frames (mem s1) pgdir 0 hi"
    then obtain v where v: "g = uframe (mem s1) pgdir v" "mapped (mem s1) pgdir 0 hi v" by (auto simp: frames_def)
    then have "pte_val (mem s1) pgdir v = pte_val (mem s) pgdir v"
      using gb by (auto simp: given_back_def mapped_def split: if_splits)
    then show "g \<in> frames (mem s) pgdir 0 hi" using v by (auto simp: frames_def mapped_def uframe_def)
  qed
  then have nfr: "f \<notin> frames (mem s1) pgdir 0 hi" using f(4) by auto
  have vf: "vframe s1 f" using f(1) vframe_cong [OF syms(1)] by simp
  note push = user_inv_push [OF inv1 vf nin nfr]
  let ?s = "s1\<lparr>mem := kfree_mem f (freelist s1) (mem s1), freelist := f\<rparr>"
  have "same_off (pt_pages (mem s) pgdir \<union> set (f # fs) \<union> frames (mem s) pgdir lo lim) (mem s) (mem ?s)"
    by (rule same_off_trans [OF same_off_mono [OF off] same_off_mono [OF push(5)]]) auto
  then have "given_back pgdir hi lo lim (f # fs) s (f # fs1) ?s"
    unfolding given_back_def using push(2) gb pages syms
    by (simp add: given_back_def push(3,4) [simplified])
  then show ?thesis using push(1,2) by (auto simp: ok_Done_eq)
qed

lemma allocated_none:
  assumes "user_inv pgdir hi fs s" and "lim \<le> lo"
  shows "allocated pgdir hi lo lim fs s fs s"
proof -
  have "frames (mem s) pgdir lo lim = {}" using assms(2) by (auto simp: frames_def mapped_def)
  with assms show ?thesis by (auto simp: allocated_def)
qed

text \<open>A range that starts with the page \<open>a\<close>: the page first, then the rest of the range.\<close>

lemma frames_cons:
  assumes "aligned a" and "unat a < lim" and "present (pte_val m pgdir a)"
  shows "frames m pgdir (unat a) lim = insert (uframe m pgdir a) (frames m pgdir (unat a + 4096) lim)"
proof -
  have a: "PGROUNDDOWN a = a" using assms(1) by (rule PGROUNDDOWN_aligned)
  have at: "pte_val m pgdir v = pte_val m pgdir a" if "PGROUNDDOWN v = a" for v by (rule pte_val_page) (use that a in simp)
  have "mapped m pgdir (unat a) lim v \<longleftrightarrow> PGROUNDDOWN v = a \<or> mapped m pgdir (unat a + 4096) lim v" for v
    using page_cases [OF assms(1), of v] assms(2,3) at [of v] by (auto simp: mapped_def)
  moreover have "uframe m pgdir v = uframe m pgdir a" if "PGROUNDDOWN v = a" for v unfolding uframe_def at [OF that] ..
  then have "{uframe m pgdir v | v. PGROUNDDOWN v = a} = {uframe m pgdir a}" using a by blast
  ultimately show ?thesis unfolding frames_def by blast
qed

lemma allocated_step:
  assumes inv: "user_inv pgdir hi (f # u1 @ fs2) s" and a: "aligned a" "unat a < lim"
    and s3: "pt_pages (mem s3) pgdir = pt_pages (mem s) pgdir \<union> set u1"
      "same_off (insert f (pt_pages (mem s3) pgdir)) (mem s) (mem s3)" "end_sym s3 = end_sym s" "data_sym s3 = data_sym s"
    and ptes: "\<And>v. pte_val (mem s3) pgdir v = (if PGROUNDDOWN v = a then V2P f OR (PTE_W OR PTE_U) OR PTE_P else pte_val (mem s) pgdir v)"
    and zero: "\<And>x. PGROUNDDOWN x = f \<Longrightarrow> mem s3 x = 0"
    and rest: "allocated pgdir hi (unat a + 4096) lim fs2 s3 fs' s'"
  shows "allocated pgdir hi (unat a) lim (f # u1 @ fs2) s fs' s'"
proof -
  from rest obtain u2 where u2: "fs2 = u2 @ fs'"
      "pt_pages (mem s') pgdir \<union> frames (mem s') pgdir (unat a + 4096) lim = pt_pages (mem s3) pgdir \<union> set u2"
      "same_off (pt_pages (mem s3) pgdir \<union> set u2) (mem s3) (mem s')"
    and fresh: "\<And>v. unat a + 4096 \<le> unat (PGROUNDDOWN v) \<Longrightarrow> unat (PGROUNDDOWN v) < lim \<Longrightarrow> \<exists>f \<in> set u2.
       pte_val (mem s') pgdir v = V2P f OR (PTE_W OR PTE_U) OR PTE_P \<and> (\<forall>x. PGROUNDDOWN x = f \<longrightarrow> mem s' x = 0)"
    and keep: "\<And>v. \<not> (unat a + 4096 \<le> unat (PGROUNDDOWN v) \<and> unat (PGROUNDDOWN v) < lim) \<Longrightarrow>
       pte_val (mem s') pgdir v = pte_val (mem s3) pgdir v"
    and inv': "user_inv pgdir hi fs' s'" and syms: "end_sym s' = end_sym s3" "data_sym s' = data_sym s3"
    by (auto simp: allocated_def)
  have vm: "vm_inv pgdir (f # u1 @ fs2) s" by (rule user_invD(1) [OF inv])
  then have f: "aligned f" "f \<notin> pt_pages (mem s) pgdir" "f \<notin> set u1" "f \<notin> set fs2"
    by (auto simp: vm_inv_def kmem_inv_def vframe_def)
  have "unat (PTE_W OR PTE_U) < 4096" by (simp add: pte_flags)
  note fe = frame_entry [OF f(1) this]
  have fin: "PGROUNDDOWN a = a" using a(1) by (rule PGROUNDDOWN_aligned)
  have here: "pte_val (mem s') pgdir v = V2P f OR (PTE_W OR PTE_U) OR PTE_P" if "PGROUNDDOWN v = a" for v
    using keep [of v] ptes [of v] that by simp
  have fpage: "mem s' x = 0" if "PGROUNDDOWN x = f" for x
    using u2(1,3) zero [OF that] that f s3(1) by (auto simp: same_off_def)
  let ?u = "f # u1 @ u2"
  have fr: "frames (mem s') pgdir (unat a) lim = insert f (frames (mem s') pgdir (unat a + 4096) lim)"
    using frames_cons [OF a, of "mem s'" pgdir] here [OF fin] fe by (simp add: uframe_def)
  have A: "pt_pages (mem s') pgdir \<union> frames (mem s') pgdir (unat a) lim = pt_pages (mem s) pgdir \<union> set ?u"
    unfolding fr using u2(2) s3(1) by auto
  have B: "same_off (pt_pages (mem s) pgdir \<union> set ?u) (mem s) (mem s')"
    by (rule same_off_trans [OF same_off_mono [OF s3(2)] same_off_mono [OF u2(3)]]) (use s3(1) in auto)
  have C: "\<exists>g \<in> set ?u. pte_val (mem s') pgdir v = V2P g OR (PTE_W OR PTE_U) OR PTE_P \<and> (\<forall>x. PGROUNDDOWN x = g \<longrightarrow> mem s' x = 0)"
    if "unat a \<le> unat (PGROUNDDOWN v)" "unat (PGROUNDDOWN v) < lim" for v
    using page_cases [OF a(1) that(1)] here [of v] fpage fresh [of v] that by auto
  have D: "pte_val (mem s') pgdir v = pte_val (mem s) pgdir v"
    if "\<not> (unat a \<le> unat (PGROUNDDOWN v) \<and> unat (PGROUNDDOWN v) < lim)" for v
  proof -
    have "PGROUNDDOWN v \<noteq> a" using that a(2) by auto
    then show ?thesis using keep [of v] ptes [of v] that by auto
  qed
  have E: "f # u1 @ fs2 = ?u @ fs'" using u2(1) by simp
  have "\<exists>used. f # u1 @ fs2 = used @ fs' \<and>
      pt_pages (mem s') pgdir \<union> frames (mem s') pgdir (unat a) lim = pt_pages (mem s) pgdir \<union> set used \<and>
      same_off (pt_pages (mem s) pgdir \<union> set used) (mem s) (mem s') \<and>
      (\<forall>v. unat a \<le> unat (PGROUNDDOWN v) \<longrightarrow> unat (PGROUNDDOWN v) < lim \<longrightarrow> (\<exists>f \<in> set used.
         pte_val (mem s') pgdir v = V2P f OR (PTE_W OR PTE_U) OR PTE_P \<and> (\<forall>x. PGROUNDDOWN x = f \<longrightarrow> mem s' x = 0)))"
    by (rule exI [of _ ?u]) (intro conjI allI impI A B C E)
  then show ?thesis unfolding allocated_def using inv' D syms s3(3,4) by simp
qed

lemma frames_add:
  assumes a: "aligned a" "lo \<le> unat a" "unat a < lim" and absent: "\<not> present (pte_val m pgdir a)" and e: "present e" "P2V (PTE_ADDR e) = f"
    and ptes: "\<And>v. pte_val m3 pgdir v = (if PGROUNDDOWN v = a then e else pte_val m pgdir v)"
  shows "frames m3 pgdir lo lim = insert f (frames m pgdir lo lim)"
proof -
  have fin: "PGROUNDDOWN a = a" using a(1) by (rule PGROUNDDOWN_aligned)
  have na: "\<not> present (pte_val m pgdir v)" if "PGROUNDDOWN v = a" for v
    using pte_val_page [of v a m pgdir] that fin absent by simp
  have m3: "mapped m3 pgdir lo lim v \<longleftrightarrow> PGROUNDDOWN v = a \<or> mapped m pgdir lo lim v" for v
    using a e(1) na [of v] by (auto simp: mapped_def ptes)
  have u1: "uframe m3 pgdir v = f" if "PGROUNDDOWN v = a" for v using that e(2) by (simp add: uframe_def ptes)
  have u2: "uframe m3 pgdir v = uframe m pgdir v" if "mapped m pgdir lo lim v" for v
    using that na [of v] by (auto simp: uframe_def ptes mapped_def)
  have "frames m3 pgdir lo lim = {uframe m3 pgdir v | v. PGROUNDDOWN v = a} \<union> {uframe m3 pgdir v | v. mapped m pgdir lo lim v}"
    unfolding frames_def m3 by blast
  also have "{uframe m3 pgdir v | v. PGROUNDDOWN v = a} = {f}" using u1 fin by blast
  also have "{uframe m3 pgdir v | v. mapped m pgdir lo lim v} = frames m pgdir lo lim"
    unfolding frames_def using u2 by (intro Collect_cong) metis
  finally show ?thesis by simp
qed

lemma given_back_step:
  assumes f: "aligned f" and a: "aligned a" "lo \<le> unat a" "unat a < lim" and absent: "\<not> present (pte_val (mem s) pgdir a)"
    and s3: "pt_pages (mem s3) pgdir = pt_pages (mem s) pgdir \<union> set u1"
      "same_off (insert f (pt_pages (mem s3) pgdir)) (mem s) (mem s3)" "end_sym s3 = end_sym s" "data_sym s3 = data_sym s"
    and ptes: "\<And>v. pte_val (mem s3) pgdir v = (if PGROUNDDOWN v = a then V2P f OR (PTE_W OR PTE_U) OR PTE_P else pte_val (mem s) pgdir v)"
    and rest: "given_back pgdir hi lo lim fs2 s3 fs' s'"
  shows "given_back pgdir hi lo lim (f # u1 @ fs2) s fs' s'"
proof -
  have "unat (PTE_W OR PTE_U) < 4096" by (simp add: pte_flags)
  note fe = frame_entry [OF f this]
  have fr: "frames (mem s3) pgdir lo lim = insert f (frames (mem s) pgdir lo lim)"
    by (rule frames_add [OF a absent fe(2,1) ptes])
  have gb: "set fs' \<union> pt_pages (mem s') pgdir = set fs2 \<union> pt_pages (mem s3) pgdir \<union> frames (mem s3) pgdir lo lim"
      "pt_pages (mem s3) pgdir \<subseteq> pt_pages (mem s') pgdir"
      "same_off (pt_pages (mem s3) pgdir \<union> set fs2 \<union> frames (mem s3) pgdir lo lim) (mem s3) (mem s')"
    using rest by (simp_all add: given_back_def)
  have "same_off (pt_pages (mem s) pgdir \<union> set (f # u1 @ fs2) \<union> frames (mem s) pgdir lo lim) (mem s) (mem s')"
    by (rule same_off_trans [OF same_off_mono [OF s3(2)] same_off_mono [OF gb(3)]]) (auto simp: s3(1) fr)
  moreover have "set fs' \<union> pt_pages (mem s') pgdir = set (f # u1 @ fs2) \<union> pt_pages (mem s) pgdir \<union> frames (mem s) pgdir lo lim"
    unfolding gb(1) fr s3(1) by auto
  moreover have "if lo \<le> unat (PGROUNDDOWN v) \<and> unat (PGROUNDDOWN v) < lim then \<not> present (pte_val (mem s') pgdir v)
          else pte_val (mem s') pgdir v = pte_val (mem s) pgdir v" for v
    using rest a(2,3) ptes [of v] by (auto simp: given_back_def split: if_splits)
  ultimately show ?thesis unfolding given_back_def using rest s3 gb(2) by (simp add: given_back_def)
qed

lemma memset_page_zero: "aligned f \<Longrightarrow> PGROUNDDOWN x = f \<Longrightarrow> memset f 0 PGSIZE m x = 0"
  by (simp add: memset_apply page_off_iff PGSIZE_def)

lemma allocuvm_loop_ok:
  assumes "user_inv pgdir hi fs s" and "aligned a" and "unat (PGROUNDUP oldsz) \<le> unat a" and "unat newsz \<le> hi"
    and "unat newsz < unat KERNBASE" and "unat oldsz + 4095 < 4294967296"
    and "0 < fuel" and "unat newsz \<le> unat a + 4096 * (fuel - 1)"
    and "\<And>v. unat a \<le> unat (PGROUNDDOWN v) \<Longrightarrow> unat (PGROUNDDOWN v) < unat newsz \<Longrightarrow> \<not> present (pte_val (mem s) pgdir v)"
  shows "ok (allocuvm_loop fuel pgdir a oldsz newsz) s (\<lambda>r s'. \<exists>fs'.
     r = newsz \<and> allocated pgdir hi (unat a) (unat newsz) fs s fs' s' \<or>
     r = 0 \<and> given_back pgdir hi (unat (PGROUNDUP oldsz)) (unat newsz) fs s fs' s')"
  using assms
proof (induction fuel arbitrary: a fs s)
  case 0
  then show ?case by simp
next
  case (Suc fuel)
  let ?Q = "\<lambda>r s'. \<exists>fs'. r = newsz \<and> allocated pgdir hi (unat a) (unat newsz) fs s fs' s' \<or>
     r = 0 \<and> given_back pgdir hi (unat (PGROUNDUP oldsz)) (unat newsz) fs s fs' s'"
  show ?case
  proof (cases "a < newsz")
    case False
    then show ?thesis using allocated_none [OF Suc.prems(1), of "unat newsz" "unat a"]
      by (auto simp: wp word_less_nat_alt)
  next
    case True
    then have lt: "unat a < unat newsz" by (simp add: word_less_nat_alt)
    have fuel: "0 < fuel" "unat newsz \<le> unat a + 4096 + 4096 * (fuel - 1)"
      using Suc.prems(8) lt by (cases fuel; simp)+
    have a4: "unat (a + PGSIZE) = unat a + 4096"
      using lt Suc.prems(5) by (intro trans [OF unat_add32]) (simp_all add: PGSIZE_def KERNBASE_def)
    have al4: "aligned (a + PGSIZE)" using Suc.prems(2) by (simp add: aligned_add)
    have fin: "PGROUNDDOWN a = a" using Suc.prems(2) by (rule PGROUNDDOWN_aligned)
    have "unat oldsz \<le> unat (PGROUNDUP oldsz)"
      using unat_PGROUNDUP [OF Suc.prems(6)] dividend_less_div_times [of 4096 "unat oldsz + 4095"] by linarith
    then have old: "oldsz < newsz" using Suc.prems(3) lt by (simp add: word_less_nat_alt)
    have dealloc: "ok (deallocuvm pgdir newsz oldsz) t (\<lambda>_ s'. \<exists>fs'. given_back pgdir hi (unat (PGROUNDUP oldsz)) (unat newsz) gs t fs' s')"
      if "user_inv pgdir hi gs t" for gs t
      by (rule ok_mono [OF deallocuvm_ok [OF that old Suc.prems(4) less_imp_le [OF Suc.prems(5)]]])
        (blast intro: unmapped_given_back)
    have absent: "\<not> present (pte_val (mem s) pgdir a)" using Suc.prems(9) [of a] fin lt by simp
    have kinv: "kmem_inv fs s" using user_invD(1) [OF Suc.prems(1)] by (simp add: vm_inv_def)
    show ?thesis
    proof (cases fs)
      case Nil
      then have "ok (deallocuvm pgdir newsz oldsz) s (\<lambda>_ s'. ?Q 0 s')"
        using dealloc [OF Suc.prems(1)] by (elim ok_mono) auto
      then show ?thesis using True kinv Nil by (simp add: wp ok_Done_eq kalloc_empty)
    next
      case (Cons f fs1)
      have inv: "user_inv pgdir hi (f # fs1) s" using Suc.prems(1) Cons by simp
      have k: "kmem_inv (f # fs1) s" using kinv Cons by simp
      have vm: "vm_inv pgdir (f # fs1) s" by (rule user_invD(1) [OF inv])
      then have f: "aligned f" "vframe s f" "f \<notin> set fs1" "f \<notin> pt_pages (mem s) pgdir" "f \<noteq> 0"
        using vframe_not_0 by (auto simp: vm_inv_def kmem_inv_def vframe_def)
      have nfr: "f \<notin> frames (mem s) pgdir 0 hi" using user_invD(5) [OF inv] by (auto simp: frames_def)
      let ?M = "memset f 0 PGSIZE (mem s)"
      let ?s2 = "s\<lparr>freelist := load32 (mem s) f, mem := ?M\<rparr>"
      have perm: "unat (PTE_W OR PTE_U) < 4096" by (simp add: pte_flags)
      have "ok (mappages pgdir a PGSIZE (V2P f) (PTE_W OR PTE_U)) ?s2 (\<lambda>r s3.
          ok (if r < 0 then seqk (deallocuvm pgdir newsz oldsz) (seqk (kfree f) (ret 0))
              else allocuvm_loop fuel pgdir (a + PGSIZE) oldsz newsz) s3 ?Q)"
      proof (rule ok_mono [OF add_page [OF inv Suc.prems(2) _ perm absent same_off_memset_page [OF f(1)]]], goal_cases)
        case 1
        show ?case using lt Suc.prems(4) by simp
      next
        case (2 r s3)
        then have syms: "end_sym s3 = end_sym s" "data_sym s3 = data_sym s" by blast+
        from 2 have zero: "mem s3 x = 0" if "PGROUNDDOWN x = f" for x using that memset_page_zero [OF f(1)] by auto
        from 2 consider (ok) u1 fs2 where "r = 0" "fs1 = u1 @ fs2" "user_inv pgdir hi fs2 s3"
            "pt_pages (mem s3) pgdir = pt_pages (mem s) pgdir \<union> set u1"
            "same_off (insert f (pt_pages (mem s3) pgdir)) (mem s) (mem s3)"
            "\<And>v. pte_val (mem s3) pgdir v = (if PGROUNDDOWN v = a then V2P f OR (PTE_W OR PTE_U) OR PTE_P else pte_val (mem s) pgdir v)"
          | (fail) "r = -1" "fs1 = []" "user_inv pgdir hi [] s3" "pt_pages (mem s3) pgdir = pt_pages (mem s) pgdir"
            "same_off (insert f (pt_pages (mem s3) pgdir)) (mem s) (mem s3)" "\<And>v. pte_val (mem s3) pgdir v = pte_val (mem s) pgdir v"
          by blast
        then show ?case
        proof cases
          case ok
          have "ok (allocuvm_loop fuel pgdir (a + PGSIZE) oldsz newsz) s3 (\<lambda>r s'. \<exists>fs'.
             r = newsz \<and> allocated pgdir hi (unat (a + PGSIZE)) (unat newsz) fs2 s3 fs' s' \<or>
             r = 0 \<and> given_back pgdir hi (unat (PGROUNDUP oldsz)) (unat newsz) fs2 s3 fs' s')"
          proof (rule Suc.IH [OF ok(3) al4 _ Suc.prems(4-6) fuel(1)])
            show "unat (PGROUNDUP oldsz) \<le> unat (a + PGSIZE)" using Suc.prems(3) a4 by simp
            show "unat newsz \<le> unat (a + PGSIZE) + 4096 * (fuel - 1)" using fuel(2) a4 by simp
            show "\<not> present (pte_val (mem s3) pgdir v)" if "unat (a + PGSIZE) \<le> unat (PGROUNDDOWN v)" "unat (PGROUNDDOWN v) < unat newsz" for v
              using that a4 Suc.prems(9) [of v] by (auto simp: ok(6))
          qed
          moreover have inv3: "user_inv pgdir hi (f # u1 @ fs2) s" using inv ok(2) by simp
          ultimately have "ok (allocuvm_loop fuel pgdir (a + PGSIZE) oldsz newsz) s3 ?Q"
            unfolding Cons ok(2) a4
            using allocated_step [OF inv3 Suc.prems(2) lt ok(4,5) syms ok(6) zero]
              given_back_step [OF f(1) Suc.prems(2,3) lt absent ok(4,5) syms ok(6)] by (elim ok_mono) blast
          then show ?thesis using ok(1) by simp
        next
          case fail
          have "ok (deallocuvm pgdir newsz oldsz) s3 (\<lambda>_ s4. ok (kfree f) s4 (\<lambda>_ s'. ?Q 0 s'))"
          proof (rule ok_mono [OF dealloc [OF fail(3)]], elim exE)
            fix x :: uint and s4 fs4
            assume gb: "given_back pgdir hi (unat (PGROUNDUP oldsz)) (unat newsz) [] s3 fs4 s4"
            have fr3: "frames (mem s3) pgdir lo h = frames (mem s) pgdir lo h" for lo h
              by (simp add: frames_def mapped_def uframe_def fail(6))
            have "ok (kfree f) s4 (\<lambda>_ s'. \<exists>fs'. user_inv pgdir hi fs' s' \<and> given_back pgdir hi (unat (PGROUNDUP oldsz)) (unat newsz) [f] s3 fs' s')"
              by (rule given_back_push [OF gb]) (use f nfr fr3 fail(4) syms Suc.prems(4) in \<open>auto simp: vframe_def\<close>)
            then show "ok (kfree f) s4 (\<lambda>_ s'. ?Q 0 s')"
            proof (rule ok_mono, elim exE conjE)
              fix y :: unit and s' fs'
              assume gb': "given_back pgdir hi (unat (PGROUNDUP oldsz)) (unat newsz) [f] s3 fs' s'"
              then have off': "same_off (pt_pages (mem s) pgdir \<union> set fs \<union> frames (mem s) pgdir (unat (PGROUNDUP oldsz)) (unat newsz)) (mem s3) (mem s')"
                by (simp add: given_back_def fr3 fail(2,4) Cons)
              have "same_off (pt_pages (mem s) pgdir \<union> set fs \<union> frames (mem s) pgdir (unat (PGROUNDUP oldsz)) (unat newsz)) (mem s) (mem s')"
                by (rule same_off_trans [OF same_off_mono [OF fail(5)] off']) (auto simp: Cons fail(4))
              then have "given_back pgdir hi (unat (PGROUNDUP oldsz)) (unat newsz) fs s fs' s'"
                using gb' syms fail(2,4,6) by (simp add: given_back_def fr3 Cons)
              then show "?Q 0 s'" by blast
            qed
          qed
          then show ?thesis using fail(1) by (simp add: wp)
        qed
      qed
      then show ?thesis using True f(5) by (simp add: wp ok_Done_eq kalloc_Cons [OF k] set_mem_def)
    qed
  qed
qed

lemma allocuvm_ok:
  assumes inv: "user_inv pgdir (unat SHAREDBASE) fs s" and sz: "oldsz \<le> newsz" "newsz < SHAREDBASE"
    and absent: "\<And>v. unat (PGROUNDUP oldsz) \<le> unat (PGROUNDDOWN v) \<Longrightarrow> unat (PGROUNDDOWN v) < unat newsz \<Longrightarrow>
      \<not> present (pte_val (mem s) pgdir v)"
  shows "ok (allocuvm pgdir oldsz newsz) s (\<lambda>r s'. \<exists>fs'.
     r = newsz \<and> allocated pgdir (unat SHAREDBASE) (unat (PGROUNDUP oldsz)) (unat newsz) fs s fs' s' \<or>
     r = 0 \<and> given_back pgdir (unat SHAREDBASE) (unat (PGROUNDUP oldsz)) (unat newsz) fs s fs' s')"
proof -
  have n: "unat newsz < 1073741824" using sz(2) by (simp add: word_less_nat_alt SHAREDBASE_def)
  have o: "unat oldsz \<le> unat newsz" using sz(1) by (simp add: word_le_nat_alt)
  have "ok (allocuvm_loop 1048576 pgdir (PGROUNDUP oldsz) oldsz newsz) s (\<lambda>r s'. \<exists>fs'.
     r = newsz \<and> allocated pgdir (unat SHAREDBASE) (unat (PGROUNDUP oldsz)) (unat newsz) fs s fs' s' \<or>
     r = 0 \<and> given_back pgdir (unat SHAREDBASE) (unat (PGROUNDUP oldsz)) (unat newsz) fs s fs' s')"
    by (rule allocuvm_loop_ok [OF inv]) (use n o absent in \<open>simp_all add: SHAREDBASE_def KERNBASE_def\<close>)
  moreover have "\<not> SHAREDBASE \<le> newsz" "\<not> newsz < oldsz" using sz by simp_all
  ultimately show ?thesis by (simp add: allocuvm_def)
qed

section \<open>The kernel part\<close>

type_synonym kmap_entry = "addr \<times> uint \<times> uint \<times> uint"

fun covers :: "kmap_entry \<Rightarrow> addr \<Rightarrow> bool" where
  "covers (virt, phys_start, phys_end, perm) v \<longleftrightarrow>
     unat virt \<le> unat (PGROUNDDOWN v) \<and> unat (PGROUNDDOWN v) < unat virt + unat (phys_end - phys_start)"

fun kentry :: "kmap_entry \<Rightarrow> addr \<Rightarrow> uint" where
  "kentry (virt, phys_start, phys_end, perm) v = (phys_start + (PGROUNDDOWN v - virt)) OR perm OR PTE_P"

fun good_kmap :: "kmap_entry list \<Rightarrow> bool" where
  "good_kmap [] = True"
| "good_kmap ((virt, phys_start, phys_end, perm) # ks) \<longleftrightarrow> aligned virt \<and> unat KERNBASE \<le> unat virt \<and>
     0 < unat (phys_end - phys_start) \<and> unat virt + unat (phys_end - phys_start) \<le> 4294967296 \<and>
     (\<forall>k \<in> set ks. \<forall>v. \<not> (covers (virt, phys_start, phys_end, perm) v \<and> covers k v)) \<and> good_kmap ks"

text \<open>An address space without user pages satisfies the user part's invariant.\<close>

lemma no_user:
  assumes "vm_inv pgdir fs s" and "unat KERNBASE < unat (end_sym s)" and "hi \<le> unat KERNBASE"
    and "\<And>v. unat (PGROUNDDOWN v) < unat KERNBASE \<Longrightarrow> \<not> present (pte_val (mem s) pgdir v)"
  shows "user_inv pgdir hi fs s" and "lo \<le> hi \<Longrightarrow> frames (mem s) pgdir 0 lo = {}"
proof -
  have none: "\<not> mapped (mem s) pgdir 0 h v" if "h \<le> hi" for h v
    using assms(3) assms(4) [of v] that by (auto simp: mapped_def)
  show "user_inv pgdir hi fs s" by (rule user_invI [OF assms(1,2)]) (use none in auto)
  show "frames (mem s) pgdir 0 lo = {}" if "lo \<le> hi" using none [OF that] by (auto simp: frames_def)
qed

text \<open>All pages of an address space are back on the free list, and nothing else was written.\<close>

definition all_freed :: "addr \<Rightarrow> addr list \<Rightarrow> kmem \<Rightarrow> kmem \<Rightarrow> bool" where
  "all_freed pgdir fs s s' \<longleftrightarrow> (\<exists>fs'. kmem_inv fs' s' \<and>
     set fs' = set fs \<union> pt_pages (mem s) pgdir \<union> frames (mem s) pgdir 0 (unat SHAREDBASE) \<and>
     same_off (set fs') (mem s) (mem s') \<and> end_sym s' = end_sym s \<and> data_sym s' = data_sym s)"

lemma freevm_all:
  assumes "user_inv pgdir (unat SHAREDBASE) fs s"
  shows "ok (freevm pgdir) s (\<lambda>_ s'. all_freed pgdir fs s s')"
proof (rule ok_mono [OF freevm_ok [OF assms]], elim exE conjE)
  fix x :: unit and s' new
  assume new: "kmem_inv (new @ fs) s'" "set new = frames (mem s) pgdir 0 (unat SHAREDBASE) \<union> pt_pages (mem s) pgdir"
    "same_off (set new) (mem s) (mem s')" "end_sym s' = end_sym s" "data_sym s' = data_sym s"
  have "same_off (set (new @ fs)) (mem s) (mem s')" using new(3) by (rule same_off_mono) simp
  then show "all_freed pgdir fs s s'"
    unfolding all_freed_def using new by (intro exI [of _ "new @ fs"]) auto
qed

lemma all_freed_grows:
  assumes g: "grows d fs s fs1 s1"
    and none: "\<And>v. unat (PGROUNDDOWN v) < unat KERNBASE \<Longrightarrow> \<not> present (pte_val (mem s1) d v)"
      "\<And>v. unat (PGROUNDDOWN v) < unat KERNBASE \<Longrightarrow> \<not> present (pte_val (mem s) d v)"
    and f: "all_freed d fs1 s1 s'"
  shows "all_freed d fs s s'"
proof -
  have "unat SHAREDBASE \<le> unat KERNBASE" by (simp add: SHAREDBASE_def KERNBASE_def)
  then have fr: "frames (mem s1) d 0 (unat SHAREDBASE) = {}" "frames (mem s) d 0 (unat SHAREDBASE) = {}"
    using none by (auto simp: frames_def mapped_def)
  from g obtain used where u: "fs = used @ fs1" "pt_pages (mem s1) d = pt_pages (mem s) d \<union> set used"
    "same_off (pt_pages (mem s1) d) (mem s) (mem s1)" "end_sym s1 = end_sym s" "data_sym s1 = data_sym s"
    by (auto simp: grows_def)
  from f obtain fs' where f': "kmem_inv fs' s'" "set fs' = set fs1 \<union> pt_pages (mem s1) d" "same_off (set fs') (mem s1) (mem s')"
    "end_sym s' = end_sym s1" "data_sym s' = data_sym s1" using fr by (auto simp: all_freed_def)
  have "same_off (set fs') (mem s) (mem s')" by (rule same_off_trans [OF same_off_mono [OF u(3)] f'(3)]) (simp add: f'(2))
  then show ?thesis unfolding all_freed_def fr using u f' by (intro exI [of _ fs']) auto
qed

lemma setupkvm_loop_ok:
  assumes "vm_inv d fs s" and "unat KERNBASE < unat (end_sym s)" and "good_kmap ks"
    and "\<And>v. unat (PGROUNDDOWN v) < unat KERNBASE \<Longrightarrow> \<not> present (pte_val (mem s) d v)"
    and "\<And>k v. k \<in> set ks \<Longrightarrow> covers k v \<Longrightarrow> \<not> present (pte_val (mem s) d v)"
  shows "ok (setupkvm_loop d ks) s (\<lambda>r s'.
     r = d \<and> (\<exists>fs'. grows d fs s fs' s') \<and> (\<forall>v. pte_val (mem s') d v =
        (case find (\<lambda>k. covers k v) ks of Some k \<Rightarrow> kentry k v | None \<Rightarrow> pte_val (mem s) d v)) \<or>
     r = 0 \<and> all_freed d fs s s')"
  using assms
proof (induction ks arbitrary: fs s)
  case Nil
  then show ?case by (auto simp: wp intro: grows_refl)
next
  case (Cons k ks)
  obtain virt ps pe perm where k: "k = (virt, ps, pe, perm)" by (cases k) auto
  let ?n = "unat (pe - ps)"
  from Cons.prems(3) have g: "aligned virt" "unat KERNBASE \<le> unat virt" "0 < ?n" "unat virt + ?n \<le> 4294967296"
    and dis: "\<And>j v. j \<in> set ks \<Longrightarrow> covers k v \<Longrightarrow> \<not> covers j v" and gk: "good_kmap ks"
    unfolding k by auto
  have virt: "PGROUNDDOWN virt = virt" using g(1) by (rule PGROUNDDOWN_aligned)
  let ?Q = "\<lambda>r s'. r = d \<and> (\<exists>fs'. grows d fs s fs' s') \<and> (\<forall>v. pte_val (mem s') d v =
        (case find (\<lambda>k. covers k v) (k # ks) of Some k \<Rightarrow> kentry k v | None \<Rightarrow> pte_val (mem s) d v)) \<or>
     r = 0 \<and> all_freed d fs s s'"
  have "ok (mappages d virt (pe - ps) ps perm) s (\<lambda>r s1. ok (if r < 0 then seqk (freevm d) (ret 0) else setupkvm_loop d ks) s1 ?Q)"
  proof (rule ok_mono [OF mappages_ok [OF Cons.prems(1) g(3,4)]], goal_cases)
    case (1 v)
    then show ?case using Cons.prems(5) [of k v] virt by (simp add: k)
  next
    case (2 r s1)
    then obtain fs1 where gr: "grows d fs s fs1 s1" and res: "r = 0 \<and> remapped d virt (unat virt + ?n) ps perm (mem s) (mem s1) \<or>
        r = -1 \<and> fs1 = [] \<and> (\<exists>hi. hi \<le> unat (PGROUNDDOWN (virt + (pe - ps) - 1)) \<and> remapped d virt hi ps perm (mem s) (mem s1))"
      unfolding virt by blast
    have syms: "end_sym s1 = end_sym s" "data_sym s1 = data_sym s" using gr by (simp_all add: grows_def)
    have base: "unat KERNBASE < unat (end_sym s1)" using Cons.prems(2) syms by simp
    have low: "\<not> present (pte_val (mem s1) d v)" if "unat (PGROUNDDOWN v) < unat KERNBASE" for v
      using res Cons.prems(4) [OF that] that g(2) by (auto simp: remapped_def)
    from res show ?case
    proof (elim disjE conjE)
      assume r: "r = 0" and re: "remapped d virt (unat virt + ?n) ps perm (mem s) (mem s1)"
      have p1: "pte_val (mem s1) d v = (if covers k v then kentry k v else pte_val (mem s) d v)" for v
        using re by (auto simp: remapped_def k)
      have later: "\<not> present (pte_val (mem s1) d v)" if "j \<in> set ks" "covers j v" for j v
      proof -
        have "\<not> covers k v" using dis that by blast
        moreover have "\<not> present (pte_val (mem s) d v)" using Cons.prems(5) [of j v] that by simp
        ultimately show ?thesis by (simp only: p1) simp
      qed
      have "ok (setupkvm_loop d ks) s1 (\<lambda>r s'. r = d \<and> (\<exists>fs'. grows d fs1 s1 fs' s') \<and> (\<forall>v. pte_val (mem s') d v =
        (case find (\<lambda>k. covers k v) ks of Some k \<Rightarrow> kentry k v | None \<Rightarrow> pte_val (mem s1) d v)) \<or> r = 0 \<and> all_freed d fs1 s1 s')"
        by (rule Cons.IH [OF grows_inv [OF gr] base gk]) (fact low, fact later)
      then have "ok (setupkvm_loop d ks) s1 ?Q"
      proof (rule ok_mono, elim disjE)
        fix r' :: addr and s'
        assume h: "r' = d \<and> (\<exists>fs'. grows d fs1 s1 fs' s') \<and> (\<forall>v. pte_val (mem s') d v =
           (case find (\<lambda>k. covers k v) ks of Some k \<Rightarrow> kentry k v | None \<Rightarrow> pte_val (mem s1) d v))"
        have "find (\<lambda>k. covers k v) ks = None" if "covers k v" for v using dis [OF _ that] by (auto simp: find_None_iff)
        then have "pte_val (mem s') d v = (case find (\<lambda>k. covers k v) (k # ks) of Some k \<Rightarrow> kentry k v | None \<Rightarrow> pte_val (mem s) d v)" for v
          using h p1 [of v] by (auto split: option.split)
        then show "?Q r' s'" using h grows_trans [OF gr] by blast
      next
        fix r' :: addr and s'
        assume "r' = 0 \<and> all_freed d fs1 s1 s'"
        then show "?Q r' s'" using all_freed_grows [OF gr] low Cons.prems(4) by blast
      qed
      then show ?thesis using r by simp
    next
      assume r: "r = -1"
      have "user_inv d (unat SHAREDBASE) fs1 s1"
        by (rule no_user [OF grows_inv [OF gr] base _ low]) (simp add: SHAREDBASE_def KERNBASE_def)
      from freevm_all [OF this] have "ok (freevm d) s1 (\<lambda>_ s'. ?Q 0 s')"
        using all_freed_grows [OF gr low Cons.prems(4)] by (elim ok_mono) blast
      then show ?thesis using r by (simp add: wp)
    qed
  qed
  then show ?case by (simp add: k ok_bnd)
qed

text \<open>
  The linker places \<open>data\<close> on a page boundary inside physical memory, and the end of the kernel
  above the start of the kernel's address range.
\<close>

definition link_inv :: "kmem \<Rightarrow> bool" where
  "link_inv s \<longleftrightarrow> aligned (data_sym s) \<and> unat KERNLINK < unat (data_sym s) \<and>
     unat (data_sym s) < unat KERNBASE + unat PHYSTOP \<and> unat KERNBASE < unat (end_sym s)"

lemma kmap_ranges:
  assumes "link_inv s"
  shows "covers (KERNBASE, 0, EXTMEM, PTE_W) v \<longleftrightarrow> 2147483648 \<le> unat (PGROUNDDOWN v) \<and> unat (PGROUNDDOWN v) < 2148532224"
    and "covers (KERNLINK, V2P KERNLINK, V2P (data_sym s), 0) v \<longleftrightarrow> 2148532224 \<le> unat (PGROUNDDOWN v) \<and> unat (PGROUNDDOWN v) < unat (data_sym s)"
    and "covers (data_sym s, V2P (data_sym s), PHYSTOP, PTE_W) v \<longleftrightarrow> unat (data_sym s) \<le> unat (PGROUNDDOWN v) \<and> unat (PGROUNDDOWN v) < 2382364672"
    and "covers (DEVSPACE, DEVSPACE, 0, PTE_W) v \<longleftrightarrow> 4261412864 \<le> unat (PGROUNDDOWN v)"
    and "good_kmap (kmap (data_sym s))"
proof -
  let ?d = "unat (data_sym s)"
  have d: "2148532224 < ?d" "?d < 2382364672" "aligned (data_sym s)"
    using assms by (simp_all add: link_inv_def KERNLINK_def KERNBASE_def EXTMEM_def PHYSTOP_def)
  have vd: "unat (V2P (data_sym s)) = ?d - 2147483648"
    unfolding V2P_def KERNBASE_def using d by (subst unat_sub32) simp_all
  have sz2: "unat (V2P (data_sym s) - V2P KERNLINK) = ?d - 2148532224"
  proof -
    have "V2P (data_sym s) - V2P KERNLINK = data_sym s - KERNLINK" by (simp add: V2P_def)
    then show ?thesis using d by (simp add: unat_sub32 KERNLINK_def KERNBASE_def EXTMEM_def)
  qed
  have sz3: "unat (PHYSTOP - V2P (data_sym s)) = 2382364672 - ?d"
    using d vd by (simp add: unat_sub32 PHYSTOP_def)
  show c1: "covers (KERNBASE, 0, EXTMEM, PTE_W) v \<longleftrightarrow> 2147483648 \<le> unat (PGROUNDDOWN v) \<and> unat (PGROUNDDOWN v) < 2148532224" for v
    by (simp add: KERNBASE_def EXTMEM_def)
  show c2: "covers (KERNLINK, V2P KERNLINK, V2P (data_sym s), 0) v \<longleftrightarrow> 2148532224 \<le> unat (PGROUNDDOWN v) \<and> unat (PGROUNDDOWN v) < ?d" for v
    using d by (simp add: sz2) (simp add: KERNLINK_def KERNBASE_def EXTMEM_def)
  show c3: "covers (data_sym s, V2P (data_sym s), PHYSTOP, PTE_W) v \<longleftrightarrow> ?d \<le> unat (PGROUNDDOWN v) \<and> unat (PGROUNDDOWN v) < 2382364672" for v
    using d by (simp add: sz3)
  show c4: "covers (DEVSPACE, DEVSPACE, 0, PTE_W) v \<longleftrightarrow> 4261412864 \<le> unat (PGROUNDDOWN v)" for v
    using unat_lt32 [of "PGROUNDDOWN v"] by (simp add: DEVSPACE_def)
  have al: "aligned KERNLINK" "aligned DEVSPACE" "unat DEVSPACE + unat (0 - DEVSPACE) \<le> 4294967296" "0 < unat (0 - DEVSPACE)"
    "unat KERNBASE \<le> unat DEVSPACE" "unat KERNBASE \<le> unat KERNLINK" "unat KERNLINK = 2148532224" "unat KERNBASE = 2147483648"
    by (simp_all add: aligned_def KERNLINK_def KERNBASE_def EXTMEM_def DEVSPACE_def)
  show "good_kmap (kmap (data_sym s))"
    unfolding kmap_def good_kmap.simps list.set ball_simps c1 c2 c3 c4 using d al sz2 sz3 by (auto simp: EXTMEM_def)
qed

lemma setupkvm_ok:
  assumes k: "kmem_inv fs s" and l: "link_inv s"
  shows "ok setupkvm s (\<lambda>r s'.
     r \<noteq> 0 \<and> (\<exists>used fs'. fs = used @ fs' \<and> vm_inv r fs' s' \<and> pt_pages (mem s') r = set used \<and> same_off (set used) (mem s) (mem s') \<and>
        end_sym s' = end_sym s \<and> data_sym s' = data_sym s) \<and>
       (\<forall>v. pte_val (mem s') r v = (case find (\<lambda>k. covers k v) (kmap (data_sym s)) of Some k \<Rightarrow> kentry k v | None \<Rightarrow> 0)) \<or>
     r = 0 \<and> (\<exists>fs'. kmem_inv fs' s' \<and> set fs' = set fs \<and> same_off (set fs) (mem s) (mem s') \<and>
        end_sym s' = end_sym s \<and> data_sym s' = data_sym s))"
proof (cases fs)
  case Nil
  with k show ?thesis by (auto simp: setupkvm_def wp ok_Done_eq kalloc_empty intro!: exI [of _ "[]"])
next
  case (Cons d fs1)
  have k1: "kmem_inv (d # fs1) s" using k Cons by simp
  then have d: "vframe s d" "aligned d" "d \<noteq> 0" "d \<notin> set fs1" using vframe_not_0 by (auto simp: kmem_inv_def vframe_def)
  define s2 where "s2 = s\<lparr>freelist := load32 (mem s) d, mem := memset d 0 PGSIZE (mem s)\<rparr>"
  have m2: "mem s2 = memset d 0 PGSIZE (mem s)" "end_sym s2 = end_sym s" "data_sym s2 = data_sym s" "kmem_lock s2 = kmem_lock s"
    "freelist s2 = load32 (mem s) d" by (simp_all add: s2_def)
  have off: "same_off {d} (mem s) (mem s2)" using same_off_memset_page [OF d(2)] by (simp add: m2)
  have zero: "pde_at (mem s2) d i = 0" if "i < 1024" for i
  proof -
    have "d + 4 * of_nat i - d = of_nat (4 * i)" by simp
    then have "unat (d + 4 * of_nat i - d) = 4 * i" using that by (simp only: unat_of_nat32)
    then show ?thesis using that by (simp add: pde_at_def m2 load32_memset_zero PGSIZE_def)
  qed
  have none: "pte_val (mem s2) d v = 0" for v by (simp add: pte_val_def pte_at_def zero PDX_lt)
  have pages: "pt_pages (mem s2) d = {d}" by (auto simp: pt_pages_def tables_def zero)
  have vm: "vm_inv d fs1 s2"
  proof -
    have "kmem_inv fs1 s2"
      using kmem_inv_frame [OF kmem_inv_pop [OF k1], of s2] same_off_on [OF off, of "set fs1"] d(4) by (simp add: m2)
    moreover have "pt_inv d s2" using d(1) vframe_cong [OF m2(2)] by (simp add: pt_inv_def zero)
    ultimately show ?thesis using pages d(4) by (simp add: vm_inv_def)
  qed
  let ?Q = "\<lambda>r s'. r \<noteq> 0 \<and> (\<exists>used fs'. fs = used @ fs' \<and> vm_inv r fs' s' \<and> pt_pages (mem s') r = set used \<and> same_off (set used) (mem s) (mem s') \<and>
        end_sym s' = end_sym s \<and> data_sym s' = data_sym s) \<and>
       (\<forall>v. pte_val (mem s') r v = (case find (\<lambda>k. covers k v) (kmap (data_sym s)) of Some k \<Rightarrow> kentry k v | None \<Rightarrow> 0)) \<or>
     r = 0 \<and> (\<exists>fs'. kmem_inv fs' s' \<and> set fs' = set fs \<and> same_off (set fs) (mem s) (mem s') \<and>
        end_sym s' = end_sym s \<and> data_sym s' = data_sym s)"
  have "ok (setupkvm_loop d (kmap (data_sym s))) s2 (\<lambda>r s'.
     r = d \<and> (\<exists>fs'. grows d fs1 s2 fs' s') \<and> (\<forall>v. pte_val (mem s') d v =
        (case find (\<lambda>k. covers k v) (kmap (data_sym s)) of Some k \<Rightarrow> kentry k v | None \<Rightarrow> pte_val (mem s2) d v)) \<or>
     r = 0 \<and> all_freed d fs1 s2 s')"
    by (rule setupkvm_loop_ok [OF vm _ kmap_ranges(5) [OF l]]) (use l in \<open>auto simp: none m2(2) link_inv_def\<close>)
  then have "ok (setupkvm_loop d (kmap (data_sym s))) s2 ?Q"
  proof (rule ok_mono, elim disjE conjE exE)
    fix r s' fs'
    assume r: "r = d" and g: "grows d fs1 s2 fs' s'" and p: "\<forall>v. pte_val (mem s') d v =
        (case find (\<lambda>k. covers k v) (kmap (data_sym s)) of Some k \<Rightarrow> kentry k v | None \<Rightarrow> pte_val (mem s2) d v)"
    from g obtain used where u: "fs1 = used @ fs'" "pt_pages (mem s') d = insert d (set used)"
      "same_off (pt_pages (mem s') d) (mem s2) (mem s')" "vm_inv d fs' s'" "end_sym s' = end_sym s" "data_sym s' = data_sym s"
      using pages by (auto simp: grows_def m2)
    have "same_off (set (d # used)) (mem s) (mem s')"
      by (rule same_off_trans [OF same_off_mono [OF off] same_off_mono [OF u(3)]]) (auto simp: u(2))
    then have "\<exists>used fs'. fs = used @ fs' \<and> vm_inv r fs' s' \<and> pt_pages (mem s') r = set used \<and> same_off (set used) (mem s) (mem s') \<and>
        end_sym s' = end_sym s \<and> data_sym s' = data_sym s"
      using u r Cons by (intro exI [of _ "d # used"] exI [of _ fs']) simp
    then show "?Q r s'" using p [unfolded none] r d(3) by simp
  next
    fix r :: addr and s'
    assume r: "r = 0" and "all_freed d fs1 s2 s'"
    moreover have "frames (mem s2) d 0 (unat SHAREDBASE) = {}" by (simp add: frames_def mapped_def none)
    ultimately obtain fs' where f: "kmem_inv fs' s'" "set fs' = set fs" "same_off (set fs') (mem s2) (mem s')"
      "end_sym s' = end_sym s" "data_sym s' = data_sym s"
      using pages Cons by (auto simp: all_freed_def m2)
    have "same_off (set fs) (mem s) (mem s')"
      by (rule same_off_trans [OF same_off_mono [OF off] f(3) [unfolded f(2)]]) (simp add: Cons)
    then show "?Q r s'" using f r by blast
  qed
  moreover have "\<not> P2V PHYSTOP > DEVSPACE" by (simp add: P2V_def PHYSTOP_def DEVSPACE_def KERNBASE_def)
  ultimately show ?thesis using d(3) by (simp add: setupkvm_def wp ok_Done_eq kalloc_Cons [OF k1] set_mem_def s2_def)
qed

section \<open>Copying an address space\<close>

text \<open>
  What \<open>copyuvm\<close> relies on: the parent's page tables and the frames of its pages below \<open>sz\<close> are
  allocated pages that the child under construction does not use.
\<close>

definition parent_ok :: "addr \<Rightarrow> nat \<Rightarrow> addr \<Rightarrow> addr list \<Rightarrow> kmem \<Rightarrow> bool" where
  "parent_ok pd sz d fs s \<longleftrightarrow> apart pd d fs s \<and> (\<forall>v. unat (PGROUNDDOWN v) < sz \<longrightarrow>
     present (pte_val (mem s) pd v) \<and> vframe s (uframe (mem s) pd v) \<and>
     uframe (mem s) pd v \<notin> set fs \<union> pt_pages (mem s) d)"

text \<open>
  Below \<open>lim\<close> and from \<open>lo\<close> on, each page of the child has a frame just taken from the allocator,
  the parent's flags and the content that the parent's page had at the start.
\<close>

definition page_copied :: "addr \<Rightarrow> addr \<Rightarrow> addr list \<Rightarrow> memory \<Rightarrow> memory \<Rightarrow> addr \<Rightarrow> bool" where
  "page_copied pd d used m m' v \<longleftrightarrow> uframe m' d v \<in> set used \<and>
     pte_val m' d v = V2P (uframe m' d v) OR PTE_FLAGS (pte_val m pd v) OR PTE_P \<and>
     (\<forall>x. PGROUNDDOWN x = uframe m' d v \<longrightarrow> m' x = m (uframe m pd v + (x - uframe m' d v)))"

definition copied :: "addr \<Rightarrow> addr \<Rightarrow> nat \<Rightarrow> nat \<Rightarrow> addr list \<Rightarrow> kmem \<Rightarrow> addr list \<Rightarrow> kmem \<Rightarrow> bool" where
  "copied pd d lo lim fs s fs' s' \<longleftrightarrow> user_inv d (unat SHAREDBASE) fs' s' \<and>
     (\<exists>used. fs = used @ fs' \<and> same_off (pt_pages (mem s) d \<union> set used) (mem s) (mem s') \<and>
        pt_pages (mem s') d \<subseteq> pt_pages (mem s) d \<union> set used \<and>
        (\<forall>v. lo \<le> unat (PGROUNDDOWN v) \<longrightarrow> unat (PGROUNDDOWN v) < lim \<longrightarrow> page_copied pd d used (mem s) (mem s') v)) \<and>
     (\<forall>v. \<not> (lo \<le> unat (PGROUNDDOWN v) \<and> unat (PGROUNDDOWN v) < lim) \<longrightarrow> pte_val (mem s') d v = pte_val (mem s) d v) \<and>
     end_sym s' = end_sym s \<and> data_sym s' = data_sym s"

lemma parent_step:
  assumes p: "parent_ok pd sz d (f # u1 @ fs2) s" and pages: "pt_pages (mem s3) d = pt_pages (mem s) d \<union> set u1"
    and off: "same_off (insert f (pt_pages (mem s3) d)) (mem s) (mem s3)" and e: "end_sym s3 = end_sym s"
  shows "parent_ok pd sz d fs2 s3" and "pte_val (mem s3) pd v = pte_val (mem s) pd v"
    and "unat (PGROUNDDOWN v) < sz \<Longrightarrow> PGROUNDDOWN x = uframe (mem s) pd v \<Longrightarrow> mem s3 x = mem s x"
proof -
  have pt: "pt_inv pd s" and dis: "pt_pages (mem s) pd \<inter> (pt_pages (mem s) d \<union> set (f # u1 @ fs2)) = {}"
    using p by (simp_all add: parent_ok_def apart_def)
  have on: "same_on (pt_pages (mem s) pd) (mem s) (mem s3)" by (rule same_off_on [OF off]) (use dis pages in auto)
  note view = pt_view_same_on [OF on pt]
  show ptes: "pte_val (mem s3) pd v = pte_val (mem s) pd v" for v by (rule view(3))
  show "mem s3 x = mem s x" if "unat (PGROUNDDOWN v) < sz" "PGROUNDDOWN x = uframe (mem s) pd v"
    using off p that pages by (auto simp: same_off_def parent_ok_def)
  have "apart pd d fs2 s3"
    unfolding apart_def view(4) using pt_inv_same_on [OF on pt e] dis pages by auto
  then show "parent_ok pd sz d fs2 s3"
    using p pages unfolding parent_ok_def uframe_def ptes vframe_cong [OF e] by auto
qed

lemma all_freed_step:
  assumes f: "aligned f" and a: "aligned a" "unat a < unat SHAREDBASE" and absent: "\<not> present (pte_val (mem s) d a)"
    and perm: "unat perm < 4096"
    and pages: "pt_pages (mem s3) d = pt_pages (mem s) d \<union> set u1"
    and off: "same_off (insert f (pt_pages (mem s3) d)) (mem s) (mem s3)"
    and syms: "end_sym s3 = end_sym s" "data_sym s3 = data_sym s"
    and ptes: "\<And>v. pte_val (mem s3) d v = (if PGROUNDDOWN v = a then V2P f OR perm OR PTE_P else pte_val (mem s) d v)"
    and rest: "all_freed d fs2 s3 s'"
  shows "all_freed d (f # u1 @ fs2) s s'"
proof -
  note fe = frame_entry [OF f perm]
  have fr: "frames (mem s3) d 0 (unat SHAREDBASE) = insert f (frames (mem s) d 0 (unat SHAREDBASE))"
    by (rule frames_add [OF a(1) _ a(2) absent fe(2,1) ptes]) simp
  from rest obtain fs' where f': "kmem_inv fs' s'" "set fs' = set fs2 \<union> pt_pages (mem s3) d \<union> frames (mem s3) d 0 (unat SHAREDBASE)"
    "same_off (set fs') (mem s3) (mem s')" "end_sym s' = end_sym s3" "data_sym s' = data_sym s3" by (auto simp: all_freed_def)
  have "same_off (set fs') (mem s) (mem s')"
    by (rule same_off_trans [OF same_off_mono [OF off] f'(3)]) (auto simp: f'(2) fr)
  then show ?thesis unfolding all_freed_def using f' syms pages fr by (intro exI [of _ fs']) auto
qed

lemma flags_present: "present e \<Longrightarrow> PTE_FLAGS e OR PTE_P = PTE_FLAGS e"
proof -
  assume "present e"
  then have b: "bit e 0" by (simp add: present_def PTE_P_def and_one_eq odd_iff_mod_2_eq_one bit_0 split: if_splits)
  show ?thesis
    by (rule bit_word_eqI) (use b in \<open>auto simp: PTE_FLAGS_def PTE_P_def bit_simps bit_1_iff\<close>)
qed

lemma copied_step:
  assumes inv: "user_inv d (unat SHAREDBASE) (f # u1 @ fs2) s" and a: "aligned a" "unat a < lim" "lim \<le> sz"
    and par: "parent_ok pd sz d (f # u1 @ fs2) s"
    and pages: "pt_pages (mem s3) d = pt_pages (mem s) d \<union> set u1"
    and off: "same_off (insert f (pt_pages (mem s3) d)) (mem s) (mem s3)"
    and syms: "end_sym s3 = end_sym s" "data_sym s3 = data_sym s"
    and ptes: "\<And>v. pte_val (mem s3) d v =
      (if PGROUNDDOWN v = a then V2P f OR PTE_FLAGS (pte_val (mem s) pd a) OR PTE_P else pte_val (mem s) d v)"
    and copy: "\<And>x. PGROUNDDOWN x = f \<Longrightarrow> mem s3 x = mem s (uframe (mem s) pd a + (x - f))"
    and rest: "copied pd d (unat a + 4096) lim fs2 s3 fs' s'"
  shows "copied pd d (unat a) lim (f # u1 @ fs2) s fs' s'"
proof -
  from rest obtain u2 where u2: "fs2 = u2 @ fs'" "same_off (pt_pages (mem s3) d \<union> set u2) (mem s3) (mem s')"
      "pt_pages (mem s') d \<subseteq> pt_pages (mem s3) d \<union> set u2"
    and pc: "\<And>v. unat a + 4096 \<le> unat (PGROUNDDOWN v) \<Longrightarrow> unat (PGROUNDDOWN v) < lim \<Longrightarrow> page_copied pd d u2 (mem s3) (mem s') v"
    and keep: "\<And>v. \<not> (unat a + 4096 \<le> unat (PGROUNDDOWN v) \<and> unat (PGROUNDDOWN v) < lim) \<Longrightarrow> pte_val (mem s') d v = pte_val (mem s3) d v"
    and inv': "user_inv d (unat SHAREDBASE) fs' s'" and syms': "end_sym s' = end_sym s3" "data_sym s' = data_sym s3"
    by (auto simp: copied_def)
  have f: "aligned f" "f \<notin> pt_pages (mem s) d" "f \<notin> set u1" "f \<notin> set fs2"
    using user_invD(1) [OF inv] by (auto simp: vm_inv_def kmem_inv_def vframe_def)
  note ps = parent_step [OF par pages off syms(1)]
  have fin: "PGROUNDDOWN a = a" using a(1) by (rule PGROUNDDOWN_aligned)
  let ?u = "f # u1 @ u2"
  have here: "page_copied pd d ?u (mem s) (mem s') v" if v: "PGROUNDDOWN v = a" for v
  proof -
    have pv: "pte_val (mem s) pd v = pte_val (mem s) pd a" by (rule pte_val_page) (use v fin in simp)
    have e: "pte_val (mem s') d v = V2P f OR PTE_FLAGS (pte_val (mem s) pd a) OR PTE_P"
      using keep [of v] ptes [of v] v by simp
    then have u: "uframe (mem s') d v = f" by (simp add: uframe_def frame_entry(1) [OF f(1) PTE_FLAGS_lt])
    have "mem s' x = mem s (uframe (mem s) pd v + (x - f))" if "PGROUNDDOWN x = f" for x
      using u2(1,2) copy [OF that] that f pages by (auto simp: same_off_def uframe_def pv)
    then show ?thesis using e u pv by (simp add: page_copied_def)
  qed
  have later: "page_copied pd d ?u (mem s) (mem s') v"
    if v: "unat a + 4096 \<le> unat (PGROUNDDOWN v)" "unat (PGROUNDDOWN v) < lim" for v
  proof -
    have "aligned (uframe (mem s) pd v)" using par v(2) a(3) by (simp add: parent_ok_def vframe_def)
    have pcv: "page_copied pd d u2 (mem s3) (mem s') v" by (rule pc [OF v])
    have "mem s3 (uframe (mem s) pd v + (x - g)) = mem s (uframe (mem s) pd v + (x - g))" if g: "aligned g" "PGROUNDDOWN x = g" for x g
    proof (rule ps(3) [of v])
      have "PGROUNDDOWN (x - g) = 0" using g PGROUNDDOWN_add [OF g(1), of "x - g"] by simp
      then show "PGROUNDDOWN (uframe (mem s) pd v + (x - g)) = uframe (mem s) pd v"
        using PGROUNDDOWN_add [OF \<open>aligned (uframe (mem s) pd v)\<close>] by simp
    qed (use v(2) a(3) in simp)
    moreover have "aligned (uframe (mem s') d v)" by (simp add: uframe_def)
    ultimately show ?thesis using pcv by (auto simp: page_copied_def ps(2) uframe_def)
  qed
  have A: "same_off (pt_pages (mem s) d \<union> set ?u) (mem s) (mem s')"
    by (rule same_off_trans [OF same_off_mono [OF off] same_off_mono [OF u2(2)]]) (auto simp: pages)
  have B: "pt_pages (mem s') d \<subseteq> pt_pages (mem s) d \<union> set ?u" using u2(3) pages by auto
  have C: "page_copied pd d ?u (mem s) (mem s') v" if "unat a \<le> unat (PGROUNDDOWN v)" "unat (PGROUNDDOWN v) < lim" for v
    using page_cases [OF a(1) that(1)] here later that(2) by blast
  have D: "pte_val (mem s') d v = pte_val (mem s) d v"
    if "\<not> (unat a \<le> unat (PGROUNDDOWN v) \<and> unat (PGROUNDDOWN v) < lim)" for v
  proof -
    have "PGROUNDDOWN v \<noteq> a" using that a(2) by auto
    then show ?thesis using keep [of v] ptes [of v] that by auto
  qed
  have E: "f # u1 @ fs2 = ?u @ fs'" using u2(1) by simp
  have "\<exists>used. f # u1 @ fs2 = used @ fs' \<and> same_off (pt_pages (mem s) d \<union> set used) (mem s) (mem s') \<and>
      pt_pages (mem s') d \<subseteq> pt_pages (mem s) d \<union> set used \<and>
      (\<forall>v. unat a \<le> unat (PGROUNDDOWN v) \<longrightarrow> unat (PGROUNDDOWN v) < lim \<longrightarrow> page_copied pd d used (mem s) (mem s') v)"
    by (rule exI [of _ ?u]) (intro conjI allI impI A B C E)
  then show ?thesis unfolding copied_def using inv' D syms syms' by simp
qed

lemma memmove_page:
  assumes "aligned f" and "vframe s f" and "vframe s g"
  shows "same_off {f} m (memmove f g PGSIZE m)" and "PGROUNDDOWN x = f \<Longrightarrow> memmove f g PGSIZE m x = m (g + (x - f))"
proof -
  have "unat g + unat PGSIZE < 4294967296" "unat f + unat PGSIZE \<le> 4294967296"
    using vframe_range [OF assms(2)] vframe_range [OF assms(3)] by (simp_all add: PGSIZE_def KERNBASE_def PHYSTOP_def)
  note mv = memmove_apply [OF this]
  have P: "unat PGSIZE = 4096" by (simp add: PGSIZE_def)
  show "same_off {f} m (memmove f g PGSIZE m)"
    using page_off_iff [OF assms(1)] by (simp add: same_off_def mv P)
  show "memmove f g PGSIZE m x = m (g + (x - f))" if "PGROUNDDOWN x = f"
    using that page_off_iff [OF assms(1), of x] by (simp add: mv P)
qed

lemma copied_none:
  assumes "user_inv d (unat SHAREDBASE) fs s" and "lim \<le> lo"
  shows "copied pd d lo lim fs s fs s"
  using assms by (auto simp: copied_def)

lemma copyuvm_loop_ok:
  assumes "user_inv d (unat SHAREDBASE) fs s" and "aligned a" and "unat sz \<le> unat SHAREDBASE"
    and "0 < fuel" and "unat sz \<le> unat a + 4096 * (fuel - 1)" and "parent_ok pd (unat sz) d fs s"
    and "\<And>v. unat a \<le> unat (PGROUNDDOWN v) \<Longrightarrow> unat (PGROUNDDOWN v) < unat sz \<Longrightarrow> \<not> present (pte_val (mem s) d v)"
  shows "ok (copyuvm_loop fuel pd d a sz) s (\<lambda>r s'.
     r = d \<and> (\<exists>fs'. copied pd d (unat a) (unat sz) fs s fs' s') \<or> r = 0 \<and> all_freed d fs s s')"
  using assms
proof (induction fuel arbitrary: a fs s)
  case 0
  then show ?case by simp
next
  case (Suc fuel)
  let ?Q = "\<lambda>r s'. r = d \<and> (\<exists>fs'. copied pd d (unat a) (unat sz) fs s fs' s') \<or> r = 0 \<and> all_freed d fs s s'"
  show ?case
  proof (cases "a < sz")
    case False
    then show ?thesis using copied_none [OF Suc.prems(1), of "unat sz" "unat a"]
      by (auto simp: wp word_less_nat_alt)
  next
    case True
    then have lt: "unat a < unat sz" by (simp add: word_less_nat_alt)
    then have sb: "unat a < unat SHAREDBASE" using Suc.prems(3) by simp
    have fuel: "0 < fuel" "unat sz \<le> unat a + 4096 + 4096 * (fuel - 1)"
      using Suc.prems(5) lt by (cases fuel; simp)+
    have a4: "unat (a + PGSIZE) = unat a + 4096"
      using sb by (intro trans [OF unat_add32]) (simp_all add: PGSIZE_def SHAREDBASE_def)
    have al4: "aligned (a + PGSIZE)" using Suc.prems(2) by (simp add: aligned_add)
    have fin: "PGROUNDDOWN a = a" using Suc.prems(2) by (rule PGROUNDDOWN_aligned)
    have absent: "\<not> present (pte_val (mem s) d a)" using Suc.prems(7) [of a] fin lt by simp
    let ?e = "pte_val (mem s) pd a" and ?g = "uframe (mem s) pd a"
    have pe: "present ?e" "vframe s ?g" using Suc.prems(6) lt fin by (simp_all add: parent_ok_def)
    have pde: "present (pde_at (mem s) pd (unat (PDX a)))" by (rule pte_val_present [OF pe(1)])
    have nz: "pte_addr (mem s) pd a \<noteq> 0"
      using Suc.prems(6) pde PDX_lt [of a] by (intro pte_addr_not_0 [of s]) (simp add: parent_ok_def apart_def pt_inv_def)
    note walk = walk_present [OF pde, of False] and load = load_pte [OF pde]
    have g: "P2V (PTE_ADDR ?e) = ?g" by (simp add: uframe_def)
    have kinv: "kmem_inv fs s" using user_invD(1) [OF Suc.prems(1)] by (simp add: vm_inv_def)
    have body: "ok (bnd kalloc (\<lambda>mem. if mem = 0 then seqk (freevm d) (ret 0) else
        seqk (set_mem (memmove mem ?g PGSIZE)) (bnd (mappages d a PGSIZE (V2P mem) (PTE_FLAGS ?e)) (\<lambda>r.
          if r < 0 then seqk (kfree mem) (seqk (freevm d) (ret 0)) else copyuvm_loop fuel pd d (a + PGSIZE) sz)))) s ?Q"
    proof (cases fs)
      case Nil
      have "ok (freevm d) s (\<lambda>_ s'. ?Q 0 s')" using freevm_all [OF Suc.prems(1)] by (rule ok_mono) simp
      then show ?thesis using kinv Nil by (simp add: wp ok_Done_eq kalloc_empty)
    next
      case (Cons f fs1)
      have inv: "user_inv d (unat SHAREDBASE) (f # fs1) s" using Suc.prems(1) Cons by simp
      have k: "kmem_inv (f # fs1) s" using kinv Cons by simp
      have f: "aligned f" "vframe s f" "f \<notin> set fs1" "f \<notin> pt_pages (mem s) d" "f \<noteq> 0"
        using user_invD(1) [OF inv] vframe_not_0 by (auto simp: vm_inv_def kmem_inv_def vframe_def)
      have nfr: "f \<notin> frames (mem s) d 0 (unat SHAREDBASE)" using user_invD(5) [OF inv] by (auto simp: frames_def)
      note mv = memmove_page [OF f(1,2) pe(2)]
      let ?s2 = "s\<lparr>freelist := load32 (mem s) f, mem := memmove f ?g PGSIZE (mem s)\<rparr>"
      have "ok (mappages d a PGSIZE (V2P f) (PTE_FLAGS ?e)) ?s2 (\<lambda>r s3. ok (if r < 0 then seqk (kfree f) (seqk (freevm d) (ret 0))
          else copyuvm_loop fuel pd d (a + PGSIZE) sz) s3 ?Q)"
      proof (rule ok_mono [OF add_page [OF inv Suc.prems(2) sb PTE_FLAGS_lt absent mv(1)]], goal_cases)
        case (1 r s3)
        then have syms: "end_sym s3 = end_sym s" "data_sym s3 = data_sym s" by blast+
        from 1 have copy: "mem s3 x = mem s (?g + (x - f))" if "PGROUNDDOWN x = f" for x using that mv(2) by auto
        from 1 consider (ok) u1 fs2 where "r = 0" "fs1 = u1 @ fs2" "user_inv d (unat SHAREDBASE) fs2 s3"
            "pt_pages (mem s3) d = pt_pages (mem s) d \<union> set u1"
            "same_off (insert f (pt_pages (mem s3) d)) (mem s) (mem s3)"
            "\<And>v. pte_val (mem s3) d v = (if PGROUNDDOWN v = a then V2P f OR PTE_FLAGS ?e OR PTE_P else pte_val (mem s) d v)"
          | (fail) "r = -1" "fs1 = []" "user_inv d (unat SHAREDBASE) [] s3" "pt_pages (mem s3) d = pt_pages (mem s) d"
            "same_off (insert f (pt_pages (mem s3) d)) (mem s) (mem s3)" "\<And>v. pte_val (mem s3) d v = pte_val (mem s) d v"
          by blast
        then show ?case
        proof cases
          case ok
          have inv3: "user_inv d (unat SHAREDBASE) (f # u1 @ fs2) s" using inv ok(2) by simp
          have par3: "parent_ok pd (unat sz) d (f # u1 @ fs2) s" using Suc.prems(6) Cons ok(2) by simp
          have "ok (copyuvm_loop fuel pd d (a + PGSIZE) sz) s3 (\<lambda>r s'.
             r = d \<and> (\<exists>fs'. copied pd d (unat (a + PGSIZE)) (unat sz) fs2 s3 fs' s') \<or> r = 0 \<and> all_freed d fs2 s3 s')"
          proof (rule Suc.IH [OF ok(3) al4 Suc.prems(3) fuel(1) _ parent_step(1) [OF par3 ok(4,5) syms(1)]])
            show "unat sz \<le> unat (a + PGSIZE) + 4096 * (fuel - 1)" using fuel(2) a4 by simp
            show "\<not> present (pte_val (mem s3) d v)" if "unat (a + PGSIZE) \<le> unat (PGROUNDDOWN v)" "unat (PGROUNDDOWN v) < unat sz" for v
              using that a4 Suc.prems(7) [of v] by (auto simp: ok(6))
          qed
          then have "ok (copyuvm_loop fuel pd d (a + PGSIZE) sz) s3 ?Q"
            unfolding Cons ok(2) a4
            using copied_step [OF inv3 Suc.prems(2) lt order_refl par3 ok(4,5) syms ok(6) copy]
              all_freed_step [OF f(1) Suc.prems(2) sb absent PTE_FLAGS_lt ok(4,5) syms ok(6)] by (elim ok_mono) blast
          then show ?thesis using ok(1) by simp
        next
          case fail
          have fr3: "frames (mem s3) d lo h = frames (mem s) d lo h" for lo h
            by (simp add: frames_def mapped_def uframe_def fail(6))
          have vf: "vframe s3 f" using f(2) vframe_cong [OF syms(1)] by simp
          have nin: "f \<notin> set []" "f \<notin> pt_pages (mem s3) d" "f \<notin> frames (mem s3) d 0 (unat SHAREDBASE)"
            using f(4) nfr fail(4) fr3 by simp_all
          note push = user_inv_push [OF fail(3) vf nin]
          let ?s4 = "s3\<lparr>mem := kfree_mem f (freelist s3) (mem s3), freelist := f\<rparr>"
          have "ok (freevm d) ?s4 (\<lambda>_ s'. all_freed d [f] ?s4 s')" by (rule freevm_all [OF push(2)])
          moreover have "all_freed d fs s s'" if af: "all_freed d [f] ?s4 s'" for s'
          proof -
            have fr4: "frames (mem ?s4) d 0 h = frames (mem s) d 0 h" for h
              unfolding fr3 [symmetric] by (simp add: frames_def mapped_def uframe_def push(3) [simplified])
            from af obtain fs' where f': "kmem_inv fs' s'" "set fs' = set fs \<union> pt_pages (mem s) d \<union> frames (mem s) d 0 (unat SHAREDBASE)"
              "same_off (set fs') (mem ?s4) (mem s')" "end_sym s' = end_sym s" "data_sym s' = data_sym s"
              using push(4) fr4 fail(2,4) Cons syms by (auto simp: all_freed_def)
            have "same_off (set fs') (mem s) (mem s')"
              by (rule same_off_trans [OF same_off_mono [OF fail(5)] same_off_trans [OF same_off_mono [OF push(5)] f'(3)]])
                (auto simp: f'(2) Cons fail(4))
            then show ?thesis unfolding all_freed_def using f' by blast
          qed
          ultimately have "ok (freevm d) ?s4 (\<lambda>_ s'. ?Q 0 s')" by (elim ok_mono) blast
          then show ?thesis using fail(1) push(1) by (simp add: wp ok_Done_eq)
        qed
      qed
      then show ?thesis using f(5) by (simp add: wp ok_Done_eq kalloc_Cons [OF k] set_mem_def)
    qed
    from this [folded g] show ?thesis
      using True pe(1) nz load unfolding copyuvm_loop.simps
      by (simp add: ok_bnd ok_Done_eq walk get32_def ok_gets present_def Let_def)
  qed
qed

text \<open>
  \<open>copyuvm\<close> either builds a child whose pages below \<open>sz\<close> are copies of the parent's, with all other
  user addresses unmapped, or answers the null pointer and leaves exactly the same pages free.
  Either way it writes only pages that were free.
\<close>

lemma copyuvm_ok:
  assumes k: "kmem_inv fs s" and l: "link_inv s" and sz: "unat sz \<le> unat SHAREDBASE"
    and pt: "pt_inv pd s" "pt_pages (mem s) pd \<inter> set fs = {}"
    and pages: "\<And>v. unat (PGROUNDDOWN v) < unat sz \<Longrightarrow> present (pte_val (mem s) pd v) \<and>
      vframe s (uframe (mem s) pd v) \<and> uframe (mem s) pd v \<notin> set fs"
  shows "ok (copyuvm pd sz) s (\<lambda>d s'. same_off (set fs) (mem s) (mem s') \<and>
     (d \<noteq> 0 \<and> (\<exists>used fs'. fs = used @ fs' \<and> user_inv d (unat SHAREDBASE) fs' s' \<and> pt_pages (mem s') d \<subseteq> set used \<and>
        (\<forall>v. unat (PGROUNDDOWN v) < unat sz \<longrightarrow> page_copied pd d used (mem s) (mem s') v) \<and>
        (\<forall>v. unat sz \<le> unat (PGROUNDDOWN v) \<longrightarrow> unat (PGROUNDDOWN v) < unat KERNBASE \<longrightarrow> \<not> present (pte_val (mem s') d v))) \<or>
      d = 0 \<and> (\<exists>fs'. kmem_inv fs' s' \<and> set fs' = set fs)))"
proof -
  let ?Q = "\<lambda>d s'. same_off (set fs) (mem s) (mem s') \<and>
     (d \<noteq> 0 \<and> (\<exists>used fs'. fs = used @ fs' \<and> user_inv d (unat SHAREDBASE) fs' s' \<and> pt_pages (mem s') d \<subseteq> set used \<and>
        (\<forall>v. unat (PGROUNDDOWN v) < unat sz \<longrightarrow> page_copied pd d used (mem s) (mem s') v) \<and>
        (\<forall>v. unat sz \<le> unat (PGROUNDDOWN v) \<longrightarrow> unat (PGROUNDDOWN v) < unat KERNBASE \<longrightarrow> \<not> present (pte_val (mem s') d v))) \<or>
      d = 0 \<and> (\<exists>fs'. kmem_inv fs' s' \<and> set fs' = set fs))"
  have "ok setupkvm s (\<lambda>d s1. ok (if d = 0 then ret 0 else copyuvm_loop 1048577 pd d 0 sz) s1 ?Q)"
  proof (rule ok_mono [OF setupkvm_ok [OF k l]], elim disjE conjE exE)
    fix d :: addr and s1 fs1
    assume "d = 0" "kmem_inv fs1 s1" "set fs1 = set fs" "same_off (set fs) (mem s) (mem s1)"
    then show "ok (if d = 0 then ret 0 else copyuvm_loop 1048577 pd d 0 sz) s1 ?Q" by (auto simp: wp)
  next
    fix d :: addr and s1 u1 fs1
    assume d: "d \<noteq> 0" and u1: "fs = u1 @ fs1" and vm: "vm_inv d fs1 s1" and pgs: "pt_pages (mem s1) d = set u1"
      and off: "same_off (set u1) (mem s) (mem s1)" and syms: "end_sym s1 = end_sym s" "data_sym s1 = data_sym s"
      and pte: "\<forall>v. pte_val (mem s1) d v = (case find (\<lambda>k. covers k v) (kmap (data_sym s)) of Some k \<Rightarrow> kentry k v | None \<Rightarrow> 0)"
    have low: "\<not> present (pte_val (mem s1) d v)" if v: "unat (PGROUNDDOWN v) < unat KERNBASE" for v
    proof -
      have "\<not> covers e v" if "e \<in> set (kmap (data_sym s))" for e
        using that v kmap_ranges(1-4) [OF l, of v] l unfolding kmap_def link_inv_def
        by (auto simp: KERNBASE_def KERNLINK_def EXTMEM_def)
      then have "find (\<lambda>k. covers k v) (kmap (data_sym s)) = None" by (auto simp: find_None_iff)
      then show ?thesis using pte by simp
    qed
    have base: "unat KERNBASE < unat (end_sym s1)" using l syms by (simp add: link_inv_def)
    have sk: "unat SHAREDBASE \<le> unat KERNBASE" by (simp add: SHAREDBASE_def KERNBASE_def)
    have inv1: "user_inv d (unat SHAREDBASE) fs1 s1" by (rule no_user(1) [OF vm base sk low])
    have fr1: "frames (mem s1) d 0 (unat SHAREDBASE) = {}" by (rule no_user(2) [OF vm base sk low]) simp_all
    have on: "same_on (pt_pages (mem s) pd) (mem s) (mem s1)" by (rule same_off_on [OF off]) (use pt(2) u1 in auto)
    note view = pt_view_same_on [OF on pt(1)]
    have par: "parent_ok pd (unat sz) d fs1 s1"
      using pages pt_inv_same_on [OF on pt(1) syms(1)] pt(2) u1 pgs view(4)
      by (auto simp: parent_ok_def apart_def view(3) uframe_def vframe_cong [OF syms(1)])
    have same: "mem s1 x = mem s x" if "unat (PGROUNDDOWN v) < unat sz" "PGROUNDDOWN x = uframe (mem s) pd v" for v x
      using off pages [OF that(1)] that(2) u1 by (auto simp: same_off_def)
    have "ok (copyuvm_loop 1048577 pd d 0 sz) s1 (\<lambda>r s'.
       r = d \<and> (\<exists>fs'. copied pd d (unat (0 :: addr)) (unat sz) fs1 s1 fs' s') \<or> r = 0 \<and> all_freed d fs1 s1 s')"
      by (rule copyuvm_loop_ok [OF inv1 _ sz _ _ par]) (use low sz unat_lt32 [of sz] in \<open>auto simp: SHAREDBASE_def KERNBASE_def\<close>)
    then have "ok (copyuvm_loop 1048577 pd d 0 sz) s1 ?Q"
    proof (rule ok_mono, elim disjE conjE exE)
      fix r :: addr and s' fs'
      assume r: "r = d" and c: "copied pd d (unat (0 :: addr)) (unat sz) fs1 s1 fs' s'"
      then obtain u2 where u2: "fs1 = u2 @ fs'" "same_off (pt_pages (mem s1) d \<union> set u2) (mem s1) (mem s')"
        "pt_pages (mem s') d \<subseteq> pt_pages (mem s1) d \<union> set u2"
        and pc: "\<And>v. unat (PGROUNDDOWN v) < unat sz \<Longrightarrow> page_copied pd d u2 (mem s1) (mem s') v"
        and keep: "\<And>v. unat sz \<le> unat (PGROUNDDOWN v) \<Longrightarrow> pte_val (mem s') d v = pte_val (mem s1) d v"
        and inv': "user_inv d (unat SHAREDBASE) fs' s'"
        by (auto simp: copied_def)
      have "same_off (set fs) (mem s) (mem s')"
        by (rule same_off_trans [OF same_off_mono [OF off] same_off_mono [OF u2(2)]]) (auto simp: u1 u2(1) pgs)
      moreover have "page_copied pd d (u1 @ u2) (mem s) (mem s') v" if v: "unat (PGROUNDDOWN v) < unat sz" for v
      proof -
        have uf: "aligned (uframe (mem s) pd v)" using pages [OF v] by (simp add: vframe_def)
        have "mem s1 (uframe (mem s) pd v + (x - g)) = mem s (uframe (mem s) pd v + (x - g))" if g: "aligned g" "PGROUNDDOWN x = g" for x g
        proof (rule same [OF v])
          have "PGROUNDDOWN (x - g) = 0" using g PGROUNDDOWN_add [OF g(1), of "x - g"] by simp
          then show "PGROUNDDOWN (uframe (mem s) pd v + (x - g)) = uframe (mem s) pd v" using PGROUNDDOWN_add [OF uf] by simp
        qed
        moreover have "aligned (uframe (mem s') d v)" by (simp add: uframe_def)
        ultimately show ?thesis using pc [OF v] by (auto simp: page_copied_def view(3) uframe_def)
      qed
      moreover have "\<not> present (pte_val (mem s') d v)" if "unat sz \<le> unat (PGROUNDDOWN v)" "unat (PGROUNDDOWN v) < unat KERNBASE" for v
        using keep [OF that(1)] low [OF that(2)] by simp
      moreover have "fs = (u1 @ u2) @ fs'" "pt_pages (mem s') d \<subseteq> set (u1 @ u2)" using u1 u2 pgs by auto
      ultimately show "?Q r s'" using r d inv' by metis
    next
      fix r :: addr and s'
      assume r: "r = 0" and "all_freed d fs1 s1 s'"
      then obtain fs' where f': "kmem_inv fs' s'" "set fs' = set fs" "same_off (set fs') (mem s1) (mem s')"
        using fr1 pgs u1 by (auto simp: all_freed_def Un_commute)
      have "same_off (set fs) (mem s) (mem s')"
        by (rule same_off_trans [OF same_off_mono [OF off] f'(3) [unfolded f'(2)]]) (simp add: u1)
      then show "?Q r s'" using r f' by blast
    qed
    then show "ok (if d = 0 then ret 0 else copyuvm_loop 1048577 pd d 0 sz) s1 ?Q" using d by simp
  qed
  then show ?thesis by (simp add: copyuvm_def ok_bnd)
qed

end
