(* ===== verification/Gates.thy ===== *)
theory Gates
  imports Mmu Prelude
begin

text \<open>
  Segment and gate descriptors: the macros of \<^verbatim>\<open>kernel/mmu.h\<close> as 64-bit words, the descriptor
  table that \<open>seginit\<close> of \<^verbatim>\<open>kernel/vm.c\<close> builds and the interrupt table that \<open>tvinit\<close> of
  \<^verbatim>\<open>kernel/trap.c\<close> builds. What the processor checks when a program executes an interrupt
  instruction, the privilege level of the gate, is read back from the word.
\<close>

section \<open>Descriptors\<close>

definition STA_X :: uint64 where "STA_X = 8"
definition STA_W :: uint64 where "STA_W = 2"
definition STA_R :: uint64 where "STA_R = 2"
definition STS_T32A :: uint64 where "STS_T32A = 9"
definition STS_IG32 :: uint64 where "STS_IG32 = 14"
definition STS_TG32 :: uint64 where "STS_TG32 = 15"
definition DPL_USER :: uint64 where "DPL_USER = 3"
definition SEG_KCODE :: uint64 where "SEG_KCODE = 1"

definition SEG :: "uint64 \<Rightarrow> uint \<Rightarrow> uint \<Rightarrow> uint64 \<Rightarrow> uint64" where
  "SEG type base lim dpl =
     (drop_bit 12 (ucast lim) AND 0xFFFF)
     OR push_bit 16 (ucast base AND 0xFFFF)
     OR push_bit 32 (drop_bit 16 (ucast base) AND 0xFF)
     OR push_bit 40 type
     OR push_bit 44 1
     OR push_bit 45 dpl
     OR push_bit 47 1
     OR push_bit 48 (drop_bit 28 (ucast lim))
     OR push_bit 54 1
     OR push_bit 55 1
     OR push_bit 56 (drop_bit 24 (ucast base))"

definition SEG16 :: "uint64 \<Rightarrow> uint \<Rightarrow> uint \<Rightarrow> uint64 \<Rightarrow> uint64" where
  "SEG16 type base lim dpl =
     (ucast lim AND 0xFFFF)
     OR push_bit 16 (ucast base AND 0xFFFF)
     OR push_bit 32 (drop_bit 16 (ucast base) AND 0xFF)
     OR push_bit 40 type
     OR push_bit 44 1
     OR push_bit 45 dpl
     OR push_bit 47 1
     OR push_bit 48 (drop_bit 16 (ucast lim))
     OR push_bit 54 1
     OR push_bit 56 (drop_bit 24 (ucast base))"

definition SEG_CLS :: "uint64 \<Rightarrow> uint64" where
  "SEG_CLS seg = seg AND NOT (push_bit 44 1)"

text \<open>The selector is at most 16 bits wide in every call, so the shift in \<open>int\<close> keeps its sign.\<close>

definition SETGATE :: "bool \<Rightarrow> uint64 \<Rightarrow> uint \<Rightarrow> uint64 \<Rightarrow> uint64" where
  "SETGATE istrap sel off d =
     ucast (off AND 0xFFFF)
     OR push_bit 16 (sel AND 0xFFFF)
     OR push_bit 40 (if istrap then STS_TG32 else STS_IG32)
     OR push_bit 45 d
     OR push_bit 47 1
     OR push_bit 48 (drop_bit 16 (ucast off))"

section \<open>The tables\<close>

text \<open>The entries \<open>SEG_KCODE\<close> to \<open>SEG_UDATA\<close>; entry 0 is the null descriptor.\<close>

definition seginit :: "uint64 list" where
  "seginit = [0, SEG (STA_X OR STA_R) 0 0xFFFFFFFF 0, SEG STA_W 0 0xFFFFFFFF 0,
     SEG (STA_X OR STA_R) 0 0xFFFFFFFF DPL_USER, SEG STA_W 0 0xFFFFFFFF DPL_USER]"

text \<open>\<open>vectors\<close> are the 256 entry points generated into \<^verbatim>\<open>vectors.S\<close>.\<close>

definition tvinit :: "(nat \<Rightarrow> uint) \<Rightarrow> uint64 list" where
  "tvinit vectors =
     (map (\<lambda>i. SETGATE False (push_bit 3 SEG_KCODE) (vectors i) 0) [0..<256])
       [64 := SETGATE True (push_bit 3 SEG_KCODE) (vectors 64) DPL_USER]"

section \<open>Reading a gate\<close>

definition gate_off :: "uint64 \<Rightarrow> uint" where
  "gate_off g = ucast (g AND 0xFFFF) OR push_bit 16 (ucast (drop_bit 48 g))"

definition gate_sel :: "uint64 \<Rightarrow> uint64" where
  "gate_sel g = drop_bit 16 g AND 0xFFFF"

definition gate_type :: "uint64 \<Rightarrow> uint64" where
  "gate_type g = drop_bit 40 g AND 0xF"

definition gate_dpl :: "uint64 \<Rightarrow> uint64" where
  "gate_dpl g = drop_bit 45 g AND 3"

definition gate_present :: "uint64 \<Rightarrow> bool" where
  "gate_present g = bit g 47"

lemma and_masks: "x AND 0xFFFF = take_bit 16 (x :: 'a :: len word)" "x AND 3 = take_bit 2 x" "x AND 0xF = take_bit 4 x"
  by (simp_all add: take_bit_eq_mask mask_eq_exp_minus_1)

lemmas field_bits = bit_or_iff bit_push_bit_iff bit_take_bit_iff bit_drop_bit_eq o_def bit_1_iff bit_unsigned_iff
  possible_bit_word

lemma bit_type: "bit (if t then STS_TG32 else STS_IG32) n \<longleftrightarrow> (n = 1 \<or> n = 2 \<or> n = 3 \<or> (n = 0 \<and> t))"
proof -
  have m: "STS_TG32 = mask 4" "STS_IG32 = push_bit 1 (mask 3)"
    by (simp_all add: STS_TG32_def STS_IG32_def mask_eq_exp_minus_1)
  have "bit (mask 4 :: uint64) n \<longleftrightarrow> n < 4"
    by (auto simp only: bit_mask_iff possible_bit_word) simp
  moreover have "bit (push_bit 1 (mask 3) :: uint64) n \<longleftrightarrow> 1 \<le> n \<and> n < 4"
    by (auto simp only: bit_mask_iff bit_push_bit_iff possible_bit_word) simp_all
  ultimately show ?thesis unfolding m by (cases t) (simp_all, arith+)
qed

lemma SETGATE_fields:
  "SETGATE t sel off d = ucast (take_bit 16 off) OR push_bit 16 (take_bit 16 sel)
     OR push_bit 40 (if t then STS_TG32 else STS_IG32) OR push_bit 45 d OR push_bit 47 1
     OR push_bit 48 (drop_bit 16 (ucast off))"
  by (simp add: SETGATE_def and_masks)

lemma bit_SETGATE:
  assumes "take_bit 2 d = d" and n: "n < 64"
  shows "bit (SETGATE t sel off d) n \<longleftrightarrow>
     (n < 16 \<and> bit off n) \<or> (16 \<le> n \<and> n < 32 \<and> bit sel (n - 16)) \<or>
     (40 \<le> n \<and> (n = 41 \<or> n = 42 \<or> n = 43 \<or> (n = 40 \<and> t))) \<or> (45 \<le> n \<and> n < 47 \<and> bit d (n - 45)) \<or> n = 47 \<or>
     (48 \<le> n \<and> bit off (n - 32))"
proof -
  have d: "bit d k \<longleftrightarrow> k < 2 \<and> bit d k" for k
    using arg_cong [OF assms(1), of "\<lambda>x. bit x k"] by (simp only: bit_take_bit_iff)
  have o: "bit off k \<Longrightarrow> k < 32" for k using bit_imp_le_length [of off k] by simp
  have o48: "16 + (n - 48) = n - 32" if "48 \<le> n" using that by simp
  have f: "bit (SETGATE t sel off d) n \<longleftrightarrow>
      (n < 16 \<and> bit off n) \<or> (16 \<le> n \<and> n - 16 < 16 \<and> bit sel (n - 16)) \<or>
      (40 \<le> n \<and> (n - 40 = 1 \<or> n - 40 = 2 \<or> n - 40 = 3 \<or> (n - 40 = 0 \<and> t))) \<or> (45 \<le> n \<and> bit d (n - 45)) \<or>
      (47 \<le> n \<and> n - 47 = 0) \<or> (48 \<le> n \<and> bit off (16 + (n - 48)))"
    unfolding SETGATE_fields using n less_imp_diff_less [OF n, of 48]
    by (simp only: field_bits bit_type) (cases "n - 48 < 48", simp_all add: conj_ac)
  consider "n < 40" | "40 \<le> n" "n < 45" | "45 \<le> n" "n < 48" | "48 \<le> n" by linarith
  then show ?thesis
  proof cases
    case 3
    then show ?thesis unfolding f using d [of "n - 45"] by (simp, arith)
  next
    case 4
    then have "\<not> n - 16 < 16" "\<not> n - 45 < 2" "n - 40 \<noteq> 1" "n - 40 \<noteq> 2" "n - 40 \<noteq> 3" by arith+
    then show ?thesis unfolding f using 4 d [of "n - 45"] o48 by simp
  qed (unfold f, simp_all, arith+)
qed

lemma gate_off_SETGATE:
  assumes "take_bit 2 d = d"
  shows "gate_off (SETGATE t sel off d) = off"
proof (rule bit32_eqI)
  fix n :: nat assume n: "n < 32"
  have "bit (gate_off (SETGATE t sel off d)) n \<longleftrightarrow>
      (n < 16 \<and> bit (SETGATE t sel off d) n) \<or> (16 \<le> n \<and> bit (SETGATE t sel off d) (48 + (n - 16)))"
    unfolding gate_off_def and_masks using n by (simp only: field_bits) auto
  also have "\<dots> \<longleftrightarrow> bit off n"
    using n bit_SETGATE [OF assms, of n t sel off] bit_SETGATE [OF assms, of "48 + (n - 16)" t sel off]
    by (cases "n < 16") simp_all
  finally show "bit (gate_off (SETGATE t sel off d)) n = bit off n" .
qed

lemma gate_dpl_SETGATE:
  assumes "take_bit 2 d = d"
  shows "gate_dpl (SETGATE t sel off d) = d"
proof (rule bit_word_eqI)
  fix n assume n: "n < LENGTH(64)"
  have "bit (gate_dpl (SETGATE t sel off d)) n \<longleftrightarrow> n < 2 \<and> bit (SETGATE t sel off d) (45 + n)"
    unfolding gate_dpl_def and_masks by (simp only: field_bits)
  also have "\<dots> \<longleftrightarrow> n < 2 \<and> bit d n"
    using bit_SETGATE [OF assms, of "45 + n" t sel off] by (cases "n < 2") auto
  also have "\<dots> \<longleftrightarrow> bit d n"
    using arg_cong [OF assms(1), of "\<lambda>x. bit x n"] by (simp only: bit_take_bit_iff)
  finally show "bit (gate_dpl (SETGATE t sel off d)) n = bit d n" .
qed

lemma gate_present_SETGATE: "take_bit 2 d = d \<Longrightarrow> gate_present (SETGATE t sel off d)"
  by (simp add: gate_present_def bit_SETGATE)

lemma length_tvinit [simp]: "length (tvinit v) = 256"
  by (simp add: tvinit_def)

lemma tvinit_nth: "i < 256 \<Longrightarrow> tvinit v ! i =
    SETGATE (i = 64) (push_bit 3 SEG_KCODE) (v i) (if i = 64 then DPL_USER else 0)"
  by (auto simp: tvinit_def nth_list_update)

end
