(* ===== verification/Spinlock.thy ===== *)
theory Spinlock
  imports Prelude
begin

text \<open>
  Spinlocks and the interrupt bookkeeping of \<^verbatim>\<open>kernel/spinlock.c\<close>, with \<open>mycpu\<close> and \<open>cpuid\<close> of
  \<^verbatim>\<open>kernel/proc.c\<close>. The record \<open>cpu\<close> holds the fields of \<open>struct cpu\<close> that these routines use
  and the processor's interrupt flag. The concrete lock of one processor is shown to refine the
  view \<open>lockview\<close> that the components use, and a step relation over all processors, in which
  only \<open>xchg\<close> is atomic, gives mutual exclusion.
\<close>

section \<open>Reachable states and invariants\<close>

text \<open>A transition system given by an initial predicate and a step relation; an invariant is
  established by the initial states and kept by every step.\<close>

inductive reaches :: "('s \<Rightarrow> bool) \<Rightarrow> ('s \<Rightarrow> 's \<Rightarrow> bool) \<Rightarrow> 's \<Rightarrow> bool" for init step where
  reaches_init: "init s \<Longrightarrow> reaches init step s"
| reaches_step: "reaches init step s \<Longrightarrow> step s t \<Longrightarrow> reaches init step t"

locale invariant_system =
  fixes init :: "'s \<Rightarrow> bool" and step :: "'s \<Rightarrow> 's \<Rightarrow> bool" and inv :: "'s \<Rightarrow> bool"
  assumes inv_init: "init s \<Longrightarrow> inv s"
    and inv_step: "inv s \<Longrightarrow> step s t \<Longrightarrow> inv t"
begin

lemma reachable_inv: "reaches init step s \<Longrightarrow> inv s"
  by (induction rule: reaches.induct) (blast intro: inv_init inv_step)+

lemma steps_inv: "inv s \<Longrightarrow> step\<^sup>*\<^sup>* s t \<Longrightarrow> inv t"
  by (erule rtranclp_induct) (blast intro: inv_step)+

end

section \<open>Processors\<close>

record cpu =
  cpu_apicid :: uchar
  cpu_ncli :: int
  cpu_intena :: bool
  cpu_if :: bool      \<comment> \<open>\<open>readeflags() & FL_IF\<close>\<close>

definition NCPU :: nat where "NCPU = 8"

fun find_apic :: "uchar \<Rightarrow> cpu list \<Rightarrow> nat \<Rightarrow> nat option" where
  "find_apic a [] i = None"
| "find_apic a (c # cs) i = (if cpu_apicid c = a then Some i else find_apic a cs (Suc i))"

text \<open>\<open>lapicid\<close> reads the identifier of the executing processor.\<close>

definition mycpu :: "bool \<Rightarrow> uchar \<Rightarrow> (cpu list, nat) kop" where
  "mycpu ifl lapicid = bnd (gets id) (\<lambda>cpus.
     if ifl then panic ''mycpu called with interrupts enabled''
     else case find_apic lapicid cpus 0 of Some i \<Rightarrow> ret i | None \<Rightarrow> panic ''unknown apicid'')"

definition cpuid :: "bool \<Rightarrow> uchar \<Rightarrow> (cpu list, nat) kop" where
  "cpuid ifl lapicid = mycpu ifl lapicid"

definition pushcli :: "(cpu, unit) kop" where
  "pushcli = bnd (gets cpu_if) (\<lambda>eflags.
     seqk (upd (\<lambda>c. c\<lparr>cpu_if := False\<rparr>))
    (seqk (upd (\<lambda>c. if cpu_ncli c = 0 then c\<lparr>cpu_intena := eflags\<rparr> else c))
     (upd (\<lambda>c. c\<lparr>cpu_ncli := cpu_ncli c + 1\<rparr>))))"

definition popcli :: "(cpu, unit) kop" where
  "popcli = bnd (gets cpu_if) (\<lambda>eflags.
     if eflags then panic ''popcli - interruptible''
     else seqk (upd (\<lambda>c. c\<lparr>cpu_ncli := cpu_ncli c - 1\<rparr>))
       (bnd (gets id) (\<lambda>c.
          if cpu_ncli c < 0 then panic ''popcli''
          else whenk (cpu_ncli c = 0 \<and> cpu_intena c) (upd (\<lambda>c. c\<lparr>cpu_if := True\<rparr>)))))"

text \<open>Interrupts are off while the depth is positive, and the depth is never negative.\<close>

definition cli_inv :: "cpu \<Rightarrow> bool" where
  "cli_inv c \<longleftrightarrow> 0 \<le> cpu_ncli c \<and> (0 < cpu_ncli c \<longrightarrow> \<not> cpu_if c)"

definition pushed :: "cpu \<Rightarrow> cpu" where
  "pushed c = c\<lparr>cpu_if := False, cpu_ncli := cpu_ncli c + 1,
     cpu_intena := (if cpu_ncli c = 0 then cpu_if c else cpu_intena c)\<rparr>"

definition popped :: "cpu \<Rightarrow> cpu" where
  "popped c = c\<lparr>cpu_ncli := cpu_ncli c - 1, cpu_if := (cpu_ncli c = 1 \<and> cpu_intena c)\<rparr>"

lemma pushcli_eq: "pushcli c = Done () (pushed c)"
  by (simp add: pushcli_def bnd_def seqk_def gets_def upd_def pushed_def)

lemma popcli_eq: "popcli c = (if cpu_if c then Stop (Panic ''popcli - interruptible'')
     else if cpu_ncli c \<le> 0 then Stop (Panic ''popcli'') else Done () (popped c))"
  by (cases c) (simp add: popcli_def bnd_def seqk_def gets_def upd_def panic_def halt_def whenk_def ret_def popped_def)

lemma ok_pushcli [wp]: "ok pushcli c Q = Q () (pushed c)"
  by (simp add: ok_def pushcli_eq)

lemma safe_pushcli [wp]: "safe pushcli c Q = Q () (pushed c)"
  by (simp add: safe_def pushcli_eq)

lemma ok_popcli [wp]: "ok popcli c Q = (\<not> cpu_if c \<and> 0 < cpu_ncli c \<and> Q () (popped c))"
  by (auto simp add: ok_def popcli_eq)

lemma safe_popcli [wp]: "safe popcli c Q = (\<not> cpu_if c \<and> 0 < cpu_ncli c \<longrightarrow> Q () (popped c))"
  by (auto simp add: safe_def popcli_eq)

lemma cpu_pushed [simp]: "cpu_ncli (pushed c) = cpu_ncli c + 1" "\<not> cpu_if (pushed c)"
  "cpu_intena (pushed c) = (if cpu_ncli c = 0 then cpu_if c else cpu_intena c)"
  "cpu_apicid (pushed c) = cpu_apicid c"
  by (simp_all add: pushed_def)

lemma cpu_popped [simp]: "cpu_ncli (popped c) = cpu_ncli c - 1"
  "cpu_if (popped c) = (cpu_ncli c = 1 \<and> cpu_intena c)" "cpu_intena (popped c) = cpu_intena c"
  "cpu_apicid (popped c) = cpu_apicid c"
  by (simp_all add: popped_def)

lemma cli_inv_pushed: "cli_inv c \<Longrightarrow> cli_inv (pushed c)"
  by (simp add: cli_inv_def)

lemma cli_inv_popped: "cli_inv c \<Longrightarrow> 0 < cpu_ncli c \<Longrightarrow> cli_inv (popped c)"
  by (auto simp: cli_inv_def)

text \<open>\<open>n\<close> matched calls of \<open>pushcli\<close> and \<open>popcli\<close>, one inside the other.\<close>

fun nested :: "nat \<Rightarrow> (cpu, unit) kop" where
  "nested 0 = ret ()"
| "nested (Suc n) = seqk pushcli (seqk (nested n) popcli)"

lemma popped_pushed_deep: "cli_inv c \<Longrightarrow> 0 < cpu_ncli c \<Longrightarrow> popped (pushed c) = c"
  by (cases c) (simp add: popped_def pushed_def cli_inv_def)

lemma nested_deep: "cli_inv c \<Longrightarrow> 0 < cpu_ncli c \<Longrightarrow> nested n c = Done () c"
proof (induction n arbitrary: c)
  case (Suc n)
  then have "nested n (pushed c) = Done () (pushed c)"
    by (intro Suc.IH) (auto simp: cli_inv_def)
  then show ?case
    using Suc.prems by (simp add: seqk_def bnd_def pushcli_eq popcli_eq popped_pushed_deep cli_inv_def)
qed (simp add: ret_def)

lemma nested_balanced:
  assumes "cli_inv c"
  shows "ok (nested n) c (\<lambda>_ c'. cpu_if c' = cpu_if c \<and> cpu_ncli c' = cpu_ncli c \<and> cpu_apicid c' = cpu_apicid c)"
proof (cases n)
  case 0
  then show ?thesis by (simp add: wp)
next
  case (Suc k)
  have "nested k (pushed c) = Done () (pushed c)"
    using assms by (intro nested_deep) (auto simp: cli_inv_def)
  then show ?thesis using Suc assms by (auto simp: wp ok_Done_eq cli_inv_def)
qed

section \<open>The lock of one processor\<close>

record spinlock =
  lk_locked :: uint
  lk_cpu :: "nat option"
  lk_pcs :: "uint list"

text \<open>
  What processor \<open>me\<close> works on: the lock, its own record, and the kernel memory that holds the
  stack frames read by \<open>getcallerpcs\<close>. The name of a lock is only used for debugging.
\<close>

record spin =
  sp_lk :: spinlock
  sp_cpu :: cpu
  sp_mem :: memory

definition initlock :: "spinlock \<Rightarrow> spinlock" where
  "initlock lk = lk\<lparr>lk_locked := 0, lk_cpu := None\<rparr>"

fun callerpcs :: "memory \<Rightarrow> nat \<Rightarrow> addr \<Rightarrow> uint list" where
  "callerpcs m 0 ebp = []"
| "callerpcs m (Suc n) ebp =
     (if ebp = 0 \<or> ebp < 0x80000000 \<or> ebp = 0xFFFFFFFF then replicate (Suc n) 0
      else load32 m (ebp + 4) # callerpcs m n (load32 m ebp))"

definition getcallerpcs :: "memory \<Rightarrow> addr \<Rightarrow> uint list" where
  "getcallerpcs m v = callerpcs m 10 (v - 8)"

definition spin_cpu :: "(cpu, 'a) kop \<Rightarrow> (spin, 'a) kop" where
  "spin_cpu = zoom sp_cpu (\<lambda>c s. s\<lparr>sp_cpu := c\<rparr>)"

definition holding :: "nat \<Rightarrow> (spin, bool) kop" where
  "holding me = seqk (spin_cpu pushcli)
     (bnd (gets (\<lambda>s. lk_locked (sp_lk s) \<noteq> 0 \<and> lk_cpu (sp_lk s) = Some me)) (\<lambda>r.
        seqk (spin_cpu popcli) (ret r)))"

text \<open>A lock that another processor holds makes \<open>xchg\<close> return 1 again and again.\<close>

definition spin_acquire :: "nat \<Rightarrow> addr \<Rightarrow> (spin, unit) kop" where
  "spin_acquire me frame = seqk (spin_cpu pushcli)
     (bnd (holding me) (\<lambda>h.
        if h then panic ''acquire''
        else bnd (gets (lk_locked \<circ> sp_lk)) (\<lambda>old.
          if old \<noteq> 0 then halt Spin
          else upd (\<lambda>s. s\<lparr>sp_lk := (sp_lk s)\<lparr>lk_locked := 1, lk_cpu := Some me,
                 lk_pcs := getcallerpcs (sp_mem s) frame\<rparr>\<rparr>))))"

definition spin_release :: "nat \<Rightarrow> (spin, unit) kop" where
  "spin_release me = bnd (holding me) (\<lambda>h.
     if \<not> h then panic ''release''
     else seqk (upd (\<lambda>s. s\<lparr>sp_lk := (sp_lk s)\<lparr>lk_pcs := (lk_pcs (sp_lk s))[0 := 0], lk_cpu := None\<rparr>\<rparr>))
         (seqk (upd (\<lambda>s. s\<lparr>sp_lk := (sp_lk s)\<lparr>lk_locked := 0\<rparr>\<rparr>))
          (spin_cpu popcli)))"

definition view :: "nat \<Rightarrow> spin \<Rightarrow> lockview" where
  "view me s = (if lk_locked (sp_lk s) = 0 then Unlocked
     else if lk_cpu (sp_lk s) = Some me then Mine else Theirs)"

text \<open>
  The abstract routines work on the pair of the view and the processor. \<open>lift_view\<close> is the result
  seen through the view.
\<close>

definition lift_view :: "nat \<Rightarrow> (unit, spin) res \<Rightarrow> (unit, lockview \<times> cpu) res" where
  "lift_view me r = (case r of Done x s \<Rightarrow> Done x (view me s, sp_cpu s) | Stop e \<Rightarrow> Stop e)"

definition abs_acquire :: "(lockview \<times> cpu, unit) kop" where
  "abs_acquire = seqk (zoom snd (\<lambda>c s. (fst s, c)) pushcli) (acquire fst (\<lambda>l s. (l, snd s)))"

definition abs_release :: "(lockview \<times> cpu, unit) kop" where
  "abs_release = seqk (release fst (\<lambda>l s. (l, snd s))) (zoom snd (\<lambda>c s. (fst s, c)) popcli)"

lemma holding_eq:
  assumes "cli_inv (sp_cpu s)" "0 < cpu_ncli (sp_cpu s)"
  shows "holding me s = Done (view me s = Mine) s"
  using assms popped_pushed_deep [OF assms]
  by (simp add: holding_def bnd_def seqk_def zoom_def spin_cpu_def gets_def ret_def pushcli_eq popcli_eq view_def cli_inv_def)

lemma abs_acquire_eq: "abs_acquire (v, c) = (case v of Unlocked \<Rightarrow> Done () (Mine, pushed c)
    | Mine \<Rightarrow> Stop (Panic ''acquire'') | Theirs \<Rightarrow> Stop Spin)"
  by (cases v) (simp_all add: abs_acquire_def seqk_def bnd_def zoom_def pushcli_eq acquire_def)

lemma abs_release_eq: "abs_release (v, c) = (if v = Mine then
     (if cpu_if c then Stop (Panic ''popcli - interruptible'')
      else if cpu_ncli c \<le> 0 then Stop (Panic ''popcli'') else Done () (Unlocked, popped c))
    else Stop (Panic ''release''))"
  by (simp add: abs_release_def seqk_def bnd_def zoom_def popcli_eq release_def)

lemma spin_acquire_refines:
  assumes "cli_inv (sp_cpu s)"
  shows "lift_view me (spin_acquire me frame s) = abs_acquire (view me s, sp_cpu s)"
proof -
  let ?s = "s\<lparr>sp_cpu := pushed (sp_cpu s)\<rparr>"
  have c: "cli_inv (sp_cpu ?s)" "0 < cpu_ncli (sp_cpu ?s)"
    using assms by (auto simp: cli_inv_def)
  have push: "spin_cpu pushcli s = Done () ?s"
    by (simp add: spin_cpu_def zoom_def pushcli_eq)
  from holding_eq [OF c, of me] push show ?thesis
    by (auto simp: spin_acquire_def seqk_def bnd_def panic_def halt_def gets_def upd_def lift_view_def
        abs_acquire_eq view_def)
qed

lemma spin_release_refines:
  assumes "cli_inv (sp_cpu s)" and "0 < cpu_ncli (sp_cpu s)"
  shows "lift_view me (spin_release me s) = abs_release (view me s, sp_cpu s)"
proof -
  have "\<not> cpu_if (sp_cpu s)" using assms by (simp add: cli_inv_def)
  with holding_eq [OF assms, of me] assms show ?thesis
    by (auto simp: spin_release_def seqk_def bnd_def panic_def halt_def upd_def lift_view_def
        abs_release_eq view_def spin_cpu_def zoom_def popcli_eq)
qed

section \<open>All processors\<close>

text \<open>
  Where a processor is in \<open>acquire\<close> or \<open>release\<close>: outside, in the loop around \<open>xchg\<close>, past it, in
  the critical section with \<open>lk->cpu\<close> set, and past \<open>lk->cpu = 0\<close> in \<open>release\<close>.
\<close>

datatype loc = Out | Want | Got | Crit | Leaving

record spins =
  w_locked :: bool
  w_cpu :: "nat option"
  w_loc :: "nat \<Rightarrow> loc"

definition w_holding :: "nat \<Rightarrow> spins \<Rightarrow> bool" where
  "w_holding c w \<longleftrightarrow> w_locked w \<and> w_cpu w = Some c"

inductive spin_step :: "spins \<Rightarrow> spins \<Rightarrow> bool" where
  want: "w_loc w c = Out \<Longrightarrow> \<not> w_holding c w \<Longrightarrow> spin_step w (w\<lparr>w_loc := (w_loc w)(c := Want)\<rparr>)"
| xchg_1: "w_loc w c = Want \<Longrightarrow> w_locked w \<Longrightarrow> spin_step w w"
| xchg_0: "w_loc w c = Want \<Longrightarrow> \<not> w_locked w \<Longrightarrow>
     spin_step w (w\<lparr>w_locked := True, w_loc := (w_loc w)(c := Got)\<rparr>)"
| set_cpu: "w_loc w c = Got \<Longrightarrow> spin_step w (w\<lparr>w_cpu := Some c, w_loc := (w_loc w)(c := Crit)\<rparr>)"
| clear_cpu: "w_loc w c = Crit \<Longrightarrow> w_holding c w \<Longrightarrow>
     spin_step w (w\<lparr>w_cpu := None, w_loc := (w_loc w)(c := Leaving)\<rparr>)"
| unlock: "w_loc w c = Leaving \<Longrightarrow> spin_step w (w\<lparr>w_locked := False, w_loc := (w_loc w)(c := Out)\<rparr>)"

definition spin_init :: "spins \<Rightarrow> bool" where
  "spin_init w \<longleftrightarrow> \<not> w_locked w \<and> w_cpu w = None \<and> (\<forall>c. w_loc w c = Out)"

definition inside :: "loc \<Rightarrow> bool" where
  "inside l \<longleftrightarrow> l \<in> {Got, Crit, Leaving}"

definition spin_inv :: "spins \<Rightarrow> bool" where
  "spin_inv w \<longleftrightarrow> (w_locked w \<longleftrightarrow> (\<exists>c. inside (w_loc w c))) \<and>
     (\<forall>c d. inside (w_loc w c) \<longrightarrow> inside (w_loc w d) \<longrightarrow> c = d) \<and>
     (\<forall>c. w_cpu w = Some c \<longleftrightarrow> w_loc w c = Crit)"

lemma spin_inv_init: "spin_init w \<Longrightarrow> spin_inv w"
  by (auto simp: spin_init_def spin_inv_def inside_def)

lemma inside_simps: "inside Got" "inside Crit" "inside Leaving" "\<not> inside Out" "\<not> inside Want"
  by (simp_all add: inside_def)

lemma spin_inv_step:
  assumes inv: "spin_inv w" and "spin_step w w'"
  shows "spin_inv w'"
  using assms(2)
proof cases
  case (xchg_0 c)
  then have none: "\<forall>d. \<not> inside (w_loc w d)" using inv by (simp add: spin_inv_def)
  then have "\<forall>d. w_loc w d \<noteq> Crit" using inside_simps(2) by metis
  with none show ?thesis using xchg_0 inv by (simp add: spin_inv_def inside_simps)
qed (use inv in \<open>simp_all add: spin_inv_def inside_def w_holding_def, (metis option.inject loc.distinct)+\<close>)

interpretation spin: invariant_system spin_init spin_step spin_inv
  by unfold_locales (auto intro: spin_inv_init spin_inv_step)

end
