(* ===== verification/ProcDefs.thy ===== *)
theory ProcDefs
  imports Vm Spinlock
begin

text \<open>
  The process structures of \<^verbatim>\<open>kernel/proc.h\<close>, the trap frame of \<^verbatim>\<open>kernel/x86.h\<close>, and the state
  that the process, system-call and shared-memory code works on: the pages of memory, the process
  table, and the processor that runs the code (the current process, the interrupt bookkeeping, the
  loaded page directory and the task state). Pointers into the process, file and inode tables are
  indices; a null pointer is \<open>None\<close>. A process's trap frame and context are fields of its
  record, where the code keeps pointers to them on the kernel stack page.
\<close>

section \<open>Structures\<close>

definition NPROC :: nat where "NPROC = 64"
definition NOFILE :: nat where "NOFILE = 16"
definition KSTACKSIZE :: uint where "KSTACKSIZE = 4096"
definition SHAREDNAME :: nat where "SHAREDNAME = 10"
definition SHAREDCOUNT :: nat where "SHAREDCOUNT = 10"

record trapframe =
  tf_edi :: uint
  tf_esi :: uint
  tf_ebp :: uint
  tf_oesp :: uint
  tf_ebx :: uint
  tf_edx :: uint
  tf_ecx :: uint
  tf_eax :: uint
  tf_gs :: ushort
  tf_fs :: ushort
  tf_es :: ushort
  tf_ds :: ushort
  tf_trapno :: uint
  tf_err :: uint
  tf_eip :: uint
  tf_cs :: ushort
  tf_eflags :: uint
  tf_esp :: uint
  tf_ss :: ushort

record kcontext =
  ctx_edi :: uint
  ctx_esi :: uint
  ctx_ebx :: uint
  ctx_ebp :: uint
  ctx_eip :: uint

datatype procstate = UNUSED | EMBRYO | SLEEPING | RUNNABLE | RUNNING | ZOMBIE

record shared =
  sh_name :: "uchar list"
  sh_memstart :: addr
  sh_size :: uint

record proc =
  p_sz :: uint
  p_pgdir :: addr
  p_parent_pgdir :: addr
  p_kstack :: addr
  p_state :: procstate
  p_pid :: uint
  p_parent :: "nat option"
  p_tf :: trapframe
  p_context :: kcontext
  p_chan :: chan
  p_killed :: bool
  p_ofile :: "nat option list"
  p_cwd :: "nat option"
  p_name :: "uchar list"
  p_shared :: "shared list"

record psys =
  km :: kmem
  ptable_lock :: lockview
  procs :: "proc list"
  initproc :: "nat option"
  nextpid :: uint
  tickslock :: lockview
  ticks :: uint
  curproc :: "nat option"
  pcpu :: cpu
  kpgdir :: addr
  cr3 :: uint
  ts_ss0 :: ushort
  ts_esp0 :: uint
  ts_iomb :: ushort
  forkret_sym :: addr   \<comment> \<open>where a new process starts in the kernel\<close>

section \<open>Access to the state\<close>

definition kmop :: "(kmem, 'a) kop \<Rightarrow> (psys, 'a) kop" where
  "kmop = zoom km (\<lambda>k s. s\<lparr>km := k\<rparr>)"

definition cpuop :: "(cpu, 'a) kop \<Rightarrow> (psys, 'a) kop" where
  "cpuop = zoom pcpu (\<lambda>c s. s\<lparr>pcpu := c\<rparr>)"

text \<open>\<open>acquire\<close> and \<open>release\<close> of the locks in this state, with the interrupts they turn off and on.\<close>

definition lock_ptable :: "(psys, unit) kop" where
  "lock_ptable = seqk (cpuop pushcli) (acquire ptable_lock (\<lambda>l s. s\<lparr>ptable_lock := l\<rparr>))"

definition unlock_ptable :: "(psys, unit) kop" where
  "unlock_ptable = seqk (release ptable_lock (\<lambda>l s. s\<lparr>ptable_lock := l\<rparr>)) (cpuop popcli)"

definition lock_ticks :: "(psys, unit) kop" where
  "lock_ticks = seqk (cpuop pushcli) (acquire tickslock (\<lambda>l s. s\<lparr>tickslock := l\<rparr>))"

definition unlock_ticks :: "(psys, unit) kop" where
  "unlock_ticks = seqk (release tickslock (\<lambda>l s. s\<lparr>tickslock := l\<rparr>)) (cpuop popcli)"

text \<open>Using \<open>myproc()\<close> when no process runs dereferences a null pointer.\<close>

definition myproc :: "(psys, nat) kop" where
  "myproc = bnd (gets curproc) (\<lambda>c. case c of Some i \<Rightarrow> ret i | None \<Rightarrow> halt (Fault ''myproc''))"

definition get_proc :: "nat \<Rightarrow> (psys, proc) kop" where
  "get_proc i = bnd (gets procs) (\<lambda>ps. if i < length ps then ret (ps ! i) else halt (Fault ''proc''))"

definition upd_proc :: "nat \<Rightarrow> (proc \<Rightarrow> proc) \<Rightarrow> (psys, unit) kop" where
  "upd_proc i f = upd (\<lambda>s. s\<lparr>procs := (procs s)[i := f (procs s ! i)]\<rparr>)"

definition cur :: "(psys, proc) kop" where
  "cur = bnd myproc get_proc"

definition upd_cur :: "(proc \<Rightarrow> proc) \<Rightarrow> (psys, unit) kop" where
  "upd_cur f = bnd myproc (\<lambda>i. upd_proc i f)"

definition switchkvm :: "(psys, unit) kop" where
  "switchkvm = upd (\<lambda>s. s\<lparr>cr3 := V2P (kpgdir s)\<rparr>)"

text \<open>
  The task-state segment's descriptor, which \<open>switchuvm\<close> also sets, names the same per-processor
  task state every time; the fields it points to are in the state.
\<close>

definition switchuvm :: "nat option \<Rightarrow> (psys, unit) kop" where
  "switchuvm p = (case p of None \<Rightarrow> panic ''switchuvm: no process'' | Some i \<Rightarrow>
     bnd (get_proc i) (\<lambda>p.
       if p_kstack p = 0 then panic ''switchuvm: no kstack''
       else if p_pgdir p = 0 then panic ''switchuvm: no pgdir''
       else upd (\<lambda>s. s\<lparr>ts_ss0 := 16, ts_esp0 := p_kstack p + KSTACKSIZE, ts_iomb := 0xFFFF,
                      cr3 := V2P (p_pgdir p)\<rparr>)))"

text \<open>
  The running process \<open>i\<close>, its entry in the table and its loaded page directory.
\<close>

definition running :: "nat \<Rightarrow> proc \<Rightarrow> psys \<Rightarrow> bool" where
  "running i p s \<longleftrightarrow> curproc s = Some i \<and> i < length (procs s) \<and> procs s ! i = p \<and> cr3 s = V2P (p_pgdir p)"

lemma ok_kmop [wp]: "ok (kmop m) s Q = ok m (km s) (\<lambda>x k. Q x (s\<lparr>km := k\<rparr>))"
  by (simp add: kmop_def wp)

lemma safe_kmop [wp]: "safe (kmop m) s Q = safe m (km s) (\<lambda>x k. Q x (s\<lparr>km := k\<rparr>))"
  by (simp add: kmop_def wp)

lemma ok_cpuop [wp]: "ok (cpuop m) s Q = ok m (pcpu s) (\<lambda>x c. Q x (s\<lparr>pcpu := c\<rparr>))"
  by (simp add: cpuop_def wp)

lemma safe_cpuop [wp]: "safe (cpuop m) s Q = safe m (pcpu s) (\<lambda>x c. Q x (s\<lparr>pcpu := c\<rparr>))"
  by (simp add: cpuop_def wp)

lemma ok_myproc [wp]: "ok myproc s Q = (\<exists>i. curproc s = Some i \<and> Q i s)"
  by (auto simp: myproc_def wp split: option.split)

lemma safe_myproc [wp]: "safe myproc s Q = (\<forall>i. curproc s = Some i \<longrightarrow> Q i s)"
  by (auto simp: myproc_def wp split: option.split)

lemma ok_get_proc [wp]: "ok (get_proc i) s Q = (i < length (procs s) \<and> Q (procs s ! i) s)"
  by (simp add: get_proc_def wp)

lemma safe_get_proc [wp]: "safe (get_proc i) s Q = (i < length (procs s) \<longrightarrow> Q (procs s ! i) s)"
  by (simp add: get_proc_def wp)

lemma ok_upd_proc [wp]: "ok (upd_proc i f) s Q = Q () (s\<lparr>procs := (procs s)[i := f (procs s ! i)]\<rparr>)"
  by (simp add: upd_proc_def wp)

lemma safe_upd_proc [wp]: "safe (upd_proc i f) s Q = Q () (s\<lparr>procs := (procs s)[i := f (procs s ! i)]\<rparr>)"
  by (simp add: upd_proc_def wp)

lemma cur_running: "running i p s \<Longrightarrow> cur s = Done p s"
  by (simp add: cur_def bnd_def myproc_def get_proc_def gets_def ret_def running_def)

lemma ok_cur [wp]: "ok cur s Q = (\<exists>i. curproc s = Some i \<and> i < length (procs s) \<and> Q (procs s ! i) s)"
  by (simp add: cur_def wp)

lemma safe_cur [wp]: "safe cur s Q = (\<forall>i. curproc s = Some i \<longrightarrow> i < length (procs s) \<longrightarrow> Q (procs s ! i) s)"
  by (simp add: cur_def wp)

lemma ok_upd_cur [wp]: "ok (upd_cur f) s Q =
    (\<exists>i. curproc s = Some i \<and> Q () (s\<lparr>procs := (procs s)[i := f (procs s ! i)]\<rparr>))"
  by (simp add: upd_cur_def wp)

lemma safe_upd_cur [wp]: "safe (upd_cur f) s Q =
    (\<forall>i. curproc s = Some i \<longrightarrow> Q () (s\<lparr>procs := (procs s)[i := f (procs s ! i)]\<rparr>))"
  by (simp add: upd_cur_def wp)

end
