(* ===== verification/Sched.thy ===== *)
theory Sched
  imports ProcDefs
begin

text \<open>
  Scheduling (\<^verbatim>\<open>kernel/proc.c\<close>): \<open>wakeup\<close>, \<open>kill\<close>, the halves of \<open>sched\<close>, \<open>yield\<close> and \<open>sleep\<close>
  before and after the context switch, and the scheduler's scan of the process table. Control
  leaves a process at \<open>swtch\<close>, so a routine that calls it is given in two parts; the scan takes what
  the chosen process does until it switches back as a parameter. The step
  relation over all processors is in the theory \<open>Smp\<close>.
\<close>

section \<open>Waking and killing\<close>

definition woken :: "chan \<Rightarrow> proc \<Rightarrow> proc" where
  "woken ch p = (if p_state p = SLEEPING \<and> p_chan p = ch then p\<lparr>p_state := RUNNABLE\<rparr> else p)"

definition wakeup1 :: "chan \<Rightarrow> (psys, unit) kop" where
  "wakeup1 ch = upd (\<lambda>s. s\<lparr>procs := map (woken ch) (procs s)\<rparr>)"

definition wakeup :: "chan \<Rightarrow> (psys, unit) kop" where
  "wakeup ch = seqk lock_ptable (seqk (wakeup1 ch) unlock_ptable)"

definition killed :: "proc \<Rightarrow> proc" where
  "killed p = p\<lparr>p_killed := True, p_state := (if p_state p = SLEEPING then RUNNABLE else p_state p)\<rparr>"

fun kill_loop :: "uint \<Rightarrow> proc list \<Rightarrow> (int \<times> proc list)" where
  "kill_loop pid [] = (-1, [])"
| "kill_loop pid (p # ps) = (if p_pid p = pid then (0, killed p # ps)
     else case kill_loop pid ps of (r, ps') \<Rightarrow> (r, p # ps'))"

definition kill :: "uint \<Rightarrow> (psys, int) kop" where
  "kill pid = seqk lock_ptable
     (bnd (gets (\<lambda>s. kill_loop pid (procs s))) (\<lambda>(r, ps).
        seqk (upd (\<lambda>s. s\<lparr>procs := ps\<rparr>)) (seqk unlock_ptable (ret r))))"

section \<open>Leaving and entering a process\<close>

text \<open>\<open>sched\<close> up to \<open>swtch\<close>: the checks, and the saved \<open>intena\<close>, which \<open>sched_back\<close> restores.\<close>

definition sched :: "(psys, bool) kop" where
  "sched = bnd cur (\<lambda>p. bnd (gets id) (\<lambda>s.
     if ptable_lock s \<noteq> Mine then panic ''sched ptable.lock''
     else if cpu_ncli (pcpu s) \<noteq> 1 then panic ''sched locks''
     else if p_state p = RUNNING then panic ''sched running''
     else if cpu_if (pcpu s) then panic ''sched interruptible''
     else ret (cpu_intena (pcpu s))))"

definition sched_back :: "bool \<Rightarrow> (psys, unit) kop" where
  "sched_back intena = cpuop (upd (\<lambda>c. c\<lparr>cpu_intena := intena\<rparr>))"

definition yield_out :: "(psys, bool) kop" where
  "yield_out = seqk lock_ptable (seqk (upd_cur (\<lambda>p. p\<lparr>p_state := RUNNABLE\<rparr>)) sched)"

definition yield_back :: "bool \<Rightarrow> (psys, unit) kop" where
  "yield_back intena = seqk (sched_back intena) unlock_ptable"

text \<open>
  \<open>sleep\<close> after the lock \<open>lk\<close> has been exchanged for the lock of the process table, and after the
  process has been chosen again, before it takes \<open>lk\<close> back. A sleeping routine of the later
  components stops here with \<open>Sleeps\<close>.
\<close>

definition sleep_on :: "chan \<Rightarrow> (psys, bool) kop" where
  "sleep_on ch = seqk (upd_cur (\<lambda>p. p\<lparr>p_chan := ch, p_state := SLEEPING\<rparr>)) sched"

definition sleep_back :: "bool \<Rightarrow> (psys, unit) kop" where
  "sleep_back intena = seqk (sched_back intena) (upd_cur (\<lambda>p. p\<lparr>p_chan := NoChan\<rparr>))"

definition sleep_ptable :: "chan \<Rightarrow> (psys, 'a) kop" where
  "sleep_ptable ch = bnd (gets curproc) (\<lambda>c. case c of None \<Rightarrow> panic ''sleep''
     | Some i \<Rightarrow> seqk (sleep_on ch) (halt (Sleeps ch)))"

section \<open>The scheduler\<close>

text \<open>
  One scan of the table. \<open>run i\<close> is what happens between the two context switches. The result lists
  the processes that ran; \<open>idle\<close> of the code is that the list is empty.
\<close>

fun scan :: "(nat \<Rightarrow> (psys, unit) kop) \<Rightarrow> nat list \<Rightarrow> (psys, nat list) kop" where
  "scan run [] = ret []"
| "scan run (i # is) = bnd (get_proc i) (\<lambda>p.
     if p_state p \<noteq> RUNNABLE then scan run is
     else seqk (upd (\<lambda>s. s\<lparr>curproc := Some i\<rparr>))
         (seqk (switchuvm (Some i))
         (seqk (upd_proc i (\<lambda>p. p\<lparr>p_state := RUNNING\<rparr>))
         (seqk (run i)
         (seqk switchkvm
         (seqk (upd (\<lambda>s. s\<lparr>curproc := None\<rparr>))
         (bnd (scan run is) (\<lambda>js. ret (i # js)))))))))"

definition scheduler_round :: "(nat \<Rightarrow> (psys, unit) kop) \<Rightarrow> (psys, nat list) kop" where
  "scheduler_round run =
     seqk (cpuop (upd (\<lambda>c. c\<lparr>cpu_if := True\<rparr>)))
    (seqk lock_ptable
    (bnd (gets (\<lambda>s. length (procs s))) (\<lambda>n.
     bnd (scan run [0..<n]) (\<lambda>js.
     seqk unlock_ptable (ret js)))))"

section \<open>What waking and killing do\<close>

lemma ok_lock_ptable [wp]: "ok lock_ptable s Q = (ptable_lock s = Unlocked \<and>
    Q () (s\<lparr>pcpu := pushed (pcpu s), ptable_lock := Mine\<rparr>))"
  by (simp add: lock_ptable_def wp)

lemma safe_lock_ptable [wp]: "safe lock_ptable s Q = (ptable_lock s = Unlocked \<longrightarrow>
    Q () (s\<lparr>pcpu := pushed (pcpu s), ptable_lock := Mine\<rparr>))"
  by (simp add: lock_ptable_def wp)

lemma ok_unlock_ptable [wp]: "ok unlock_ptable s Q = (ptable_lock s = Mine \<and> \<not> cpu_if (pcpu s) \<and>
    0 < cpu_ncli (pcpu s) \<and> Q () (s\<lparr>ptable_lock := Unlocked, pcpu := popped (pcpu s)\<rparr>))"
  by (auto simp add: unlock_ptable_def wp)

lemma safe_unlock_ptable [wp]: "safe unlock_ptable s Q = (ptable_lock s = Mine \<longrightarrow> \<not> cpu_if (pcpu s) \<longrightarrow>
    0 < cpu_ncli (pcpu s) \<longrightarrow> Q () (s\<lparr>ptable_lock := Unlocked, pcpu := popped (pcpu s)\<rparr>))"
  by (auto simp add: unlock_ptable_def wp)

lemma length_kill_loop: "length (snd (kill_loop pid ps)) = length ps"
  by (induction ps) (auto split: prod.split)

text \<open>
  In a table with distinct process identifiers, \<open>kill\<close> marks exactly the process with the given one
  and makes it runnable if it slept; without such a process nothing changes.
\<close>

lemma kill_loop_distinct:
  assumes "distinct (map p_pid ps)"
  shows "kill_loop pid ps = (if pid \<in> set (map p_pid ps) then 0 else -1,
     map (\<lambda>p. if p_pid p = pid then killed p else p) ps)"
  using assms
proof (induction ps)
  case (Cons p ps)
  show ?case
  proof (cases "p_pid p = pid")
    case True
    then have "pid \<notin> p_pid ` set ps" using Cons.prems by simp
    then have "\<forall>q\<in>set ps. p_pid q \<noteq> pid" by blast
    then have "map (\<lambda>p. if p_pid p = pid then killed p else p) ps = ps"
      by (simp add: map_idI)
    then show ?thesis using True by simp
  qed (use Cons in auto)
qed simp

lemma woken_idem: "woken ch (woken ch p) = woken ch p"
  by (simp add: woken_def)

section \<open>The scan runs every runnable process\<close>

text \<open>
  What the code between the context switches does to the table and the lock: the process comes back
  holding only the lock of the table, on the same processor, not running, and it leaves the
  other runnable processes runnable, with their stacks and page directories.
\<close>

definition settled :: "psys \<Rightarrow> bool" where
  "settled s \<longleftrightarrow> ptable_lock s = Mine \<and> cpu_ncli (pcpu s) = 1 \<and> \<not> cpu_if (pcpu s)"

definition switchable :: "proc \<Rightarrow> bool" where
  "switchable p \<longleftrightarrow> (p_state p = RUNNABLE \<longrightarrow> p_kstack p \<noteq> 0 \<and> p_pgdir p \<noteq> 0)"

definition sched_ok :: "psys \<Rightarrow> bool" where
  "sched_ok s \<longleftrightarrow> settled s \<and> (\<forall>p\<in>set (procs s). switchable p)"

definition keeps_runnable :: "nat \<Rightarrow> psys \<Rightarrow> psys \<Rightarrow> bool" where
  "keeps_runnable i s s' \<longleftrightarrow> sched_ok s' \<and> length (procs s') = length (procs s) \<and>
     (\<forall>j<length (procs s). j \<noteq> i \<longrightarrow> p_state (procs s ! j) = RUNNABLE \<longrightarrow> p_state (procs s' ! j) = RUNNABLE)"

definition well_behaved :: "(nat \<Rightarrow> (psys, unit) kop) \<Rightarrow> bool" where
  "well_behaved run \<longleftrightarrow> (\<forall>i s. sched_ok s \<longrightarrow> i < length (procs s) \<longrightarrow> curproc s = Some i \<longrightarrow>
     p_state (procs s ! i) = RUNNING \<longrightarrow> p_kstack (procs s ! i) \<noteq> 0 \<longrightarrow> p_pgdir (procs s ! i) \<noteq> 0 \<longrightarrow>
     ok (run i) s (\<lambda>_ s'. keeps_runnable i s s'))"

lemma scan_step:
  assumes run: "well_behaved run" and s: "sched_ok s" "i < length (procs s)" "p_state (procs s ! i) = RUNNABLE"
  shows "ok (seqk (upd (\<lambda>s. s\<lparr>curproc := Some i\<rparr>))
         (seqk (switchuvm (Some i))
         (seqk (upd_proc i (\<lambda>p. p\<lparr>p_state := RUNNING\<rparr>)) (run i)))) s (\<lambda>_ s'. keeps_runnable i s s')"
proof -
  let ?p = "procs s ! i"
  have sw: "p_kstack ?p \<noteq> 0" "p_pgdir ?p \<noteq> 0"
    using s by (auto simp: sched_ok_def switchable_def)
  define t where "t = s\<lparr>curproc := Some i, ts_ss0 := 16, ts_esp0 := p_kstack ?p + KSTACKSIZE, ts_iomb := 0xFFFF,
      cr3 := V2P (p_pgdir ?p), procs := (procs s)[i := ?p\<lparr>p_state := RUNNING\<rparr>]\<rparr>"
  have t: "sched_ok t" "length (procs t) = length (procs s)" "curproc t = Some i"
    "procs t ! i = ?p\<lparr>p_state := RUNNING\<rparr>"
    and j: "\<And>j. j < length (procs s) \<Longrightarrow> j \<noteq> i \<Longrightarrow> procs t ! j = procs s ! j"
    using s by (auto simp: t_def sched_ok_def settled_def switchable_def dest!: set_update_subset_insert [THEN subsetD])
  have "ok (run i) t (\<lambda>_ s'. keeps_runnable i t s')"
    using run t s sw unfolding well_behaved_def by simp
  then have "ok (run i) t (\<lambda>_ s'. keeps_runnable i s s')"
    by (rule ok_mono) (simp add: keeps_runnable_def t j)
  then show ?thesis using s sw by (simp add: wp switchuvm_def t_def)
qed

lemma scan_ok:
  assumes "well_behaved run" "sched_ok s" "\<forall>i\<in>set is. i < length (procs s)" "distinct is"
  shows "ok (scan run is) s (\<lambda>js s'. sched_ok s' \<and> set js \<subseteq> set is \<and> (sorted is \<longrightarrow> sorted js) \<and> distinct js \<and>
     (\<forall>i\<in>set is. p_state (procs s ! i) = RUNNABLE \<longrightarrow> i \<in> set js))"
  using assms
proof (induction "is" arbitrary: s)
  case (Cons i "is")
  note IH = Cons.IH [OF Cons.prems(1)]
  show ?case
  proof (cases "p_state (procs s ! i) = RUNNABLE")
    case False
    have "ok (scan run is) s (\<lambda>js s'. sched_ok s' \<and> set js \<subseteq> set is \<and> (sorted is \<longrightarrow> sorted js) \<and> distinct js \<and>
       (\<forall>i\<in>set is. p_state (procs s ! i) = RUNNABLE \<longrightarrow> i \<in> set js))"
      using Cons.prems by (intro IH) auto
    then show ?thesis using False Cons.prems by (auto simp: wp elim!: ok_mono)
  next
    case True
    have step: "ok (seqk (upd (\<lambda>s. s\<lparr>curproc := Some i\<rparr>))
         (seqk (switchuvm (Some i))
         (seqk (upd_proc i (\<lambda>p. p\<lparr>p_state := RUNNING\<rparr>)) (run i)))) s (\<lambda>_ s'. keeps_runnable i s s')"
      using Cons.prems True by (intro scan_step) auto
    have rest: "ok (seqk switchkvm (seqk (upd (\<lambda>s. s\<lparr>curproc := None\<rparr>)) (bnd (scan run is) (\<lambda>js. ret (i # js))))) s'
       (\<lambda>js s'. sched_ok s' \<and> set js \<subseteq> set (i # is) \<and> (sorted (i # is) \<longrightarrow> sorted js) \<and> distinct js \<and>
          (\<forall>j\<in>set (i # is). p_state (procs s ! j) = RUNNABLE \<longrightarrow> j \<in> set js))"
      if k: "keeps_runnable i s s'" for s'
    proof -
      define t where "t = s'\<lparr>cr3 := V2P (kpgdir s'), curproc := None\<rparr>"
      have t: "sched_ok t" "procs t = procs s'" using k by (simp_all add: t_def keeps_runnable_def sched_ok_def settled_def)
      have "ok (scan run is) t (\<lambda>js s'. sched_ok s' \<and> set js \<subseteq> set is \<and> (sorted is \<longrightarrow> sorted js) \<and> distinct js \<and>
         (\<forall>i\<in>set is. p_state (procs t ! i) = RUNNABLE \<longrightarrow> i \<in> set js))"
        using Cons.prems k t by (intro IH) (auto simp: keeps_runnable_def)
      moreover have "p_state (procs t ! j) = RUNNABLE"
        if "j \<in> set is" "p_state (procs s ! j) = RUNNABLE" for j
        using that Cons.prems k t by (auto simp: keeps_runnable_def)
      ultimately show ?thesis
        using Cons.prems by (auto simp: wp switchkvm_def t_def elim!: ok_mono)
    qed
    have i: "i < length (procs s)" using Cons.prems by simp
    show ?thesis
      using ok_mono [OF step rest] True i
      by (simp only: scan.simps ok_bnd ok_seqk ok_get_proc if_False simp_thms)
  qed
qed (simp add: wp)

end
