(* ===== verification/Smp.thy ===== *)
theory Smp
  imports Sched
begin

text \<open>
  The process table as all processors see it: a step relation whose steps are the state changes of
  \<^verbatim>\<open>kernel/proc.c\<close> under the lock of the table, and the invariant that a process is \<open>RUNNING\<close> exactly
  when one processor runs it and that no two processors are on the same kernel stack.
\<close>

section \<open>All processors\<close>

text \<open>
  Where a processor is: in the scheduler outside or inside the table's lock, with a process just
  chosen, running a process without or with the lock, or with a process that has given up its
  state and is about to switch back to the scheduler. The steps are the operations above and those
  of \<open>allocproc\<close>, \<open>fork\<close>, \<open>exit\<close> and \<open>wait\<close> that change a state.
\<close>

datatype cmode = Idle | Loop | Picked nat | Run nat | Locked nat | Gone nat

record smp =
  sm_procs :: "proc list"
  sm_mode :: "nat \<Rightarrow> cmode"
  sm_lock :: "nat option"

definition to_state :: "procstate \<Rightarrow> proc \<Rightarrow> proc" where
  "to_state st p = p\<lparr>p_state := st\<rparr>"

definition set_state :: "nat \<Rightarrow> procstate \<Rightarrow> proc list \<Rightarrow> proc list" where
  "set_state i st ps = ps[i := to_state st (ps ! i)]"

inductive smp_step :: "smp \<Rightarrow> smp \<Rightarrow> bool" where
  take: "sm_mode w c = Idle \<Longrightarrow> sm_lock w = None \<Longrightarrow>
     smp_step w (w\<lparr>sm_mode := (sm_mode w)(c := Loop), sm_lock := Some c\<rparr>)"
| leave_loop: "sm_mode w c = Loop \<Longrightarrow>
     smp_step w (w\<lparr>sm_mode := (sm_mode w)(c := Idle), sm_lock := None\<rparr>)"
| pick: "sm_mode w c = Loop \<Longrightarrow> i < length (sm_procs w) \<Longrightarrow> p_state (sm_procs w ! i) = RUNNABLE \<Longrightarrow>
     smp_step w (w\<lparr>sm_mode := (sm_mode w)(c := Picked i), sm_procs := set_state i RUNNING (sm_procs w)\<rparr>)"
| enter: "sm_mode w c = Picked i \<Longrightarrow>
     smp_step w (w\<lparr>sm_mode := (sm_mode w)(c := Run i), sm_lock := None\<rparr>)"
| lock: "sm_mode w c = Run i \<Longrightarrow> sm_lock w = None \<Longrightarrow>
     smp_step w (w\<lparr>sm_mode := (sm_mode w)(c := Locked i), sm_lock := Some c\<rparr>)"
| unlock: "sm_mode w c = Locked i \<Longrightarrow>
     smp_step w (w\<lparr>sm_mode := (sm_mode w)(c := Run i), sm_lock := None\<rparr>)"
| wakes: "sm_mode w c = Locked i \<Longrightarrow> smp_step w (w\<lparr>sm_procs := map (woken ch) (sm_procs w)\<rparr>)"
| interrupt_wakes: "sm_lock w = None \<Longrightarrow> smp_step w (w\<lparr>sm_procs := map (woken ch) (sm_procs w)\<rparr>)"
| kills: "sm_mode w c = Locked i \<Longrightarrow> smp_step w (w\<lparr>sm_procs := snd (kill_loop pid (sm_procs w))\<rparr>)"
| changes: "sm_mode w c = Locked i \<Longrightarrow> j < length (sm_procs w) \<Longrightarrow>
     (p_state (sm_procs w ! j), st) \<in> {(UNUSED, EMBRYO), (EMBRYO, RUNNABLE), (EMBRYO, UNUSED), (ZOMBIE, UNUSED)} \<Longrightarrow>
     smp_step w (w\<lparr>sm_procs := set_state j st (sm_procs w)\<rparr>)"
| gives_up: "sm_mode w c = Locked i \<Longrightarrow> st \<in> {RUNNABLE, SLEEPING, ZOMBIE} \<Longrightarrow>
     smp_step w (w\<lparr>sm_mode := (sm_mode w)(c := Gone i), sm_procs := set_state i st (sm_procs w)\<rparr>)"
| returns: "sm_mode w c = Gone i \<Longrightarrow> smp_step w (w\<lparr>sm_mode := (sm_mode w)(c := Loop)\<rparr>)"

definition smp_init :: "smp \<Rightarrow> bool" where
  "smp_init w \<longleftrightarrow> (\<forall>c. sm_mode w c = Idle) \<and> sm_lock w = None \<and> (\<forall>p\<in>set (sm_procs w). p_state p \<noteq> RUNNING)"

definition holds :: "cmode \<Rightarrow> bool" where
  "holds m = (case m of Idle \<Rightarrow> False | Run i \<Rightarrow> False | _ \<Rightarrow> True)"

definition runs :: "cmode \<Rightarrow> nat option" where
  "runs m = (case m of Picked i \<Rightarrow> Some i | Run i \<Rightarrow> Some i | Locked i \<Rightarrow> Some i | _ \<Rightarrow> None)"

text \<open>The process on whose kernel stack the processor is.\<close>

definition on_stack :: "cmode \<Rightarrow> nat option" where
  "on_stack m = (case m of Gone i \<Rightarrow> Some i | _ \<Rightarrow> runs m)"

definition smp_inv :: "smp \<Rightarrow> bool" where
  "smp_inv w \<longleftrightarrow> (\<forall>c. holds (sm_mode w c) \<longleftrightarrow> sm_lock w = Some c) \<and>
     (\<forall>c i. on_stack (sm_mode w c) = Some i \<longrightarrow> i < length (sm_procs w)) \<and>
     (\<forall>i<length (sm_procs w). p_state (sm_procs w ! i) = RUNNING \<longleftrightarrow> (\<exists>c. runs (sm_mode w c) = Some i)) \<and>
     (\<forall>c d i. on_stack (sm_mode w c) = Some i \<longrightarrow> on_stack (sm_mode w d) = Some i \<longrightarrow> c = d)"

lemma mode_simps [simp]:
  "holds Idle = False" "holds Loop = True" "holds (Picked i) = True" "holds (Run i) = False"
  "holds (Locked i) = True" "holds (Gone i) = True"
  "runs Idle = None" "runs Loop = None" "runs (Picked i) = Some i" "runs (Run i) = Some i"
  "runs (Locked i) = Some i" "runs (Gone i) = None"
  "on_stack Idle = None" "on_stack Loop = None" "on_stack (Picked i) = Some i" "on_stack (Run i) = Some i"
  "on_stack (Locked i) = Some i" "on_stack (Gone i) = Some i"
  by (simp_all add: holds_def runs_def on_stack_def)

lemma runs_on_stack: "runs m = Some i \<Longrightarrow> on_stack m = Some i"
  by (cases m) simp_all

lemma length_set_state [simp]: "length (set_state i st ps) = length ps"
  by (simp add: set_state_def)

lemma state_set_state [simp]:
  "j < length ps \<Longrightarrow> p_state (set_state i st ps ! j) = (if j = i then st else p_state (ps ! j))"
  by (auto simp: set_state_def to_state_def nth_list_update)

lemma running_woken [simp]: "p_state (woken ch p) = RUNNING \<longleftrightarrow> p_state p = RUNNING"
  by (simp add: woken_def)

lemma running_kill_loop:
  "j < length ps \<Longrightarrow> p_state (snd (kill_loop pid ps) ! j) = RUNNING \<longleftrightarrow> p_state (ps ! j) = RUNNING"
proof (induction ps arbitrary: j)
  case (Cons p ps)
  then show ?case by (cases j) (auto simp: killed_def split: prod.splits)
qed simp

inductive_cases smp_stepE: "smp_step w w'"

lemma smp_inv_init: "smp_init w \<Longrightarrow> smp_inv w"
  by (auto simp: smp_init_def smp_inv_def)

lemma smp_invI:
  assumes "\<And>c. holds (sm_mode w c) \<longleftrightarrow> sm_lock w = Some c"
    "\<And>c i. on_stack (sm_mode w c) = Some i \<Longrightarrow> i < length (sm_procs w)"
    "\<And>i. i < length (sm_procs w) \<Longrightarrow> p_state (sm_procs w ! i) = RUNNING \<longleftrightarrow> (\<exists>c. runs (sm_mode w c) = Some i)"
    "\<And>c d i. on_stack (sm_mode w c) = Some i \<Longrightarrow> on_stack (sm_mode w d) = Some i \<Longrightarrow> c = d"
  shows "smp_inv w"
  unfolding smp_inv_def using assms by blast

lemma smp_invD:
  assumes "smp_inv w"
  shows "holds (sm_mode w c) \<longleftrightarrow> sm_lock w = Some c"
    "on_stack (sm_mode w c) = Some i \<Longrightarrow> i < length (sm_procs w)"
    "i < length (sm_procs w) \<Longrightarrow> p_state (sm_procs w ! i) = RUNNING \<longleftrightarrow> (\<exists>c. runs (sm_mode w c) = Some i)"
    "on_stack (sm_mode w c) = Some i \<Longrightarrow> on_stack (sm_mode w d) = Some i \<Longrightarrow> c = d"
  using assms unfolding smp_inv_def by blast+

text \<open>A step that only moves the modes, with the same running processes and stacks.\<close>

lemma smp_inv_mode:
  assumes inv: "smp_inv w" and lk: "\<And>d. holds (if d = c then m else sm_mode w d) \<longleftrightarrow> l = Some d"
    and r: "runs m = runs (sm_mode w c)" and os: "on_stack m = on_stack (sm_mode w c) \<or> on_stack m = None"
  shows "smp_inv (w\<lparr>sm_mode := (sm_mode w)(c := m), sm_lock := l\<rparr>)"
proof (rule smp_invI)
  have run: "(\<exists>d. runs (((sm_mode w)(c := m)) d) = Some i) \<longleftrightarrow> (\<exists>d. runs (sm_mode w d) = Some i)" for i
    using r by (metis fun_upd_apply)
  have sub: "on_stack (((sm_mode w)(c := m)) d) = Some i \<Longrightarrow> on_stack (sm_mode w d) = Some i" for d i
    using os by (auto split: if_splits)
  let ?w = "w\<lparr>sm_mode := (sm_mode w)(c := m), sm_lock := l\<rparr>"
  show "holds (sm_mode ?w d) \<longleftrightarrow> sm_lock ?w = Some d" for d
    using lk [of d] by simp
  show "on_stack (sm_mode ?w d) = Some i \<Longrightarrow> i < length (sm_procs ?w)" for d i
    using sub [of d i] smp_invD(2) [OF inv, of d i] by simp
  show "i < length (sm_procs ?w) \<Longrightarrow>
      p_state (sm_procs ?w ! i) = RUNNING \<longleftrightarrow> (\<exists>d. runs (sm_mode ?w d) = Some i)" for i
    using run [of i] smp_invD(3) [OF inv, of i] by simp
  show "on_stack (sm_mode ?w d) = Some i \<Longrightarrow> on_stack (sm_mode ?w e) = Some i \<Longrightarrow> d = e" for d e i
    using sub [of d i] sub [of e i] smp_invD(4) [OF inv, of d i e] by simp
qed

text \<open>A step that changes states other than \<open>RUNNING\<close>.\<close>

lemma smp_inv_procs:
  assumes "smp_inv w" "length ps = length (sm_procs w)"
    and "\<And>j. j < length ps \<Longrightarrow> p_state (ps ! j) = RUNNING \<longleftrightarrow> p_state (sm_procs w ! j) = RUNNING"
  shows "smp_inv (w\<lparr>sm_procs := ps\<rparr>)"
  using assms by (simp add: smp_inv_def)

lemma smp_inv_pick:
  assumes inv: "smp_inv w" and w: "sm_mode w c = Loop" "i < length (sm_procs w)" "p_state (sm_procs w ! i) = RUNNABLE"
  shows "smp_inv (w\<lparr>sm_mode := (sm_mode w)(c := Picked i), sm_procs := set_state i RUNNING (sm_procs w)\<rparr>)"
proof -
  have lk: "sm_lock w = Some c" using inv w unfolding smp_inv_def by (metis mode_simps(2))
  have free: "on_stack (sm_mode w d) \<noteq> Some i" for d
  proof
    assume d: "on_stack (sm_mode w d) = Some i"
    then have "\<not> runs (sm_mode w d) = Some i" using inv w unfolding smp_inv_def by (metis procstate.distinct)
    then have "holds (sm_mode w d)" using d by (cases "sm_mode w d") simp_all
    then have "d = c" using inv lk by (simp add: smp_inv_def)
    then show False using d w by simp
  qed
  have "(\<exists>d. runs (((sm_mode w)(c := Picked i)) d) = Some j) \<longleftrightarrow> j = i \<or> (\<exists>d. runs (sm_mode w d) = Some j)" for j
    using w by (metis fun_upd_apply mode_simps(8,9) option.distinct(1) option.inject)
  then show ?thesis
    using inv lk w free by (auto simp: smp_inv_def split: if_splits)
qed

lemma smp_inv_gives_up:
  assumes inv: "smp_inv w" and w: "sm_mode w c = Locked i" "st \<noteq> RUNNING"
  shows "smp_inv (w\<lparr>sm_mode := (sm_mode w)(c := Gone i), sm_procs := set_state i st (sm_procs w)\<rparr>)"
proof -
  have only: "on_stack (sm_mode w d) = Some i \<Longrightarrow> d = c" for d
    using inv w unfolding smp_inv_def by (metis mode_simps(17))
  have "(\<exists>d. runs (((sm_mode w)(c := Gone i)) d) = Some j) \<longleftrightarrow> j \<noteq> i \<and> (\<exists>d. runs (sm_mode w d) = Some j)"
    (is "?L = ?R") for j
  proof
    assume ?L
    then obtain d where "d \<noteq> c" "runs (sm_mode w d) = Some j" by (auto split: if_splits)
    then show ?R using only [of d] runs_on_stack [of "sm_mode w d" j] by auto
  next
    assume ?R
    then obtain d where "j \<noteq> i" "runs (sm_mode w d) = Some j" by blast
    moreover from this have "d \<noteq> c" using w by auto
    ultimately show ?L by (intro exI [of _ d]) simp
  qed
  moreover have "i < length (sm_procs w)" using inv w unfolding smp_inv_def by (metis mode_simps(17))
  ultimately show ?thesis
    using inv w by (auto simp: smp_inv_def split: if_splits)
qed

lemma smp_inv_lock: "smp_inv w \<Longrightarrow> holds (sm_mode w c) \<longleftrightarrow> sm_lock w = Some c"
  by (simp add: smp_inv_def)

lemma smp_inv_acquire:
  assumes "smp_inv w" "sm_lock w = None" "holds m" "runs m = runs (sm_mode w c)"
    "on_stack m = on_stack (sm_mode w c) \<or> on_stack m = None"
  shows "smp_inv (w\<lparr>sm_mode := (sm_mode w)(c := m), sm_lock := Some c\<rparr>)"
  by (rule smp_inv_mode) (use assms smp_inv_lock [OF assms(1)] in auto)

lemma smp_inv_release:
  assumes "smp_inv w" "holds (sm_mode w c)" "\<not> holds m" "runs m = runs (sm_mode w c)"
    "on_stack m = on_stack (sm_mode w c) \<or> on_stack m = None"
  shows "smp_inv (w\<lparr>sm_mode := (sm_mode w)(c := m), sm_lock := None\<rparr>)"
  by (rule smp_inv_mode) (use assms smp_inv_lock [OF assms(1)] in auto)

lemma smp_inv_return:
  assumes "smp_inv w" "sm_mode w c = Gone i"
  shows "smp_inv (w\<lparr>sm_mode := (sm_mode w)(c := Loop)\<rparr>)"
proof -
  have "sm_lock w = Some c" using smp_inv_lock [OF assms(1), of c] assms(2) by simp
  then have "smp_inv (w\<lparr>sm_mode := (sm_mode w)(c := Loop), sm_lock := sm_lock w\<rparr>)"
    by (intro smp_inv_mode) (use assms smp_inv_lock [OF assms(1)] in auto)
  then show ?thesis by simp
qed

lemma smp_inv_step:
  assumes inv: "smp_inv w" and step: "smp_step w w'"
  shows "smp_inv w'"
  using step
proof cases
  case (changes c i j st)
  show ?thesis unfolding changes(1)
    by (rule smp_inv_procs [OF inv]) (use changes in \<open>auto split: if_splits\<close>)
next
  case (kills c i pid)
  show ?thesis unfolding kills(1)
    by (rule smp_inv_procs [OF inv]) (simp_all add: length_kill_loop running_kill_loop)
next
  case (wakes c i ch)
  show ?thesis unfolding wakes(1) by (rule smp_inv_procs [OF inv]) simp_all
next
  case (interrupt_wakes ch)
  show ?thesis unfolding interrupt_wakes(1) by (rule smp_inv_procs [OF inv]) simp_all
qed (use inv in \<open>auto intro!: smp_inv_acquire smp_inv_release smp_inv_pick smp_inv_gives_up smp_inv_return\<close>)

interpretation smp: invariant_system smp_init smp_step smp_inv
  by unfold_locales (auto intro: smp_inv_init smp_inv_step)

end
