(* ===== verification/FsDefs.thy ===== *)
theory FsDefs
  imports Sched CString
begin

text \<open>
  The state of the file system: the disk, the buffer cache (\<^verbatim>\<open>kernel/buf.h\<close>, \<^verbatim>\<open>kernel/bio.c\<close>), the
  log (\<^verbatim>\<open>kernel/log.c\<close>), the inode cache (\<^verbatim>\<open>kernel/file.h\<close>, \<^verbatim>\<open>kernel/fs.h\<close>) and the console's
  input line, beside the process state; the little-endian layout of the structures that live in
  blocks; and sleep locks (\<^verbatim>\<open>kernel/sleeplock.c\<close>). Buffers and inodes are named by their index.
\<close>

section \<open>Constants\<close>

definition NFILE :: nat where "NFILE = 100"
definition NINODE :: nat where "NINODE = 50"
definition NDEV :: nat where "NDEV = 10"
definition ROOTDEV :: uint where "ROOTDEV = 1"
definition MAXARG :: nat where "MAXARG = 32"
definition MAXOPBLOCKS :: nat where "MAXOPBLOCKS = 10"
definition LOGSIZE :: nat where "LOGSIZE = MAXOPBLOCKS * 3"
definition NBUF :: nat where "NBUF = MAXOPBLOCKS * 3"
definition FSSIZE :: nat where "FSSIZE = 1000"

definition ROOTINO :: uint where "ROOTINO = 1"
definition BSIZE :: nat where "BSIZE = 512"
definition NDIRECT :: nat where "NDIRECT = 12"
definition NINDIRECT :: nat where "NINDIRECT = BSIZE div 4"
definition MAXFILE :: nat where "MAXFILE = NDIRECT + NINDIRECT"
definition DIRSIZ :: nat where "DIRSIZ = 14"
definition DINODESIZE :: nat where "DINODESIZE = 64"
definition DIRENTSIZE :: nat where "DIRENTSIZE = 16"
definition IPB :: nat where "IPB = BSIZE div DINODESIZE"
definition BPB :: nat where "BPB = BSIZE * 8"

definition T_DIR :: ushort where "T_DIR = 1"
definition T_FILE :: ushort where "T_FILE = 2"
definition T_DEV :: ushort where "T_DEV = 3"
definition CONSOLE :: nat where "CONSOLE = 1"

lemmas fs_consts = NFILE_def NINODE_def NDEV_def ROOTDEV_def MAXARG_def MAXOPBLOCKS_def LOGSIZE_def NBUF_def
  FSSIZE_def ROOTINO_def BSIZE_def NDIRECT_def NINDIRECT_def MAXFILE_def DIRSIZ_def DINODESIZE_def
  DIRENTSIZE_def IPB_def BPB_def T_DIR_def T_FILE_def T_DEV_def CONSOLE_def

section \<open>Structures\<close>

record sleeplock =
  sl_locked :: bool
  sl_lk :: lockview
  sl_pid :: uint

record buf =
  b_valid :: bool
  b_dirty :: bool
  b_dev :: uint
  b_blockno :: uint
  b_lock :: sleeplock
  b_refcnt :: uint
  b_data :: "uchar list"

record superblock =
  sb_size :: uint
  sb_nblocks :: uint
  sb_ninodes :: uint
  sb_nlog :: uint
  sb_logstart :: uint
  sb_inodestart :: uint
  sb_bmapstart :: uint

record dinode =
  di_type :: ushort
  di_major :: ushort
  di_minor :: ushort
  di_nlink :: ushort
  di_size :: uint
  di_addrs :: "uint list"

record dirent =
  de_inum :: ushort
  de_name :: "uchar list"

record inode =
  i_dev :: uint
  i_inum :: uint
  i_ref :: int
  i_lock :: sleeplock
  i_valid :: bool
  i_type :: ushort
  i_major :: ushort
  i_minor :: ushort
  i_nlink :: ushort
  i_size :: uint
  i_addrs :: "uint list"

record stat =
  st_type :: ushort
  st_dev :: uint
  st_ino :: uint
  st_nlink :: ushort
  st_size :: uint

text \<open>
  The in-memory log. \<open>log_blocks\<close> is \<open>lh.block[0..lh.n)\<close>, so \<open>lh.n\<close> is its length.
\<close>

record logst =
  log_lock :: lockview
  log_start :: uint
  log_size :: int
  log_outstanding :: int
  log_committing :: bool
  log_dev :: uint
  log_blocks :: "uint list"

text \<open>The console: its lock, the input ring of \<open>INPUT_BUF\<close> bytes with its indices, whether there is a
  serial port and the bytes sent to it, the screen's cells and its cursor.\<close>

record console =
  cons_lock :: lockview
  cons_locking :: bool
  in_buf :: "uchar list"
  in_r :: uint
  in_w :: uint
  in_e :: uint
  panicked :: bool
  uart_on :: bool
  uart_out :: "uchar list"
  crt :: "nat \<Rightarrow> ushort"
  crt_pos :: nat

text \<open>\<open>dwrites\<close> records, in order, the blocks written to the disk; it only serves to state what a
  crash between two writes leaves behind.\<close>

record fsys =
  ps :: psys
  disk :: "uint \<Rightarrow> uchar list"
  disksize :: nat
  dwrites :: "(uint \<times> uchar list) list"
  bcache_lock :: lockview
  bufs :: "buf list"
  lru :: "nat list"
  log :: logst
  icache_lock :: lockview
  inodes :: "inode list"
  sb :: superblock
  cons :: console

section \<open>Words in blocks\<close>

definition rd16 :: "uchar list \<Rightarrow> nat \<Rightarrow> ushort" where
  "rd16 bs i = ucast (bs ! i) OR push_bit 8 (ucast (bs ! (i + 1)))"

definition rd32 :: "uchar list \<Rightarrow> nat \<Rightarrow> uint" where
  "rd32 bs i = ucast (bs ! i) OR push_bit 8 (ucast (bs ! (i + 1)))
     OR push_bit 16 (ucast (bs ! (i + 2))) OR push_bit 24 (ucast (bs ! (i + 3)))"

definition bytes16 :: "ushort \<Rightarrow> uchar list" where
  "bytes16 v = [ucast v, ucast (drop_bit 8 v)]"

definition bytes32 :: "uint \<Rightarrow> uchar list" where
  "bytes32 v = [ucast v, ucast (drop_bit 8 v), ucast (drop_bit 16 v), ucast (drop_bit 24 v)]"

text \<open>Overwriting the bytes from position \<open>i\<close> on.\<close>

definition patch :: "nat \<Rightarrow> uchar list \<Rightarrow> uchar list \<Rightarrow> uchar list" where
  "patch i xs bs = take i bs @ xs @ drop (i + length xs) bs"

lemma length_bytes [simp]: "length (bytes16 v) = 2" "length (bytes32 w) = 4"
  by (simp_all add: bytes16_def bytes32_def)

lemma length_patch [simp]: "i + length xs \<le> length bs \<Longrightarrow> length (patch i xs bs) = length bs"
  by (simp add: patch_def)

lemma nth_patch: "i + length xs \<le> length bs \<Longrightarrow> k < length bs \<Longrightarrow>
    patch i xs bs ! k = (if i \<le> k \<and> k < i + length xs then xs ! (k - i) else bs ! k)"
  by (auto simp: patch_def nth_append min_def)

lemma word16_bytes: "ucast (ucast v :: uchar) OR push_bit 8 (ucast (ucast (drop_bit 8 v) :: uchar)) = (v :: ushort)"
proof (rule bit_word_eqI)
  fix n assume "n < LENGTH(16)"
  then show "bit (ucast (ucast v :: uchar) OR push_bit 8 (ucast (ucast (drop_bit 8 v) :: uchar)) :: ushort) n = bit v n"
    by (cases "n < 8") (auto simp: bit_simps)
qed

lemma word32_bytes:
  "ucast (ucast v :: uchar) OR push_bit 8 (ucast (ucast (drop_bit 8 v) :: uchar))
     OR push_bit 16 (ucast (ucast (drop_bit 16 v) :: uchar)) OR push_bit 24 (ucast (ucast (drop_bit 24 v) :: uchar))
     = (v :: uint)"
proof (rule bit32_eqI)
  fix n :: nat assume n: "n < 32"
  consider "n < 8" | "8 \<le> n" "n < 16" | "16 \<le> n" "n < 24" | "24 \<le> n" by linarith
  then show "bit (ucast (ucast v :: uchar) OR push_bit 8 (ucast (ucast (drop_bit 8 v) :: uchar))
     OR push_bit 16 (ucast (ucast (drop_bit 16 v) :: uchar)) OR push_bit 24 (ucast (ucast (drop_bit 24 v) :: uchar)) :: uint) n
     = bit v n"
    by cases (use n in \<open>auto simp: bit_simps\<close>)
qed

lemma rd16_bytes: "length xs = i \<Longrightarrow> rd16 (xs @ bytes16 v @ ys) i = v"
  using word16_bytes [of v] by (simp add: rd16_def bytes16_def nth_append)

lemma rd32_bytes: "length xs = i \<Longrightarrow> rd32 (xs @ bytes32 v @ ys) i = v"
  using word32_bytes [of v] by (simp add: rd32_def bytes32_def nth_append)

lemma rd32_patch: "i + 4 \<le> length bs \<Longrightarrow> rd32 (patch i (bytes32 v) bs) i = v"
  by (simp add: patch_def rd32_bytes)

lemma rd32_cong: "(\<And>k. i \<le> k \<Longrightarrow> k < i + 4 \<Longrightarrow> xs ! k = ys ! k) \<Longrightarrow> rd32 xs i = rd32 ys i"
  by (simp add: rd32_def)

lemma rd16_cong: "(\<And>k. i \<le> k \<Longrightarrow> k < i + 2 \<Longrightarrow> xs ! k = ys ! k) \<Longrightarrow> rd16 xs i = rd16 ys i"
  by (simp add: rd16_def)

section \<open>Access to the state\<close>

definition psop :: "(psys, 'a) kop \<Rightarrow> (fsys, 'a) kop" where
  "psop = zoom ps (\<lambda>p s. s\<lparr>ps := p\<rparr>)"

definition get_buf :: "nat \<Rightarrow> (fsys, buf) kop" where
  "get_buf i = bnd (gets bufs) (\<lambda>bs. if i < length bs then ret (bs ! i) else halt (Fault ''buf''))"

definition set_buf :: "nat \<Rightarrow> (buf \<Rightarrow> buf) \<Rightarrow> fsys \<Rightarrow> fsys" where
  "set_buf i f s = s\<lparr>bufs := (bufs s)[i := f (bufs s ! i)]\<rparr>"

definition upd_buf :: "nat \<Rightarrow> (buf \<Rightarrow> buf) \<Rightarrow> (fsys, unit) kop" where
  "upd_buf i f = upd (set_buf i f)"

definition get_inode :: "nat \<Rightarrow> (fsys, inode) kop" where
  "get_inode i = bnd (gets inodes) (\<lambda>is. if i < length is then ret (is ! i) else halt (Fault ''inode''))"

definition set_inode :: "nat \<Rightarrow> (inode \<Rightarrow> inode) \<Rightarrow> fsys \<Rightarrow> fsys" where
  "set_inode i f s = s\<lparr>inodes := (inodes s)[i := f (inodes s ! i)]\<rparr>"

definition upd_inode :: "nat \<Rightarrow> (inode \<Rightarrow> inode) \<Rightarrow> (fsys, unit) kop" where
  "upd_inode i f = upd (set_inode i f)"

definition upd_log :: "(logst \<Rightarrow> logst) \<Rightarrow> (fsys, unit) kop" where
  "upd_log f = upd (\<lambda>s. s\<lparr>log := f (log s)\<rparr>)"

definition upd_cons :: "(console \<Rightarrow> console) \<Rightarrow> (fsys, unit) kop" where
  "upd_cons f = upd (\<lambda>s. s\<lparr>cons := f (cons s)\<rparr>)"

section \<open>Locks\<close>

definition f_acquire :: "(fsys \<Rightarrow> lockview) \<Rightarrow> (lockview \<Rightarrow> fsys \<Rightarrow> fsys) \<Rightarrow> (fsys, unit) kop" where
  "f_acquire get put = seqk (psop (cpuop pushcli)) (acquire get put)"

definition f_release :: "(fsys \<Rightarrow> lockview) \<Rightarrow> (lockview \<Rightarrow> fsys \<Rightarrow> fsys) \<Rightarrow> (fsys, unit) kop" where
  "f_release get put = seqk (release get put) (psop (cpuop popcli))"

text \<open>
  \<open>sleep(chan, lk)\<close> for a lock other than the table's: up to the context switch, where the caller
  stops.
\<close>

definition sleep :: "chan \<Rightarrow> (fsys \<Rightarrow> lockview) \<Rightarrow> (lockview \<Rightarrow> fsys \<Rightarrow> fsys) \<Rightarrow> (fsys, 'a) kop" where
  "sleep ch get put = bnd (gets (curproc \<circ> ps)) (\<lambda>c. case c of None \<Rightarrow> panic ''sleep''
     | Some i \<Rightarrow> seqk (psop lock_ptable) (seqk (f_release get put) (seqk (psop (sleep_on ch)) (halt (Sleeps ch)))))"

text \<open>A sleep lock inside the state, given by its channel, its selector and its update.\<close>

definition sl_acquire :: "(fsys \<Rightarrow> sleeplock) \<Rightarrow> (sleeplock \<Rightarrow> fsys \<Rightarrow> fsys) \<Rightarrow> (fsys, unit) kop" where
  "sl_acquire get put = f_acquire (\<lambda>s. sl_lk (get s)) (\<lambda>l s. put ((get s)\<lparr>sl_lk := l\<rparr>) s)"

definition sl_release :: "(fsys \<Rightarrow> sleeplock) \<Rightarrow> (sleeplock \<Rightarrow> fsys \<Rightarrow> fsys) \<Rightarrow> (fsys, unit) kop" where
  "sl_release get put = f_release (\<lambda>s. sl_lk (get s)) (\<lambda>l s. put ((get s)\<lparr>sl_lk := l\<rparr>) s)"

definition initsleeplock :: "sleeplock \<Rightarrow> sleeplock" where
  "initsleeplock lk = \<lparr>sl_locked = False, sl_lk = Unlocked, sl_pid = 0\<rparr>"

definition acquiresleep :: "chan \<Rightarrow> (fsys \<Rightarrow> sleeplock) \<Rightarrow> (sleeplock \<Rightarrow> fsys \<Rightarrow> fsys) \<Rightarrow> (fsys, unit) kop" where
  "acquiresleep ch get put = seqk (sl_acquire get put)
     (bnd (gets get) (\<lambda>lk.
        if sl_locked lk then sleep ch (\<lambda>s. sl_lk (get s)) (\<lambda>l s. put ((get s)\<lparr>sl_lk := l\<rparr>) s)
        else bnd (psop cur) (\<lambda>p.
          seqk (upd (\<lambda>s. put ((get s)\<lparr>sl_locked := True, sl_pid := p_pid p\<rparr>) s)) (sl_release get put))))"

definition releasesleep :: "chan \<Rightarrow> (fsys \<Rightarrow> sleeplock) \<Rightarrow> (sleeplock \<Rightarrow> fsys \<Rightarrow> fsys) \<Rightarrow> (fsys, unit) kop" where
  "releasesleep ch get put = seqk (sl_acquire get put)
     (seqk (upd (\<lambda>s. put ((get s)\<lparr>sl_locked := False, sl_pid := 0\<rparr>) s))
     (seqk (psop (wakeup ch)) (sl_release get put)))"

definition holdingsleep :: "(fsys \<Rightarrow> sleeplock) \<Rightarrow> (sleeplock \<Rightarrow> fsys \<Rightarrow> fsys) \<Rightarrow> (fsys, bool) kop" where
  "holdingsleep get put = seqk (sl_acquire get put)
     (bnd (gets get) (\<lambda>lk.
      bnd (if sl_locked lk then bnd (psop cur) (\<lambda>p. ret (sl_pid lk = p_pid p)) else ret False) (\<lambda>r.
        seqk (sl_release get put) (ret r))))"

end
