(* ===== verification/Bio.thy ===== *)
theory Bio
  imports FsDefs
begin

text \<open>
  The buffer cache (\<^verbatim>\<open>kernel/bio.c\<close>) over the in-memory disk driver (\<^verbatim>\<open>kernel/memide.c\<close>). \<open>lru\<close> is the
  linked list from \<open>head.next\<close> (most recently used) to \<open>head.prev\<close>. The block contents that the rest
  of the kernel sees are those of the valid buffer if there is one, and of the disk otherwise.
\<close>

section \<open>The sleep lock of a buffer\<close>

definition buf_lock :: "nat \<Rightarrow> fsys \<Rightarrow> sleeplock" where
  "buf_lock i s = b_lock (bufs s ! i)"

definition set_buf_lock :: "nat \<Rightarrow> sleeplock \<Rightarrow> fsys \<Rightarrow> fsys" where
  "set_buf_lock i l = set_buf i (\<lambda>b. b\<lparr>b_lock := l\<rparr>)"

definition buf_acquiresleep :: "nat \<Rightarrow> (fsys, unit) kop" where
  "buf_acquiresleep i = acquiresleep (ChanBufLock i) (buf_lock i) (set_buf_lock i)"

definition buf_releasesleep :: "nat \<Rightarrow> (fsys, unit) kop" where
  "buf_releasesleep i = releasesleep (ChanBufLock i) (buf_lock i) (set_buf_lock i)"

definition buf_holdingsleep :: "nat \<Rightarrow> (fsys, bool) kop" where
  "buf_holdingsleep i = holdingsleep (buf_lock i) (set_buf_lock i)"

section \<open>The disk driver\<close>

definition write_disk :: "uint \<Rightarrow> uchar list \<Rightarrow> fsys \<Rightarrow> fsys" where
  "write_disk b bs s = s\<lparr>disk := (disk s)(b := bs), dwrites := dwrites s @ [(b, bs)]\<rparr>"

definition iderw :: "nat \<Rightarrow> (fsys, unit) kop" where
  "iderw i = bnd (buf_holdingsleep i) (\<lambda>h. bnd (get_buf i) (\<lambda>b.
     if \<not> h then panic ''iderw: buf not locked''
     else if b_valid b \<and> \<not> b_dirty b then panic ''iderw: nothing to do''
     else if b_dev b \<noteq> 1 then panic ''iderw: request not for disk 1''
     else bnd (gets disksize) (\<lambda>n.
       if unat (b_blockno b) \<ge> n then panic ''iderw: block out of range''
       else if b_dirty b then
         seqk (upd_buf i (\<lambda>b. b\<lparr>b_dirty := False, b_valid := True\<rparr>)) (upd (write_disk (b_blockno b) (b_data b)))
       else bnd (gets (\<lambda>s. disk s (b_blockno b))) (\<lambda>bs.
         upd_buf i (\<lambda>b. b\<lparr>b_data := bs, b_valid := True\<rparr>)))))"

section \<open>The cache\<close>

definition lock_bcache :: "(fsys, unit) kop" where
  "lock_bcache = f_acquire bcache_lock (\<lambda>l s. s\<lparr>bcache_lock := l\<rparr>)"

definition unlock_bcache :: "(fsys, unit) kop" where
  "unlock_bcache = f_release bcache_lock (\<lambda>l s. s\<lparr>bcache_lock := l\<rparr>)"

text \<open>Each buffer is inserted at the head, so the list ends up in descending order.\<close>

definition binit :: "(fsys, unit) kop" where
  "binit = upd (\<lambda>s. s\<lparr>bcache_lock := Unlocked, lru := rev [0..<NBUF],
     bufs := map (\<lambda>b. b\<lparr>b_lock := initsleeplock (b_lock b)\<rparr>) (bufs s)\<rparr>)"

fun find_cached :: "uint \<Rightarrow> uint \<Rightarrow> buf list \<Rightarrow> nat list \<Rightarrow> nat option" where
  "find_cached dev blockno bs [] = None"
| "find_cached dev blockno bs (i # is) =
     (if b_dev (bs ! i) = dev \<and> b_blockno (bs ! i) = blockno then Some i else find_cached dev blockno bs is)"

fun find_unused :: "buf list \<Rightarrow> nat list \<Rightarrow> nat option" where
  "find_unused bs [] = None"
| "find_unused bs (i # is) =
     (if b_refcnt (bs ! i) = 0 \<and> \<not> b_dirty (bs ! i) then Some i else find_unused bs is)"

definition bget :: "uint \<Rightarrow> uint \<Rightarrow> (fsys, nat) kop" where
  "bget dev blockno = seqk lock_bcache
     (bnd (gets (\<lambda>s. find_cached dev blockno (bufs s) (lru s))) (\<lambda>c. case c of
        Some i \<Rightarrow> seqk (upd_buf i (\<lambda>b. b\<lparr>b_refcnt := b_refcnt b + 1\<rparr>))
                 (seqk unlock_bcache (seqk (buf_acquiresleep i) (ret i)))
      | None \<Rightarrow> bnd (gets (\<lambda>s. find_unused (bufs s) (rev (lru s)))) (\<lambda>u. case u of
          Some i \<Rightarrow> seqk (upd_buf i (\<lambda>b. b\<lparr>b_dev := dev, b_blockno := blockno, b_valid := False,
                                        b_dirty := False, b_refcnt := 1\<rparr>))
                   (seqk unlock_bcache (seqk (buf_acquiresleep i) (ret i)))
        | None \<Rightarrow> panic ''bget: no buffers'')))"

definition bread :: "uint \<Rightarrow> uint \<Rightarrow> (fsys, nat) kop" where
  "bread dev blockno = bnd (bget dev blockno) (\<lambda>i. bnd (get_buf i) (\<lambda>b.
     seqk (whenk (\<not> b_valid b) (iderw i)) (ret i)))"

definition bwrite :: "nat \<Rightarrow> (fsys, unit) kop" where
  "bwrite i = bnd (buf_holdingsleep i) (\<lambda>h.
     if \<not> h then panic ''bwrite''
     else seqk (upd_buf i (\<lambda>b. b\<lparr>b_dirty := True\<rparr>)) (iderw i))"

definition brelse :: "nat \<Rightarrow> (fsys, unit) kop" where
  "brelse i = bnd (buf_holdingsleep i) (\<lambda>h.
     if \<not> h then panic ''brelse''
     else seqk (buf_releasesleep i)
         (seqk lock_bcache
         (seqk (upd_buf i (\<lambda>b. b\<lparr>b_refcnt := b_refcnt b - 1\<rparr>))
         (bnd (get_buf i) (\<lambda>b.
            seqk (whenk (b_refcnt b = 0) (upd (\<lambda>s. s\<lparr>lru := i # remove1 i (lru s)\<rparr>)))
             unlock_bcache)))))"

text \<open>Reading and changing the data of a buffer that the caller has locked.\<close>

definition bdata :: "nat \<Rightarrow> (fsys, uchar list) kop" where
  "bdata i = bnd (get_buf i) (\<lambda>b. ret (b_data b))"

definition set_bdata :: "nat \<Rightarrow> uchar list \<Rightarrow> (fsys, unit) kop" where
  "set_bdata i bs = upd_buf i (\<lambda>b. b\<lparr>b_data := bs\<rparr>)"

end
