(* ===== verification/Log.thy ===== *)
theory Log
  imports Bio
begin

text \<open>
  The write-ahead log (\<^verbatim>\<open>kernel/log.c\<close>): transactions begin and end, modified blocks are pinned
  in the cache and recorded in the header, and a commit copies them to the log, writes the header,
  installs them and clears the header. The superblock is read by \<open>readsb\<close> of \<^verbatim>\<open>kernel/fs.c\<close>.
\<close>

section \<open>Operations\<close>

definition readsb :: "uint \<Rightarrow> (fsys, superblock) kop" where
  "readsb dev = bnd (bread dev 1) (\<lambda>bp. bnd (bdata bp) (\<lambda>d.
     seqk (brelse bp)
      (ret \<lparr>sb_size = rd32 d 0, sb_nblocks = rd32 d 4, sb_ninodes = rd32 d 8, sb_nlog = rd32 d 12,
            sb_logstart = rd32 d 16, sb_inodestart = rd32 d 20, sb_bmapstart = rd32 d 24\<rparr>)))"

definition lock_log :: "(fsys, unit) kop" where
  "lock_log = f_acquire (\<lambda>s. log_lock (log s)) (\<lambda>l s. s\<lparr>log := (log s)\<lparr>log_lock := l\<rparr>\<rparr>)"

definition unlock_log :: "(fsys, unit) kop" where
  "unlock_log = f_release (\<lambda>s. log_lock (log s)) (\<lambda>l s. s\<lparr>log := (log s)\<lparr>log_lock := l\<rparr>\<rparr>)"

definition sleep_log :: "(fsys, 'a) kop" where
  "sleep_log = sleep ChanLog (\<lambda>s. log_lock (log s)) (\<lambda>l s. s\<lparr>log := (log s)\<lparr>log_lock := l\<rparr>\<rparr>)"

text \<open>The header block: \<open>n\<close> and the block numbers.\<close>

definition header_bytes :: "uint list \<Rightarrow> uchar list" where
  "header_bytes bs = bytes32 (of_nat (length bs)) @ concat (map bytes32 bs)"

definition header_blocks :: "uchar list \<Rightarrow> uint list" where
  "header_blocks d = map (\<lambda>i. rd32 d (4 + 4 * i)) [0..<nat (sint (rd32 d 0))]"

text \<open>One iteration of \<open>install_trans\<close>: the log block \<open>tail\<close> goes to its home block.\<close>

definition install_block :: "nat \<Rightarrow> (fsys, unit) kop" where
  "install_block tail = bnd (gets log) (\<lambda>l.
     bnd (bread (log_dev l) (log_start l + of_nat tail + 1)) (\<lambda>lbuf.
     bnd (bread (log_dev l) (log_blocks l ! tail)) (\<lambda>dbuf.
     bnd (bdata lbuf) (\<lambda>d.
     seqk (set_bdata dbuf d)
    (seqk (bwrite dbuf)
    (seqk (brelse lbuf) (brelse dbuf)))))))"

definition install_trans :: "(fsys, unit) kop" where
  "install_trans = bnd (gets (\<lambda>s. length (log_blocks (log s)))) (\<lambda>n. foreach [0..<n] install_block)"

text \<open>
  A count above \<open>LOGSIZE\<close> on the disk makes the loop of \<open>read_head\<close> write outside \<open>log.lh.block\<close>.
\<close>

definition read_head :: "(fsys, unit) kop" where
  "read_head = bnd (gets log) (\<lambda>l. bnd (bread (log_dev l) (log_start l)) (\<lambda>buf. bnd (bdata buf) (\<lambda>d.
     if sint (rd32 d 0) > int LOGSIZE then halt (Fault ''read_head'')
     else seqk (upd_log (\<lambda>l. l\<lparr>log_blocks := header_blocks d\<rparr>)) (brelse buf))))"

definition write_head :: "(fsys, unit) kop" where
  "write_head = bnd (gets log) (\<lambda>l. bnd (bread (log_dev l) (log_start l)) (\<lambda>buf. bnd (bdata buf) (\<lambda>d.
     seqk (set_bdata buf (patch 0 (header_bytes (log_blocks l)) d))
    (seqk (bwrite buf) (brelse buf)))))"

definition recover_from_log :: "(fsys, unit) kop" where
  "recover_from_log = seqk read_head (seqk install_trans (seqk (upd_log (\<lambda>l. l\<lparr>log_blocks := []\<rparr>)) write_head))"

definition initlog :: "uint \<Rightarrow> (fsys, unit) kop" where
  "initlog dev =
     (if 4 + 4 * LOGSIZE \<ge> BSIZE then panic ''initlog: too big logheader''
      else seqk (upd_log (\<lambda>l. l\<lparr>log_lock := Unlocked\<rparr>))
       (bnd (readsb dev) (\<lambda>sb.
        seqk (upd_log (\<lambda>l. l\<lparr>log_start := sb_logstart sb, log_size := sint (sb_nlog sb), log_dev := dev\<rparr>))
         recover_from_log)))"

definition begin_op :: "(fsys, unit) kop" where
  "begin_op = seqk lock_log (bnd (gets log) (\<lambda>l.
     if log_committing l then sleep_log
     else if int (length (log_blocks l)) + (log_outstanding l + 1) * int MAXOPBLOCKS > int LOGSIZE then sleep_log
     else seqk (upd_log (\<lambda>l. l\<lparr>log_outstanding := log_outstanding l + 1\<rparr>)) unlock_log))"

text \<open>One iteration of \<open>write_log\<close>: the cached home block goes to the log block \<open>tail\<close>.\<close>

definition log_block :: "nat \<Rightarrow> (fsys, unit) kop" where
  "log_block tail = bnd (gets log) (\<lambda>l.
     bnd (bread (log_dev l) (log_start l + of_nat tail + 1)) (\<lambda>to.
     bnd (bread (log_dev l) (log_blocks l ! tail)) (\<lambda>from.
     bnd (bdata from) (\<lambda>d.
     seqk (set_bdata to d)
    (seqk (bwrite to)
    (seqk (brelse from) (brelse to)))))))"

definition write_log :: "(fsys, unit) kop" where
  "write_log = bnd (gets (\<lambda>s. length (log_blocks (log s)))) (\<lambda>n. foreach [0..<n] log_block)"

definition commit :: "(fsys, unit) kop" where
  "commit = bnd (gets (\<lambda>s. length (log_blocks (log s)))) (\<lambda>n.
     whenk (n > 0)
      (seqk write_log
      (seqk write_head
      (seqk install_trans
      (seqk (upd_log (\<lambda>l. l\<lparr>log_blocks := []\<rparr>)) write_head)))))"

definition end_op :: "(fsys, unit) kop" where
  "end_op = seqk lock_log
     (seqk (upd_log (\<lambda>l. l\<lparr>log_outstanding := log_outstanding l - 1\<rparr>))
     (bnd (gets log) (\<lambda>l.
        if log_committing l then panic ''log.committing''
        else if log_outstanding l = 0 then
          seqk (upd_log (\<lambda>l. l\<lparr>log_committing := True\<rparr>))
         (seqk unlock_log
         (seqk commit
         (seqk lock_log
         (seqk (upd_log (\<lambda>l. l\<lparr>log_committing := False\<rparr>))
         (seqk (psop (wakeup ChanLog)) unlock_log)))))
        else seqk (psop (wakeup ChanLog)) unlock_log)))"

definition absorb :: "uint \<Rightarrow> uint list \<Rightarrow> uint list" where
  "absorb b bs = (if b \<in> set bs then bs else bs @ [b])"

definition log_write :: "nat \<Rightarrow> (fsys, unit) kop" where
  "log_write i = bnd (gets log) (\<lambda>l.
     if length (log_blocks l) \<ge> LOGSIZE \<or> int (length (log_blocks l)) \<ge> log_size l - 1
     then panic ''too big a transaction''
     else if log_outstanding l < 1 then panic ''log_write outside of trans''
     else seqk lock_log (bnd (get_buf i) (\<lambda>b.
       seqk (upd_log (\<lambda>l. l\<lparr>log_blocks := absorb (b_blockno b) (log_blocks l)\<rparr>))
      (seqk (upd_buf i (\<lambda>b. b\<lparr>b_dirty := True\<rparr>)) unlock_log))))"

end
