(* ===== verification/Inode.thy ===== *)
theory Inode
  imports Log
begin

text \<open>
  Blocks, inodes and their contents (\<^verbatim>\<open>kernel/fs.c\<close>): the allocation bitmap, the on-disk inodes, the
  inode cache with its reference counts and locks, and the block map of a file with its twelve
  direct entries and one indirect block.
\<close>

section \<open>Blocks\<close>

definition bzero :: "uint \<Rightarrow> uint \<Rightarrow> (fsys, unit) kop" where
  "bzero dev bno = bnd (bread dev bno) (\<lambda>bp.
     seqk (set_bdata bp (replicate BSIZE 0)) (seqk (log_write bp) (brelse bp)))"

definition BBLOCK :: "nat \<Rightarrow> superblock \<Rightarrow> uint" where
  "BBLOCK b su = of_nat (b div BPB) + sb_bmapstart su"

definition bit_used :: "uchar list \<Rightarrow> nat \<Rightarrow> bool" where
  "bit_used d bi = (d ! (bi div 8) AND push_bit (bi mod 8) 1 \<noteq> 0)"

definition mark_bit :: "nat \<Rightarrow> uchar list \<Rightarrow> uchar list" where
  "mark_bit bi d = d[bi div 8 := d ! (bi div 8) OR push_bit (bi mod 8) 1]"

definition clear_bit :: "nat \<Rightarrow> uchar list \<Rightarrow> uchar list" where
  "clear_bit bi d = d[bi div 8 := d ! (bi div 8) AND NOT (push_bit (bi mod 8) 1)]"

text \<open>The inner loop: the first free bit from \<open>bi\<close> on among the \<open>n\<close> bits left.\<close>

fun free_bit :: "uchar list \<Rightarrow> nat \<Rightarrow> nat \<Rightarrow> nat option" where
  "free_bit d bi 0 = None"
| "free_bit d bi (Suc n) = (if \<not> bit_used d bi then Some bi else free_bit d (Suc bi) n)"

text \<open>The outer loop over bitmap blocks, \<open>b\<close> being the first block of each; \<open>n\<close> counts the
  iterations that are left.\<close>

fun balloc_loop :: "uint \<Rightarrow> nat \<Rightarrow> nat \<Rightarrow> (fsys, uint) kop" where
  "balloc_loop dev b 0 = panic ''balloc: out of blocks''"
| "balloc_loop dev b (Suc n) = bnd (gets sb) (\<lambda>sb.
     bnd (bread dev (BBLOCK b sb)) (\<lambda>bp. bnd (bdata bp) (\<lambda>d.
       case free_bit d 0 (min BPB (unat (sb_size sb) - b)) of
         Some bi \<Rightarrow> seqk (set_bdata bp (mark_bit bi d))
                   (seqk (log_write bp)
                   (seqk (brelse bp)
                   (seqk (bzero dev (of_nat (b + bi)))
                   (ret (of_nat (b + bi))))))
       | None \<Rightarrow> seqk (brelse bp) (balloc_loop dev (b + BPB) n))))"

definition balloc :: "uint \<Rightarrow> (fsys, uint) kop" where
  "balloc dev = bnd (gets sb) (\<lambda>sb. balloc_loop dev 0 ((unat (sb_size sb) + BPB - 1) div BPB))"

definition bfree :: "uint \<Rightarrow> uint \<Rightarrow> (fsys, unit) kop" where
  "bfree dev b = bnd (gets sb) (\<lambda>sb.
     bnd (bread dev (BBLOCK (unat b) sb)) (\<lambda>bp. bnd (bdata bp) (\<lambda>d.
       let bi = unat b mod BPB in
       if \<not> bit_used d bi then panic ''freeing free block''
       else seqk (set_bdata bp (clear_bit bi d)) (seqk (log_write bp) (brelse bp)))))"

section \<open>On-disk inodes\<close>

definition dinode_of :: "uchar list \<Rightarrow> nat \<Rightarrow> dinode" where
  "dinode_of d k = (let o' = DINODESIZE * k in
     \<lparr>di_type = rd16 d o', di_major = rd16 d (o' + 2), di_minor = rd16 d (o' + 4), di_nlink = rd16 d (o' + 6),
      di_size = rd32 d (o' + 8), di_addrs = map (\<lambda>j. rd32 d (o' + 12 + 4 * j)) [0..<NDIRECT + 1]\<rparr>)"

definition dinode_bytes :: "dinode \<Rightarrow> uchar list" where
  "dinode_bytes di = bytes16 (di_type di) @ bytes16 (di_major di) @ bytes16 (di_minor di) @ bytes16 (di_nlink di) @
     bytes32 (di_size di) @ concat (map bytes32 (di_addrs di))"

definition IBLOCK :: "uint \<Rightarrow> superblock \<Rightarrow> uint" where
  "IBLOCK i su = of_nat (unat i div IPB) + sb_inodestart su"

section \<open>The inode cache\<close>

definition lock_icache :: "(fsys, unit) kop" where
  "lock_icache = f_acquire icache_lock (\<lambda>l s. s\<lparr>icache_lock := l\<rparr>)"

definition unlock_icache :: "(fsys, unit) kop" where
  "unlock_icache = f_release icache_lock (\<lambda>l s. s\<lparr>icache_lock := l\<rparr>)"

definition inode_lock :: "nat \<Rightarrow> fsys \<Rightarrow> sleeplock" where
  "inode_lock i s = i_lock (inodes s ! i)"

definition set_inode_lock :: "nat \<Rightarrow> sleeplock \<Rightarrow> fsys \<Rightarrow> fsys" where
  "set_inode_lock i l = set_inode i (\<lambda>ip. ip\<lparr>i_lock := l\<rparr>)"

definition iinit :: "uint \<Rightarrow> (fsys, unit) kop" where
  "iinit dev = seqk (upd (\<lambda>s. s\<lparr>icache_lock := Unlocked,
        inodes := map (\<lambda>ip. ip\<lparr>i_lock := initsleeplock (i_lock ip)\<rparr>) (inodes s)\<rparr>))
     (bnd (readsb dev) (\<lambda>b. upd (\<lambda>s. s\<lparr>sb := b\<rparr>)))"

fun find_inode :: "uint \<Rightarrow> uint \<Rightarrow> inode list \<Rightarrow> nat \<Rightarrow> nat option" where
  "find_inode dev inum [] i = None"
| "find_inode dev inum (ip # ips) i =
     (if i_ref ip > 0 \<and> i_dev ip = dev \<and> i_inum ip = inum then Some i else find_inode dev inum ips (Suc i))"

fun find_empty :: "inode list \<Rightarrow> nat \<Rightarrow> nat option" where
  "find_empty [] i = None"
| "find_empty (ip # ips) i = (if i_ref ip = 0 then Some i else find_empty ips (Suc i))"

definition iget :: "uint \<Rightarrow> uint \<Rightarrow> (fsys, nat) kop" where
  "iget dev inum = seqk lock_icache (bnd (gets inodes) (\<lambda>ips.
     case find_inode dev inum ips 0 of
       Some i \<Rightarrow> seqk (upd_inode i (\<lambda>ip. ip\<lparr>i_ref := i_ref ip + 1\<rparr>)) (seqk unlock_icache (ret i))
     | None \<Rightarrow> (case find_empty ips 0 of
         None \<Rightarrow> panic ''iget: no inodes''
       | Some i \<Rightarrow> seqk (upd_inode i (\<lambda>ip. ip\<lparr>i_dev := dev, i_inum := inum, i_ref := 1, i_valid := False\<rparr>))
                  (seqk unlock_icache (ret i)))))"

definition idup :: "nat \<Rightarrow> (fsys, nat) kop" where
  "idup i = seqk lock_icache (seqk (upd_inode i (\<lambda>ip. ip\<lparr>i_ref := i_ref ip + 1\<rparr>)) (seqk unlock_icache (ret i)))"

text \<open>\<open>n\<close> counts the inode numbers that are left before \<open>sb.ninodes\<close>.\<close>

fun ialloc_loop :: "uint \<Rightarrow> ushort \<Rightarrow> uint \<Rightarrow> nat \<Rightarrow> (fsys, nat) kop" where
  "ialloc_loop dev type inum 0 = panic ''ialloc: no inodes''"
| "ialloc_loop dev type inum (Suc n) = bnd (gets sb) (\<lambda>sb.
     bnd (bread dev (IBLOCK inum sb)) (\<lambda>bp. bnd (bdata bp) (\<lambda>d.
       let k = unat inum mod IPB in
       if di_type (dinode_of d k) = 0 then
         seqk (set_bdata bp (patch (DINODESIZE * k) (bytes16 type @ replicate (DINODESIZE - 2) 0) d))
        (seqk (log_write bp) (seqk (brelse bp) (iget dev inum)))
       else seqk (brelse bp) (ialloc_loop dev type (inum + 1) n))))"

definition ialloc :: "uint \<Rightarrow> ushort \<Rightarrow> (fsys, nat) kop" where
  "ialloc dev type = bnd (gets sb) (\<lambda>sb. ialloc_loop dev type 1 (unat (sb_ninodes sb) - 1))"

definition to_dinode :: "inode \<Rightarrow> dinode" where
  "to_dinode ip = \<lparr>di_type = i_type ip, di_major = i_major ip, di_minor = i_minor ip, di_nlink = i_nlink ip,
     di_size = i_size ip, di_addrs = i_addrs ip\<rparr>"

definition from_dinode :: "dinode \<Rightarrow> inode \<Rightarrow> inode" where
  "from_dinode di ip = ip\<lparr>i_type := di_type di, i_major := di_major di, i_minor := di_minor di,
     i_nlink := di_nlink di, i_size := di_size di, i_addrs := di_addrs di\<rparr>"

definition iupdate :: "nat \<Rightarrow> (fsys, unit) kop" where
  "iupdate i = bnd (get_inode i) (\<lambda>ip. bnd (gets sb) (\<lambda>sb.
     bnd (bread (i_dev ip) (IBLOCK (i_inum ip) sb)) (\<lambda>bp. bnd (bdata bp) (\<lambda>d.
       seqk (set_bdata bp (patch (DINODESIZE * (unat (i_inum ip) mod IPB)) (dinode_bytes (to_dinode ip)) d))
      (seqk (log_write bp) (brelse bp))))))"

definition ilock :: "nat \<Rightarrow> (fsys, unit) kop" where
  "ilock i = bnd (get_inode i) (\<lambda>ip.
     if i_ref ip < 1 then panic ''ilock''
     else seqk (acquiresleep (ChanInodeLock i) (inode_lock i) (set_inode_lock i))
      (bnd (get_inode i) (\<lambda>ip.
        if i_valid ip then ret ()
        else bnd (gets sb) (\<lambda>sb.
          bnd (bread (i_dev ip) (IBLOCK (i_inum ip) sb)) (\<lambda>bp. bnd (bdata bp) (\<lambda>d.
            let di = dinode_of d (unat (i_inum ip) mod IPB) in
            seqk (upd_inode i (from_dinode di))
           (seqk (brelse bp)
           (seqk (upd_inode i (\<lambda>ip. ip\<lparr>i_valid := True\<rparr>))
            (if di_type di = 0 then panic ''ilock: no type'' else ret ())))))))))"

definition iunlock :: "nat \<Rightarrow> (fsys, unit) kop" where
  "iunlock i = bnd (holdingsleep (inode_lock i) (set_inode_lock i)) (\<lambda>h. bnd (get_inode i) (\<lambda>ip.
     if \<not> h \<or> i_ref ip < 1 then panic ''iunlock''
     else releasesleep (ChanInodeLock i) (inode_lock i) (set_inode_lock i)))"

section \<open>Contents of a file\<close>

text \<open>The entries of an indirect block.\<close>

definition ind_entry :: "uchar list \<Rightarrow> nat \<Rightarrow> uint" where
  "ind_entry d j = rd32 d (4 * j)"

definition bmap :: "nat \<Rightarrow> uint \<Rightarrow> (fsys, uint) kop" where
  "bmap i bn = bnd (get_inode i) (\<lambda>ip.
     let n = unat bn in
     if n < NDIRECT then
       (if i_addrs ip ! n = 0 then
          bnd (balloc (i_dev ip)) (\<lambda>addr.
            seqk (upd_inode i (\<lambda>ip. ip\<lparr>i_addrs := (i_addrs ip)[n := addr]\<rparr>)) (ret addr))
        else ret (i_addrs ip ! n))
     else
       let j = n - NDIRECT in
       if j < NINDIRECT then
         bnd (if i_addrs ip ! NDIRECT = 0 then
                bnd (balloc (i_dev ip)) (\<lambda>addr.
                  seqk (upd_inode i (\<lambda>ip. ip\<lparr>i_addrs := (i_addrs ip)[NDIRECT := addr]\<rparr>)) (ret addr))
              else ret (i_addrs ip ! NDIRECT)) (\<lambda>ind.
         bnd (bread (i_dev ip) ind) (\<lambda>bp. bnd (bdata bp) (\<lambda>d.
           if ind_entry d j = 0 then
             bnd (balloc (i_dev ip)) (\<lambda>addr.
             bnd (bdata bp) (\<lambda>d.
               seqk (set_bdata bp (patch (4 * j) (bytes32 addr) d))
              (seqk (log_write bp) (seqk (brelse bp) (ret addr)))))
           else seqk (brelse bp) (ret (ind_entry d j)))))
       else panic ''bmap: out of range'')"

definition trunc_direct :: "nat \<Rightarrow> nat \<Rightarrow> (fsys, unit) kop" where
  "trunc_direct i k = bnd (get_inode i) (\<lambda>ip.
     whenk (i_addrs ip ! k \<noteq> 0)
      (seqk (bfree (i_dev ip) (i_addrs ip ! k)) (upd_inode i (\<lambda>ip. ip\<lparr>i_addrs := (i_addrs ip)[k := 0]\<rparr>))))"

definition trunc_indirect :: "nat \<Rightarrow> (fsys, unit) kop" where
  "trunc_indirect i = bnd (get_inode i) (\<lambda>ip.
     let ind = i_addrs ip ! NDIRECT in
     whenk (ind \<noteq> 0)
      (bnd (bread (i_dev ip) ind) (\<lambda>bp. bnd (bdata bp) (\<lambda>d.
         seqk (foreach [0..<NINDIRECT] (\<lambda>j. whenk (ind_entry d j \<noteq> 0) (bfree (i_dev ip) (ind_entry d j))))
        (seqk (brelse bp)
        (seqk (bfree (i_dev ip) ind)
         (upd_inode i (\<lambda>ip. ip\<lparr>i_addrs := (i_addrs ip)[NDIRECT := 0]\<rparr>))))))))"

definition itrunc :: "nat \<Rightarrow> (fsys, unit) kop" where
  "itrunc i = seqk (foreach [0..<NDIRECT] (trunc_direct i))
     (seqk (trunc_indirect i)
     (seqk (upd_inode i (\<lambda>ip. ip\<lparr>i_size := 0\<rparr>)) (iupdate i)))"

definition iput :: "nat \<Rightarrow> (fsys, unit) kop" where
  "iput i = seqk (acquiresleep (ChanInodeLock i) (inode_lock i) (set_inode_lock i))
     (bnd (get_inode i) (\<lambda>ip.
      seqk (whenk (i_valid ip \<and> i_nlink ip = 0)
        (seqk lock_icache (bnd (get_inode i) (\<lambda>ip.
         seqk unlock_icache
          (whenk (i_ref ip = 1)
            (seqk (itrunc i)
            (seqk (upd_inode i (\<lambda>ip. ip\<lparr>i_type := 0\<rparr>))
            (seqk (iupdate i)
             (upd_inode i (\<lambda>ip. ip\<lparr>i_valid := False\<rparr>))))))))))
     (seqk (releasesleep (ChanInodeLock i) (inode_lock i) (set_inode_lock i))
     (seqk lock_icache
     (seqk (upd_inode i (\<lambda>ip. ip\<lparr>i_ref := i_ref ip - 1\<rparr>)) unlock_icache)))))"

definition iunlockput :: "nat \<Rightarrow> (fsys, unit) kop" where
  "iunlockput i = seqk (iunlock i) (iput i)"

definition stati :: "inode \<Rightarrow> stat" where
  "stati ip = \<lparr>st_type = i_type ip, st_dev = i_dev ip, st_ino = i_inum ip, st_nlink = i_nlink ip, st_size = i_size ip\<rparr>"

end
