(* ===== verification/Ring.thy ===== *)
theory Ring
  imports Prelude
begin

text \<open>
  Byte rings with free-running 32-bit indices, as the pipe (\<^verbatim>\<open>kernel/pipe.c\<close>) and the console input
  (\<^verbatim>\<open>kernel/console.c\<close>) use them: an index is never reduced, only its remainder addresses the array,
  and the number of bytes in the ring is the difference of two indices. The size must divide
  \<open>2 ^ 32\<close> for this to survive the wrap-around of the indices.
\<close>

definition slot :: "nat \<Rightarrow> uint \<Rightarrow> nat" where
  "slot N i = unat i mod N"

text \<open>The \<open>n\<close> bytes of the array \<open>b\<close> from index \<open>r\<close> on, and those from \<open>r\<close> to before \<open>w\<close>.\<close>

definition ring_bytes :: "nat \<Rightarrow> uchar list \<Rightarrow> uint \<Rightarrow> nat \<Rightarrow> uchar list" where
  "ring_bytes N b r n = map (\<lambda>k. b ! slot N (r + of_nat k)) [0..<n]"

definition contents :: "nat \<Rightarrow> uchar list \<Rightarrow> uint \<Rightarrow> uint \<Rightarrow> uchar list" where
  "contents N b r w = ring_bytes N b r (unat (w - r))"

locale ring =
  fixes N :: nat
  assumes N_pos: "0 < N" and N_dvd: "N dvd 4294967296" and N_lt: "N < 4294967296"
begin

lemma slot_lt: "slot N i < N"
  using N_pos by (simp add: slot_def)

lemma slot_add: "slot N (r + of_nat k) = (unat r + k) mod N"
proof -
  have "unat (r + of_nat k) mod N = ((unat r + k mod 4294967296) mod 4294967296) mod N"
    by (simp add: slot_def unat_plus32 unat_of_nat)
  also have "\<dots> = (unat r + k mod 4294967296) mod N"
    using N_dvd by (rule mod_mod_cancel)
  also have "\<dots> = (unat r + (k mod 4294967296) mod N) mod N"
    by (simp add: mod_add_right_eq)
  also have "\<dots> = (unat r + k) mod N"
    using N_dvd by (simp add: mod_mod_cancel mod_add_right_eq)
  finally show ?thesis by (simp add: slot_def)
qed

lemma slots_differ: "j < k \<Longrightarrow> k < N + j \<Longrightarrow> slot N (r + of_nat j) \<noteq> slot N (r + of_nat k)"
proof
  assume jk: "j < k" "k < N + j" and "slot N (r + of_nat j) = slot N (r + of_nat k)"
  then have "(unat r + k) mod N = (unat r + j) mod N" by (simp add: slot_add)
  then have "N dvd (unat r + k) - (unat r + j)" using jk by (simp add: mod_eq_dvd_iff_nat)
  then have "N dvd k - j" by simp
  then show False using jk by (auto dest: dvd_imp_le)
qed

lemma length_ring_bytes [simp]: "length (ring_bytes N b r n) = n"
  by (simp add: ring_bytes_def)

lemma length_contents [simp]: "length (contents N b r w) = unat (w - r)"
  by (simp add: contents_def)

lemma contents_empty_iff: "contents N b r w = [] \<longleftrightarrow> r = w"
proof -
  have "contents N b r w = [] \<longleftrightarrow> unat (w - r) = 0" by (metis length_0_conv length_contents)
  also have "\<dots> \<longleftrightarrow> w = r" by (simp add: unat_eq_0)
  finally show ?thesis by auto
qed

lemma unat_Suc_diff: "unat (w - r) < 4294967295 \<Longrightarrow> unat (w + 1 - r :: uint) = Suc (unat (w - r))"
proof -
  assume a: "unat (w - r) < 4294967295"
  have "w + 1 - r = (w - r) + 1" by simp
  moreover have "unat ((w - r) + 1) = Suc (unat (w - r))" using a unat_add32 [of "w - r" 1] by simp
  ultimately show ?thesis by (simp only:)
qed

lemma unat_pred: "x \<noteq> 0 \<Longrightarrow> unat x = Suc (unat (x - 1 :: uint))"
  by (simp add: unat_minus_one unat_gt_0)

text \<open>Storing at the write index appends, as long as the ring is not full.\<close>

lemma ring_bytes_update:
  assumes "n \<le> k" "k < N" "length b = N"
  shows "ring_bytes N (b[slot N (r + of_nat k) := c]) r n = ring_bytes N b r n"
  unfolding ring_bytes_def
proof (rule map_cong [OF refl])
  fix j assume "j \<in> set [0..<n]"
  then have "slot N (r + of_nat j) \<noteq> slot N (r + of_nat k)"
    using assms by (intro slots_differ) auto
  then show "b[slot N (r + of_nat k) := c] ! slot N (r + of_nat j) = b ! slot N (r + of_nat j)" by simp
qed

lemma contents_push:
  assumes "length b = N" "unat (w - r) < N"
  shows "contents N (b[slot N w := c]) r (w + 1) = contents N b r w @ [c]"
proof -
  let ?n = "unat (w - r)"
  have w: "w = r + of_nat ?n" by simp
  have n: "unat (w + 1 - r) = Suc ?n" using assms N_lt by (intro unat_Suc_diff) linarith
  have "ring_bytes N (b[slot N w := c]) r ?n = ring_bytes N b r ?n"
    using ring_bytes_update [of ?n ?n b r c] assms by simp
  moreover have "b[slot N w := c] ! slot N (r + of_nat ?n) = c"
    using assms slot_lt by simp
  ultimately show ?thesis by (simp add: contents_def n ring_bytes_def)
qed

text \<open>Reading at the read index takes the first byte.\<close>

lemma contents_pop:
  assumes "r \<noteq> w"
  shows "contents N b r w = b ! slot N r # contents N b (r + 1) w"
proof -
  have ne: "w - r \<noteq> 0" using assms by simp
  have "w - (r + 1) = (w - r) - 1" by simp
  then have n: "unat (w - r) = Suc (unat (w - (r + 1)))"
    using unat_pred [OF ne] by (simp only:)
  have "ring_bytes N b r (Suc m) = b ! slot N r # ring_bytes N b (r + 1) m" for m
  proof -
    have "[0..<Suc m] = 0 # map Suc [0..<m]" by (simp add: map_Suc_upt upt_conv_Cons del: upt_Suc)
    then show ?thesis by (simp add: ring_bytes_def add.assoc del: upt_Suc)
  qed
  then show ?thesis by (simp add: contents_def n)
qed

text \<open>Taking back the last byte.\<close>

lemma contents_unpush:
  assumes "r \<noteq> w"
  shows "contents N b r (w - 1) = butlast (contents N b r w)"
proof -
  have ne: "w - r \<noteq> 0" using assms by simp
  have "w - 1 - r = (w - r) - 1" by simp
  then have n: "unat (w - r) = Suc (unat (w - 1 - r))"
    using unat_pred [OF ne] by (simp only:)
  show ?thesis by (simp add: contents_def n ring_bytes_def butlast_append)
qed

lemma contents_last:
  assumes "r \<noteq> w"
  shows "last (contents N b r w) = b ! slot N (w - 1)"
proof -
  have ne: "w - r \<noteq> 0" using assms by simp
  have "w - 1 - r = (w - r) - 1" by simp
  then have n: "unat (w - r) = Suc (unat (w - 1 - r))"
    using unat_pred [OF ne] by (simp only:)
  have "r + of_nat (unat (w - 1 - r)) = w - 1" by simp
  then show ?thesis by (simp add: contents_def n ring_bytes_def)
qed

lemma ring_bytes_add: "ring_bytes N b r (m + n) = ring_bytes N b r m @ ring_bytes N b (r + of_nat m) n"
  by (induction n) (simp_all add: ring_bytes_def add.assoc)

text \<open>The ring from \<open>r\<close> to \<open>e\<close> is the part up to \<open>w\<close> followed by the part after it.\<close>

lemma contents_append:
  assumes "unat (w - r) \<le> unat (e - r)"
  shows "contents N b r e = contents N b r w @ contents N b w e"
proof -
  have "e - w = (e - r) - (w - r)" by simp
  then have "unat (e - w) = unat (e - r) - unat (w - r)"
    using unat_sub32 [OF assms] by (simp only:)
  then have n: "unat (e - r) = unat (w - r) + unat (e - w)" using assms by linarith
  have "ring_bytes N b r (unat (w - r) + unat (e - w)) =
      ring_bytes N b r (unat (w - r)) @ ring_bytes N b (r + of_nat (unat (w - r))) (unat (e - w))"
    by (rule ring_bytes_add)
  moreover have "r + of_nat (unat (w - r)) = w" by simp
  ultimately show ?thesis unfolding contents_def n by (simp only:)
qed

end

end
