(* ===== verification/Syscall.thy ===== *)
theory Syscall
  imports ProcDefs
begin

text \<open>
  System-call arguments (\<^verbatim>\<open>kernel/syscall.c\<close>): the kernel reads the caller's stack and strings
  through the page table loaded in \<open>cr3\<close>, after comparing addresses with the size of the process.
  The processor's address translation is modelled here too: an access through a missing entry, or
  a write through a read-only one, faults.
\<close>

section \<open>User memory through the loaded page table\<close>

definition xlate :: "memory \<Rightarrow> addr \<Rightarrow> addr \<Rightarrow> (addr \<times> uint) option" where
  "xlate m pgdir va =
     (let pde = load32 m (pgdir + 4 * PDX va) in
      if pde AND PTE_P = 0 then None
      else
        (let pte = load32 m (P2V (PTE_ADDR pde) + 4 * PTX va) in
         if pte AND PTE_P = 0 then None
         else Some (P2V (PTE_ADDR pte) + (va AND 0xFFF), pte)))"

definition uload8 :: "addr \<Rightarrow> (psys, uchar) kop" where
  "uload8 va = bnd (gets (\<lambda>s. xlate (mem (km s)) (P2V (cr3 s)) va)) (\<lambda>t. case t of
      None \<Rightarrow> halt (Fault ''load'')
    | Some (a, pte) \<Rightarrow> gets (\<lambda>s. mem (km s) a))"

definition ustore8 :: "addr \<Rightarrow> uchar \<Rightarrow> (psys, unit) kop" where
  "ustore8 va b = bnd (gets (\<lambda>s. xlate (mem (km s)) (P2V (cr3 s)) va)) (\<lambda>t. case t of
      None \<Rightarrow> halt (Fault ''store'')
    | Some (a, pte) \<Rightarrow>
        if pte AND PTE_W = 0 then halt (Fault ''store'')
        else kmop (set_mem (\<lambda>m. m(a := b))))"

definition uload32 :: "addr \<Rightarrow> (psys, uint) kop" where
  "uload32 va =
     bnd (uload8 va) (\<lambda>b0. bnd (uload8 (va + 1)) (\<lambda>b1. bnd (uload8 (va + 2)) (\<lambda>b2. bnd (uload8 (va + 3)) (\<lambda>b3.
       ret (ucast b0 OR push_bit 8 (ucast b1) OR push_bit 16 (ucast b2) OR push_bit 24 (ucast b3))))))"

definition ustore32 :: "addr \<Rightarrow> uint \<Rightarrow> (psys, unit) kop" where
  "ustore32 va v =
     seqk (ustore8 va (ucast v))
    (seqk (ustore8 (va + 1) (ucast (drop_bit 8 v)))
    (seqk (ustore8 (va + 2) (ucast (drop_bit 16 v)))
     (ustore8 (va + 3) (ucast (drop_bit 24 v)))))"

text \<open>
  The bytes of the user string at \<open>va\<close>. Bytes without a mapping read as 0 here: the callers test
  the string with \<open>argstr\<close> first, which reads every byte up to the terminator with \<open>uload8\<close>.
\<close>

definition ustr :: "psys \<Rightarrow> addr \<Rightarrow> bytes_at" where
  "ustr s va = (\<lambda>k. case xlate (mem (km s)) (P2V (cr3 s)) (va + of_nat k) of
      None \<Rightarrow> 0 | Some (a, pte) \<Rightarrow> mem (km s) a)"

section \<open>Fetching arguments\<close>

text \<open>The result \<open>None\<close> stands for the code's \<open>-1\<close>, \<open>Some v\<close> for 0 with \<open>v\<close> stored.\<close>

definition fetchint :: "addr \<Rightarrow> (psys, uint option) kop" where
  "fetchint addr = bnd cur (\<lambda>p.
     if addr \<ge> p_sz p \<or> addr + 4 > p_sz p then ret None
     else bnd (uload32 addr) (\<lambda>v. ret (Some v)))"

text \<open>The loop runs while \<open>s < ep\<close>: the first argument counts the bytes left before \<open>ep\<close>.\<close>

fun fetchstr_loop :: "nat \<Rightarrow> addr \<Rightarrow> nat \<Rightarrow> (psys, nat option) kop" where
  "fetchstr_loop 0 s len = ret None"
| "fetchstr_loop (Suc n) s len = bnd (uload8 s) (\<lambda>c.
     if c = 0 then ret (Some len) else fetchstr_loop n (s + 1) (Suc len))"

definition fetchstr :: "addr \<Rightarrow> (psys, nat option) kop" where
  "fetchstr addr = bnd cur (\<lambda>p.
     if addr \<ge> p_sz p then ret None
     else fetchstr_loop (unat (p_sz p) - unat addr) addr 0)"

definition argint :: "nat \<Rightarrow> (psys, uint option) kop" where
  "argint n = bnd cur (\<lambda>p. fetchint (tf_esp (p_tf p) + 4 + 4 * of_nat n))"

definition argptr :: "nat \<Rightarrow> int \<Rightarrow> (psys, addr option) kop" where
  "argptr n sz = bnd (argint n) (\<lambda>r. case r of
      None \<Rightarrow> ret None
    | Some i \<Rightarrow> bnd cur (\<lambda>p.
        if sz < 0 \<or> i \<ge> p_sz p \<or> i + word_of_int sz > p_sz p then ret None else ret (Some i)))"

text \<open>The pointer and the length of the string.\<close>

definition argstr :: "nat \<Rightarrow> (psys, (addr \<times> nat) option) kop" where
  "argstr n = bnd (argint n) (\<lambda>r. case r of
      None \<Rightarrow> ret None
    | Some addr \<Rightarrow> bnd (fetchstr addr) (\<lambda>l. ret (map_option (\<lambda>len. (addr, len)) l)))"

section \<open>Translation and the page-table view\<close>

lemma xlate_eq:
  "xlate m pgdir va = (if present (pte_val m pgdir va)
     then Some (P2V (PTE_ADDR (pte_val m pgdir va)) + (va AND 0xFFF), pte_val m pgdir va) else None)"
  by (auto simp: xlate_def pte_val_def pte_at_def pde_at_PDX tab_def present_def Let_def)

end
