(* ===== verification/Console.thy ===== *)
theory Console
  imports Inode Ring Syscall
begin

text \<open>
  The console (\<^verbatim>\<open>kernel/console.c\<close>) and the output half of the serial port (\<^verbatim>\<open>kernel/uart.c\<close>):
  formatted output, the screen with its scrolling, line editing in the interrupt handler and the
  reading and writing of the console device. The input is a ring with three indices, read as a list
  of finished bytes followed by the line being edited.
\<close>

section \<open>Output\<close>

definition INPUT_BUF :: nat where "INPUT_BUF = 128"
definition BACKSPACE :: uint where "BACKSPACE = 0x100"

definition uartputc :: "uint \<Rightarrow> (console, unit) kop" where
  "uartputc c = upd (\<lambda>s. if uart_on s then s\<lparr>uart_out := uart_out s @ [ucast c]\<rparr> else s)"

text \<open>The cells are white on black; \<open>memmove\<close> scrolls 23 rows and \<open>memset\<close> blanks the rest of the
  24 rows.\<close>

definition scrolled :: "nat \<Rightarrow> (nat \<Rightarrow> ushort) \<Rightarrow> (nat \<Rightarrow> ushort)" where
  "scrolled pos cells = (\<lambda>k. if pos \<le> k \<and> k < 24 * 80 then 0 else if k < 23 * 80 then cells (k + 80) else cells k)"

text \<open>The second half of \<open>cgaputc\<close>: scroll if the cursor has left the 24 rows, move it and clear its cell.\<close>

definition cga_place :: "nat \<Rightarrow> (console, unit) kop" where
  "cga_place pos =
     (if pos > 25 * 80 then panic ''pos under/overflow''
      else bnd (if pos div 80 \<ge> 24 then
                  seqk (upd (\<lambda>s. s\<lparr>crt := scrolled (pos - 80) (crt s)\<rparr>)) (ret (pos - 80))
                else ret pos) (\<lambda>pos.
        upd (\<lambda>s. s\<lparr>crt := (crt s)(pos := 0x0720), crt_pos := pos\<rparr>)))"

definition cgaputc :: "uint \<Rightarrow> (console, unit) kop" where
  "cgaputc c = bnd (gets crt_pos) (\<lambda>pos.
     bnd (if c = 10 then ret (pos + (80 - pos mod 80))
          else if c = BACKSPACE then ret (pos - 1)
          else seqk (upd (\<lambda>s. s\<lparr>crt := (crt s)(pos := (ucast c AND 0xFF) OR 0x0700)\<rparr>)) (ret (pos + 1)))
       cga_place)"

definition consputc :: "uint \<Rightarrow> (console, unit) kop" where
  "consputc c = bnd (gets panicked) (\<lambda>p.
     if p then halt Spin
     else seqk (if c = BACKSPACE then seqk (uartputc 8) (seqk (uartputc 32) (uartputc 8)) else uartputc c)
           (cgaputc c))"

definition digits :: "uchar list" where
  "digits = [48, 49, 50, 51, 52, 53, 54, 55, 56, 57, 97, 98, 99, 100, 101, 102]"

text \<open>The digits from the last one on, as the loop stores them.\<close>

function digit_loop :: "nat \<Rightarrow> nat \<Rightarrow> uchar list" where
  "digit_loop x base = digits ! (x mod base) #
     (if x div base = 0 \<or> base < 2 then [] else digit_loop (x div base) base)"
  by pat_completeness auto
termination
proof (relation "measure fst")
  fix x base :: nat
  assume "\<not> (x div base = 0 \<or> base < 2)"
  then have "0 < x" "1 < base" by (auto intro: gr0I)
  then show "((x div base, base), (x, base)) \<in> measure fst" by (simp add: div_less_dividend)
qed simp

declare digit_loop.simps [simp del]

text \<open>The characters \<open>printint\<close> puts, in order. The base is at least 2 in every call.\<close>

definition printint :: "uint \<Rightarrow> nat \<Rightarrow> bool \<Rightarrow> uchar list" where
  "printint xx base sign =
     (let neg = (sign \<and> xx <s 0); x = (if neg then - xx else xx);
          buf = digit_loop (unat x) base @ (if neg then [45] else []) in rev buf)"

text \<open>An argument of \<open>cprintf\<close>: a number, or a string, which may be the null pointer.\<close>

datatype carg = Num uint | Str "uchar list option"

definition null_text :: "uchar list" where
  "null_text = [40, 110, 117, 108, 108, 41]"

text \<open>The bytes a format and its arguments expand to. A missing argument or one of the wrong kind
  is \<open>None\<close>.\<close>

fun format :: "uchar list \<Rightarrow> carg list \<Rightarrow> uchar list option" where
  "format [] args = Some []"
| "format (c # fmt) args =
     (if c \<noteq> 37 then map_option (Cons c) (format fmt args)
      else case fmt of
        [] \<Rightarrow> Some []
      | d # fmt' \<Rightarrow>
          if d = 100 then (case args of Num n # args' \<Rightarrow> map_option ((@) (printint n 10 True)) (format fmt' args') | _ \<Rightarrow> None)
          else if d = 120 \<or> d = 112 then (case args of Num n # args' \<Rightarrow> map_option ((@) (printint n 16 False)) (format fmt' args') | _ \<Rightarrow> None)
          else if d = 115 then (case args of
              Str (Some s) # args' \<Rightarrow> map_option ((@) s) (format fmt' args')
            | Str None # args' \<Rightarrow> map_option ((@) null_text) (format fmt' args') | _ \<Rightarrow> None)
          else if d = 37 then map_option (Cons 37) (format fmt' args)
          else map_option (\<lambda>r. 37 # d # r) (format fmt' args))"

definition consop :: "(console, 'a) kop \<Rightarrow> (fsys, 'a) kop" where
  "consop = zoom cons (\<lambda>c s. s\<lparr>cons := c\<rparr>)"

definition lock_cons :: "(fsys, unit) kop" where
  "lock_cons = f_acquire (\<lambda>s. cons_lock (cons s)) (\<lambda>l s. s\<lparr>cons := (cons s)\<lparr>cons_lock := l\<rparr>\<rparr>)"

definition unlock_cons :: "(fsys, unit) kop" where
  "unlock_cons = f_release (\<lambda>s. cons_lock (cons s)) (\<lambda>l s. s\<lparr>cons := (cons s)\<lparr>cons_lock := l\<rparr>\<rparr>)"

definition cprintf :: "uchar list \<Rightarrow> carg list \<Rightarrow> (fsys, unit) kop" where
  "cprintf fmt args = bnd (gets (\<lambda>s. cons_locking (cons s))) (\<lambda>locking.
     seqk (whenk locking lock_cons)
      (case format fmt args of
         None \<Rightarrow> halt (Fault ''cprintf'')
       | Some out \<Rightarrow> seqk (foreach out (\<lambda>c. consop (consputc (ucast c)))) (whenk locking unlock_cons)))"

section \<open>Line editing\<close>

text \<open>The loop of control-U; its first argument is the number of bytes in the line.\<close>

fun kill_line :: "nat \<Rightarrow> (console, unit) kop" where
  "kill_line 0 = ret ()"
| "kill_line (Suc n) = bnd (gets id) (\<lambda>s.
     if in_e s \<noteq> in_w s \<and> in_buf s ! slot INPUT_BUF (in_e s - 1) \<noteq> 10 then
       seqk (upd (\<lambda>s. s\<lparr>in_e := in_e s - 1\<rparr>)) (seqk (consputc BACKSPACE) (kill_line n))
     else ret ())"

text \<open>One character of the interrupt handler; the result tells whether the line was finished, in
  which case the handler wakes the readers.\<close>

definition edit_char :: "uint \<Rightarrow> (console, bool) kop" where
  "edit_char c = bnd (gets id) (\<lambda>s.
     if c = 0x15 then seqk (kill_line (unat (in_e s - in_w s))) (ret False)
     else if c = 0x08 \<or> c = 0x7F then
       seqk (whenk (in_e s \<noteq> in_w s) (seqk (upd (\<lambda>s. s\<lparr>in_e := in_e s - 1\<rparr>)) (consputc BACKSPACE))) (ret False)
     else if c \<noteq> 0 \<and> in_e s - in_r s < of_nat INPUT_BUF then
       let c = (if c = 13 then 10 else c) in
       seqk (upd (\<lambda>s. s\<lparr>in_buf := (in_buf s)[slot INPUT_BUF (in_e s) := ucast c], in_e := in_e s + 1\<rparr>))
      (seqk (consputc c)
       (bnd (gets id) (\<lambda>s.
          if c = 10 \<or> c = 4 \<or> in_e s = in_r s + of_nat INPUT_BUF then
            seqk (upd (\<lambda>s. s\<lparr>in_w := in_e s\<rparr>)) (ret True)
          else ret False)))
     else ret False)"

text \<open>
  \<open>consoleintr\<close> on the characters that \<open>getc\<close> returns before its first negative value. The result
  tells whether control-P asked for a process listing, which is printed afterwards.
\<close>

fun intr_loop :: "uint list \<Rightarrow> bool \<Rightarrow> (fsys, bool) kop" where
  "intr_loop [] dump = ret dump"
| "intr_loop (c # cs) dump =
     (if c = 0x10 then intr_loop cs True
      else bnd (consop (edit_char c)) (\<lambda>fin.
        seqk (whenk fin (psop (wakeup ChanInput))) (intr_loop cs dump)))"

definition consoleintr :: "uint list \<Rightarrow> (fsys, bool) kop" where
  "consoleintr cs = seqk lock_cons (bnd (intr_loop cs False) (\<lambda>dump. seqk unlock_cons (ret dump)))"

section \<open>The console device\<close>

text \<open>
  The loop of \<open>consoleread\<close>, with \<open>n\<close> bytes still wanted of \<open>target\<close>; \<open>None\<close> is the return of \<open>-1\<close>
  for a killed process. The bytes are those stored at \<open>dst\<close>.
\<close>

fun read_loop :: "nat \<Rightarrow> nat \<Rightarrow> (fsys, uchar list option) kop" where
  "read_loop target 0 = ret (Some [])"
| "read_loop target (Suc n) = bnd (gets cons) (\<lambda>s.
     if in_r s = in_w s then
       bnd (psop cur) (\<lambda>p. if p_killed p then ret None
         else sleep ChanInput (\<lambda>s. cons_lock (cons s)) (\<lambda>l s. s\<lparr>cons := (cons s)\<lparr>cons_lock := l\<rparr>\<rparr>))
     else
       let c = in_buf s ! slot INPUT_BUF (in_r s) in
       seqk (upd_cons (\<lambda>s. s\<lparr>in_r := in_r s + 1\<rparr>))
        (if c = 4 then
           seqk (whenk (Suc n < target) (upd_cons (\<lambda>s. s\<lparr>in_r := in_r s - 1\<rparr>))) (ret (Some []))
         else if c = 10 then ret (Some [c])
         else bnd (read_loop target n) (\<lambda>r. ret (map_option (Cons c) r))))"

definition consoleread :: "nat \<Rightarrow> nat \<Rightarrow> (fsys, int \<times> uchar list) kop" where
  "consoleread ip n = seqk (iunlock ip) (seqk lock_cons (bnd (read_loop n n) (\<lambda>r.
     seqk unlock_cons (seqk (ilock ip)
      (ret (case r of None \<Rightarrow> (-1, []) | Some bs \<Rightarrow> (int (length bs), bs)))))))"

definition consolewrite :: "nat \<Rightarrow> uchar list \<Rightarrow> (fsys, int) kop" where
  "consolewrite ip bs = seqk (iunlock ip) (seqk lock_cons
     (seqk (foreach bs (\<lambda>c. consop (consputc (ucast c))))
     (seqk unlock_cons (seqk (ilock ip) (ret (int (length bs)))))))"

definition consoleinit :: "(console, unit) kop" where
  "consoleinit = upd (\<lambda>s. s\<lparr>cons_lock := Unlocked, cons_locking := True\<rparr>)"

end
