(* ===== verification/Dir.thy ===== *)
theory Dir
  imports Console
begin

text \<open>
  Reading and writing files, directories and path names (the last part of \<^verbatim>\<open>kernel/fs.c\<close>). The bytes
  that \<open>readi\<close> stores at its destination are part of its result, and those that \<open>writei\<close> takes from
  its source are its argument; the callers move them to and from memory. The only device of the
  switch table is the console.
\<close>

section \<open>Contents\<close>

text \<open>
  The loop of \<open>readi\<close>: \<open>left\<close> bytes are still wanted from offset \<open>off\<close> on. Every round takes at least
  one byte, so \<open>left\<close> bounds the number of rounds.
\<close>

fun readi_loop :: "nat \<Rightarrow> nat \<Rightarrow> uint \<Rightarrow> nat \<Rightarrow> (fsys, uchar list) kop" where
  "readi_loop 0 i off left = (if left = 0 then ret [] else halt OutOfFuel)"
| "readi_loop (Suc fuel) i off left =
     (if left = 0 then ret []
      else bnd (get_inode i) (\<lambda>ip.
        bnd (bmap i (of_nat (unat off div BSIZE))) (\<lambda>bno.
        bnd (bread (i_dev ip) bno) (\<lambda>bp. bnd (bdata bp) (\<lambda>d.
          let m = min left (BSIZE - unat off mod BSIZE) in
          seqk (brelse bp)
           (bnd (readi_loop fuel i (off + of_nat m) (left - m)) (\<lambda>rest.
              ret (take m (drop (unat off mod BSIZE) d) @ rest))))))))"

definition readi :: "nat \<Rightarrow> uint \<Rightarrow> uint \<Rightarrow> (fsys, int \<times> uchar list) kop" where
  "readi i off n = bnd (get_inode i) (\<lambda>ip.
     if i_type ip = T_DEV then
       (if sint (i_major ip) < 0 \<or> sint (i_major ip) \<ge> int NDEV \<or> unat (i_major ip) \<noteq> CONSOLE then ret (-1, [])
        else consoleread i (nat (sint n)))
     else if off > i_size ip \<or> off + n < off then ret (-1, [])
     else let n = (if off + n > i_size ip then i_size ip - off else n) in
       bnd (readi_loop (unat n) i off (unat n)) (\<lambda>bs. ret (sint n, bs)))"

fun writei_loop :: "nat \<Rightarrow> nat \<Rightarrow> uint \<Rightarrow> uchar list \<Rightarrow> (fsys, unit) kop" where
  "writei_loop 0 i off src = (if src = [] then ret () else halt OutOfFuel)"
| "writei_loop (Suc fuel) i off src =
     (if src = [] then ret ()
      else bnd (get_inode i) (\<lambda>ip.
        bnd (bmap i (of_nat (unat off div BSIZE))) (\<lambda>bno.
        bnd (bread (i_dev ip) bno) (\<lambda>bp. bnd (bdata bp) (\<lambda>d.
          let m = min (length src) (BSIZE - unat off mod BSIZE) in
          seqk (set_bdata bp (patch (unat off mod BSIZE) (take m src) d))
         (seqk (log_write bp)
         (seqk (brelse bp)
          (writei_loop fuel i (off + of_nat m) (drop m src)))))))))"

text \<open>\<open>n\<close> is the length of \<open>src\<close>.\<close>

definition writei :: "nat \<Rightarrow> uchar list \<Rightarrow> uint \<Rightarrow> (fsys, int) kop" where
  "writei i src off = (let n = (of_nat (length src) :: uint) in bnd (get_inode i) (\<lambda>ip.
     if i_type ip = T_DEV then
       (if sint (i_major ip) < 0 \<or> sint (i_major ip) \<ge> int NDEV \<or> unat (i_major ip) \<noteq> CONSOLE then ret (-1)
        else consolewrite i src)
     else if off > i_size ip \<or> off + n < off then ret (-1)
     else if off + n > of_nat (MAXFILE * BSIZE) then ret (-1)
     else seqk (writei_loop (length src) i off src)
       (bnd (get_inode i) (\<lambda>ip.
          seqk (whenk (n > 0 \<and> off + n > i_size ip)
             (seqk (upd_inode i (\<lambda>ip. ip\<lparr>i_size := off + n\<rparr>)) (iupdate i)))
           (ret (sint n))))))"

section \<open>Directories\<close>

definition namecmp :: "bytes_at \<Rightarrow> bytes_at \<Rightarrow> int" where
  "namecmp s t = strncmp s t DIRSIZ"

definition dirent_of :: "uchar list \<Rightarrow> dirent" where
  "dirent_of bs = \<lparr>de_inum = rd16 bs 0, de_name = take DIRSIZ (drop 2 bs)\<rparr>"

definition dirent_bytes :: "dirent \<Rightarrow> uchar list" where
  "dirent_bytes de = bytes16 (de_inum de) @ de_name de"

text \<open>The offset and the entry found; \<open>n\<close> bounds the number of entries that are left.\<close>

fun dirlookup_loop :: "nat \<Rightarrow> nat \<Rightarrow> bytes_at \<Rightarrow> uint \<Rightarrow> (fsys, (uint \<times> dirent) option) kop" where
  "dirlookup_loop 0 dp name off = halt OutOfFuel"
| "dirlookup_loop (Suc n) dp name off = bnd (get_inode dp) (\<lambda>ip.
     if off \<ge> i_size ip then ret None
     else bnd (readi dp off (of_nat DIRENTSIZE)) (\<lambda>(r, bs).
       if r \<noteq> int DIRENTSIZE then panic ''dirlookup read''
       else let de = dirent_of bs in
         if de_inum de = 0 then dirlookup_loop n dp name (off + of_nat DIRENTSIZE)
         else if namecmp name (arr (de_name de)) = 0 then ret (Some (off, de))
         else dirlookup_loop n dp name (off + of_nat DIRENTSIZE)))"

definition entries :: "inode \<Rightarrow> nat" where
  "entries ip = unat (i_size ip) div DIRENTSIZE + 2"

text \<open>The inode found, and its offset, which is what is stored through \<open>poff\<close>.\<close>

definition dirlookup :: "nat \<Rightarrow> bytes_at \<Rightarrow> (fsys, (nat \<times> uint) option) kop" where
  "dirlookup dp name = bnd (get_inode dp) (\<lambda>ip.
     if i_type ip \<noteq> T_DIR then panic ''dirlookup not DIR''
     else bnd (dirlookup_loop (entries ip) dp name 0) (\<lambda>r. case r of
         None \<Rightarrow> ret None
       | Some (off, de) \<Rightarrow> bnd (iget (i_dev ip) (ucast (de_inum de))) (\<lambda>j. ret (Some (j, off)))))"

text \<open>The offset of the first free entry, or the size of the directory.\<close>

fun free_entry :: "nat \<Rightarrow> nat \<Rightarrow> uint \<Rightarrow> (fsys, uint) kop" where
  "free_entry 0 dp off = halt OutOfFuel"
| "free_entry (Suc n) dp off = bnd (get_inode dp) (\<lambda>ip.
     if off \<ge> i_size ip then ret off
     else bnd (readi dp off (of_nat DIRENTSIZE)) (\<lambda>(r, bs).
       if r \<noteq> int DIRENTSIZE then panic ''dirlink read''
       else if de_inum (dirent_of bs) = 0 then ret off
       else free_entry n dp (off + of_nat DIRENTSIZE)))"

definition dirlink :: "nat \<Rightarrow> bytes_at \<Rightarrow> uint \<Rightarrow> (fsys, int) kop" where
  "dirlink dp name inum = bnd (dirlookup dp name) (\<lambda>r. case r of
       Some (j, off) \<Rightarrow> seqk (iput j) (ret (-1))
     | None \<Rightarrow> bnd (get_inode dp) (\<lambda>ip. bnd (free_entry (entries ip) dp 0) (\<lambda>off.
         bnd (writei dp (dirent_bytes \<lparr>de_inum = ucast inum, de_name = strncpy name DIRSIZ\<rparr>) off) (\<lambda>r.
           if r \<noteq> int DIRENTSIZE then panic ''dirlink'' else ret 0))))"

section \<open>Path names\<close>

text \<open>A path is the list of its bytes before the terminator.\<close>

definition slash :: uchar where "slash = 47"

fun skip_slashes :: "uchar list \<Rightarrow> uchar list" where
  "skip_slashes [] = []"
| "skip_slashes (c # cs) = (if c = slash then skip_slashes cs else c # cs)"

definition elem_of :: "uchar list \<Rightarrow> uchar list" where
  "elem_of path = takeWhile (\<lambda>c. c \<noteq> slash) path"

text \<open>
  The rest of the path and the new contents of \<open>name\<close>: \<open>DIRSIZ\<close> bytes without a terminator when the
  element is that long, and otherwise the element and a terminator, with the bytes after it kept.
\<close>

definition skipelem :: "uchar list \<Rightarrow> uchar list \<Rightarrow> (uchar list \<times> uchar list) option" where
  "skipelem path name =
     (let s = skip_slashes path in
      if s = [] then None
      else let e = elem_of s; rest = drop (length e) s;
               name' = (if length e \<ge> DIRSIZ then patch 0 (take DIRSIZ e) name
                        else patch (length e) [0] (patch 0 e name)) in
        Some (skip_slashes rest, name'))"

text \<open>The walk of \<open>namex\<close>; every round consumes at least one byte of the path.\<close>

fun namex_loop :: "nat \<Rightarrow> nat \<Rightarrow> uchar list \<Rightarrow> bool \<Rightarrow> uchar list \<Rightarrow> (fsys, (nat \<times> uchar list) option) kop" where
  "namex_loop 0 i path parent name = halt OutOfFuel"
| "namex_loop (Suc n) i path parent name = (case skipelem path name of
       None \<Rightarrow> if parent then seqk (iput i) (ret None) else ret (Some (i, name))
     | Some (path', name') \<Rightarrow>
         seqk (ilock i) (bnd (get_inode i) (\<lambda>ip.
           if i_type ip \<noteq> T_DIR then seqk (iunlockput i) (ret None)
           else if parent \<and> path' = [] then seqk (iunlock i) (ret (Some (i, name')))
           else bnd (dirlookup i (arr name')) (\<lambda>r. case r of
               None \<Rightarrow> seqk (iunlockput i) (ret None)
             | Some (j, off) \<Rightarrow> seqk (iunlockput i) (namex_loop n j path' parent name')))))"

definition namex :: "uchar list \<Rightarrow> bool \<Rightarrow> uchar list \<Rightarrow> (fsys, (nat \<times> uchar list) option) kop" where
  "namex path parent name =
     bnd (if path \<noteq> [] \<and> hd path = slash then iget ROOTDEV ROOTINO
          else bnd (psop cur) (\<lambda>p. case p_cwd p of None \<Rightarrow> halt (Fault ''cwd'') | Some c \<Rightarrow> idup c)) (\<lambda>i.
     namex_loop (length path + 1) i path parent name)"

definition namei :: "uchar list \<Rightarrow> (fsys, nat option) kop" where
  "namei path = bnd (namex path False (replicate DIRSIZ 0)) (\<lambda>r. ret (map_option fst r))"

definition nameiparent :: "uchar list \<Rightarrow> uchar list \<Rightarrow> (fsys, (nat \<times> uchar list) option) kop" where
  "nameiparent path name = namex path True name"

end
