(* ===== verification/File.thy ===== *)
theory File
  imports Dir
begin

text \<open>
  Open files (\<^verbatim>\<open>kernel/file.c\<close>, \<^verbatim>\<open>kernel/file.h\<close>) and pipes (\<^verbatim>\<open>kernel/pipe.c\<close>). A file structure is
  named by its index in the table; a pipe by the address of the page that \<open>kalloc\<close> gave for it,
  with its fields kept in \<open>pipes\<close> instead of the bytes of that page. Bytes move to and from the
  caller's memory through the loaded page table.
\<close>

section \<open>Structures\<close>

definition PIPESIZE :: nat where "PIPESIZE = 512"

datatype fdtype = FD_NONE | FD_PIPE | FD_INODE

record ofile =
  f_type :: fdtype
  f_ref :: int
  f_readable :: bool
  f_writable :: bool
  f_pipe :: addr
  f_ip :: nat
  f_off :: uint

record pipe =
  pi_lock :: lockview
  pi_data :: "uchar list"
  pi_nread :: uint
  pi_nwrite :: uint
  pi_readopen :: bool
  pi_writeopen :: bool

record ksys =
  fs :: fsys
  ftable_lock :: lockview
  files :: "ofile list"
  pipes :: "addr \<Rightarrow> pipe option"

definition fsop :: "(fsys, 'a) kop \<Rightarrow> (ksys, 'a) kop" where
  "fsop = zoom fs (\<lambda>f s. s\<lparr>fs := f\<rparr>)"

definition kpsop :: "(psys, 'a) kop \<Rightarrow> (ksys, 'a) kop" where
  "kpsop m = fsop (psop m)"

definition get_file :: "nat \<Rightarrow> (ksys, ofile) kop" where
  "get_file i = bnd (gets files) (\<lambda>fl. if i < length fl then ret (fl ! i) else halt (Fault ''file''))"

definition upd_file :: "nat \<Rightarrow> (ofile \<Rightarrow> ofile) \<Rightarrow> (ksys, unit) kop" where
  "upd_file i f = upd (\<lambda>s. s\<lparr>files := (files s)[i := f (files s ! i)]\<rparr>)"

definition get_pipe :: "addr \<Rightarrow> (ksys, pipe) kop" where
  "get_pipe p = bnd (gets (\<lambda>s. pipes s p)) (\<lambda>r. case r of None \<Rightarrow> halt (Fault ''pipe'') | Some q \<Rightarrow> ret q)"

definition upd_pipe :: "addr \<Rightarrow> (pipe \<Rightarrow> pipe) \<Rightarrow> (ksys, unit) kop" where
  "upd_pipe p f = upd (\<lambda>s. s\<lparr>pipes := (pipes s)(p := map_option f (pipes s p))\<rparr>)"

section \<open>The caller's memory\<close>

fun ustore_bytes :: "addr \<Rightarrow> uchar list \<Rightarrow> (psys, unit) kop" where
  "ustore_bytes va [] = ret ()"
| "ustore_bytes va (b # bs) = seqk (ustore8 va b) (ustore_bytes (va + 1) bs)"

fun uload_bytes :: "addr \<Rightarrow> nat \<Rightarrow> (psys, uchar list) kop" where
  "uload_bytes va 0 = ret []"
| "uload_bytes va (Suc n) = bnd (uload8 va) (\<lambda>b. bnd (uload_bytes (va + 1) n) (\<lambda>bs. ret (b # bs)))"

section \<open>Locks\<close>

definition k_acquire :: "(ksys \<Rightarrow> lockview) \<Rightarrow> (lockview \<Rightarrow> ksys \<Rightarrow> ksys) \<Rightarrow> (ksys, unit) kop" where
  "k_acquire get put = seqk (kpsop (cpuop pushcli)) (acquire get put)"

definition k_release :: "(ksys \<Rightarrow> lockview) \<Rightarrow> (lockview \<Rightarrow> ksys \<Rightarrow> ksys) \<Rightarrow> (ksys, unit) kop" where
  "k_release get put = seqk (release get put) (kpsop (cpuop popcli))"

definition lock_ftable :: "(ksys, unit) kop" where
  "lock_ftable = k_acquire ftable_lock (\<lambda>l s. s\<lparr>ftable_lock := l\<rparr>)"

definition unlock_ftable :: "(ksys, unit) kop" where
  "unlock_ftable = k_release ftable_lock (\<lambda>l s. s\<lparr>ftable_lock := l\<rparr>)"

definition pipe_lock :: "addr \<Rightarrow> ksys \<Rightarrow> lockview" where
  "pipe_lock p s = (case pipes s p of Some q \<Rightarrow> pi_lock q | None \<Rightarrow> Theirs)"

definition set_pipe_lock :: "addr \<Rightarrow> lockview \<Rightarrow> ksys \<Rightarrow> ksys" where
  "set_pipe_lock p l s = s\<lparr>pipes := (pipes s)(p := map_option (\<lambda>q. q\<lparr>pi_lock := l\<rparr>) (pipes s p))\<rparr>"

definition lock_pipe :: "addr \<Rightarrow> (ksys, unit) kop" where
  "lock_pipe p = bnd (get_pipe p) (\<lambda>_. k_acquire (pipe_lock p) (set_pipe_lock p))"

definition unlock_pipe :: "addr \<Rightarrow> (ksys, unit) kop" where
  "unlock_pipe p = k_release (pipe_lock p) (set_pipe_lock p)"

definition sleep_pipe :: "chan \<Rightarrow> addr \<Rightarrow> (ksys, 'a) kop" where
  "sleep_pipe ch p = bnd (gets (\<lambda>s. curproc (ps (fs s)))) (\<lambda>c. case c of None \<Rightarrow> panic ''sleep''
     | Some i \<Rightarrow> seqk (kpsop lock_ptable) (seqk (unlock_pipe p) (seqk (kpsop (sleep_on ch)) (halt (Sleeps ch)))))"

section \<open>The file table\<close>

definition fileinit :: "(ksys, unit) kop" where
  "fileinit = upd (\<lambda>s. s\<lparr>ftable_lock := Unlocked\<rparr>)"

fun free_file :: "ofile list \<Rightarrow> nat \<Rightarrow> nat option" where
  "free_file [] i = None"
| "free_file (f # fl) i = (if f_ref f = 0 then Some i else free_file fl (Suc i))"

definition filealloc :: "(ksys, nat option) kop" where
  "filealloc = seqk lock_ftable (bnd (gets (\<lambda>s. free_file (files s) 0)) (\<lambda>r. case r of
       Some i \<Rightarrow> seqk (upd_file i (\<lambda>f. f\<lparr>f_ref := 1\<rparr>)) (seqk unlock_ftable (ret (Some i)))
     | None \<Rightarrow> seqk unlock_ftable (ret None)))"

definition filedup :: "nat \<Rightarrow> (ksys, nat) kop" where
  "filedup i = seqk lock_ftable (bnd (get_file i) (\<lambda>f.
     if f_ref f < 1 then panic ''filedup''
     else seqk (upd_file i (\<lambda>f. f\<lparr>f_ref := f_ref f + 1\<rparr>)) (seqk unlock_ftable (ret i))))"

section \<open>Pipes\<close>

definition pipeclose :: "addr \<Rightarrow> bool \<Rightarrow> (ksys, unit) kop" where
  "pipeclose p writable = seqk (lock_pipe p)
     (seqk (if writable then seqk (upd_pipe p (\<lambda>q. q\<lparr>pi_writeopen := False\<rparr>)) (kpsop (wakeup (ChanPipeR p)))
            else seqk (upd_pipe p (\<lambda>q. q\<lparr>pi_readopen := False\<rparr>)) (kpsop (wakeup (ChanPipeW p))))
     (bnd (get_pipe p) (\<lambda>q.
        if \<not> pi_readopen q \<and> \<not> pi_writeopen q then
          seqk (unlock_pipe p) (seqk (kpsop (kmop (kfree p))) (upd (\<lambda>s. s\<lparr>pipes := (pipes s)(p := None)\<rparr>)))
        else unlock_pipe p)))"

text \<open>One byte into the pipe, and one out of it.\<close>

definition pipe_put :: "uchar \<Rightarrow> pipe \<Rightarrow> pipe" where
  "pipe_put c q = q\<lparr>pi_data := (pi_data q)[slot PIPESIZE (pi_nwrite q) := c], pi_nwrite := pi_nwrite q + 1\<rparr>"

definition pipe_get :: "pipe \<Rightarrow> uchar \<times> pipe" where
  "pipe_get q = (pi_data q ! slot PIPESIZE (pi_nread q), q\<lparr>pi_nread := pi_nread q + 1\<rparr>)"

text \<open>The loop of \<open>pipewrite\<close> over the bytes that are left; \<open>False\<close> stands for the return of \<open>-1\<close>.\<close>

fun pipewrite_loop :: "addr \<Rightarrow> addr \<Rightarrow> nat \<Rightarrow> (ksys, bool) kop" where
  "pipewrite_loop p addr 0 = ret True"
| "pipewrite_loop p addr (Suc n) = bnd (get_pipe p) (\<lambda>q.
     if pi_nwrite q = pi_nread q + of_nat PIPESIZE then
       bnd (if \<not> pi_readopen q then ret True else bnd (kpsop cur) (\<lambda>me. ret (p_killed me))) (\<lambda>give_up.
         if give_up then ret False
         else seqk (kpsop (wakeup (ChanPipeR p))) (sleep_pipe (ChanPipeW p) p))
     else bnd (kpsop (uload8 addr)) (\<lambda>c.
       seqk (upd_pipe p (pipe_put c)) (pipewrite_loop p (addr + 1) n)))"

definition pipewrite :: "addr \<Rightarrow> addr \<Rightarrow> int \<Rightarrow> (ksys, int) kop" where
  "pipewrite p addr n = seqk (lock_pipe p) (bnd (pipewrite_loop p addr (nat n)) (\<lambda>done.
     if done then seqk (kpsop (wakeup (ChanPipeR p))) (seqk (unlock_pipe p) (ret n))
     else seqk (unlock_pipe p) (ret (-1))))"

fun piperead_loop :: "addr \<Rightarrow> addr \<Rightarrow> nat \<Rightarrow> (ksys, nat) kop" where
  "piperead_loop p addr 0 = ret 0"
| "piperead_loop p addr (Suc n) = bnd (get_pipe p) (\<lambda>q.
     if pi_nread q = pi_nwrite q then ret 0
     else seqk (upd_pipe p (snd \<circ> pipe_get))
         (seqk (kpsop (ustore8 addr (fst (pipe_get q))))
          (bnd (piperead_loop p (addr + 1) n) (\<lambda>k. ret (Suc k)))))"

definition piperead :: "addr \<Rightarrow> addr \<Rightarrow> int \<Rightarrow> (ksys, int) kop" where
  "piperead p addr n = seqk (lock_pipe p) (bnd (get_pipe p) (\<lambda>q.
     if pi_nread q = pi_nwrite q \<and> pi_writeopen q then
       bnd (kpsop cur) (\<lambda>me. if p_killed me then seqk (unlock_pipe p) (ret (-1))
         else sleep_pipe (ChanPipeR p) p)
     else bnd (piperead_loop p addr (nat n)) (\<lambda>k.
       seqk (kpsop (wakeup (ChanPipeW p))) (seqk (unlock_pipe p) (ret (int k))))))"

section \<open>Closing, reading and writing\<close>

definition fileclose :: "nat \<Rightarrow> (ksys, unit) kop" where
  "fileclose i = seqk lock_ftable (bnd (get_file i) (\<lambda>f.
     if f_ref f < 1 then panic ''fileclose''
     else if f_ref f - 1 > 0 then seqk (upd_file i (\<lambda>f. f\<lparr>f_ref := f_ref f - 1\<rparr>)) unlock_ftable
     else seqk (upd_file i (\<lambda>f. f\<lparr>f_ref := 0, f_type := FD_NONE\<rparr>))
         (seqk unlock_ftable
          (case f_type f of
             FD_PIPE \<Rightarrow> pipeclose (f_pipe f) (f_writable f)
           | FD_INODE \<Rightarrow> seqk (fsop begin_op) (seqk (fsop (iput (f_ip f))) (fsop end_op))
           | FD_NONE \<Rightarrow> ret ()))))"

definition close_opt :: "nat option \<Rightarrow> (ksys, unit) kop" where
  "close_opt r = (case r of None \<Rightarrow> ret () | Some i \<Rightarrow> fileclose i)"

text \<open>The data of a new pipe are the bytes that the page holds behind the 52 bytes of its lock.\<close>

definition new_pipe :: "memory \<Rightarrow> addr \<Rightarrow> pipe" where
  "new_pipe m p = \<lparr>pi_lock = Unlocked, pi_data = map (\<lambda>k. m (p + 52 + of_nat k)) [0..<PIPESIZE],
     pi_nread = 0, pi_nwrite = 0, pi_readopen = True, pi_writeopen = True\<rparr>"

definition pipealloc :: "(ksys, (nat \<times> nat) option) kop" where
  "pipealloc = bnd filealloc (\<lambda>r0. case r0 of
       None \<Rightarrow> ret None
     | Some f0 \<Rightarrow> bnd filealloc (\<lambda>r1. case r1 of
         None \<Rightarrow> seqk (fileclose f0) (ret None)
       | Some f1 \<Rightarrow> bnd (kpsop (kmop kalloc)) (\<lambda>p.
           if p = 0 then seqk (fileclose f0) (seqk (fileclose f1) (ret None))
           else seqk (upd (\<lambda>s. s\<lparr>pipes := (pipes s)(p \<mapsto> new_pipe (mem (km (ps (fs s)))) p)\<rparr>))
               (seqk (upd_file f0 (\<lambda>f. f\<lparr>f_type := FD_PIPE, f_readable := True, f_writable := False, f_pipe := p\<rparr>))
               (seqk (upd_file f1 (\<lambda>f. f\<lparr>f_type := FD_PIPE, f_readable := False, f_writable := True, f_pipe := p\<rparr>))
                (ret (Some (f0, f1))))))))"

definition filestat :: "nat \<Rightarrow> (ksys, stat option) kop" where
  "filestat i = bnd (get_file i) (\<lambda>f.
     if f_type f = FD_INODE then
       seqk (fsop (ilock (f_ip f))) (bnd (fsop (get_inode (f_ip f))) (\<lambda>ip.
         seqk (fsop (iunlock (f_ip f))) (ret (Some (stati ip)))))
     else ret None)"

definition fileread :: "nat \<Rightarrow> addr \<Rightarrow> int \<Rightarrow> (ksys, int) kop" where
  "fileread i addr n = bnd (get_file i) (\<lambda>f.
     if \<not> f_readable f then ret (-1)
     else case f_type f of
       FD_PIPE \<Rightarrow> piperead (f_pipe f) addr n
     | FD_INODE \<Rightarrow> seqk (fsop (ilock (f_ip f)))
         (bnd (fsop (readi (f_ip f) (f_off f) (word_of_int n))) (\<lambda>(r, bs).
           seqk (kpsop (ustore_bytes addr bs))
          (seqk (whenk (r > 0) (upd_file i (\<lambda>f. f\<lparr>f_off := f_off f + word_of_int r\<rparr>)))
          (seqk (fsop (iunlock (f_ip f))) (ret r)))))
     | FD_NONE \<Rightarrow> panic ''fileread'')"

definition max_write :: nat where
  "max_write = ((MAXOPBLOCKS - 1 - 1 - 2) div 2) * 512"

text \<open>The loop of \<open>filewrite\<close>, one transaction per round; the result is the final value of \<open>i\<close>.\<close>

fun filewrite_loop :: "nat \<Rightarrow> nat \<Rightarrow> addr \<Rightarrow> nat \<Rightarrow> nat \<Rightarrow> (ksys, nat) kop" where
  "filewrite_loop 0 fd addr i n = (if i < n then halt OutOfFuel else ret i)"
| "filewrite_loop (Suc fuel) fd addr i n =
     (if i < n then
        let n1 = min (n - i) max_write in
        seqk (fsop begin_op) (bnd (get_file fd) (\<lambda>f.
        seqk (fsop (ilock (f_ip f)))
        (bnd (kpsop (uload_bytes (addr + of_nat i) n1)) (\<lambda>bs.
         bnd (fsop (writei (f_ip f) bs (f_off f))) (\<lambda>r.
         seqk (whenk (r > 0) (upd_file fd (\<lambda>f. f\<lparr>f_off := f_off f + word_of_int r\<rparr>)))
        (seqk (fsop (iunlock (f_ip f)))
        (seqk (fsop end_op)
         (if r < 0 then ret i
          else if r \<noteq> int n1 then panic ''short filewrite''
          else filewrite_loop fuel fd addr (i + n1) n))))))))
      else ret i)"

definition filewrite :: "nat \<Rightarrow> addr \<Rightarrow> int \<Rightarrow> (ksys, int) kop" where
  "filewrite i addr n = bnd (get_file i) (\<lambda>f.
     if \<not> f_writable f then ret (-1)
     else case f_type f of
       FD_PIPE \<Rightarrow> pipewrite (f_pipe f) addr n
     | FD_INODE \<Rightarrow> bnd (filewrite_loop (nat n) i addr 0 (nat n)) (\<lambda>k. ret (if int k = n then n else -1))
     | FD_NONE \<Rightarrow> panic ''filewrite'')"

end
