(* ===== verification/Example.thy ===== *)
theory Example
  imports AddrSpace Syscall
begin

text \<open>
  A small concrete machine on which the properties of the memory components are applied: a
  parent process whose address space has one page table and three mapped pages, the empty directory
  of a child under construction, and a free list of three pages.
\<close>

section \<open>Words at multiples of four\<close>

lemma load_store_word:
  assumes "unat a mod 4 = 0" and "unat b mod 4 = 0"
  shows "load32 (store32 a v m) b = (if unat b = unat a then v else load32 m b)"
proof (cases "a = b")
  case True
  then show ?thesis by (simp add: load_store_same)
next
  case False
  have "span a 4 \<inter> span b 4 = {}"
  proof (rule ccontr)
    assume "\<not> ?thesis"
    then obtain k l where kl: "k < 4" "l < 4" "a + of_nat k = b + of_nat l" unfolding span_def by blast
    have four: "unat c + 4 \<le> 4294967296" if "unat c mod 4 = 0" for c :: uint
    proof -
      from that obtain q where "unat c = 4 * q" by (auto simp: mod_eq_0_iff_dvd elim: dvdE)
      then show ?thesis using unat_lt32 [of c] by simp
    qed
    have "unat (c + of_nat j) = unat c + j" if "unat c mod 4 = 0" "j < 4" for c :: uint and j
      using four [OF that(1)] that(2) unat_of_nat32 [of j] by (intro trans [OF unat_add32]) simp_all
    with kl assms have "unat a + k = unat b + l" by metis
    moreover have "(unat a + k) div 4 = unat a div 4" "(unat b + l) div 4 = unat b div 4"
      using assms kl(1,2) by (simp_all add: div_add1_eq)
    ultimately have "unat a div 4 = unat b div 4" by simp
    then have "unat a = unat b" using assms by (metis add.right_neutral div_mult_mod_eq)
    with False show False by (simp add: word_unat_eq_iff)
  qed
  then show ?thesis using False by (simp add: load_store_other word_unat_eq_iff)
qed

lemma load_zero: "load32 (\<lambda>_. 0) a = 0"
  by (simp add: load32_def)

section \<open>The machine\<close>

definition ex_parent :: addr where "ex_parent = 0x80400000"
definition ex_child :: addr where "ex_child = 0x80403000"
definition ex_table :: addr where "ex_table = 0x80401000"
definition ex_frame0 :: addr where "ex_frame0 = 0x80408000"
definition ex_frame1 :: addr where "ex_frame1 = 0x80402000"
definition ex_frame2 :: addr where "ex_frame2 = 0x80407000"
definition ex_free :: "addr list" where "ex_free = [0x80404000, 0x80405000, 0x80406000]"

definition ex_mem :: memory where
  "ex_mem = store32 ex_parent (V2P ex_table OR 7) (store32 ex_table (V2P ex_frame0 OR 7)
     (store32 (ex_table + 4) (V2P ex_frame1 OR 7) (store32 (ex_table + 8) (V2P ex_frame2 OR 7)
     (store32 0x80404000 0x80405000 (store32 0x80405000 0x80406000 (\<lambda>_. 0))))))"

definition ex_km :: kmem where
  "ex_km = \<lparr>kmem_lock = Unlocked, use_lock = True, freelist = 0x80404000, mem = ex_mem,
     end_sym = 0x80300000, data_sym = 0x80109000\<rparr>"

lemmas ex_defs = ex_parent_def ex_child_def ex_table_def ex_frame0_def ex_frame1_def ex_frame2_def ex_free_def

lemma ex_load:
  assumes "unat a mod 4 = 0"
  shows "load32 ex_mem a =
     (if unat a = 0x80400000 then 0x00401007 else if unat a = 0x80401000 then 0x00408007
      else if unat a = 0x80401004 then 0x00402007
      else if unat a = 0x80401008 then 0x00407007 else if unat a = 0x80404000 then 0x80405000
      else if unat a = 0x80405000 then 0x80406000 else 0)"
  using assms by (simp add: ex_mem_def load_store_word ex_defs V2P_def KERNBASE_def load_zero)

lemma ex_pde:
  assumes "i < 1024" and "pd = ex_parent \<or> pd = ex_child"
  shows "pde_at ex_mem pd i = (if pd = ex_parent \<and> i = 0 then 0x00401007 else 0)"
proof -
  have "unat (pd + 4 * of_nat i) = unat pd + 4 * i"
  proof -
    have "unat pd + 4 * i < 4294967296" using assms by (auto simp: ex_defs)
    moreover have "unat (of_nat (4 * i) :: uint) = 4 * i" using assms(1) by (simp only: unat_of_nat32)
    ultimately have "unat (pd + of_nat (4 * i)) = unat pd + 4 * i" by (simp only: unat_add32)
    then show ?thesis by simp
  qed
  then show ?thesis using assms by (auto simp: pde_at_def ex_load ex_defs)
qed

lemma ex_pages:
  "pt_pages ex_mem ex_parent = {ex_parent, ex_table}" "pt_pages ex_mem ex_child = {ex_child}"
  by (auto simp: pt_pages_def tables_def ex_pde tab_def present_def ex_defs PTE_P_def PTE_ADDR_def P2V_def KERNBASE_def
      intro!: exI [of _ 0] split: if_splits)

lemma ex_vframe: "vframe ex_km f \<longleftrightarrow> aligned f \<and> 0x80300000 \<le> f \<and> V2P f < PHYSTOP"
  by (auto simp: vframe_def ex_km_def)

lemma ex_pt_inv: "pt_inv ex_parent ex_km" "pt_inv ex_child ex_km"
  by (auto simp: pt_inv_def vframe_def ex_km_def ex_pde tab_def present_def ex_defs PTE_P_def PTE_ADDR_def P2V_def
      KERNBASE_def V2P_def PHYSTOP_def aligned_def split: if_splits)

lemma ex_kmem_inv: "kmem_inv ex_free ex_km"
  by (auto simp: kmem_inv_def vframe_def ex_km_def ex_free_def ex_load V2P_def KERNBASE_def PHYSTOP_def aligned_def)

lemma ex_vm_inv: "vm_inv ex_child ex_free ex_km" "vm_inv ex_parent ex_free ex_km"
  using ex_pages by (simp_all add: vm_inv_def ex_kmem_inv ex_pt_inv) (simp_all add: ex_km_def ex_defs)

lemma ex_apart: "apart ex_parent ex_child ex_free ex_km"
  using ex_pages by (simp add: apart_def ex_pt_inv) (simp add: ex_km_def ex_defs)

lemma ex_pte_child: "pte_val ex_mem ex_child va = 0"
  by (simp add: pte_val_def pte_at_def ex_pde PDX_lt ex_defs)

lemma ex_pte_parent:
  "pte_val ex_mem ex_parent va =
     (if PGROUNDDOWN va = 0 then 0x00408007 else if PGROUNDDOWN va = 0x1000 then 0x00402007
      else if PGROUNDDOWN va = 0x2000 then 0x00407007 else 0)"
proof (cases "unat (PDX va) = 0")
  case False
  then have "PGROUNDDOWN va \<noteq> 0" "PGROUNDDOWN va \<noteq> 0x1000" "PGROUNDDOWN va \<noteq> 0x2000"
    using page_eq_iff [of va 0] page_eq_iff [of va "0x1000"] page_eq_iff [of va "0x2000"]
      unat_PDX [of 0] unat_PDX [of "0x1000"] unat_PDX [of "0x2000"]
    by (auto simp: PGROUNDDOWN_aligned aligned_def)
  with False show ?thesis by (simp add: pte_val_def pte_at_def ex_pde PDX_lt)
next
  case True
  have pd: "PDX va = 0" using True by (simp add: unat_eq_0)
  have eq: "PGROUNDDOWN va = c \<longleftrightarrow> PTX va = PTX c" if "aligned c" "PDX c = 0" for c
    using page_eq_iff [of va c] pd that by (simp add: PGROUNDDOWN_aligned)
  have u: "unat (ex_table + 4 * PTX va) = unat ex_table + 4 * unat (PTX va)"
  proof -
    have "ex_table + 4 * PTX va = ex_table + of_nat (4 * unat (PTX va))" by simp
    moreover have "unat (of_nat (4 * unat (PTX va)) :: uint) = 4 * unat (PTX va)"
      using PTX_lt [of va] by (simp only: unat_of_nat32)
    ultimately show ?thesis using PTX_lt [of va] unat_add32 [of ex_table "of_nat (4 * unat (PTX va))"] by (simp only: ex_defs) simp
  qed
  have "pte_val ex_mem ex_parent va = load32 ex_mem (ex_table + 4 * PTX va)"
    using pd by (simp add: pte_val_def pte_at_def ex_pde tab_def present_def ex_defs PTE_P_def PTE_ADDR_def P2V_def KERNBASE_def)
  also have "\<dots> = (if unat (PTX va) = 0 then 0x00408007 else if unat (PTX va) = 1 then 0x00402007
      else if unat (PTX va) = 2 then 0x00407007 else 0)"
    using PTX_lt [of va] u by (subst ex_load) (auto simp: ex_defs)
  finally show ?thesis
    using eq [of 0] eq [of "0x1000"] eq [of "0x2000"] unat_PTX [of 0] unat_PTX [of "0x1000"] unat_PTX [of "0x2000"]
      unat_PDX [of 0] unat_PDX [of "0x1000"] unat_PDX [of "0x2000"]
    by (simp add: aligned_def word_unat_eq_iff)
qed

text \<open>The frames of the parent are distinct pages outside its tables and the free list.\<close>

lemma ex_uframe:
  "uframe ex_mem ex_parent v =
     (if PGROUNDDOWN v = 0 then ex_frame0 else if PGROUNDDOWN v = 0x1000 then ex_frame1
      else if PGROUNDDOWN v = 0x2000 then ex_frame2 else 0x80000000)"
  unfolding uframe_def ex_pte_parent by (simp add: PTE_ADDR_def P2V_def KERNBASE_def ex_defs)

lemma ex_present: "present (pte_val ex_mem ex_parent v) \<longleftrightarrow> PGROUNDDOWN v = 0 \<or> PGROUNDDOWN v = 0x1000 \<or> PGROUNDDOWN v = 0x2000"
  by (simp add: ex_pte_parent present_def PTE_P_def)

lemma ex_user_inv: "user_inv ex_parent (unat SHAREDBASE) ex_free ex_km"
proof -
  have m: "mem ex_km = ex_mem" by (simp add: ex_km_def)
  have fr: "mapped ex_mem ex_parent 0 h v \<Longrightarrow>
      PGROUNDDOWN v = 0 \<and> uframe ex_mem ex_parent v = ex_frame0 \<or>
      PGROUNDDOWN v = 0x1000 \<and> uframe ex_mem ex_parent v = ex_frame1 \<or>
      PGROUNDDOWN v = 0x2000 \<and> uframe ex_mem ex_parent v = ex_frame2" for h v
    by (auto simp: mapped_def ex_present ex_uframe)
  have v: "vframe ex_km f \<and> f \<notin> {ex_parent, ex_table} \<union> set ex_free" if "f \<in> {ex_frame0, ex_frame1, ex_frame2}" for f
    using that by (auto simp: ex_vframe ex_defs aligned_def V2P_def KERNBASE_def PHYSTOP_def)
  have ne: "ex_frame0 \<noteq> ex_frame1" "ex_frame0 \<noteq> ex_frame2" "ex_frame1 \<noteq> ex_frame2"
    by (simp_all add: ex_defs)
  show ?thesis
  proof (rule user_invI)
    show "vm_inv ex_parent ex_free ex_km" by (rule ex_vm_inv(2))
    show "unat KERNBASE < unat (end_sym ex_km)" by (simp add: KERNBASE_def ex_km_def)
  next
    fix w assume "mapped (mem ex_km) ex_parent 0 (unat SHAREDBASE) w"
    from fr [OF this [unfolded m]] v [of "uframe ex_mem ex_parent w"]
    have "vframe ex_km (uframe (mem ex_km) ex_parent w) \<and>
        uframe (mem ex_km) ex_parent w \<notin> pt_pages (mem ex_km) ex_parent \<union> set ex_free"
      unfolding m ex_pages by blast
    then show "vframe ex_km (uframe (mem ex_km) ex_parent w)"
      "uframe (mem ex_km) ex_parent w \<notin> pt_pages (mem ex_km) ex_parent"
      "uframe (mem ex_km) ex_parent w \<notin> set ex_free" by blast+
  next
    fix w x assume h: "mapped (mem ex_km) ex_parent 0 (unat SHAREDBASE) w" "mapped (mem ex_km) ex_parent 0 (unat SHAREDBASE) x"
      and e: "uframe (mem ex_km) ex_parent w = uframe (mem ex_km) ex_parent x"
    from fr [OF h(1) [unfolded m]] fr [OF h(2) [unfolded m]] e [unfolded m] ne
    show "PGROUNDDOWN w = PGROUNDDOWN x" by auto
  qed
qed

section \<open>A process\<close>

text \<open>A child that inherited one shared structure of 20 bytes from address \<open>0x1010\<close> of its parent.\<close>

definition ex_name :: "uchar list" where
  "ex_name = [99, 117, 114, 114, 95, 115, 101, 110, 116, 0]"

definition ex_shared :: "shared list" where
  "ex_shared = \<lparr>sh_name = ex_name, sh_memstart = 0x1010, sh_size = 20\<rparr> #
     replicate 9 \<lparr>sh_name = replicate 10 0, sh_memstart = 0, sh_size = 0\<rparr>"

definition ex_tf :: trapframe where
  "ex_tf = \<lparr>tf_edi = 0, tf_esi = 0, tf_ebp = 0, tf_oesp = 0, tf_ebx = 0, tf_edx = 0, tf_ecx = 0, tf_eax = 0,
     tf_gs = 0, tf_fs = 0, tf_es = 0, tf_ds = 0, tf_trapno = 0, tf_err = 0, tf_eip = 0, tf_cs = 0, tf_eflags = 0,
     tf_esp = 0x2FF0, tf_ss = 0\<rparr>"

definition ex_proc :: proc where
  "ex_proc = \<lparr>p_sz = 0x3000, p_pgdir = ex_parent, p_parent_pgdir = ex_parent, p_kstack = 0x80500000,
     p_state = RUNNING, p_pid = 3, p_parent = None, p_tf = ex_tf,
     p_context = \<lparr>ctx_edi = 0, ctx_esi = 0, ctx_ebx = 0, ctx_ebp = 0, ctx_eip = 0\<rparr>, p_chan = NoChan,
     p_killed = False, p_ofile = replicate 16 None, p_cwd = Some 0, p_name = replicate 16 0,
     p_shared = ex_shared\<rparr>"

definition ex_sys :: psys where
  "ex_sys = \<lparr>km = ex_km, ptable_lock = Unlocked, procs = [ex_proc], initproc = Some 0, nextpid = 4,
     tickslock = Unlocked, ticks = 0, curproc = Some 0, pcpu = \<lparr>cpu_apicid = 0, cpu_ncli = 0, cpu_intena = True, cpu_if = True\<rparr>, kpgdir = 0x80600000, cr3 = V2P ex_parent,
     ts_ss0 = 0, ts_esp0 = 0, ts_iomb = 0, forkret_sym = 0x80103000\<rparr>"

lemma ex_running: "running 0 ex_proc ex_sys"
  by (simp add: running_def ex_sys_def ex_proc_def)

end
