(* ===== verification/Shared.thy ===== *)
theory Shared
  imports Example
begin

text \<open>
  Memory shared between a parent and its children: registration by name (\<open>sys_share_data\<close>) and
  lookup (\<open>sys_get_data\<close>) in \<^verbatim>\<open>kernel/sysfile.c\<close>, the child's mapping of the parent's frames
  (\<open>access_shared_memory\<close> in \<^verbatim>\<open>kernel/vm.c\<close>), the copy of the table at \<open>fork\<close> and its clearing at
  \<open>exit\<close> (\<^verbatim>\<open>kernel/proc.c\<close>). The functions on the ten-entry table are separate definitions that
  the system calls apply to the running process.
\<close>

section \<open>The table of shared structures\<close>

text \<open>The loops visit the entries in order; \<open>i\<close> is the index of the first entry of the list.\<close>

fun share_data :: "bytes_at \<Rightarrow> addr \<Rightarrow> uint \<Rightarrow> nat \<Rightarrow> shared list \<Rightarrow> int \<times> shared list" where
  "share_data name vm_start sz i [] = (-3, [])"
| "share_data name vm_start sz i (x # xs) =
     (if sh_size x = 0 then
        (int i, \<lparr>sh_name = strncpy name SHAREDNAME, sh_memstart = vm_start, sh_size = sz\<rparr> # xs)
      else if strncmp name (arr (sh_name x)) SHAREDNAME = 0 then (-2, x # xs)
      else (case share_data name vm_start sz (Suc i) xs of (r, ys) \<Rightarrow> (r, x # ys)))"

fun get_data :: "bytes_at \<Rightarrow> shared list \<Rightarrow> addr option" where
  "get_data name [] = None"
| "get_data name (x # xs) =
     (if strncmp name (arr (sh_name x)) SHAREDNAME = 0 then Some (sh_memstart x) else get_data name xs)"

definition sys_share_data :: "(psys, int) kop" where
  "sys_share_data =
     bnd (argstr 0) (\<lambda>r0. case r0 of None \<Rightarrow> ret (-1) | Some (name, _) \<Rightarrow>
     bnd (argptr 1 4) (\<lambda>r1. case r1 of None \<Rightarrow> ret (-1) | Some vm_start \<Rightarrow>
     bnd (argint 2) (\<lambda>r2. case r2 of None \<Rightarrow> ret (-1) | Some sz \<Rightarrow>
       bnd cur (\<lambda>p. bnd (gets (\<lambda>s. ustr s name)) (\<lambda>nm.
         case share_data nm vm_start sz 0 (p_shared p) of (r, sh) \<Rightarrow>
           seqk (upd_cur (\<lambda>p. p\<lparr>p_shared := sh\<rparr>)) (ret r))))))"

definition sys_get_data :: "(psys, int) kop" where
  "sys_get_data =
     bnd (argstr 0) (\<lambda>r0. case r0 of None \<Rightarrow> ret (-1) | Some (name, _) \<Rightarrow>
     bnd (argptr 1 4) (\<lambda>r1. case r1 of None \<Rightarrow> ret (-1) | Some addr \<Rightarrow>
       bnd cur (\<lambda>p. bnd (gets (\<lambda>s. ustr s name)) (\<lambda>nm.
         case get_data nm (p_shared p) of
           None \<Rightarrow> ret (-2)
         | Some memstart \<Rightarrow> seqk (ustore32 addr memstart) (ret 0)))))"

text \<open>
  The loop of \<open>fork\<close> that copies the parent's entries into the child's table, up to the first
  entry of size 0.
\<close>

fun fork_shared :: "shared list \<Rightarrow> shared list \<Rightarrow> shared list" where
  "fork_shared (x # parent) (y # child) = (if sh_size x = 0 then y # child else x # fork_shared parent child)"
| "fork_shared parent child = child"

text \<open>The part of \<open>exit\<close>'s loop that marks an entry as free.\<close>

definition exit_shared :: "shared \<Rightarrow> shared" where
  "exit_shared x = (if sh_memstart x > SHAREDBASE then x\<lparr>sh_memstart := 0, sh_size := 0\<rparr> else x)"

section \<open>Mapping the parent's frames\<close>

text \<open>
  The inner loop maps one region page by page; \<open>va\<close> and \<open>sz\<close> are the region's base and rounded
  size. A 32-bit size has less than \<open>2 ^ 20\<close> pages, which bounds the fuel.
\<close>

fun map_region :: "nat \<Rightarrow> addr \<Rightarrow> addr \<Rightarrow> addr \<Rightarrow> uint \<Rightarrow> uint \<Rightarrow> addr \<Rightarrow> addr \<Rightarrow> (kmem, int) kop" where
  "map_region 0 parent_pgdir pgdir va sz i vpage_start struct_start = halt OutOfFuel"
| "map_region (Suc fuel) parent_pgdir pgdir va sz i vpage_start struct_start =
     (if i < sz then
        bnd (walkpgdir parent_pgdir struct_start False) (\<lambda>pte.
          if pte = 0 then ret (-1)
          else bnd (get32 pte) (\<lambda>e.
            if e AND PTE_P = 0 then ret (-1)
            else bnd (mappages pgdir vpage_start PGSIZE (PTE_ADDR e) (PTE_W OR PTE_U)) (\<lambda>r.
              if r < 0 then bnd (deallocuvm pgdir (va + sz) va) (\<lambda>_. ret (-1))
              else map_region fuel parent_pgdir pgdir va sz (i + PGSIZE)
                     (vpage_start + PGSIZE) (struct_start + PGSIZE))))
      else ret 0)"

fun map_shared :: "addr \<Rightarrow> addr \<Rightarrow> addr \<Rightarrow> shared list \<Rightarrow> (kmem, int \<times> shared list) kop" where
  "map_shared parent_pgdir pgdir va [] = ret (0, [])"
| "map_shared parent_pgdir pgdir va (x # xs) =
     (if sh_size x = 0 then ret (0, x # xs)
      else
        (let old_perm = PTE_FLAGS (sh_memstart x); sz = PGROUNDUP (sh_size x) in
         bnd (map_region 1048576 parent_pgdir pgdir va sz 0 (PGROUNDUP va) (sh_memstart x)) (\<lambda>r.
           if r < 0 then ret (-1, x # xs)
           else bnd (map_shared parent_pgdir pgdir (va + sz) xs) (\<lambda>(r, ys).
             ret (r, x\<lparr>sh_memstart := va + old_perm\<rparr> # ys)))))"

definition access_shared_memory :: "addr \<Rightarrow> (psys, int) kop" where
  "access_shared_memory pgdir =
     bnd cur (\<lambda>p. bnd (kmop (map_shared (p_parent_pgdir p) pgdir SHAREDBASE (p_shared p))) (\<lambda>(r, sh).
       seqk (upd_cur (\<lambda>p. p\<lparr>p_shared := sh\<rparr>)) (ret r)))"

section \<open>Registration and lookup\<close>

text \<open>The entries in use are those before the first one of size 0.\<close>

definition in_use :: "shared list \<Rightarrow> shared list" where
  "in_use sh = takeWhile (\<lambda>x. sh_size x \<noteq> 0) sh"

definition same_name :: "bytes_at \<Rightarrow> shared \<Rightarrow> bool" where
  "same_name nm x \<longleftrightarrow> strncmp nm (arr (sh_name x)) SHAREDNAME = 0"

lemma in_use_simps [simp]:
  "in_use [] = []" "in_use (x # xs) = (if sh_size x = 0 then [] else x # in_use xs)"
  by (simp_all add: in_use_def)

lemma in_use_le: "length (in_use sh) \<le> length sh"
  by (simp add: in_use_def length_takeWhile_le)

lemma share_data_eq:
  "share_data nm a n i sh =
     (if \<exists>x \<in> set (in_use sh). same_name nm x then (-2, sh)
      else if length (in_use sh) < length sh
      then (int (i + length (in_use sh)),
            sh[length (in_use sh) := \<lparr>sh_name = strncpy nm SHAREDNAME, sh_memstart = a, sh_size = n\<rparr>])
      else (-3, sh))"
  by (induction sh arbitrary: i) (auto simp: same_name_def)

lemma get_data_eq: "get_data nm sh = map_option sh_memstart (find (same_name nm) sh)"
  by (induction sh) (auto simp: same_name_def)

lemma find_skip: "(\<forall>x \<in> set xs. \<not> P x) \<Longrightarrow> find P (xs @ ys) = find P ys"
  by (induction xs) auto

lemma in_use_split: "sh = in_use sh @ drop (length (in_use sh)) sh"
  by (induction sh) auto

lemma share_data_update:
  assumes "share_data nm a n 0 sh = (r, sh')" and "0 \<le> r"
  shows "sh' = in_use sh @ \<lparr>sh_name = strncpy nm SHAREDNAME, sh_memstart = a, sh_size = n\<rparr> # drop (Suc (length (in_use sh))) sh"
    and "r = int (length (in_use sh))" and "length (in_use sh) < length sh" and "\<forall>x \<in> set (in_use sh). \<not> same_name nm x"
proof -
  from assms show r: "r = int (length (in_use sh))" and lt: "length (in_use sh) < length sh"
    and "\<forall>x \<in> set (in_use sh). \<not> same_name nm x"
    by (auto simp: share_data_eq split: if_splits)
  have "sh' = sh[length (in_use sh) := \<lparr>sh_name = strncpy nm SHAREDNAME, sh_memstart = a, sh_size = n\<rparr>]"
    using assms by (auto simp: share_data_eq split: if_splits)
  moreover have "take (length (in_use sh)) sh = in_use sh" by (subst in_use_split) simp
  ultimately show "sh' = in_use sh @ \<lparr>sh_name = strncpy nm SHAREDNAME, sh_memstart = a, sh_size = n\<rparr> # drop (Suc (length (in_use sh))) sh"
    using lt by (simp add: upd_conv_take_nth_drop)
qed

lemma same_name_new: "same_name nm \<lparr>sh_name = strncpy nm SHAREDNAME, sh_memstart = a, sh_size = n\<rparr>"
  by (simp add: same_name_def strncmp_strncpy)

lemma share_then_get:
  assumes "share_data nm a n 0 sh = (r, sh')" and "0 \<le> r"
  shows "get_data nm sh' = Some a"
  using share_data_update [OF assms] same_name_new [of nm a n] by (simp add: get_data_eq find_skip)

text \<open>
  The table of a process: ten entries with ten-byte names, the entries in use come first and
  have different names.
\<close>

definition table_inv :: "shared list \<Rightarrow> bool" where
  "table_inv sh \<longleftrightarrow> length sh = SHAREDCOUNT \<and> (\<forall>x \<in> set sh. length (sh_name x) = SHAREDNAME)
     \<and> (\<forall>x \<in> set (drop (length (in_use sh)) sh). sh_size x = 0)
     \<and> (\<forall>i < length (in_use sh). \<forall>j < i. \<not> same_name (arr (sh_name (sh ! i))) (sh ! j))"

lemma in_use_append: "(\<forall>x \<in> set xs. sh_size x \<noteq> 0) \<Longrightarrow> in_use (xs @ ys) = xs @ in_use ys"
  by (induction xs) auto

lemma in_use_free: "(\<forall>x \<in> set xs. sh_size x = 0) \<Longrightarrow> in_use xs = []"
  by (cases xs) auto

lemma in_use_nonzero: "x \<in> set (in_use sh) \<Longrightarrow> sh_size x \<noteq> 0"
  by (auto simp: in_use_def dest: set_takeWhileD)

lemma in_use_nth: "i < length (in_use sh) \<Longrightarrow> in_use sh ! i = sh ! i"
  by (simp add: in_use_def takeWhile_nth)

lemma share_data_inv:
  assumes "table_inv sh" and "share_data nm a n 0 sh = (r, sh')"
  shows "table_inv sh'"
proof (cases "0 \<le> r")
  case False
  then have "sh' = sh" using assms(2) by (auto simp: share_data_eq split: if_splits)
  with assms(1) show ?thesis by simp
next
  case True
  let ?k = "length (in_use sh)" and ?new = "\<lparr>sh_name = strncpy nm SHAREDNAME, sh_memstart = a, sh_size = n\<rparr>"
  note up = share_data_update [OF assms(2) True]
  have rest: "\<forall>x \<in> set (drop (Suc ?k) sh). sh_size x = 0"
    using assms(1) set_drop_subset_set_drop [of ?k "Suc ?k" sh] by (auto simp: table_inv_def)
  have "in_use sh' = in_use sh @ in_use (?new # drop (Suc ?k) sh)"
    unfolding up(1) by (rule in_use_append) (simp add: in_use_nonzero)
  with in_use_free [OF rest] have use': "in_use sh' = (if n = 0 then in_use sh else in_use sh @ [?new])"
    by simp
  have fresh: "\<not> same_name (arr (strncpy nm SHAREDNAME)) (in_use sh ! j)" if "j < ?k" for j
  proof
    assume "same_name (arr (strncpy nm SHAREDNAME)) (in_use sh ! j)"
    then have "same_name nm (in_use sh ! j)"
      unfolding same_name_def by (rule strncmp_trans_zero [OF strncmp_strncpy])
    then show False using up(4) that nth_mem by blast
  qed
  have nths: "sh' ! j = in_use sh ! j" if "j < ?k" for j using that by (simp add: up(1) nth_append)
  have "length sh' = SHAREDCOUNT" using assms(1) up(3) unfolding up(1) by (simp add: table_inv_def)
  moreover have "\<forall>x \<in> set sh'. length (sh_name x) = SHAREDNAME"
  proof -
    have "set (in_use sh) \<subseteq> set sh" by (auto simp: in_use_def dest: set_takeWhileD)
    moreover have "set (drop (Suc ?k) sh) \<subseteq> set sh" by (rule set_drop_subset)
    ultimately show ?thesis using assms(1) unfolding up(1) table_inv_def by auto
  qed
  moreover have "\<forall>x \<in> set (drop (length (in_use sh')) sh'). sh_size x = 0"
  proof -
    have "drop (length (in_use sh')) sh' = (if n = 0 then [?new] else []) @ drop (Suc ?k) sh"
      unfolding use' by (simp add: up(1))
    with rest show ?thesis by auto
  qed
  moreover have "\<not> same_name (arr (sh_name (sh' ! i))) (sh' ! j)" if ij: "i < length (in_use sh')" "j < i" for i j
  proof (cases "i < ?k")
    case True
    then show ?thesis using assms(1) ij nths in_use_nth [of _ sh] by (simp add: table_inv_def)
  next
    case False
    then have "i = ?k" using ij(1) use' by (auto split: if_splits)
    then show ?thesis using fresh ij(2) nths up(1) by (simp add: nth_append)
  qed
  ultimately show ?thesis by (simp add: table_inv_def)
qed

section \<open>The child's view of the parent's memory\<close>

text \<open>
  The pages from \<open>a\<close> up to \<open>hi\<close> of the child got the frames that the parent has from \<open>b\<close> on,
  writable and accessible to the user; all other translations are as before.
\<close>

definition aliased :: "addr \<Rightarrow> addr \<Rightarrow> nat \<Rightarrow> addr \<Rightarrow> addr \<Rightarrow> memory \<Rightarrow> memory \<Rightarrow> bool" where
  "aliased pgdir a hi parent b m m' \<longleftrightarrow> (\<forall>va. pte_val m' pgdir va =
     (if unat a \<le> unat (PGROUNDDOWN va) \<and> unat (PGROUNDDOWN va) < hi
      then PTE_ADDR (pte_val m parent (b + (PGROUNDDOWN va - a))) OR (PTE_W OR PTE_U) OR PTE_P
      else pte_val m pgdir va))"

lemma aliased_first:
  assumes "aligned a" and "\<And>va. pte_val m1 pgdir va =
     (if PGROUNDDOWN va = a then PTE_ADDR (pte_val m parent b) OR (PTE_W OR PTE_U) OR PTE_P else pte_val m pgdir va)"
  shows "aliased pgdir a (unat a + 4096) parent b m m1"
  unfolding aliased_def
proof (intro allI)
  fix va
  show "pte_val m1 pgdir va = (if unat a \<le> unat (PGROUNDDOWN va) \<and> unat (PGROUNDDOWN va) < unat a + 4096
      then PTE_ADDR (pte_val m parent (b + (PGROUNDDOWN va - a))) OR (PTE_W OR PTE_U) OR PTE_P else pte_val m pgdir va)"
    using page_cases [OF assms(1), of va] by (auto simp: assms(2))
qed

lemma aliased_trans:
  assumes "aliased pgdir a (unat a') parent b m m1" and "aliased pgdir a' hi parent (b + (a' - a)) m1 m2"
    and "unat a \<le> unat a'" and "unat a' \<le> hi" and "\<And>va. pte_val m1 parent va = pte_val m parent va"
  shows "aliased pgdir a hi parent b m m2"
  using assms unfolding aliased_def by (auto simp: algebra_simps)

lemma map_region_ok:
  assumes "vm_inv pgdir fs s" and "apart parent pgdir fs s"
    and "aligned i" and "aligned sz" and "aligned a" and "unat i \<le> unat sz"
    and "unat a + (unat sz - unat i) \<le> unat KERNBASE"
    and "unat sz - unat i < 4096 * fuel" and "(unat sz - unat i) div 4096 \<le> length fs"
    and "\<And>va. unat a \<le> unat (PGROUNDDOWN va) \<Longrightarrow> unat (PGROUNDDOWN va) < unat a + (unat sz - unat i) \<Longrightarrow>
           \<not> present (pte_val (mem s) pgdir va) \<and> present (pte_val (mem s) parent (b + (PGROUNDDOWN va - a)))"
  shows "ok (map_region fuel parent pgdir va sz i a b) s (\<lambda>r s'. r = 0 \<and> (\<exists>fs'. grows pgdir fs s fs' s' \<and>
     length fs \<le> length fs' + (unat sz - unat i) div 4096 \<and>
     aliased pgdir a (unat a + (unat sz - unat i)) parent b (mem s) (mem s')))"
  using assms
proof (induction fuel arbitrary: i a b fs s)
  case 0
  then show ?case by simp
next
  case (Suc fuel)
  let ?n = "unat sz - unat i"
  let ?Q = "\<lambda>(r :: int) s'. r = 0 \<and> (\<exists>fs'. grows pgdir fs s fs' s' \<and> length fs \<le> length fs' + ?n div 4096 \<and>
     aliased pgdir a (unat a + ?n) parent b (mem s) (mem s'))"
  show ?case
  proof (cases "i < sz")
    case False
    then have "?n = 0" by (simp add: word_less_nat_alt)
    with False Suc.prems(1) show ?thesis by (auto simp: wp aliased_def intro: grows_refl)
  next
    case True
    then have lt: "unat i < unat sz" by (simp add: word_less_nat_alt)
    note stp = aligned_step [OF Suc.prems(3,4) lt]
    have a: "PGROUNDDOWN a = a" using Suc.prems(5) by (rule PGROUNDDOWN_aligned)
    have n: "?n = 4096 + (unat sz - unat (i + PGSIZE))" using stp by simp
    then have nd: "?n div 4096 = Suc ((unat sz - unat (i + PGSIZE)) div 4096)" by (simp only: div_add_self1)
    have a4: "unat (a + PGSIZE) = unat a + 4096"
      using Suc.prems(7) n by (intro trans [OF unat_add32]) (simp_all add: PGSIZE_def KERNBASE_def)
    have here: "\<not> present (pte_val (mem s) pgdir a)" "present (pte_val (mem s) parent b)"
      using Suc.prems(10) [of a] lt a by simp_all
    let ?e = "pte_val (mem s) parent b"
    have pd: "present (pde_at (mem s) parent (unat (PDX b)))"
      using here(2) by (auto simp: pte_val_def pte_at_def split: if_splits)
    note walk = walk_present [OF pd, of False]
    have load: "load32 (mem s) (pte_addr (mem s) parent b) = ?e" using pd by (rule load_pte)
    have nz: "pte_addr (mem s) parent b \<noteq> 0"
      using Suc.prems(2) pd PDX_lt [of b] by (intro pte_addr_not_0 [of s]) (simp add: apart_def pt_inv_def)
    have "ok (mappages pgdir a PGSIZE (PTE_ADDR ?e) (PTE_W OR PTE_U)) s (\<lambda>r s1.
        ok (if r < 0 then bnd (deallocuvm pgdir (va + sz) va) (\<lambda>_. ret (-1))
            else map_region fuel parent pgdir va sz (i + PGSIZE) (a + PGSIZE) (b + PGSIZE)) s1 ?Q)"
    proof (rule ok_mono [OF mappages_page [OF Suc.prems(1,5) here(1)]], elim exE conjE)
      fix r :: int and s1 fs1
      assume g: "grows pgdir fs s fs1 s1" and res: "r = 0 \<and> (\<forall>va. pte_val (mem s1) pgdir va =
         (if PGROUNDDOWN va = a then PTE_ADDR ?e OR (PTE_W OR PTE_U) OR PTE_P else pte_val (mem s) pgdir va)) \<and>
         length fs \<le> Suc (length fs1) \<or>
         r = -1 \<and> fs = [] \<and> fs1 = [] \<and> (\<forall>va. pte_val (mem s1) pgdir va = pte_val (mem s) pgdir va)"
      have "0 < length fs" using Suc.prems(9) nd by (cases fs) simp_all
      with res have r: "r = 0" and len: "length fs \<le> Suc (length fs1)" and ptes: "\<And>va. pte_val (mem s1) pgdir va =
         (if PGROUNDDOWN va = a then PTE_ADDR ?e OR (PTE_W OR PTE_U) OR PTE_P else pte_val (mem s) pgdir va)"
        by auto
      note ap = grows_apart [OF g Suc.prems(2)]
      have first: "aliased pgdir a (unat (a + PGSIZE)) parent b (mem s) (mem s1)"
        unfolding a4 by (rule aliased_first [OF Suc.prems(5) ptes])
      have "ok (map_region fuel parent pgdir va sz (i + PGSIZE) (a + PGSIZE) (b + PGSIZE)) s1
        (\<lambda>r s'. r = 0 \<and> (\<exists>fs'. grows pgdir fs1 s1 fs' s' \<and>
          length fs1 \<le> length fs' + (unat sz - unat (i + PGSIZE)) div 4096 \<and>
          aliased pgdir (a + PGSIZE) (unat (a + PGSIZE) + (unat sz - unat (i + PGSIZE))) parent (b + PGSIZE) (mem s1) (mem s')))"
      proof (rule Suc.IH [OF grows_inv [OF g] ap(1)])
        show "unat (a + PGSIZE) + (unat sz - unat (i + PGSIZE)) \<le> unat KERNBASE" using Suc.prems(7) n a4 by simp
        show "unat sz - unat (i + PGSIZE) < 4096 * fuel" using Suc.prems(8) n by simp
        show "(unat sz - unat (i + PGSIZE)) div 4096 \<le> length fs1" using Suc.prems(9) nd len by simp
        fix v
        assume v: "unat (a + PGSIZE) \<le> unat (PGROUNDDOWN v)"
          "unat (PGROUNDDOWN v) < unat (a + PGSIZE) + (unat sz - unat (i + PGSIZE))"
        then have "PGROUNDDOWN v \<noteq> a" using a4 by auto
        moreover have "b + PGSIZE + (PGROUNDDOWN v - (a + PGSIZE)) = b + (PGROUNDDOWN v - a)" by simp
        ultimately show "\<not> present (pte_val (mem s1) pgdir v) \<and>
            present (pte_val (mem s1) parent (b + PGSIZE + (PGROUNDDOWN v - (a + PGSIZE))))"
          using Suc.prems(10) [of v] v a4 n by (simp add: ptes ap(2))
      qed (use Suc.prems(3-5) stp in \<open>simp_all add: aligned_add\<close>)
      then have "ok (map_region fuel parent pgdir va sz (i + PGSIZE) (a + PGSIZE) (b + PGSIZE)) s1 ?Q"
      proof (rule ok_mono, elim conjE exE)
        fix r :: int and s' fs'
        assume r: "r = 0" and g': "grows pgdir fs1 s1 fs' s'"
          and len': "length fs1 \<le> length fs' + (unat sz - unat (i + PGSIZE)) div 4096"
          and al: "aliased pgdir (a + PGSIZE) (unat (a + PGSIZE) + (unat sz - unat (i + PGSIZE))) parent (b + PGSIZE) (mem s1) (mem s')"
        have "aliased pgdir a (unat (a + PGSIZE) + (unat sz - unat (i + PGSIZE))) parent b (mem s) (mem s')"
          by (rule aliased_trans [OF first _ _ _ ap(2)]) (use al a4 in simp_all)
        moreover have "length fs \<le> length fs' + ?n div 4096" using len len' nd by simp
        moreover have "unat (a + PGSIZE) + (unat sz - unat (i + PGSIZE)) = unat a + ?n" using n a4 by simp
        ultimately show "?Q r s'" using r grows_trans [OF g g'] by auto
      qed
      then show "ok (if r < 0 then bnd (deallocuvm pgdir (va + sz) va) (\<lambda>_. ret (-1))
            else map_region fuel parent pgdir va sz (i + PGSIZE) (a + PGSIZE) (b + PGSIZE)) s1 ?Q"
        using r by simp
    qed
    then show ?thesis
      using True here(2) nz load by (simp add: wp ok_Done_eq walk get32_def present_def)
  qed
qed

definition region_size :: "shared \<Rightarrow> nat" where
  "region_size x = unat (PGROUNDUP (sh_size x))"

definition total_size :: "shared list \<Rightarrow> nat" where
  "total_size sh = sum_list (map region_size (in_use sh))"

text \<open>The entries in use with the addresses at which the child gets them, and the child's table.\<close>

fun regions :: "addr \<Rightarrow> shared list \<Rightarrow> (addr \<times> shared) list" where
  "regions va [] = []"
| "regions va (x # xs) = (if sh_size x = 0 then [] else (va, x) # regions (va + PGROUNDUP (sh_size x)) xs)"

fun relocate :: "addr \<Rightarrow> shared list \<Rightarrow> shared list" where
  "relocate va [] = []"
| "relocate va (x # xs) = (if sh_size x = 0 then x # xs
     else x\<lparr>sh_memstart := va + PTE_FLAGS (sh_memstart x)\<rparr> # relocate (va + PGROUNDUP (sh_size x)) xs)"

lemma total_size_Cons: "total_size (x # xs) = (if sh_size x = 0 then 0 else region_size x + total_size xs)"
  by (simp add: total_size_def)

lemma region_unique:
  assumes "(b, x) \<in> set (regions va sh)" and "unat va + total_size sh < 4294967296"
  shows "unat va \<le> unat b \<and> unat b + region_size x \<le> unat va + total_size sh"
  using assms
proof (induction sh arbitrary: va)
  case (Cons y ys)
  have u: "unat (va + PGROUNDUP (sh_size y)) = unat va + region_size y" if "sh_size y \<noteq> 0"
    using that Cons.prems(2) by (simp add: total_size_Cons unat_add32 region_size_def)
  show ?case using Cons u by (fastforce simp: total_size_Cons split: if_splits)
qed simp

lemma map_region_whole:
  assumes "vm_inv pgdir fs s" and "apart parent pgdir fs s" and "aligned va"
    and "unat va + region_size x \<le> unat KERNBASE" and "region_size x div 4096 \<le> length fs"
    and "\<And>v. unat va \<le> unat (PGROUNDDOWN v) \<Longrightarrow> unat (PGROUNDDOWN v) < unat va + region_size x \<Longrightarrow>
           \<not> present (pte_val (mem s) pgdir v)"
    and "\<And>off. aligned off \<Longrightarrow> unat off < region_size x \<Longrightarrow> present (pte_val (mem s) parent (sh_memstart x + off))"
  shows "ok (map_region 1048576 parent pgdir va (PGROUNDUP (sh_size x)) 0 (PGROUNDUP va) (sh_memstart x)) s
    (\<lambda>r s'. r = 0 \<and> (\<exists>fs'. grows pgdir fs s fs' s' \<and> length fs \<le> length fs' + region_size x div 4096 \<and>
       aliased pgdir va (unat va + region_size x) parent (sh_memstart x) (mem s) (mem s')))"
proof -
  have up: "PGROUNDUP va = va"
    using assms(3) PGROUNDDOWN_add [of va "0xFFF"] by (simp add: PGROUNDUP_def PGROUNDDOWN_def PGSIZE_def add.commute)
  show ?thesis
    unfolding region_size_def up
  proof (rule map_region_ok [OF assms(1,2), where i = 0, simplified])
    fix v
    assume v: "unat va \<le> unat (PGROUNDDOWN v)" "unat (PGROUNDDOWN v) < unat va + unat (PGROUNDUP (sh_size x))"
    then have "unat (PGROUNDDOWN v - va) < region_size x" by (simp add: unat_sub32 region_size_def)
    moreover have "aligned (PGROUNDDOWN v - va)" using assms(3) by (simp add: aligned_diff)
    ultimately show "\<not> present (pte_val (mem s) pgdir v) \<and>
        present (pte_val (mem s) parent (sh_memstart x + (PGROUNDDOWN v - va)))"
      using assms(6,7) v by (simp add: region_size_def)
  next
    show "unat (PGROUNDUP (sh_size x)) < 4096 * 1048576" using unat_lt32 [of "PGROUNDUP (sh_size x)"] by simp
  qed (use assms(3-5) in \<open>simp_all add: region_size_def\<close>)
qed

text \<open>
  Every region in use is mapped to the parent's frames, page by page, at consecutive addresses
  from \<open>va\<close> on, and nothing else changes in the child's address space.
\<close>

definition regions_mapped :: "addr \<Rightarrow> addr \<Rightarrow> addr \<Rightarrow> shared list \<Rightarrow> memory \<Rightarrow> memory \<Rightarrow> bool" where
  "regions_mapped pgdir parent va sh m m' \<longleftrightarrow>
     (\<forall>(b, x) \<in> set (regions va sh). \<forall>v. unat b \<le> unat (PGROUNDDOWN v) \<longrightarrow> unat (PGROUNDDOWN v) < unat b + region_size x \<longrightarrow>
        pte_val m' pgdir v = PTE_ADDR (pte_val m parent (sh_memstart x + (PGROUNDDOWN v - b))) OR (PTE_W OR PTE_U) OR PTE_P) \<and>
     (\<forall>v. \<not> (unat va \<le> unat (PGROUNDDOWN v) \<and> unat (PGROUNDDOWN v) < unat va + total_size sh) \<longrightarrow>
        pte_val m' pgdir v = pte_val m pgdir v)"

lemma regions_mapped_Cons:
  assumes al: "aliased pgdir va (unat va + region_size x) parent (sh_memstart x) m m1"
    and rest: "regions_mapped pgdir parent (va + PGROUNDUP (sh_size x)) xs m1 m2"
    and par: "\<And>v. pte_val m1 parent v = pte_val m parent v"
    and nz: "sh_size x \<noteq> 0" and le: "unat va + total_size (x # xs) < 4294967296"
  shows "regions_mapped pgdir parent va (x # xs) m m2"
proof -
  let ?va = "va + PGROUNDUP (sh_size x)"
  have u: "unat ?va = unat va + region_size x"
    using le nz by (simp add: total_size_Cons unat_add32 region_size_def)
  have out: "pte_val m2 pgdir v = pte_val m1 pgdir v"
    if "\<not> (unat ?va \<le> unat (PGROUNDDOWN v) \<and> unat (PGROUNDDOWN v) < unat ?va + total_size xs)" for v
    using rest that by (simp add: regions_mapped_def)
  have "pte_val m2 pgdir v = pte_val m1 pgdir v" if "unat (PGROUNDDOWN v) < unat va + region_size x" for v
    by (rule out) (use that u in simp)
  then have fst: "pte_val m2 pgdir v = PTE_ADDR (pte_val m parent (sh_memstart x + (PGROUNDDOWN v - va))) OR (PTE_W OR PTE_U) OR PTE_P"
    if "unat va \<le> unat (PGROUNDDOWN v)" "unat (PGROUNDDOWN v) < unat va + region_size x" for v
    using al that by (simp add: aliased_def)
  have snd: "pte_val m2 pgdir v = PTE_ADDR (pte_val m parent (sh_memstart y + (PGROUNDDOWN v - b))) OR (PTE_W OR PTE_U) OR PTE_P"
    if "(b, y) \<in> set (regions ?va xs)" "unat b \<le> unat (PGROUNDDOWN v)" "unat (PGROUNDDOWN v) < unat b + region_size y" for b y v
    using rest that by (auto simp: regions_mapped_def par)
  have "pte_val m2 pgdir v = pte_val m pgdir v"
    if "\<not> (unat va \<le> unat (PGROUNDDOWN v) \<and> unat (PGROUNDDOWN v) < unat va + total_size (x # xs))" for v
    using out [of v] al that u nz by (auto simp: aliased_def total_size_Cons)
  with fst snd nz show ?thesis by (auto simp: regions_mapped_def)
qed

lemma map_shared_ok:
  assumes "vm_inv pgdir fs s" and "apart parent pgdir fs s" and "aligned va"
    and "unat va + total_size sh \<le> unat KERNBASE" and "total_size sh div 4096 \<le> length fs"
    and "\<And>v. unat va \<le> unat (PGROUNDDOWN v) \<Longrightarrow> unat (PGROUNDDOWN v) < unat va + total_size sh \<Longrightarrow>
           \<not> present (pte_val (mem s) pgdir v)"
    and "\<And>x off. x \<in> set (in_use sh) \<Longrightarrow> aligned off \<Longrightarrow> unat off < region_size x \<Longrightarrow>
           present (pte_val (mem s) parent (sh_memstart x + off))"
  shows "ok (map_shared parent pgdir va sh) s (\<lambda>(r, sh') s'. r = 0 \<and> sh' = relocate va sh \<and>
     (\<exists>fs'. grows pgdir fs s fs' s') \<and> regions_mapped pgdir parent va sh (mem s) (mem s'))"
  using assms
proof (induction sh arbitrary: va fs s)
  case Nil
  then show ?case by (auto simp: wp regions_mapped_def total_size_def intro: grows_refl)
next
  case (Cons x xs)
  show ?case
  proof (cases "sh_size x = 0")
    case True
    with Cons.prems(1) show ?thesis
      by (auto simp: wp regions_mapped_def total_size_def intro: grows_refl)
  next
    case False
    let ?va = "va + PGROUNDUP (sh_size x)"
    have tot: "total_size (x # xs) = region_size x + total_size xs" using False by (simp add: total_size_Cons)
    have lt: "unat va + total_size (x # xs) < 4294967296" using Cons.prems(4) by (simp add: KERNBASE_def)
    then have u: "unat ?va = unat va + region_size x" using tot by (simp add: unat_add32 region_size_def)
    have dvd: "4096 dvd region_size x" using aligned_PGROUNDUP [of "sh_size x"] by (simp add: region_size_def aligned_dvd)
    then have div: "total_size (x # xs) div 4096 = region_size x div 4096 + total_size xs div 4096"
      unfolding tot by (rule div_plus_div_distrib_dvd_left)
    let ?R = "\<lambda>(r, sh') s'. r = (0 :: int) \<and> sh' = relocate va (x # xs) \<and>
       (\<exists>fs'. grows pgdir fs s fs' s') \<and> regions_mapped pgdir parent va (x # xs) (mem s) (mem s')"
    have "ok (map_region 1048576 parent pgdir va (PGROUNDUP (sh_size x)) 0 (PGROUNDUP va) (sh_memstart x)) s
      (\<lambda>r s1. r = 0 \<and> ok (map_shared parent pgdir ?va xs) s1 (\<lambda>(r, ys). ?R (r, x\<lparr>sh_memstart := va + PTE_FLAGS (sh_memstart x)\<rparr> # ys)))"
    proof (rule ok_mono [OF map_region_whole [OF Cons.prems(1,2,3)]], goal_cases)
      case (5 r s1)
      then obtain fs1 where r: "r = 0" and g: "grows pgdir fs s fs1 s1"
        and len: "length fs \<le> length fs1 + region_size x div 4096"
        and al: "aliased pgdir va (unat va + region_size x) parent (sh_memstart x) (mem s) (mem s1)" by blast
      note ap = grows_apart [OF g Cons.prems(2)]
      have "ok (map_shared parent pgdir ?va xs) s1 (\<lambda>(r, sh') s'. r = 0 \<and> sh' = relocate ?va xs \<and>
         (\<exists>fs'. grows pgdir fs1 s1 fs' s') \<and> regions_mapped pgdir parent ?va xs (mem s1) (mem s'))"
      proof (rule Cons.IH [OF grows_inv [OF g] ap(1)])
        show "aligned ?va" using Cons.prems(3) by (simp add: aligned_add)
        show "unat ?va + total_size xs \<le> unat KERNBASE" using Cons.prems(4) u tot by simp
        show "total_size xs div 4096 \<le> length fs1" using Cons.prems(5) len unfolding div by simp
        show "\<not> present (pte_val (mem s1) pgdir v)"
          if "unat ?va \<le> unat (PGROUNDDOWN v)" "unat (PGROUNDDOWN v) < unat ?va + total_size xs" for v
          using that al Cons.prems(6) [of v] u tot by (simp add: aliased_def)
        show "present (pte_val (mem s1) parent (sh_memstart y + off))"
          if "y \<in> set (in_use xs)" "aligned off" "unat off < region_size y" for y off
          using that Cons.prems(7) False by (simp add: ap(2))
      qed
      then have "ok (map_shared parent pgdir ?va xs) s1 (\<lambda>(r, ys). ?R (r, x\<lparr>sh_memstart := va + PTE_FLAGS (sh_memstart x)\<rparr> # ys))"
        by (rule ok_mono) (use False grows_trans [OF g] regions_mapped_Cons [OF al _ ap(2) False lt] in auto)
      with r show ?case by simp
    qed (use Cons.prems tot div False in auto)
    then have "ok (map_region 1048576 parent pgdir va (PGROUNDUP (sh_size x)) 0 (PGROUNDUP va) (sh_memstart x)) s
      (\<lambda>r s1. ok (if r < 0 then ret (-1, x # xs) else bnd (map_shared parent pgdir ?va xs) (\<lambda>(r, ys).
         ret (r, x\<lparr>sh_memstart := va + PTE_FLAGS (sh_memstart x)\<rparr> # ys))) s1 ?R)"
      by (rule ok_mono) (auto simp: wp split_def)
    then show ?thesis using False by (simp add: ok_bnd Let_def)
  qed
qed

lemma regions_nth:
  assumes "j < length (in_use sh)" and "aligned va"
  shows "\<exists>b. aligned b \<and> (b, sh ! j) \<in> set (regions va sh) \<and>
     relocate va sh ! j = (sh ! j)\<lparr>sh_memstart := b + PTE_FLAGS (sh_memstart (sh ! j))\<rparr>"
  using assms
proof (induction sh arbitrary: j va)
  case (Cons x xs)
  show ?case
  proof (cases j)
    case 0
    with Cons.prems show ?thesis by (auto split: if_splits)
  next
    case (Suc k)
    with Cons.prems Cons.IH [of k "va + PGROUNDUP (sh_size x)"] show ?thesis
      by (auto simp: aligned_add split: if_splits)
  qed
qed simp

text \<open>Byte \<open>off\<close> of the child's region and byte \<open>off\<close> of the parent's have the same place in memory.\<close>

lemma same_byte:
  assumes map: "regions_mapped pgdir parent va sh m m'" and reg: "(b, x) \<in> set (regions va sh)"
    and b: "aligned b" "unat b + region_size x \<le> unat KERNBASE"
    and off: "unat (PTE_FLAGS (sh_memstart x)) + unat off < region_size x"
    and pres: "\<And>off. aligned off \<Longrightarrow> unat off < region_size x \<Longrightarrow> present (pte_val m parent (sh_memstart x + off))"
  shows "\<exists>a. map_option fst (xlate m' pgdir (b + PTE_FLAGS (sh_memstart x) + off)) = Some a \<and>
             map_option fst (xlate m parent (sh_memstart x + off)) = Some a"
proof -
  let ?p = "PGROUNDDOWN (sh_memstart x)" and ?o = "PTE_FLAGS (sh_memstart x) + off"
  have fl: "sh_memstart x = ?p + PTE_FLAGS (sh_memstart x)"
    using PTE_parts [of "sh_memstart x"] by (simp add: PTE_ADDR_round)
  have "region_size x < 4294967296" by (simp add: region_size_def unat_lt32)
  then have o: "unat ?o = unat (PTE_FLAGS (sh_memstart x)) + unat off" using off by (intro unat_add32) simp
  then have o': "unat (PGROUNDDOWN ?o) < region_size x"
    using off unat_PGROUNDDOWN [of ?o] div_times_less_eq_dividend [of "unat ?o" 4096] by linarith
  have pg: "PGROUNDDOWN (b + ?o) = b + PGROUNDDOWN ?o" using b(1) by (rule PGROUNDDOWN_add)
  have ub: "unat (b + PGROUNDDOWN ?o) = unat b + unat (PGROUNDDOWN ?o)"
    using b(2) o' by (intro unat_add32) (simp add: KERNBASE_def)
  let ?e = "pte_val m parent (sh_memstart x + PGROUNDDOWN ?o)"
  have child: "pte_val m' pgdir (b + ?o) = PTE_ADDR ?e OR (PTE_W OR PTE_U) OR PTE_P"
    using map reg pg ub o' by (fastforce simp: regions_mapped_def)
  have pe: "present ?e" by (rule pres) (use o' in simp_all)
  have par: "pte_val m parent (sh_memstart x + off) = ?e"
  proof (rule pte_val_page)
    have "PGROUNDDOWN (sh_memstart x + off) = PGROUNDDOWN (?p + ?o)" by (subst fl) (simp only: add.assoc)
    also have "\<dots> = ?p + PGROUNDDOWN ?o" by (rule PGROUNDDOWN_add) simp
    also have "\<dots> = PGROUNDDOWN (sh_memstart x + PGROUNDDOWN ?o)"
      using PGROUNDDOWN_add [of "PGROUNDDOWN ?o" "sh_memstart x"] by (simp add: add.commute)
    finally show "PGROUNDDOWN (sh_memstart x + off) = PGROUNDDOWN (sh_memstart x + PGROUNDDOWN ?o)" .
  qed
  have offs: "(sh_memstart x + off) AND 0xFFF = ?o AND 0xFFF"
    using off_add [of ?p ?o] fl by (simp add: add.assoc [symmetric])
  have "(PTE_W OR PTE_U) OR PTE_P = (7 :: uint)" by (simp add: pte_flags)
  then have e7: "PTE_ADDR ?e OR (PTE_W OR PTE_U) OR PTE_P = PTE_ADDR ?e OR 7" by (simp only:)
  have "present (PTE_ADDR ?e OR 7)" and addr: "PTE_ADDR (PTE_ADDR ?e OR 7) = PTE_ADDR ?e"
    using PTE_ADDR_or(1) [of "PTE_ADDR ?e" 7] present_or [of "PTE_ADDR ?e OR (PTE_W OR PTE_U)"] e7
    by (simp_all add: or.assoc)
  then show ?thesis
    using child pe par offs off_add [OF b(1), of ?o] e7 by (simp add: xlate_eq add.assoc)
qed

section \<open>Properties\<close>



end
