(* ===== verification/Proc.thy ===== *)
theory Proc
  imports File Shared
begin

text \<open>
  Processes (\<^verbatim>\<open>kernel/proc.c\<close>, \<^verbatim>\<open>kernel/sysproc.c\<close>): allocation of a table slot, the first process,
  growing and shrinking, \<open>fork\<close> with the inherited shared structures, \<open>exit\<close>, \<open>wait\<close>, and the system
  calls on them. \<open>exit\<close> does not return: its effect up to the final context switch is \<open>exit_zombie\<close>.
\<close>

section \<open>Table slots\<close>

fun find_state :: "procstate \<Rightarrow> proc list \<Rightarrow> nat \<Rightarrow> nat option" where
  "find_state st [] i = None"
| "find_state st (p # qs) i = (if p_state p = st then Some i else find_state st qs (Suc i))"

definition new_context :: "addr \<Rightarrow> kcontext" where
  "new_context eip = \<lparr>ctx_edi = 0, ctx_esi = 0, ctx_ebx = 0, ctx_ebp = 0, ctx_eip = eip\<rparr>"

definition allocproc :: "(psys, nat option) kop" where
  "allocproc = seqk lock_ptable (bnd (gets (\<lambda>s. find_state UNUSED (procs s) 0)) (\<lambda>r. case r of
       None \<Rightarrow> seqk unlock_ptable (ret None)
     | Some i \<Rightarrow>
         seqk (bnd (gets nextpid) (\<lambda>pid. upd_proc i (\<lambda>p. p\<lparr>p_state := EMBRYO, p_pid := pid\<rparr>)))
        (seqk (upd (\<lambda>s. s\<lparr>nextpid := nextpid s + 1\<rparr>))
        (seqk unlock_ptable
        (bnd (kmop kalloc) (\<lambda>k.
         seqk (upd_proc i (\<lambda>p. p\<lparr>p_kstack := k\<rparr>))
          (if k = 0 then seqk (upd_proc i (\<lambda>p. p\<lparr>p_state := UNUSED\<rparr>)) (ret None)
           else bnd (gets forkret_sym) (\<lambda>eip.
             seqk (upd_proc i (\<lambda>p. p\<lparr>p_context := new_context eip\<rparr>)) (ret (Some i))))))))))"

definition set_runnable :: "nat \<Rightarrow> (psys, unit) kop" where
  "set_runnable i = seqk lock_ptable (seqk (upd_proc i (\<lambda>p. p\<lparr>p_state := RUNNABLE\<rparr>)) unlock_ptable)"

definition user_tf :: trapframe where
  "user_tf = \<lparr>tf_edi = 0, tf_esi = 0, tf_ebp = 0, tf_oesp = 0, tf_ebx = 0, tf_edx = 0, tf_ecx = 0, tf_eax = 0,
     tf_gs = 0, tf_fs = 0, tf_es = 35, tf_ds = 35, tf_trapno = 0, tf_err = 0, tf_eip = 0, tf_cs = 27,
     tf_eflags = 0x200, tf_esp = PGSIZE, tf_ss = 35\<rparr>"

text \<open>\<open>initcode\<close> is the program linked into the kernel.\<close>

definition userinit :: "uchar list \<Rightarrow> (ksys, unit) kop" where
  "userinit initcode = bnd (kpsop allocproc) (\<lambda>r.
     seqk (kpsop (upd (\<lambda>s. s\<lparr>initproc := r\<rparr>)))
     (bnd (kpsop (kmop setupkvm)) (\<lambda>pgdir. case r of
        None \<Rightarrow> halt (Fault ''userinit'')
      | Some i \<Rightarrow>
          seqk (kpsop (upd_proc i (\<lambda>p. p\<lparr>p_pgdir := pgdir\<rparr>)))
           (if pgdir = 0 then panic ''userinit: out of memory?''
            else seqk (kpsop (kmop (inituvm pgdir initcode)))
                (seqk (kpsop (upd_proc i (\<lambda>p. p\<lparr>p_sz := PGSIZE, p_tf := user_tf,
                     p_name := safestrcpy (p_name p) (arr (lit ''initcode'')) 16\<rparr>)))
                (bnd (fsop (namei [slash])) (\<lambda>cwd.
                 seqk (kpsop (upd_proc i (\<lambda>p. p\<lparr>p_cwd := cwd\<rparr>)))
                  (kpsop (set_runnable i)))))))))"

section \<open>Growing\<close>

definition growproc :: "int \<Rightarrow> (psys, int) kop" where
  "growproc n = bnd myproc (\<lambda>i. bnd (get_proc i) (\<lambda>p.
     bnd (if n > 0 then kmop (allocuvm (p_pgdir p) (p_sz p) (p_sz p + word_of_int n))
          else if n < 0 then kmop (deallocuvm (p_pgdir p) (p_sz p) (p_sz p + word_of_int n))
          else ret (p_sz p)) (\<lambda>sz.
       if n \<noteq> 0 \<and> sz = 0 then ret (-1)
       else seqk (upd_proc i (\<lambda>p. p\<lparr>p_sz := sz\<rparr>)) (seqk (switchuvm (Some i)) (ret 0)))))"

section \<open>Fork\<close>

definition undo_alloc :: "nat \<Rightarrow> (psys, unit) kop" where
  "undo_alloc i = bnd (get_proc i) (\<lambda>np.
     seqk (kmop (kfree (p_kstack np))) (upd_proc i (\<lambda>p. p\<lparr>p_kstack := 0, p_state := UNUSED\<rparr>)))"

definition dup_fd :: "nat \<Rightarrow> nat \<Rightarrow> (ksys, unit) kop" where
  "dup_fd i fd = bnd (kpsop cur) (\<lambda>p. case p_ofile p ! fd of
       None \<Rightarrow> ret ()
     | Some f \<Rightarrow> bnd (filedup f) (\<lambda>f. kpsop (upd_proc i (\<lambda>p. p\<lparr>p_ofile := (p_ofile p)[fd := Some f]\<rparr>))))"

text \<open>The number of rounds of the loop that copies the shared structures.\<close>

definition shared_count :: "shared list \<Rightarrow> nat" where
  "shared_count sh = length (takeWhile (\<lambda>x. sh_size x \<noteq> 0) (take 10 sh))"

text \<open>\<open>fork\<close> after the address space has been copied to \<open>pgdir\<close>, for the parent \<open>me\<close> with the fields
  \<open>p\<close> and the new process \<open>i\<close>.\<close>

definition fork_child :: "nat \<Rightarrow> proc \<Rightarrow> nat \<Rightarrow> (ksys, int) kop" where
  "fork_child me p i =
     seqk (kpsop (upd_proc i (\<lambda>np. np\<lparr>p_sz := p_sz p, p_parent := Some me,
             p_tf := (p_tf p)\<lparr>tf_eax := 0\<rparr>, p_parent_pgdir := p_pgdir p\<rparr>)))
    (seqk (foreach [0..<NOFILE] (dup_fd i))
    (bnd (case p_cwd p of None \<Rightarrow> halt (Fault ''idup'') | Some c \<Rightarrow> fsop (idup c)) (\<lambda>c.
     seqk (kpsop (upd_proc i (\<lambda>np. np\<lparr>p_cwd := Some c, p_shared := fork_shared (p_shared p) (p_shared np)\<rparr>)))
      (if shared_count (p_shared p) > 10 then seqk (kpsop (undo_alloc i)) (ret (-1))
       else
         seqk (kpsop (upd_proc i (\<lambda>np. np\<lparr>p_name := safestrcpy (p_name np) (arr (p_name p)) 16\<rparr>)))
        (bnd (kpsop (get_proc i)) (\<lambda>np.
         seqk (kpsop (set_runnable i)) (ret (sint (p_pid np)))))))))"

definition fork :: "(ksys, int) kop" where
  "fork = bnd (kpsop myproc) (\<lambda>me. bnd (kpsop allocproc) (\<lambda>r. case r of
       None \<Rightarrow> ret (-1)
     | Some i \<Rightarrow> bnd (kpsop cur) (\<lambda>p.
         bnd (kpsop (kmop (copyuvm (p_pgdir p) (p_sz p)))) (\<lambda>pgdir.
         seqk (kpsop (upd_proc i (\<lambda>np. np\<lparr>p_pgdir := pgdir\<rparr>)))
          (if pgdir = 0 then seqk (kpsop (undo_alloc i)) (ret (-1)) else fork_child me p i)))))"

section \<open>Exit\<close>

definition proc_chan :: "nat option \<Rightarrow> chan" where
  "proc_chan r = (case r of None \<Rightarrow> NoChan | Some i \<Rightarrow> ChanProc i)"

definition close_fd :: "nat \<Rightarrow> (ksys, unit) kop" where
  "close_fd fd = bnd (kpsop cur) (\<lambda>p. case p_ofile p ! fd of
       None \<Rightarrow> ret ()
     | Some f \<Rightarrow> seqk (fileclose f) (kpsop (upd_cur (\<lambda>p. p\<lparr>p_ofile := (p_ofile p)[fd := None]\<rparr>))))"

text \<open>One round of the loop over the shared structures: a process without a parent frees them.\<close>

definition drop_shared :: "nat \<Rightarrow> (psys, unit) kop" where
  "drop_shared i = bnd cur (\<lambda>p.
     seqk (whenk (p_parent p = None) (kmop (kfree (sh_memstart (p_shared p ! i)))))
      (upd_cur (\<lambda>p. p\<lparr>p_shared := (p_shared p)[i := exit_shared (p_shared p ! i)]\<rparr>)))"

definition adopt :: "nat \<Rightarrow> nat \<Rightarrow> (psys, unit) kop" where
  "adopt me i = bnd (get_proc i) (\<lambda>p.
     whenk (p_parent p = Some me)
      (bnd (gets initproc) (\<lambda>init.
       seqk (upd_proc i (\<lambda>p. p\<lparr>p_parent := init\<rparr>))
        (whenk (p_state p = ZOMBIE) (wakeup1 (proc_chan init))))))"

text \<open>The part of \<open>exit\<close> under the lock of the table, up to the switch to the scheduler.\<close>

definition exit_table :: "nat \<Rightarrow> nat option \<Rightarrow> (psys, bool) kop" where
  "exit_table me parent =
     seqk lock_ptable
    (seqk (wakeup1 (proc_chan parent))
    (bnd (gets (\<lambda>s. length (procs s))) (\<lambda>n.
     seqk (foreach [0..<n] (adopt me))
    (seqk (upd_cur (\<lambda>p. p\<lparr>p_state := ZOMBIE\<rparr>)) sched))))"

definition exit_zombie :: "(ksys, bool) kop" where
  "exit_zombie = bnd (kpsop myproc) (\<lambda>me. bnd (kpsop (gets initproc)) (\<lambda>init.
     if init = Some me then panic ''init exiting''
     else seqk (foreach [0..<NOFILE] close_fd)
         (seqk (foreach [0..<SHAREDCOUNT] (\<lambda>i. kpsop (drop_shared i)))
         (seqk (fsop begin_op)
         (bnd (kpsop cur) (\<lambda>p.
          seqk (case p_cwd p of None \<Rightarrow> halt (Fault ''iput'') | Some c \<Rightarrow> fsop (iput c))
         (seqk (fsop end_op)
         (seqk (kpsop (upd_cur (\<lambda>p. p\<lparr>p_cwd := None\<rparr>)))
          (kpsop (exit_table me (p_parent p)))))))))))"

definition exit :: "(ksys, 'a) kop" where
  "exit = seqk exit_zombie (halt Exits)"

section \<open>Wait\<close>

fun find_zombie :: "nat \<Rightarrow> proc list \<Rightarrow> nat \<Rightarrow> nat option" where
  "find_zombie me [] i = None"
| "find_zombie me (p # qs) i =
     (if p_parent p = Some me \<and> p_state p = ZOMBIE then Some i else find_zombie me qs (Suc i))"

definition reaped :: "proc \<Rightarrow> proc" where
  "reaped p = p\<lparr>p_kstack := 0, p_pid := 0, p_parent := None, p_name := (p_name p)[0 := 0], p_killed := False,
     p_state := UNUSED\<rparr>"

definition wait :: "(psys, int) kop" where
  "wait = bnd myproc (\<lambda>me. seqk lock_ptable (bnd (gets (\<lambda>s. find_zombie me (procs s) 0)) (\<lambda>r. case r of
       Some i \<Rightarrow> bnd (get_proc i) (\<lambda>p.
         seqk (kmop (kfree (p_kstack p)))
        (seqk (kmop (freevm (p_pgdir p)))
        (seqk (upd_proc i reaped)
        (seqk unlock_ptable (ret (sint (p_pid p)))))))
     | None \<Rightarrow> bnd (gets (\<lambda>s. \<exists>p\<in>set (procs s). p_parent p = Some me)) (\<lambda>havekids. bnd cur (\<lambda>p.
         if \<not> havekids \<or> p_killed p then seqk unlock_ptable (ret (-1))
         else sleep_ptable (ChanProc me))))))"

section \<open>System calls on processes\<close>

definition sys_fork :: "(ksys, int) kop" where
  "sys_fork = fork"

definition sys_exit :: "(ksys, int) kop" where
  "sys_exit = exit"

definition sys_wait :: "(psys, int) kop" where
  "sys_wait = wait"

definition sys_kill :: "(psys, int) kop" where
  "sys_kill = bnd (argint 0) (\<lambda>r. case r of None \<Rightarrow> ret (-1) | Some pid \<Rightarrow> kill pid)"

definition sys_getpid :: "(psys, int) kop" where
  "sys_getpid = bnd cur (\<lambda>p. ret (sint (p_pid p)))"

definition sys_sbrk :: "(psys, int) kop" where
  "sys_sbrk = bnd (argint 0) (\<lambda>r. case r of None \<Rightarrow> ret (-1)
     | Some n \<Rightarrow> bnd cur (\<lambda>p. bnd (growproc (sint n)) (\<lambda>g. if g < 0 then ret (-1) else ret (sint (p_sz p)))))"

text \<open>The condition of the loop of \<open>sys_sleep\<close>: the ticks since \<open>ticks0\<close>, modulo \<open>2 ^ 32\<close>, compared
  without sign.\<close>

definition must_wait :: "uint \<Rightarrow> uint \<Rightarrow> uint \<Rightarrow> bool" where
  "must_wait now ticks0 n \<longleftrightarrow> now - ticks0 < n"

definition sys_sleep :: "(psys, int) kop" where
  "sys_sleep = bnd (argint 0) (\<lambda>r. case r of None \<Rightarrow> ret (-1)
     | Some n \<Rightarrow> seqk lock_ticks (bnd (gets ticks) (\<lambda>ticks0. bnd (gets ticks) (\<lambda>now.
         if must_wait now ticks0 n then
           bnd cur (\<lambda>p. if p_killed p then seqk unlock_ticks (ret (-1))
             else seqk lock_ptable (seqk unlock_ticks (seqk (sleep_on ChanTicks) (halt (Sleeps ChanTicks)))))
         else seqk unlock_ticks (ret 0)))))"

definition sys_uptime :: "(psys, int) kop" where
  "sys_uptime = seqk lock_ticks (bnd (gets ticks) (\<lambda>x. seqk unlock_ticks (ret (sint x))))"

end
