(* ===== verification/Exec.thy ===== *)
theory Exec
  imports Proc
begin

text \<open>
  Program loading (\<^verbatim>\<open>kernel/exec.c\<close>, \<^verbatim>\<open>kernel/elf.h\<close> and \<open>loaduvm\<close> of \<^verbatim>\<open>kernel/vm.c\<close>). The programs
  \<open>comma\<close> and \<open>lisa\<close> get the shared structures of their parent mapped into the new address space. The
  result \<open>None\<close> of the inner routines is the code's jump to \<open>bad\<close>.
\<close>

section \<open>Executable files\<close>

definition ELF_MAGIC :: uint where "ELF_MAGIC = 0x464C457F"
definition ELF_PROG_LOAD :: uint where "ELF_PROG_LOAD = 1"

record elfhdr =
  elf_magic :: uint
  elf_entry :: uint
  elf_phoff :: uint
  elf_phnum :: ushort

record proghdr =
  ph_type :: uint
  ph_off :: uint
  ph_vaddr :: uint
  ph_filesz :: uint
  ph_memsz :: uint

definition elfhdr_of :: "uchar list \<Rightarrow> elfhdr" where
  "elfhdr_of bs = \<lparr>elf_magic = rd32 bs 0, elf_entry = rd32 bs 24, elf_phoff = rd32 bs 28, elf_phnum = rd16 bs 44\<rparr>"

definition proghdr_of :: "uchar list \<Rightarrow> proghdr" where
  "proghdr_of bs = \<lparr>ph_type = rd32 bs 0, ph_off = rd32 bs 4, ph_vaddr = rd32 bs 8, ph_filesz = rd32 bs 16, ph_memsz = rd32 bs 20\<rparr>"

section \<open>Loading a segment\<close>

text \<open>One round per page; \<open>n\<close> counts the pages that are left.\<close>

fun loaduvm_loop :: "nat \<Rightarrow> addr \<Rightarrow> addr \<Rightarrow> nat \<Rightarrow> uint \<Rightarrow> uint \<Rightarrow> uint \<Rightarrow> (ksys, int) kop" where
  "loaduvm_loop 0 pgdir va ip offset sz i = ret 0"
| "loaduvm_loop (Suc k) pgdir va ip offset sz i =
     bnd (kpsop (kmop (walkpgdir pgdir (va + i) False))) (\<lambda>pte.
       if pte = 0 then panic ''loaduvm: address should exist''
       else bnd (kpsop (kmop (get32 pte))) (\<lambda>e.
         let n = (if sz - i < PGSIZE then sz - i else PGSIZE) in
         bnd (fsop (readi ip (offset + i) n)) (\<lambda>(r, bs).
           seqk (kpsop (kmop (set_mem (write_bytes (P2V (PTE_ADDR e)) bs))))
            (if r \<noteq> sint n then ret (-1)
             else loaduvm_loop k pgdir va ip offset sz (i + PGSIZE)))))"

definition loaduvm :: "addr \<Rightarrow> addr \<Rightarrow> nat \<Rightarrow> uint \<Rightarrow> uint \<Rightarrow> (ksys, int) kop" where
  "loaduvm pgdir va ip offset sz =
     (if unat va mod unat PGSIZE \<noteq> 0 then panic ''loaduvm: addr must be page aligned''
      else loaduvm_loop ((unat sz + 4095) div 4096) pgdir va ip offset sz 0)"

text \<open>The loop over the program headers; the result is the size of the image.\<close>

fun load_segments :: "nat \<Rightarrow> addr \<Rightarrow> nat \<Rightarrow> uint \<Rightarrow> uint \<Rightarrow> (ksys, uint option) kop" where
  "load_segments 0 pgdir ip off sz = ret (Some sz)"
| "load_segments (Suc k) pgdir ip off sz = bnd (fsop (readi ip off 32)) (\<lambda>(r, bs).
     if r \<noteq> 32 then ret None
     else let ph = proghdr_of bs in
       if ph_type ph \<noteq> ELF_PROG_LOAD then load_segments k pgdir ip (off + 32) sz
       else if ph_memsz ph < ph_filesz ph then ret None
       else if ph_vaddr ph + ph_memsz ph < ph_vaddr ph then ret None
       else bnd (kpsop (kmop (allocuvm pgdir sz (ph_vaddr ph + ph_memsz ph)))) (\<lambda>sz'.
         if sz' = 0 then ret None
         else if unat (ph_vaddr ph) mod unat PGSIZE \<noteq> 0 then ret None
         else bnd (loaduvm pgdir (ph_vaddr ph) ip (ph_off ph) (ph_filesz ph)) (\<lambda>l.
           if l < 0 then ret None else load_segments k pgdir ip (off + 32) sz')))"

section \<open>The user stack\<close>

text \<open>
  Pushing the argument strings: the stack pointer and the addresses of the strings. \<open>argc\<close> counts
  those already pushed.
\<close>

fun push_args :: "addr \<Rightarrow> uchar list list \<Rightarrow> nat \<Rightarrow> uint \<Rightarrow> (kmem, (uint \<times> uint list) option) kop" where
  "push_args pgdir [] argc sp = ret (Some (sp, []))"
| "push_args pgdir (a # as) argc sp =
     (if argc \<ge> MAXARG then ret None
      else let sp' = (sp - (of_nat (length a) + 1)) AND NOT 3 in
        bnd (copyout pgdir sp' (a @ [0])) (\<lambda>r.
          if r < 0 then ret None
          else bnd (push_args pgdir as (Suc argc) sp') (\<lambda>q.
            ret (map_option (\<lambda>(sp'', us). (sp'', sp' # us)) q))))"

definition ustack :: "uint \<Rightarrow> uint list \<Rightarrow> uint list" where
  "ustack sp us = [0xFFFFFFFF, of_nat (length us), sp - (of_nat (length us) + 1) * 4] @ us @ [0]"

definition setup_stack :: "addr \<Rightarrow> uchar list list \<Rightarrow> uint \<Rightarrow> (kmem, uint option) kop" where
  "setup_stack pgdir argv sp = bnd (push_args pgdir argv 0 sp) (\<lambda>q. case q of
       None \<Rightarrow> ret None
     | Some (sp, us) \<Rightarrow>
         let sp' = sp - (3 + of_nat (length us) + 1) * 4 in
         bnd (copyout pgdir sp' (concat (map bytes32 (ustack sp us)))) (\<lambda>r.
           ret (if r < 0 then None else Some sp')))"

section \<open>Exec\<close>

fun last_elem :: "uchar list \<Rightarrow> uchar list \<Rightarrow> uchar list" where
  "last_elem lst [] = lst"
| "last_elem lst (c # cs) = (if c = slash then last_elem cs cs else last_elem lst cs)"

definition wants_shared :: "bytes_at \<Rightarrow> bool" where
  "wants_shared arg0 =
     (strncmp (arr (lit ''comma'')) arg0 SHAREDNAME = 0 \<or> strncmp (arr (lit ''lisa'')) arg0 SHAREDNAME = 0)"

text \<open>
  The string \<open>argv[0]\<close>. With an empty argument list it is the null pointer, which the caller's page
  table translates like any other address.
\<close>

definition arg0 :: "uchar list list \<Rightarrow> (psys, bytes_at) kop" where
  "arg0 argv = (case argv of a # as \<Rightarrow> ret (arr a) | [] \<Rightarrow> bnd (uload8 0) (\<lambda>_. gets (\<lambda>s. ustr s 0)))"

text \<open>Everything after the image has been read: \<open>pgdir\<close> and \<open>sz\<close> describe it.\<close>

definition exec_image :: "uchar list \<Rightarrow> uchar list list \<Rightarrow> elfhdr \<Rightarrow> addr \<Rightarrow> uint \<Rightarrow> (psys, int) kop" where
  "exec_image path argv elf pgdir sz =
     seqk (bnd (arg0 argv) (\<lambda>a. if wants_shared a then bnd (access_shared_memory pgdir) (\<lambda>_. ret ()) else ret ()))
    (let sz = PGROUNDUP sz in
     bnd (kmop (allocuvm pgdir sz (sz + 2 * PGSIZE))) (\<lambda>sz.
       if sz = 0 then seqk (kmop (freevm pgdir)) (ret (-1))
       else seqk (kmop (clearpteu pgdir (sz - 2 * PGSIZE)))
        (bnd (kmop (setup_stack pgdir argv sz)) (\<lambda>r. case r of
            None \<Rightarrow> seqk (kmop (freevm pgdir)) (ret (-1))
          | Some sp \<Rightarrow> bnd myproc (\<lambda>i. bnd cur (\<lambda>p.
              seqk (upd_cur (\<lambda>p. p\<lparr>p_name := safestrcpy (p_name p) (arr (last_elem path path)) 16,
                 p_pgdir := pgdir, p_sz := sz,
                 p_tf := (p_tf p)\<lparr>tf_eip := elf_entry elf, tf_esp := sp\<rparr>\<rparr>))
             (seqk (switchuvm (Some i))
             (seqk (kmop (freevm (p_pgdir p))) (ret 0)))))))))"

definition exec :: "uchar list \<Rightarrow> uchar list list \<Rightarrow> (ksys, int) kop" where
  "exec path argv =
     seqk (fsop begin_op)
    (bnd (fsop (namei path)) (\<lambda>r. case r of
        None \<Rightarrow> seqk (fsop end_op) (seqk (fsop (cprintf (lit ''exec: fail'' @ [10]) [])) (ret (-1)))
      | Some ip \<Rightarrow> seqk (fsop (ilock ip))
         (bnd (fsop (readi ip 0 52)) (\<lambda>(n, bs).
          let elf = elfhdr_of bs in
          if n \<noteq> 52 \<or> elf_magic elf \<noteq> ELF_MAGIC then
            seqk (fsop (iunlockput ip)) (seqk (fsop end_op) (ret (-1)))
          else bnd (kpsop (kmop setupkvm)) (\<lambda>pgdir.
            if pgdir = 0 then seqk (fsop (iunlockput ip)) (seqk (fsop end_op) (ret (-1)))
            else bnd (load_segments (unat (elf_phnum elf)) pgdir ip (elf_phoff elf) 0) (\<lambda>r. case r of
                None \<Rightarrow> seqk (kpsop (kmop (freevm pgdir))) (seqk (fsop (iunlockput ip)) (seqk (fsop end_op) (ret (-1))))
              | Some sz \<Rightarrow> seqk (fsop (iunlockput ip)) (seqk (fsop end_op)
                  (kpsop (exec_image path argv elf pgdir sz)))))))))"

end
