(* ===== verification/Sysfile.thy ===== *)
theory Sysfile
  imports Exec
begin

text \<open>
  The file-related system calls (\<^verbatim>\<open>kernel/sysfile.c\<close>), the system-call table and dispatcher
  (\<^verbatim>\<open>kernel/syscall.c\<close>) and the trap handler (\<^verbatim>\<open>kernel/trap.c\<close>). A path argument is the string that
  \<open>argstr\<close> checked, read once through the caller's page table.
\<close>

section \<open>Arguments and descriptors\<close>

definition kargint :: "nat \<Rightarrow> (ksys, uint option) kop" where
  "kargint n = kpsop (argint n)"

definition arg_path :: "nat \<Rightarrow> (ksys, uchar list option) kop" where
  "arg_path n = kpsop (bnd (argstr n) (\<lambda>r. case r of
       None \<Rightarrow> ret None
     | Some (a, len) \<Rightarrow> bnd (gets (\<lambda>s. map (ustr s a) [0..<len])) (\<lambda>bs. ret (Some bs))))"

definition argfd :: "nat \<Rightarrow> (ksys, (nat \<times> nat) option) kop" where
  "argfd n = bnd (kargint n) (\<lambda>r. case r of
       None \<Rightarrow> ret None
     | Some w \<Rightarrow> if sint w < 0 \<or> sint w \<ge> int NOFILE then ret None
         else bnd (kpsop cur) (\<lambda>p. case p_ofile p ! unat w of
             None \<Rightarrow> ret None | Some f \<Rightarrow> ret (Some (unat w, f))))"

fun free_fd :: "nat option list \<Rightarrow> nat \<Rightarrow> nat option" where
  "free_fd [] i = None"
| "free_fd (x # xs) i = (case x of None \<Rightarrow> Some i | Some f \<Rightarrow> free_fd xs (Suc i))"

definition fdalloc :: "nat \<Rightarrow> (ksys, nat option) kop" where
  "fdalloc f = bnd (kpsop cur) (\<lambda>p. case free_fd (p_ofile p) 0 of
       None \<Rightarrow> ret None
     | Some fd \<Rightarrow> seqk (kpsop (upd_cur (\<lambda>p. p\<lparr>p_ofile := (p_ofile p)[fd := Some f]\<rparr>))) (ret (Some fd)))"

definition clear_fd :: "nat \<Rightarrow> (ksys, unit) kop" where
  "clear_fd fd = kpsop (upd_cur (\<lambda>p. p\<lparr>p_ofile := (p_ofile p)[fd := None]\<rparr>))"

section \<open>Calls on descriptors\<close>

definition sys_dup :: "(ksys, int) kop" where
  "sys_dup = bnd (argfd 0) (\<lambda>r. case r of None \<Rightarrow> ret (-1) | Some (_, f) \<Rightarrow>
     bnd (fdalloc f) (\<lambda>q. case q of None \<Rightarrow> ret (-1) | Some fd \<Rightarrow> seqk (filedup f) (ret (int fd))))"

text \<open>The file, the buffer and the count of \<open>read\<close> and \<open>write\<close>.\<close>

definition rw_args :: "(ksys, (nat \<times> addr \<times> int) option) kop" where
  "rw_args = bnd (argfd 0) (\<lambda>r. case r of None \<Rightarrow> ret None | Some (_, f) \<Rightarrow>
     bnd (kargint 2) (\<lambda>q. case q of None \<Rightarrow> ret None | Some n \<Rightarrow>
       bnd (kpsop (argptr 1 (sint n))) (\<lambda>a. case a of None \<Rightarrow> ret None | Some p \<Rightarrow> ret (Some (f, p, sint n)))))"

definition sys_read :: "(ksys, int) kop" where
  "sys_read = bnd rw_args (\<lambda>r. case r of None \<Rightarrow> ret (-1) | Some (f, p, n) \<Rightarrow> fileread f p n)"

definition sys_write :: "(ksys, int) kop" where
  "sys_write = bnd rw_args (\<lambda>r. case r of None \<Rightarrow> ret (-1) | Some (f, p, n) \<Rightarrow> filewrite f p n)"

definition sys_close :: "(ksys, int) kop" where
  "sys_close = bnd (argfd 0) (\<lambda>r. case r of None \<Rightarrow> ret (-1) | Some (fd, f) \<Rightarrow>
     seqk (clear_fd fd) (seqk (fileclose f) (ret 0)))"

text \<open>\<open>struct stat\<close> in the caller's memory: the fields at their offsets, the padding untouched.\<close>

definition store_stat :: "addr \<Rightarrow> stat \<Rightarrow> (psys, unit) kop" where
  "store_stat a st =
     seqk (ustore_bytes (a + 4) (bytes32 (st_dev st)))
    (seqk (ustore_bytes (a + 8) (bytes32 (st_ino st)))
    (seqk (ustore_bytes a (bytes16 (st_type st)))
    (seqk (ustore_bytes (a + 12) (bytes16 (st_nlink st)))
     (ustore_bytes (a + 16) (bytes32 (st_size st))))))"

definition sys_fstat :: "(ksys, int) kop" where
  "sys_fstat = bnd (argfd 0) (\<lambda>r. case r of None \<Rightarrow> ret (-1) | Some (_, f) \<Rightarrow>
     bnd (kpsop (argptr 1 20)) (\<lambda>a. case a of None \<Rightarrow> ret (-1) | Some p \<Rightarrow>
       bnd (filestat f) (\<lambda>q. case q of None \<Rightarrow> ret (-1) | Some st \<Rightarrow> seqk (kpsop (store_stat p st)) (ret 0))))"

section \<open>Calls on paths\<close>

definition new_name :: "uchar list" where "new_name = replicate DIRSIZ 0"

definition link_bad :: "nat \<Rightarrow> (fsys, int) kop" where
  "link_bad ip = seqk (ilock ip)
     (seqk (upd_inode ip (\<lambda>i. i\<lparr>i_nlink := i_nlink i - 1\<rparr>))
     (seqk (iupdate ip) (seqk (iunlockput ip) (seqk end_op (ret (-1))))))"

text \<open>\<open>sys_link\<close> from the lookup of the new name's directory on.\<close>

definition link_new :: "nat \<Rightarrow> uchar list \<Rightarrow> (fsys, int) kop" where
  "link_new ip new = bnd (nameiparent new new_name) (\<lambda>d. case d of
       None \<Rightarrow> link_bad ip
     | Some (dp, name) \<Rightarrow> seqk (ilock dp)
        (bnd (get_inode dp) (\<lambda>di. bnd (get_inode ip) (\<lambda>i.
         bnd (if i_dev di \<noteq> i_dev i then ret (-1) else dirlink dp (arr name) (i_inum i)) (\<lambda>l.
           if l < 0 then seqk (iunlockput dp) (link_bad ip)
           else seqk (iunlockput dp) (seqk (iput ip) (seqk end_op (ret 0))))))))"

definition link_old :: "uchar list \<Rightarrow> uchar list \<Rightarrow> (fsys, int) kop" where
  "link_old old new = seqk begin_op (bnd (namei old) (\<lambda>r. case r of
       None \<Rightarrow> seqk end_op (ret (-1))
     | Some ip \<Rightarrow> seqk (ilock ip) (bnd (get_inode ip) (\<lambda>i.
         if i_type i = T_DIR then seqk (iunlockput ip) (seqk end_op (ret (-1)))
         else seqk (upd_inode ip (\<lambda>i. i\<lparr>i_nlink := i_nlink i + 1\<rparr>))
             (seqk (iupdate ip)
             (seqk (iunlock ip) (link_new ip new)))))))"

definition sys_link :: "(ksys, int) kop" where
  "sys_link = bnd (arg_path 0) (\<lambda>r. case r of None \<Rightarrow> ret (-1) | Some old \<Rightarrow>
     bnd (arg_path 1) (\<lambda>q. case q of None \<Rightarrow> ret (-1) | Some new \<Rightarrow> fsop (link_old old new)))"

text \<open>\<open>n\<close> bounds the number of entries that are left.\<close>

fun isdirempty_loop :: "nat \<Rightarrow> nat \<Rightarrow> uint \<Rightarrow> (fsys, bool) kop" where
  "isdirempty_loop 0 dp off = halt OutOfFuel"
| "isdirempty_loop (Suc n) dp off = bnd (get_inode dp) (\<lambda>ip.
     if off \<ge> i_size ip then ret True
     else bnd (readi dp off (of_nat DIRENTSIZE)) (\<lambda>(r, bs).
       if r \<noteq> int DIRENTSIZE then panic ''isdirempty: readi''
       else if de_inum (dirent_of bs) \<noteq> 0 then ret False
       else isdirempty_loop n dp (off + of_nat DIRENTSIZE)))"

definition isdirempty :: "nat \<Rightarrow> (fsys, bool) kop" where
  "isdirempty dp = bnd (get_inode dp) (\<lambda>ip. isdirempty_loop (entries ip) dp (of_nat (2 * DIRENTSIZE)))"

definition unlink_bad :: "nat \<Rightarrow> (fsys, int) kop" where
  "unlink_bad dp = seqk (iunlockput dp) (seqk end_op (ret (-1)))"

text \<open>\<open>sys_unlink\<close> once the entry at \<open>off\<close> of the locked directory \<open>dp\<close> names the locked inode \<open>ip\<close>.\<close>

definition unlink_entry :: "nat \<Rightarrow> nat \<Rightarrow> uint \<Rightarrow> (fsys, int) kop" where
  "unlink_entry dp ip off = bnd (writei dp (replicate DIRENTSIZE 0) off) (\<lambda>w.
     if w \<noteq> int DIRENTSIZE then panic ''unlink: writei''
     else bnd (get_inode ip) (\<lambda>i.
       seqk (whenk (i_type i = T_DIR) (seqk (upd_inode dp (\<lambda>d. d\<lparr>i_nlink := i_nlink d - 1\<rparr>)) (iupdate dp)))
      (seqk (iunlockput dp)
      (seqk (upd_inode ip (\<lambda>i. i\<lparr>i_nlink := i_nlink i - 1\<rparr>))
      (seqk (iupdate ip)
      (seqk (iunlockput ip)
      (seqk end_op (ret 0))))))))"

text \<open>\<open>sys_unlink\<close> for the name \<open>name\<close> in the locked directory \<open>dp\<close>.\<close>

definition unlink_name :: "nat \<Rightarrow> uchar list \<Rightarrow> (fsys, int) kop" where
  "unlink_name dp name =
     (if namecmp (arr name) (arr (lit ''.'')) = 0 \<or> namecmp (arr name) (arr (lit ''..'')) = 0 then unlink_bad dp
      else bnd (dirlookup dp (arr name)) (\<lambda>q. case q of
         None \<Rightarrow> unlink_bad dp
       | Some (ip, off) \<Rightarrow> seqk (ilock ip) (bnd (get_inode ip) (\<lambda>i.
           if sint (i_nlink i) < 1 then panic ''unlink: nlink < 1''
           else bnd (if i_type i = T_DIR then isdirempty ip else ret True) (\<lambda>empty.
             if \<not> empty then seqk (iunlockput ip) (unlink_bad dp)
             else unlink_entry dp ip off)))))"

definition sys_unlink :: "(ksys, int) kop" where
  "sys_unlink = bnd (arg_path 0) (\<lambda>r. case r of None \<Rightarrow> ret (-1) | Some path \<Rightarrow> fsop
     (seqk begin_op (bnd (nameiparent path new_name) (\<lambda>d. case d of
        None \<Rightarrow> seqk end_op (ret (-1))
      | Some (dp, name) \<Rightarrow> seqk (ilock dp) (unlink_name dp name)))))"

text \<open>\<open>create\<close> once the name is known not to exist in the locked directory \<open>dp\<close>.\<close>

definition create_new :: "nat \<Rightarrow> uchar list \<Rightarrow> ushort \<Rightarrow> ushort \<Rightarrow> ushort \<Rightarrow> (fsys, nat option) kop" where
  "create_new dp name type major minor = bnd (get_inode dp) (\<lambda>di. bnd (ialloc (i_dev di) type) (\<lambda>ip.
     seqk (ilock ip)
    (seqk (upd_inode ip (\<lambda>i. i\<lparr>i_major := major, i_minor := minor, i_nlink := 1\<rparr>))
    (seqk (iupdate ip)
    (bnd (get_inode ip) (\<lambda>i.
     seqk (whenk (type = T_DIR)
        (seqk (upd_inode dp (\<lambda>d. d\<lparr>i_nlink := i_nlink d + 1\<rparr>))
        (seqk (iupdate dp)
        (bnd (dirlink ip (arr (lit ''.'')) (i_inum i)) (\<lambda>a.
         bnd (if a < 0 then ret (-1) else dirlink ip (arr (lit ''..'')) (i_inum di)) (\<lambda>b.
           if b < 0 then panic ''create dots'' else ret ()))))))
     (bnd (dirlink dp (arr name) (i_inum i)) (\<lambda>l.
        if l < 0 then panic ''create: dirlink''
        else seqk (iunlockput dp) (ret (Some ip))))))))))"

definition create :: "uchar list \<Rightarrow> ushort \<Rightarrow> ushort \<Rightarrow> ushort \<Rightarrow> (fsys, nat option) kop" where
  "create path type major minor = bnd (nameiparent path new_name) (\<lambda>d. case d of
       None \<Rightarrow> ret None
     | Some (dp, name) \<Rightarrow> seqk (ilock dp) (bnd (dirlookup dp (arr name)) (\<lambda>q. case q of
         Some (ip, off) \<Rightarrow> seqk (iunlockput dp) (seqk (ilock ip) (bnd (get_inode ip) (\<lambda>i.
           if (type = T_FILE \<and> i_type i = T_FILE) \<or> i_type i = T_DEV then ret (Some ip)
           else seqk (iunlockput ip) (ret None))))
       | None \<Rightarrow> create_new dp name type major minor)))"

definition O_RDONLY :: uint where "O_RDONLY = 0"
definition O_WRONLY :: uint where "O_WRONLY = 1"
definition O_RDWR :: uint where "O_RDWR = 2"
definition O_CREATE :: uint where "O_CREATE = 0x200"

text \<open>The inode to open, locked; \<open>None\<close> after the failures, which have ended the transaction.\<close>

definition open_inode :: "uchar list \<Rightarrow> uint \<Rightarrow> (fsys, nat option) kop" where
  "open_inode path omode =
     (if omode AND O_CREATE \<noteq> 0 then
        bnd (create path T_FILE 0 0) (\<lambda>r. case r of None \<Rightarrow> seqk end_op (ret None) | Some ip \<Rightarrow> ret (Some ip))
      else bnd (namei path) (\<lambda>r. case r of
          None \<Rightarrow> seqk end_op (ret None)
        | Some ip \<Rightarrow> seqk (ilock ip) (bnd (get_inode ip) (\<lambda>i.
            if i_type i = T_DIR \<and> omode \<noteq> O_RDONLY then seqk (iunlockput ip) (seqk end_op (ret None))
            else ret (Some ip)))))"

definition opened :: "nat \<Rightarrow> uint \<Rightarrow> ofile \<Rightarrow> ofile" where
  "opened ip omode f = f\<lparr>f_type := FD_INODE, f_ip := ip, f_off := 0, f_readable := (omode AND O_WRONLY = 0),
     f_writable := (omode AND O_WRONLY \<noteq> 0 \<or> omode AND O_RDWR \<noteq> 0)\<rparr>"

definition sys_open :: "(ksys, int) kop" where
  "sys_open = bnd (arg_path 0) (\<lambda>r. case r of None \<Rightarrow> ret (-1) | Some path \<Rightarrow>
     bnd (kargint 1) (\<lambda>q. case q of None \<Rightarrow> ret (-1) | Some omode \<Rightarrow>
       seqk (fsop begin_op) (bnd (fsop (open_inode path omode)) (\<lambda>o'. case o' of
           None \<Rightarrow> ret (-1)
         | Some ip \<Rightarrow> bnd filealloc (\<lambda>fo. case fo of
             None \<Rightarrow> seqk (fsop (iunlockput ip)) (seqk (fsop end_op) (ret (-1)))
           | Some f \<Rightarrow> bnd (fdalloc f) (\<lambda>fdo. case fdo of
               None \<Rightarrow> seqk (fileclose f) (seqk (fsop (iunlockput ip)) (seqk (fsop end_op) (ret (-1))))
             | Some fd \<Rightarrow> seqk (fsop (iunlock ip)) (seqk (fsop end_op)
                 (seqk (upd_file f (opened ip omode)) (ret (int fd)))))))))) "

definition sys_mkdir :: "(ksys, int) kop" where
  "sys_mkdir = seqk (fsop begin_op) (bnd (arg_path 0) (\<lambda>r.
     bnd (case r of None \<Rightarrow> ret None | Some path \<Rightarrow> fsop (create path T_DIR 0 0)) (\<lambda>q. case q of
         None \<Rightarrow> seqk (fsop end_op) (ret (-1))
       | Some ip \<Rightarrow> seqk (fsop (iunlockput ip)) (seqk (fsop end_op) (ret 0)))))"

definition sys_mknod :: "(ksys, int) kop" where
  "sys_mknod = seqk (fsop begin_op) (bnd (arg_path 0) (\<lambda>r.
     bnd (case r of None \<Rightarrow> ret None | Some path \<Rightarrow>
        bnd (kargint 1) (\<lambda>a. case a of None \<Rightarrow> ret None | Some major \<Rightarrow>
        bnd (kargint 2) (\<lambda>b. case b of None \<Rightarrow> ret None | Some minor \<Rightarrow>
          fsop (create path T_DEV (ucast major) (ucast minor))))) (\<lambda>q. case q of
         None \<Rightarrow> seqk (fsop end_op) (ret (-1))
       | Some ip \<Rightarrow> seqk (fsop (iunlockput ip)) (seqk (fsop end_op) (ret 0)))))"

definition sys_chdir :: "(ksys, int) kop" where
  "sys_chdir = seqk (fsop begin_op) (bnd (arg_path 0) (\<lambda>r.
     bnd (case r of None \<Rightarrow> ret None | Some path \<Rightarrow> fsop (namei path)) (\<lambda>q. case q of
         None \<Rightarrow> seqk (fsop end_op) (ret (-1))
       | Some ip \<Rightarrow> seqk (fsop (ilock ip)) (bnd (fsop (get_inode ip)) (\<lambda>i.
           if i_type i \<noteq> T_DIR then seqk (fsop (iunlockput ip)) (seqk (fsop end_op) (ret (-1)))
           else seqk (fsop (iunlock ip)) (bnd (kpsop cur) (\<lambda>p. case p_cwd p of
               None \<Rightarrow> halt (Fault ''iput'')
             | Some c \<Rightarrow> seqk (fsop (iput c)) (seqk (fsop end_op)
                 (seqk (kpsop (upd_cur (\<lambda>p. p\<lparr>p_cwd := Some ip\<rparr>))) (ret 0)))))))))) "

text \<open>The argument vector; \<open>n\<close> counts the entries left of \<open>MAXARG\<close>.\<close>

fun fetch_argv :: "nat \<Rightarrow> addr \<Rightarrow> (psys, uchar list list option) kop" where
  "fetch_argv 0 uargv = ret None"
| "fetch_argv (Suc n) uargv = bnd (fetchint uargv) (\<lambda>r. case r of
       None \<Rightarrow> ret None
     | Some uarg \<Rightarrow> if uarg = 0 then ret (Some [])
         else bnd (fetchstr uarg) (\<lambda>l. case l of None \<Rightarrow> ret None
           | Some len \<Rightarrow> bnd (gets (\<lambda>s. map (ustr s uarg) [0..<len])) (\<lambda>bs.
               bnd (fetch_argv n (uargv + 4)) (\<lambda>rest. ret (map_option (Cons bs) rest)))))"

definition sys_exec :: "(ksys, int) kop" where
  "sys_exec = bnd (arg_path 0) (\<lambda>r. case r of None \<Rightarrow> ret (-1) | Some path \<Rightarrow>
     bnd (kargint 1) (\<lambda>q. case q of None \<Rightarrow> ret (-1) | Some uargv \<Rightarrow>
       bnd (kpsop (fetch_argv MAXARG uargv)) (\<lambda>a. case a of None \<Rightarrow> ret (-1) | Some argv \<Rightarrow> exec path argv)))"

definition sys_pipe :: "(ksys, int) kop" where
  "sys_pipe = bnd (kpsop (argptr 0 8)) (\<lambda>r. case r of None \<Rightarrow> ret (-1) | Some a \<Rightarrow>
     bnd pipealloc (\<lambda>q. case q of None \<Rightarrow> ret (-1) | Some (rf, wfile) \<Rightarrow>
       bnd (fdalloc rf) (\<lambda>o0. case o0 of
           None \<Rightarrow> seqk (fileclose rf) (seqk (fileclose wfile) (ret (-1)))
         | Some fd0 \<Rightarrow> bnd (fdalloc wfile) (\<lambda>o1. case o1 of
             None \<Rightarrow> seqk (clear_fd fd0) (seqk (fileclose rf) (seqk (fileclose wfile) (ret (-1))))
           | Some fd1 \<Rightarrow> seqk (kpsop (ustore32 a (of_nat fd0))) (seqk (kpsop (ustore32 (a + 4) (of_nat fd1))) (ret 0))))))"

section \<open>Dispatch\<close>

definition syscalls :: "(ksys, int) kop list" where
  "syscalls = [sys_fork, sys_exit, kpsop sys_wait, sys_pipe, sys_read, kpsop sys_kill, sys_exec, sys_fstat,
     sys_chdir, sys_dup, kpsop sys_getpid, kpsop sys_sbrk, kpsop sys_sleep, kpsop sys_uptime, sys_open,
     sys_write, sys_mknod, sys_unlink, sys_link, sys_mkdir, sys_close, kpsop sys_share_data, kpsop sys_get_data]"

text \<open>Entry 0 of the table is empty, the entries 1 to 23 are filled.\<close>

definition syscall :: "(ksys, unit) kop" where
  "syscall = bnd (kpsop cur) (\<lambda>p. let num = sint (tf_eax (p_tf p)) in
     if num > 0 \<and> num < 24 then
       bnd (syscalls ! (nat num - 1)) (\<lambda>r. kpsop (upd_cur (\<lambda>p. p\<lparr>p_tf := (p_tf p)\<lparr>tf_eax := word_of_int r\<rparr>\<rparr>)))
     else
       seqk (fsop (cprintf (lit ''%d %s: unknown sys call %d'' @ [10])
               [Num (p_pid p), Str (Some (takeWhile (\<lambda>c. c \<noteq> 0) (p_name p))), Num (tf_eax (p_tf p))]))
        (kpsop (upd_cur (\<lambda>p. p\<lparr>p_tf := (p_tf p)\<lparr>tf_eax := -1\<rparr>\<rparr>))))"

section \<open>Traps\<close>

definition T_SYSCALL :: uint where "T_SYSCALL = 64"
definition T_IRQ0 :: uint where "T_IRQ0 = 32"

definition exit_if_killed :: "(ksys, unit) kop" where
  "exit_if_killed = bnd (kpsop cur) (\<lambda>p. if p_killed p then exit else ret ())"

text \<open>\<open>exit\<close> for a killed process that was interrupted in user mode.\<close>

definition exit_if_killed_user :: "ushort \<Rightarrow> (ksys, unit) kop" where
  "exit_if_killed_user cs = bnd (kpsop (gets curproc)) (\<lambda>c. case c of None \<Rightarrow> ret ()
     | Some i \<Rightarrow> bnd (kpsop cur) (\<lambda>p. if p_killed p \<and> cs AND 3 = 3 then exit else ret ()))"

definition timer_tick :: "nat \<Rightarrow> (psys, unit) kop" where
  "timer_tick cpu = whenk (cpu = 0)
     (seqk lock_ticks (seqk (upd (\<lambda>s. s\<lparr>ticks := ticks s + 1\<rparr>)) (seqk (wakeup ChanTicks) unlock_ticks)))"

text \<open>
  The interrupt part of \<open>trap\<close> before the final checks. The characters that the keyboard and serial
  handlers find, the processor's number and \<open>cr2\<close> come from the hardware.
\<close>

definition trap_dispatch :: "nat \<Rightarrow> uint list \<Rightarrow> uint \<Rightarrow> trapframe \<Rightarrow> (ksys, unit) kop" where
  "trap_dispatch cpu chars cr2 tf = (let n = tf_trapno tf in
     if n = T_IRQ0 then kpsop (timer_tick cpu)
     else if n = T_IRQ0 + 14 \<or> n = T_IRQ0 + 15 then ret ()
     else if n = T_IRQ0 + 1 \<or> n = T_IRQ0 + 4 then bnd (fsop (consoleintr chars)) (\<lambda>_. ret ())
     else if n = T_IRQ0 + 7 \<or> n = T_IRQ0 + 31 then
       fsop (cprintf (lit ''cpu%d: spurious interrupt at %x:%x'' @ [10]) [Num (of_nat cpu), Num (ucast (tf_cs tf)), Num (tf_eip tf)])
     else bnd (kpsop (gets curproc)) (\<lambda>c.
       if c = None \<or> tf_cs tf AND 3 = 0 then
         seqk (fsop (cprintf (lit ''unexpected trap %d from cpu %d eip %x (cr2=0x%x)'' @ [10])
            [Num n, Num (of_nat cpu), Num (tf_eip tf), Num cr2])) (panic ''trap'')
       else bnd (kpsop cur) (\<lambda>p.
         seqk (fsop (cprintf (lit ''pid %d %s: trap %d err %d on cpu %d eip 0x%x addr 0x%x--kill proc'' @ [10])
            [Num (p_pid p), Str (Some (takeWhile (\<lambda>c. c \<noteq> 0) (p_name p))), Num n, Num (tf_err tf), Num (of_nat cpu),
             Num (tf_eip tf), Num cr2]))
          (kpsop (upd_cur (\<lambda>p. p\<lparr>p_killed := True\<rparr>))))))"

text \<open>
  \<open>trap\<close>; the result tells whether the process gives up the processor by calling \<open>yield\<close>, after
  which the last check for a kill runs.
\<close>

definition trap :: "nat \<Rightarrow> uint list \<Rightarrow> uint \<Rightarrow> trapframe \<Rightarrow> (ksys, bool) kop" where
  "trap cpu chars cr2 tf =
     (if tf_trapno tf = T_SYSCALL then
        seqk exit_if_killed
       (seqk (kpsop (upd_cur (\<lambda>p. p\<lparr>p_tf := tf\<rparr>)))
       (seqk syscall (seqk exit_if_killed (ret False))))
      else
        seqk (trap_dispatch cpu chars cr2 tf)
       (seqk (exit_if_killed_user (tf_cs tf))
        (bnd (kpsop (gets curproc)) (\<lambda>c. case c of None \<Rightarrow> ret False
          | Some i \<Rightarrow> bnd (kpsop cur) (\<lambda>p.
              if p_state p = RUNNING \<and> tf_trapno tf = T_IRQ0 then seqk (kpsop yield_out) (ret True)
              else seqk (exit_if_killed_user (tf_cs tf)) (ret False))))))"

end
