(* ===== verification/MemProps.thy ===== *)
theory MemProps
  imports Shared UserSpace
begin

text \<open>
  Properties of the memory components (\<^verbatim>\<open>kernel/kalloc.c\<close>, \<^verbatim>\<open>kernel/vm.c\<close>, \<^verbatim>\<open>kernel/string.c\<close>) and
  of the table of shared structures, each applied to the concrete machine of \<open>Example\<close>.
\<close>

section \<open>Pages\<close>

text \<open>
  C14: \<open>n\<close> calls of \<open>kalloc\<close>, with at least \<open>n\<close> pages free, return \<open>n\<close> pairwise distinct non-null
  page-aligned pages, none of which is left in the free list, and change no byte of memory.
\<close>

theorem kalloc_distinct_pages:
  assumes "kmem_inv fs s" and "n \<le> length fs"
  shows "ok (repeatk n kalloc) s (\<lambda>rs s'. length rs = n \<and> distinct rs \<and> 0 \<notin> set rs
     \<and> (\<forall>r \<in> set rs. aligned r) \<and> set rs \<inter> set (drop n fs) = {} \<and> kmem_inv (drop n fs) s'
     \<and> mem s' = mem s)"
  using assms by (rule pages.alloc_many_distinct)

theorem kalloc_distinct_pages_witness:
  "ok (repeatk 2 kalloc) ex_km (\<lambda>rs s'. length rs = 2 \<and> distinct rs \<and> 0 \<notin> set rs
     \<and> (\<forall>r \<in> set rs. aligned r) \<and> set rs \<inter> set (drop 2 ex_free) = {} \<and> kmem_inv (drop 2 ex_free) s'
     \<and> mem s' = mem ex_km)"
  using kalloc_distinct_pages [OF ex_kmem_inv, of 2] by (simp add: ex_free_def)

text \<open>
  C15: freeing a page that is not free puts it back: the next \<open>kalloc\<close> returns exactly that page,
  the free list is as before, and no byte outside the page has changed.
\<close>

theorem kfree_kalloc:
  assumes "kmem_inv fs s" and "vframe s f" and "f \<notin> set fs"
  shows "ok (seqk (kfree f) kalloc) s (\<lambda>r s'. r = f \<and> kmem_inv fs s' \<and> same_off {f} (mem s) (mem s'))"
  using assms by (rule pages.free_then_alloc)

theorem kfree_kalloc_witness:
  "ok (seqk (kfree ex_frame1) kalloc) ex_km (\<lambda>r s'. r = ex_frame1 \<and> kmem_inv ex_free s' \<and>
     same_off {ex_frame1} (mem ex_km) (mem s'))"
  by (rule kfree_kalloc [OF ex_kmem_inv])
    (simp_all add: ex_vframe ex_defs aligned_def V2P_def KERNBASE_def PHYSTOP_def)

text \<open>
  C16: \<open>kfree\<close> refuses, with a panic and no other effect, an address that is not page aligned, lies
  below the end of the kernel, or lies at or above the top of physical memory; the loop of
  \<open>freerange\<close> frees exactly the whole pages of the range it is given.
\<close>

theorem freerange_whole_pages:
  assumes "kmem_inv fs s" and "unat vstart + 4095 < 4294963200" and "unat vend < 4294963200"
    and "\<forall>f \<in> whole_pages (unat vstart) (unat vend). vframe s f \<and> f \<notin> set fs"
  shows "ok (freerange vstart vend) s (\<lambda>_ s'. \<exists>new. kmem_inv (new @ fs) s' \<and>
      set new = whole_pages (unat vstart) (unat vend)) \<and>
    (\<forall>v. \<not> (aligned v \<and> end_sym s \<le> v \<and> V2P v < PHYSTOP) \<longrightarrow> kfree v s = Stop (Panic ''kfree''))"
proof
  show "ok (freerange vstart vend) s (\<lambda>_ s'. \<exists>new. kmem_inv (new @ fs) s' \<and>
      set new = whole_pages (unat vstart) (unat vend))"
    using freerange_ok [OF assms] by (rule ok_mono) blast
  show "\<forall>v. \<not> (aligned v \<and> end_sym s \<le> v \<and> V2P v < PHYSTOP) \<longrightarrow> kfree v s = Stop (Panic ''kfree'')"
    using kfree_panic by (simp add: vframe_def)
qed

lemma two_pages: "whole_pages 0x80409800 0x8040B900 = {0x8040A000}"
proof -
  have "unat f = 0x8040A000" if "aligned f" "0x80409800 \<le> unat f" "unat f + 4096 \<le> 0x8040B900" for f
  proof -
    from that obtain k where "unat f = 4096 * k" by (auto simp: aligned_dvd)
    with that show ?thesis by simp
  qed
  then show ?thesis
    by (auto simp: whole_pages_def aligned_def word_unat_eq_iff)
qed

theorem freerange_whole_pages_witness:
  "ok (freerange 0x80409800 0x8040B900) ex_km (\<lambda>_ s'. \<exists>new. kmem_inv (new @ ex_free) s' \<and> set new = {0x8040A000}) \<and>
   kfree 0x80402004 ex_km = Stop (Panic ''kfree'')"
proof -
  have "ok (freerange 0x80409800 0x8040B900) ex_km (\<lambda>_ s'. \<exists>new. kmem_inv (new @ ex_free) s' \<and>
      set new = whole_pages (unat (0x80409800 :: uint)) (unat (0x8040B900 :: uint))) \<and>
    (\<forall>v. \<not> (aligned v \<and> end_sym ex_km \<le> v \<and> V2P v < PHYSTOP) \<longrightarrow> kfree v ex_km = Stop (Panic ''kfree''))"
    by (rule freerange_whole_pages [OF ex_kmem_inv])
      (simp_all add: two_pages ex_vframe ex_defs aligned_def V2P_def KERNBASE_def PHYSTOP_def)
  then show ?thesis by (simp add: two_pages aligned_def)
qed

section \<open>Address spaces\<close>

text \<open>
  C9: \<open>copyuvm\<close>, which \<open>fork\<close> uses, either fails and returns every page it took to the free list, or
  builds a directory in which every byte below \<open>sz\<close> has the parent's value in a page newly taken
  from the allocator, and in which nothing from \<open>sz\<close> up to the kernel is mapped, the area of the
  shared structures included. In both cases no byte outside the pages that were free changes.
\<close>

theorem copyuvm_copies:
  assumes k: "kmem_inv fs s" and l: "link_inv s" and sz: "unat sz \<le> unat SHAREDBASE"
    and pd: "user_inv pd (unat SHAREDBASE) fs s"
    and present: "\<And>v. unat (PGROUNDDOWN v) < unat sz \<Longrightarrow> present (pte_val (mem s) pd v)"
  shows "ok (copyuvm pd sz) s (\<lambda>d s'. same_off (set fs) (mem s) (mem s') \<and>
     (d = 0 \<and> (\<exists>fs'. kmem_inv fs' s' \<and> set fs' = set fs) \<or>
      d \<noteq> 0 \<and> (\<forall>v. unat v < unat sz \<longrightarrow> (\<exists>a a'. map_option fst (xlate (mem s) pd v) = Some a \<and>
          map_option fst (xlate (mem s') d v) = Some a' \<and> mem s' a' = mem s a \<and> PGROUNDDOWN a' \<in> set fs)) \<and>
        (\<forall>v. unat sz \<le> unat (PGROUNDDOWN v) \<longrightarrow> unat (PGROUNDDOWN v) < unat KERNBASE \<longrightarrow>
          xlate (mem s') d v = None)))"
proof -
  have pt: "pt_inv pd s" "pt_pages (mem s) pd \<inter> set fs = {}"
    using pd by (auto simp: user_inv_def vm_inv_def)
  have pages: "present (pte_val (mem s) pd v) \<and> vframe s (uframe (mem s) pd v) \<and> uframe (mem s) pd v \<notin> set fs"
    if v: "unat (PGROUNDDOWN v) < unat sz" for v
  proof -
    have "mapped (mem s) pd 0 (unat SHAREDBASE) v" using present [OF v] v sz by (simp add: mapped_def)
    then show ?thesis using pd present [OF v] unfolding user_inv_def by blast
  qed
  have byte: "\<exists>a a'. map_option fst (xlate (mem s) pd v) = Some a \<and> map_option fst (xlate m' d v) = Some a' \<and>
      m' a' = mem s a \<and> PGROUNDDOWN a' \<in> set fs"
    if c: "page_copied pd d used (mem s) m' v" and used: "fs = used @ fs'" and v: "unat v < unat sz" for used fs' m' d v
  proof -
    have v': "unat (PGROUNDDOWN v) < unat sz" using v PGROUNDDOWN_le [of v] by linarith
    let ?f' = "uframe m' d v" and ?o = "v AND 0xFFF"
    have f': "?f' \<in> set fs" "pte_val m' d v = V2P ?f' OR PTE_FLAGS (pte_val (mem s) pd v) OR PTE_P"
      and cp: "\<And>x. PGROUNDDOWN x = ?f' \<Longrightarrow> m' x = mem s (uframe (mem s) pd v + (x - ?f'))"
      using c used by (auto simp: page_copied_def)
    have "present (pte_val m' d v)" unfolding f'(2) by (simp add: or.assoc [symmetric])
    then have x': "map_option fst (xlate m' d v) = Some (?f' + ?o)" by (simp add: xlate_eq uframe_def)
    have x: "map_option fst (xlate (mem s) pd v) = Some (uframe (mem s) pd v + ?o)"
      using pages [OF v'] by (simp add: xlate_eq uframe_def)
    have "aligned ?f'" using f'(1) k by (auto simp: kmem_inv_def vframe_def)
    then have "PGROUNDDOWN (?f' + ?o) = ?f'" by (rule PGROUNDDOWN_frame)
    then show ?thesis using x x' cp [of "?f' + ?o"] f'(1) by auto
  qed
  show ?thesis
  proof (rule ok_mono [OF copyuvm_ok [OF k l sz pt pages]])
    fix d s' assume h: "same_off (set fs) (mem s) (mem s') \<and>
     (d \<noteq> 0 \<and> (\<exists>used fs'. fs = used @ fs' \<and> user_inv d (unat SHAREDBASE) fs' s' \<and> pt_pages (mem s') d \<subseteq> set used \<and>
        (\<forall>v. unat (PGROUNDDOWN v) < unat sz \<longrightarrow> page_copied pd d used (mem s) (mem s') v) \<and>
        (\<forall>v. unat sz \<le> unat (PGROUNDDOWN v) \<longrightarrow> unat (PGROUNDDOWN v) < unat KERNBASE \<longrightarrow> \<not> present (pte_val (mem s') d v))) \<or>
      d = 0 \<and> (\<exists>fs'. kmem_inv fs' s' \<and> set fs' = set fs))"
    have le: "unat (PGROUNDDOWN v) < unat sz" if "unat v < unat sz" for v
      using that PGROUNDDOWN_le [of v] by linarith
    from h show "same_off (set fs) (mem s) (mem s') \<and>
     (d = 0 \<and> (\<exists>fs'. kmem_inv fs' s' \<and> set fs' = set fs) \<or>
      d \<noteq> 0 \<and> (\<forall>v. unat v < unat sz \<longrightarrow> (\<exists>a a'. map_option fst (xlate (mem s) pd v) = Some a \<and>
          map_option fst (xlate (mem s') d v) = Some a' \<and> mem s' a' = mem s a \<and> PGROUNDDOWN a' \<in> set fs)) \<and>
        (\<forall>v. unat sz \<le> unat (PGROUNDDOWN v) \<longrightarrow> unat (PGROUNDDOWN v) < unat KERNBASE \<longrightarrow>
          xlate (mem s') d v = None))"
    proof (elim conjE disjE exE, goal_cases)
      case (1 used fs')
      then show ?case using byte [OF _ 1(3)] le by (simp add: xlate_eq)
    next
      case (2 fs')
      then show ?case by blast
    qed
  qed auto
qed

lemma ex_link_inv: "link_inv ex_km"
  by (simp add: link_inv_def ex_km_def aligned_def KERNLINK_def KERNBASE_def EXTMEM_def PHYSTOP_def)

lemma below_sz: "unat (PGROUNDDOWN v) < 0x3000 \<Longrightarrow> PGROUNDDOWN v = 0 \<or> PGROUNDDOWN v = 0x1000 \<or> PGROUNDDOWN v = 0x2000"
proof -
  assume "unat (PGROUNDDOWN v) < 0x3000"
  then have "unat v div 4096 < 3" by (simp add: unat_PGROUNDDOWN)
  then consider "unat v div 4096 = 0" | "unat v div 4096 = 1" | "unat v div 4096 = 2" by linarith
  then show ?thesis
    by cases (simp_all add: word_unat_eq_iff unat_PGROUNDDOWN)
qed

theorem copyuvm_copies_witness:
  "ok (copyuvm ex_parent 0x3000) ex_km (\<lambda>d s'. same_off (set ex_free) ex_mem (mem s') \<and>
     (d = 0 \<and> (\<exists>fs'. kmem_inv fs' s' \<and> set fs' = set ex_free) \<or>
      d \<noteq> 0 \<and> (\<exists>a a'. map_option fst (xlate ex_mem ex_parent 0x1004) = Some a \<and>
          map_option fst (xlate (mem s') d 0x1004) = Some a' \<and> mem s' a' = ex_mem a \<and> PGROUNDDOWN a' \<in> set ex_free)))"
proof -
  have m: "mem ex_km = ex_mem" by (simp add: ex_km_def)
  have "ok (copyuvm ex_parent 0x3000) ex_km (\<lambda>d s'. same_off (set ex_free) (mem ex_km) (mem s') \<and>
     (d = 0 \<and> (\<exists>fs'. kmem_inv fs' s' \<and> set fs' = set ex_free) \<or>
      d \<noteq> 0 \<and> (\<forall>v. unat v < unat (0x3000 :: uint) \<longrightarrow> (\<exists>a a'. map_option fst (xlate (mem ex_km) ex_parent v) = Some a \<and>
          map_option fst (xlate (mem s') d v) = Some a' \<and> mem s' a' = mem ex_km a \<and> PGROUNDDOWN a' \<in> set ex_free)) \<and>
        (\<forall>v. unat (0x3000 :: uint) \<le> unat (PGROUNDDOWN v) \<longrightarrow> unat (PGROUNDDOWN v) < unat KERNBASE \<longrightarrow>
          xlate (mem s') d v = None)))"
    by (rule copyuvm_copies [OF ex_kmem_inv ex_link_inv _ ex_user_inv])
      (auto simp: m SHAREDBASE_def ex_present dest: below_sz)
  then show ?thesis
  proof (rule ok_mono, goal_cases)
    case (1 d s')
    have lt: "unat (0x1004 :: uint) < unat (0x3000 :: uint)" by simp
    from 1 lt show ?case unfolding m by blast
  qed
qed

text \<open>
  C10: \<open>freevm\<close>, with which \<open>wait\<close> and \<open>exec\<close> dispose of an address space, gives back exactly the
  pages of its tables and the frames mapped below the shared area. A page that is none of these,
  such as a frame of the parent that is mapped only in the shared area, is not freed, and none
  of its bytes change.
\<close>

theorem freevm_keeps_shared:
  assumes "user_inv pgdir (unat SHAREDBASE) fs s"
  shows "ok (freevm pgdir) s (\<lambda>_ s'. \<exists>fs'. kmem_inv fs' s' \<and>
     set fs' = set fs \<union> pt_pages (mem s) pgdir \<union> frames (mem s) pgdir 0 (unat SHAREDBASE) \<and>
     (\<forall>x. PGROUNDDOWN x \<notin> set fs' \<longrightarrow> mem s' x = mem s x))"
proof (rule ok_mono [OF freevm_all [OF assms]])
  fix x and s' :: kmem assume "all_freed pgdir fs s s'"
  then show "\<exists>fs'. kmem_inv fs' s' \<and>
     set fs' = set fs \<union> pt_pages (mem s) pgdir \<union> frames (mem s) pgdir 0 (unat SHAREDBASE) \<and>
     (\<forall>x. PGROUNDDOWN x \<notin> set fs' \<longrightarrow> mem s' x = mem s x)"
    unfolding all_freed_def same_off_def by blast
qed

theorem freevm_keeps_shared_witness:
  "ok (freevm ex_parent) ex_km (\<lambda>_ s'. \<exists>fs'. kmem_inv fs' s' \<and>
     set fs' = set ex_free \<union> pt_pages ex_mem ex_parent \<union> frames ex_mem ex_parent 0 (unat SHAREDBASE) \<and>
     (\<forall>x. PGROUNDDOWN x \<notin> set fs' \<longrightarrow> mem s' x = ex_mem x))"
  using freevm_keeps_shared [OF ex_user_inv] by (simp add: ex_km_def)

text \<open>
  C11: \<open>allocuvm\<close> is all or nothing. Either it returns the new size, and every page from the old size
  up to the new one is mapped, writable and accessible to the user, to a frame of zeros taken from
  the allocator; or it returns 0, and none of these pages is mapped, all other entries are as
  before, and every frame it had taken is free again, apart from page tables it added.
\<close>

theorem allocuvm_all_or_nothing:
  assumes inv: "user_inv pgdir (unat SHAREDBASE) fs s" and sz: "oldsz \<le> newsz" "newsz < SHAREDBASE"
    and absent: "\<And>v. unat (PGROUNDUP oldsz) \<le> unat (PGROUNDDOWN v) \<Longrightarrow> unat (PGROUNDDOWN v) < unat newsz \<Longrightarrow>
      \<not> present (pte_val (mem s) pgdir v)"
  shows "ok (allocuvm pgdir oldsz newsz) s (\<lambda>r s'. (\<exists>fs'. user_inv pgdir (unat SHAREDBASE) fs' s') \<and>
     (\<forall>v. \<not> (unat (PGROUNDUP oldsz) \<le> unat (PGROUNDDOWN v) \<and> unat (PGROUNDDOWN v) < unat newsz) \<longrightarrow>
        pte_val (mem s') pgdir v = pte_val (mem s) pgdir v) \<and>
     (r = newsz \<and> (\<forall>v. unat (PGROUNDUP oldsz) \<le> unat (PGROUNDDOWN v) \<longrightarrow> unat (PGROUNDDOWN v) < unat newsz \<longrightarrow>
        (\<exists>f \<in> set fs. pte_val (mem s') pgdir v = V2P f OR (PTE_W OR PTE_U) OR PTE_P \<and>
           (\<forall>x. PGROUNDDOWN x = f \<longrightarrow> mem s' x = 0))) \<or>
      r = 0 \<and> (\<forall>v. unat (PGROUNDUP oldsz) \<le> unat (PGROUNDDOWN v) \<longrightarrow> unat (PGROUNDDOWN v) < unat newsz \<longrightarrow>
        \<not> present (pte_val (mem s') pgdir v)) \<and>
        (\<exists>fs'. kmem_inv fs' s' \<and> set fs' \<union> pt_pages (mem s') pgdir = set fs \<union> pt_pages (mem s) pgdir)))"
proof (rule ok_mono [OF allocuvm_ok [OF inv sz absent]], goal_cases)
  case (3 r s')
  have none: "frames (mem s) pgdir (unat (PGROUNDUP oldsz)) (unat newsz) = {}"
    using absent by (auto simp: frames_def mapped_def)
  from 3 obtain fs' where
    "r = newsz \<and> allocated pgdir (unat SHAREDBASE) (unat (PGROUNDUP oldsz)) (unat newsz) fs s fs' s' \<or>
     r = 0 \<and> given_back pgdir (unat SHAREDBASE) (unat (PGROUNDUP oldsz)) (unat newsz) fs s fs' s'" by blast
  then show ?case
  proof
    assume a: "r = newsz \<and> allocated pgdir (unat SHAREDBASE) (unat (PGROUNDUP oldsz)) (unat newsz) fs s fs' s'"
    then obtain used where u: "fs = used @ fs'" and "user_inv pgdir (unat SHAREDBASE) fs' s'" and
      m: "\<And>v. unat (PGROUNDUP oldsz) \<le> unat (PGROUNDDOWN v) \<Longrightarrow> unat (PGROUNDDOWN v) < unat newsz \<Longrightarrow> \<exists>f \<in> set used.
           pte_val (mem s') pgdir v = V2P f OR (PTE_W OR PTE_U) OR PTE_P \<and> (\<forall>x. PGROUNDDOWN x = f \<longrightarrow> mem s' x = 0)"
      and "\<forall>v. \<not> (unat (PGROUNDUP oldsz) \<le> unat (PGROUNDDOWN v) \<and> unat (PGROUNDDOWN v) < unat newsz) \<longrightarrow>
         pte_val (mem s') pgdir v = pte_val (mem s) pgdir v"
      unfolding allocated_def by blast
    moreover have "\<exists>f \<in> set fs. pte_val (mem s') pgdir v = V2P f OR (PTE_W OR PTE_U) OR PTE_P \<and>
        (\<forall>x. PGROUNDDOWN x = f \<longrightarrow> mem s' x = 0)"
      if "unat (PGROUNDUP oldsz) \<le> unat (PGROUNDDOWN v)" "unat (PGROUNDDOWN v) < unat newsz" for v
      using m [OF that] u by auto
    ultimately show ?thesis using a by (intro conjI disjI1) blast+
  next
    assume b: "r = 0 \<and> given_back pgdir (unat SHAREDBASE) (unat (PGROUNDUP oldsz)) (unat newsz) fs s fs' s'"
    then have gb: "given_back pgdir (unat SHAREDBASE) (unat (PGROUNDUP oldsz)) (unat newsz) fs s fs' s'" by blast
    have inv': "user_inv pgdir (unat SHAREDBASE) fs' s'" using gb unfolding given_back_def by blast
    then have k': "kmem_inv fs' s'" unfolding user_inv_def vm_inv_def by blast
    have f: "set fs' \<union> pt_pages (mem s') pgdir = set fs \<union> pt_pages (mem s) pgdir"
      using gb unfolding given_back_def none Un_empty_right by blast
    have v: "if unat (PGROUNDUP oldsz) \<le> unat (PGROUNDDOWN v) \<and> unat (PGROUNDDOWN v) < unat newsz
        then \<not> present (pte_val (mem s') pgdir v) else pte_val (mem s') pgdir v = pte_val (mem s) pgdir v" for v
      using gb unfolding given_back_def by blast
    have v1: "\<not> present (pte_val (mem s') pgdir v)"
      if "unat (PGROUNDUP oldsz) \<le> unat (PGROUNDDOWN v)" "unat (PGROUNDDOWN v) < unat newsz" for v
      using v [of v] that by simp
    have v2: "pte_val (mem s') pgdir v = pte_val (mem s) pgdir v"
      if "\<not> (unat (PGROUNDUP oldsz) \<le> unat (PGROUNDDOWN v) \<and> unat (PGROUNDDOWN v) < unat newsz)" for v
      using v [of v] that by argo
    from b inv' k' f v1 v2 show ?thesis by (intro conjI disjI2) blast+
  qed
qed auto

theorem allocuvm_all_or_nothing_witness:
  "ok (allocuvm ex_parent 0x3000 0x4000) ex_km (\<lambda>r s'.
     r = 0x4000 \<and> (\<exists>f \<in> set ex_free. pte_val (mem s') ex_parent 0x3000 = V2P f OR (PTE_W OR PTE_U) OR PTE_P) \<or>
     r = 0 \<and> \<not> present (pte_val (mem s') ex_parent 0x3000))"
proof -
  have r: "unat (PGROUNDUP (0x3000 :: uint)) = 0x3000" "PGROUNDDOWN (0x3000 :: uint) = 0x3000"
    by (simp_all add: unat_PGROUNDUP PGROUNDDOWN_aligned aligned_def)
  have "ok (allocuvm ex_parent 0x3000 0x4000) ex_km (\<lambda>r s'. (\<exists>fs'. user_inv ex_parent (unat SHAREDBASE) fs' s') \<and>
     (\<forall>v. \<not> (unat (PGROUNDUP (0x3000 :: uint)) \<le> unat (PGROUNDDOWN v) \<and> unat (PGROUNDDOWN v) < unat (0x4000 :: uint)) \<longrightarrow>
        pte_val (mem s') ex_parent v = pte_val (mem ex_km) ex_parent v) \<and>
     (r = 0x4000 \<and> (\<forall>v. unat (PGROUNDUP (0x3000 :: uint)) \<le> unat (PGROUNDDOWN v) \<longrightarrow> unat (PGROUNDDOWN v) < unat (0x4000 :: uint) \<longrightarrow>
        (\<exists>f \<in> set ex_free. pte_val (mem s') ex_parent v = V2P f OR (PTE_W OR PTE_U) OR PTE_P \<and>
           (\<forall>x. PGROUNDDOWN x = f \<longrightarrow> mem s' x = 0))) \<or>
      r = 0 \<and> (\<forall>v. unat (PGROUNDUP (0x3000 :: uint)) \<le> unat (PGROUNDDOWN v) \<longrightarrow> unat (PGROUNDDOWN v) < unat (0x4000 :: uint) \<longrightarrow>
        \<not> present (pte_val (mem s') ex_parent v)) \<and>
        (\<exists>fs'. kmem_inv fs' s' \<and> set fs' \<union> pt_pages (mem s') ex_parent = set ex_free \<union> pt_pages (mem ex_km) ex_parent)))"
    by (rule allocuvm_all_or_nothing [OF ex_user_inv]) (auto simp: SHAREDBASE_def r ex_km_def ex_present)
  then show ?thesis
  proof (rule ok_mono, goal_cases)
    case (1 r s')
    have "unat (PGROUNDUP (0x3000 :: uint)) \<le> unat (PGROUNDDOWN (0x3000 :: uint))" "unat (PGROUNDDOWN (0x3000 :: uint)) < unat (0x4000 :: uint)"
      by (simp_all add: r)
    with 1 show ?case by blast
  qed
qed

section \<open>Bytes and strings\<close>

text \<open>
  C20: \<open>memmove\<close> copies as if through a temporary: whatever the overlap of the two ranges, each byte
  of the destination gets the value that the corresponding source byte had before the call, and
  no other byte changes. The ranges must not wrap around the end of the address space.
\<close>

theorem memmove_overlap:
  assumes "unat src + unat n < 4294967296" and "unat dst + unat n \<le> 4294967296"
  shows "memmove dst src n m = (\<lambda>x. if unat (x - dst) < unat n then m (src + (x - dst)) else m x)"
  using memmove_apply [OF assms] by (rule ext)

theorem memmove_overlap_witness:
  "memmove 0x1002 0x1000 4 (\<lambda>a. if a = 0x1001 then 7 else 0) 0x1003 = 7"
proof -
  have "memmove 0x1002 0x1000 4 (\<lambda>a. if a = 0x1001 then 7 else 0) =
      (\<lambda>x. if unat (x - 0x1002) < unat (4 :: uint) then (\<lambda>a. if a = 0x1001 then 7 else 0) (0x1000 + (x - 0x1002))
        else if x = 0x1001 then 7 else 0)"
    by (rule memmove_overlap) simp_all
  then show ?thesis by simp
qed

text \<open>
  C21: \<open>memset\<close> fills exactly \<open>n\<close> bytes with the low byte of \<open>c\<close>, whichever of its two paths, word by word
  or byte by byte, it takes.
\<close>

theorem memset_fills: "memset dst c n m = (\<lambda>x. if unat (x - dst) < unat n then ucast c else m x)"
  using memset_apply by (rule ext)

text \<open>
  C23: \<open>strlen\<close> returns on every string that has a terminator, with the position of the first one, and
  \<open>safestrcpy\<close> with a positive bound always leaves a terminator inside the bound.
\<close>

theorem strlen_and_safestrcpy_stop:
  assumes "t k = 0" and "0 < n"
  shows "(\<exists>j \<le> k. strlen t = Some j \<and> t j = 0 \<and> (\<forall>i < j. t i \<noteq> 0)) \<and>
    (\<exists>i < n. i < length (safestrcpy s t n) \<and> safestrcpy s t n ! i = 0)"
proof
  let ?j = "LEAST j. t j = 0"
  have "t ?j = 0" and "?j \<le> k" and "\<forall>i < ?j. t i \<noteq> 0"
    using assms(1) by (auto intro: LeastI Least_le dest: not_less_Least)
  then show "\<exists>j \<le> k. strlen t = Some j \<and> t j = 0 \<and> (\<forall>i < j. t i \<noteq> 0)"
    using strlen_returns [of t ?j] by blast
  show "\<exists>i < n. i < length (safestrcpy s t n) \<and> safestrcpy s t n ! i = 0"
    using assms(2) by (rule safestrcpy_terminated)
qed

theorem strlen_and_safestrcpy_stop_witness:
  "\<exists>j \<le> 3. strlen (arr [104, 105]) = Some j \<and> arr [104, 105] j = 0"
  using strlen_and_safestrcpy_stop [of "arr [104, 105]" 3 1 "[]"] by (auto simp: arr_def)

section \<open>Shared structures\<close>

lemma in_use_find:
  assumes inv: "table_inv sh" and x: "x \<in> set (in_use sh)"
  shows "find (same_name (arr (sh_name x))) sh = Some x"
proof -
  from x obtain i where i: "i < length (in_use sh)" "x = in_use sh ! i" by (auto simp: in_set_conv_nth)
  then have xi: "x = sh ! i" using in_use_nth by metis
  have le: "i < length sh" using i in_use_le [of sh] by linarith
  have "\<forall>y \<in> set (take i sh). \<not> same_name (arr (sh_name x)) y"
  proof
    fix y assume "y \<in> set (take i sh)"
    then obtain j where "j < i" "y = sh ! j" using le by (auto simp: in_set_conv_nth)
    then show "\<not> same_name (arr (sh_name x)) y" unfolding xi using inv i(1) by (simp add: table_inv_def)
  qed
  then have "find (same_name (arr (sh_name x))) (take i sh @ drop i sh) = find (same_name (arr (sh_name x))) (drop i sh)"
    by (rule find_skip)
  moreover have "drop i sh = x # drop (Suc i) sh" using le xi by (metis Cons_nth_drop_Suc)
  moreover have "same_name (arr (sh_name x)) x" by (simp add: same_name_def strncmp_self)
  ultimately show ?thesis using append_take_drop_id [of i sh] by (simp del: append_take_drop_id)
qed

lemma find_prefix: "x \<in> set xs \<Longrightarrow> P x \<Longrightarrow> find P (xs @ ys) = find P xs"
  by (induction xs) auto

lemma find_in_use:
  assumes "table_inv sh" and "x \<in> set (in_use sh)"
  shows "find (same_name (arr (sh_name x))) (in_use sh @ ys) = Some x"
proof -
  have self: "same_name (arr (sh_name x)) x" by (simp add: same_name_def strncmp_self)
  have "find (same_name (arr (sh_name x))) (in_use sh @ drop (length (in_use sh)) sh) = Some x"
    using in_use_find [OF assms] in_use_split [of sh] by simp
  then show ?thesis using find_prefix [of x "in_use sh" "same_name (arr (sh_name x))", OF assms(2) self] by simp
qed

text \<open>
  C4: after a parent has registered a structure successfully, looking its name up gives the
  registered address, and looking up any structure registered before still gives the address it
  had; the table keeps its invariant (ten entries with ten-byte names, those in use first and with
  different names).
\<close>

theorem share_get_roundtrip:
  assumes inv: "table_inv sh" and share: "share_data nm a n 0 sh = (r, sh')" and ok: "0 \<le> r"
  shows "get_data nm sh' = Some a \<and> table_inv sh' \<and>
    (\<forall>x \<in> set (in_use sh). get_data (arr (sh_name x)) sh' = Some (sh_memstart x))"
proof (intro conjI ballI)
  show "get_data nm sh' = Some a" by (rule share_then_get [OF share ok])
  show "table_inv sh'" by (rule share_data_inv [OF inv share])
  fix x assume "x \<in> set (in_use sh)"
  then show "get_data (arr (sh_name x)) sh' = Some (sh_memstart x)"
    using find_in_use [OF inv] share_data_update(1) [OF share ok] by (simp add: get_data_eq)
qed

lemma ex_table_inv: "table_inv ex_shared"
proof -
  have u: "in_use ex_shared = [\<lparr>sh_name = ex_name, sh_memstart = 0x1010, sh_size = 20\<rparr>]"
    by (simp add: ex_shared_def in_use_free)
  show ?thesis by (simp add: table_inv_def u) (simp add: ex_shared_def ex_name_def SHAREDCOUNT_def SHAREDNAME_def)
qed

lemma ex_share: "share_data (arr [112, 97, 116, 104]) 0x2000 8 0 ex_shared =
    (1, \<lparr>sh_name = ex_name, sh_memstart = 0x1010, sh_size = 20\<rparr> #
        \<lparr>sh_name = [112, 97, 116, 104, 0, 0, 0, 0, 0, 0], sh_memstart = 0x2000, sh_size = 8\<rparr> #
        replicate 8 \<lparr>sh_name = replicate 10 0, sh_memstart = 0, sh_size = 0\<rparr>)"
  by code_simp

theorem share_get_roundtrip_witness:
  "get_data (arr [112, 97, 116, 104]) (snd (share_data (arr [112, 97, 116, 104]) 0x2000 8 0 ex_shared)) = Some 0x2000 \<and>
   get_data (arr ex_name) (snd (share_data (arr [112, 97, 116, 104]) 0x2000 8 0 ex_shared)) = Some 0x1010"
  using share_get_roundtrip [OF ex_table_inv ex_share] unfolding ex_share snd_conv
  by (simp add: ex_shared_def del: get_data.simps)

text \<open>
  C17: the result of a registration tells what happened: \<open>-2\<close> exactly when the name is already
  registered, \<open>-3\<close> exactly when it is not and all ten entries are in use, and otherwise the index
  of the entry it was written to; in the first two cases the table is unchanged.
\<close>

theorem share_data_result:
  "fst (share_data nm a n 0 sh) =
     (if \<exists>x \<in> set (in_use sh). same_name nm x then -2
      else if length (in_use sh) = length sh then -3 else int (length (in_use sh))) \<and>
   (fst (share_data nm a n 0 sh) < 0 \<longrightarrow> snd (share_data nm a n 0 sh) = sh)"
  using in_use_le [of sh] by (auto simp: share_data_eq)

theorem share_data_result_witness:
  "fst (share_data (arr ex_name) 0x2000 8 0 ex_shared) = -2 \<and>
   snd (share_data (arr ex_name) 0x2000 8 0 ex_shared) = ex_shared"
proof -
  have "\<exists>x \<in> set (in_use ex_shared). same_name (arr ex_name) x"
    by (simp add: ex_shared_def same_name_def strncmp_self)
  then show ?thesis using share_data_result [of "arr ex_name" "0x2000" 8 ex_shared] by auto
qed



end
