(* ===== verification/SleepWake.thy ===== *)
theory SleepWake
  imports Spinlock
begin

text \<open>
  The protocol of \<open>sleep\<close> and \<open>wakeup\<close> (\<^verbatim>\<open>kernel/proc.c\<close>) as an interleaving of small steps: any
  number of threads wait for a condition that is protected by a lock \<open>lk\<close>, and any number of threads
  establish it. Each acquisition and release of \<open>lk\<close> and of the lock of the process table is a
  step of its own. A waiting thread tests the condition under \<open>lk\<close>, takes the table's lock, releases
  \<open>lk\<close>, marks itself as sleeping and gives up the processor, which releases the table's lock. A waking
  thread sets the condition under \<open>lk\<close> and, still holding it, wakes the sleepers under the table's
  lock, as the callers of \<open>wakeup\<close> in the log, the pipes and the sleep locks do.
\<close>

text \<open>
  Where a thread is: outside; in the loop of the waiter with \<open>lk\<close> (\<open>Test\<close>); in \<open>sleep\<close> before and after
  taking the table's lock, and after releasing \<open>lk\<close>; asleep; made runnable again; past the loop; in the
  waker with \<open>lk\<close>, after setting the condition, in \<open>wakeup\<close> with the table's lock, and after it.
\<close>

datatype thread =
    Outside | Test | Sleep1 | Sleep2 | Asleep | Woken | Through
  | WakeLk | WakeSet | WakeTab | WakeDone

record sleeps =
  z_cond :: bool
  z_lk :: "nat option"
  z_tab :: "nat option"
  z_at :: "nat \<Rightarrow> thread"

definition move :: "nat \<Rightarrow> thread \<Rightarrow> sleeps \<Rightarrow> sleeps" where
  "move t l z = z\<lparr>z_at := (z_at z)(t := l)\<rparr>"

definition wake_all :: "(nat \<Rightarrow> thread) \<Rightarrow> nat \<Rightarrow> thread" where
  "wake_all f = (\<lambda>t. if f t = Asleep then Woken else f t)"

inductive sleep_step :: "sleeps \<Rightarrow> sleeps \<Rightarrow> bool" where
  wait_enter: "z_at z t = Outside \<or> z_at z t = Woken \<Longrightarrow> z_lk z = None \<Longrightarrow>
     sleep_step z (move t Test (z\<lparr>z_lk := Some t\<rparr>))"
| wait_through: "z_at z t = Test \<Longrightarrow> z_cond z \<Longrightarrow> sleep_step z (move t Through (z\<lparr>z_cond := c\<rparr>))"
| wait_leave: "z_at z t = Through \<Longrightarrow> sleep_step z (move t Outside (z\<lparr>z_lk := None\<rparr>))"
| sleep_lock: "z_at z t = Test \<Longrightarrow> \<not> z_cond z \<Longrightarrow> z_tab z = None \<Longrightarrow>
     sleep_step z (move t Sleep1 (z\<lparr>z_tab := Some t\<rparr>))"
| sleep_release: "z_at z t = Sleep1 \<Longrightarrow> sleep_step z (move t Sleep2 (z\<lparr>z_lk := None\<rparr>))"
| sleep_sched: "z_at z t = Sleep2 \<Longrightarrow> sleep_step z (move t Asleep (z\<lparr>z_tab := None\<rparr>))"
| wake_enter: "z_at z t = Outside \<Longrightarrow> z_lk z = None \<Longrightarrow> sleep_step z (move t WakeLk (z\<lparr>z_lk := Some t\<rparr>))"
| wake_set: "z_at z t = WakeLk \<Longrightarrow> sleep_step z (move t WakeSet (z\<lparr>z_cond := True\<rparr>))"
| wake_lock: "z_at z t = WakeSet \<Longrightarrow> z_tab z = None \<Longrightarrow> sleep_step z (move t WakeTab (z\<lparr>z_tab := Some t\<rparr>))"
| wake_scan: "z_at z t = WakeTab \<Longrightarrow>
     sleep_step z (move t WakeDone (z\<lparr>z_tab := None, z_at := wake_all (z_at z)\<rparr>))"
| wake_leave: "z_at z t = WakeDone \<Longrightarrow> sleep_step z (move t Outside (z\<lparr>z_lk := None\<rparr>))"

inductive_cases sleep_stepE: "sleep_step z z'"

definition sleep_init :: "sleeps \<Rightarrow> bool" where
  "sleep_init z \<longleftrightarrow> z_lk z = None \<and> z_tab z = None \<and> (\<forall>t. z_at z t = Outside)"

definition has_lk :: "thread \<Rightarrow> bool" where
  "has_lk l \<longleftrightarrow> l \<in> {Test, Sleep1, Through, WakeLk, WakeSet, WakeTab, WakeDone}"

definition has_tab :: "thread \<Rightarrow> bool" where
  "has_tab l \<longleftrightarrow> l \<in> {Sleep1, Sleep2, WakeTab}"

text \<open>
  The locks are held by the threads that the positions say, a thread that is going to sleep or
  sleeps does so while the condition is false, or a waker that has set it has still to look at the
  sleepers.
\<close>

definition pending :: "sleeps \<Rightarrow> bool" where
  "pending z \<longleftrightarrow> (\<exists>k. z_at z k \<in> {WakeSet, WakeTab})"

definition sleep_inv :: "sleeps \<Rightarrow> bool" where
  "sleep_inv z \<longleftrightarrow> (\<forall>t. has_lk (z_at z t) \<longleftrightarrow> z_lk z = Some t) \<and> (\<forall>t. has_tab (z_at z t) \<longleftrightarrow> z_tab z = Some t) \<and>
     (\<forall>t. z_at z t = Sleep1 \<longrightarrow> \<not> z_cond z) \<and>
     (\<forall>t. z_at z t \<in> {Sleep2, Asleep} \<longrightarrow> \<not> z_cond z \<or> pending z)"

lemma sleep_inv_init: "sleep_init z \<Longrightarrow> sleep_inv z"
  by (simp add: sleep_init_def sleep_inv_def has_lk_def has_tab_def)

lemma sleep_invI:
  assumes "\<And>t. has_lk (z_at z t) \<longleftrightarrow> z_lk z = Some t" "\<And>t. has_tab (z_at z t) \<longleftrightarrow> z_tab z = Some t"
    "\<And>t. z_at z t = Sleep1 \<Longrightarrow> \<not> z_cond z" "\<And>t. z_at z t \<in> {Sleep2, Asleep} \<Longrightarrow> \<not> z_cond z \<or> pending z"
  shows "sleep_inv z"
  unfolding sleep_inv_def using assms by blast

lemma sleep_invD:
  assumes "sleep_inv z"
  shows "has_lk (z_at z t) \<longleftrightarrow> z_lk z = Some t" "has_tab (z_at z t) \<longleftrightarrow> z_tab z = Some t"
    "z_at z t = Sleep1 \<Longrightarrow> \<not> z_cond z" "z_at z t \<in> {Sleep2, Asleep} \<Longrightarrow> z_cond z \<Longrightarrow> pending z"
  using assms unfolding sleep_inv_def by blast+

lemma move_simps [simp]: "z_cond (move t l z) = z_cond z" "z_lk (move t l z) = z_lk z" "z_tab (move t l z) = z_tab z"
  "z_at (move t l z) = (z_at z)(t := l)"
  by (simp_all add: move_def)

lemma has_simps [simp]:
  "has_lk Test" "has_lk Sleep1" "has_lk Through" "has_lk WakeLk" "has_lk WakeSet" "has_lk WakeTab" "has_lk WakeDone"
  "\<not> has_lk Outside" "\<not> has_lk Sleep2" "\<not> has_lk Asleep" "\<not> has_lk Woken"
  "has_tab Sleep1" "has_tab Sleep2" "has_tab WakeTab"
  "\<not> has_tab Outside" "\<not> has_tab Test" "\<not> has_tab Asleep" "\<not> has_tab Woken" "\<not> has_tab Through"
  "\<not> has_tab WakeLk" "\<not> has_tab WakeSet" "\<not> has_tab WakeDone"
  by (simp_all add: has_lk_def has_tab_def)

text \<open>The thread with the lock is the only one, so no waker is pending while another thread has it.\<close>

lemma only_lk: "sleep_inv z \<Longrightarrow> has_lk (z_at z t) \<Longrightarrow> has_lk (z_at z u) \<Longrightarrow> t = u"
  using sleep_invD(1) [of z t] sleep_invD(1) [of z u] by simp

lemma only_tab: "sleep_inv z \<Longrightarrow> has_tab (z_at z t) \<Longrightarrow> has_tab (z_at z u) \<Longrightarrow> t = u"
  using sleep_invD(2) [of z t] sleep_invD(2) [of z u] by simp

text \<open>So a sleeper finds the condition false whenever the lock is free or held by a thread that is
  not about to wake the sleepers.\<close>

lemma sleeper_false:
  assumes inv: "sleep_inv z" and u: "z_at z u \<in> {Sleep2, Asleep}"
    and t: "z_lk z = None \<or> has_lk (z_at z t) \<and> z_at z t \<noteq> WakeSet \<and> z_at z t \<noteq> WakeTab"
  shows "\<not> z_cond z"
proof
  assume "z_cond z"
  then obtain k where k: "z_at z k = WakeSet \<or> z_at z k = WakeTab"
    using sleep_invD(4) [OF inv u] unfolding pending_def by blast
  then have "has_lk (z_at z k)" by auto
  then have "z_lk z = Some k" using sleep_invD(1) [OF inv] by blast
  with t k show False using sleep_invD(1) [OF inv, of t] by auto
qed

text \<open>A move of thread \<open>t\<close> from a position to one with the same locks or with the locks changed alike.\<close>

lemma sleep_inv_move:
  assumes inv: "sleep_inv z" and at: "z_at z' = (z_at z)(t := l)"
    and lk: "if has_lk l then z_lk z' = Some t \<and> (z_lk z = None \<or> z_lk z = Some t)
             else if has_lk (z_at z t) then z_lk z' = None else z_lk z' = z_lk z"
    and tab: "if has_tab l then z_tab z' = Some t \<and> (z_tab z = None \<or> z_tab z = Some t)
             else if has_tab (z_at z t) then z_tab z' = None else z_tab z' = z_tab z"
    and s1: "l = Sleep1 \<Longrightarrow> \<not> z_cond z'" "\<And>u. u \<noteq> t \<Longrightarrow> z_at z u = Sleep1 \<Longrightarrow> \<not> z_cond z'"
    and s2: "\<And>u. u = t \<and> l \<in> {Sleep2, Asleep} \<or> u \<noteq> t \<and> z_at z u \<in> {Sleep2, Asleep} \<Longrightarrow> z_cond z' \<Longrightarrow>
        l \<in> {WakeSet, WakeTab} \<or> (\<exists>k. k \<noteq> t \<and> z_at z k \<in> {WakeSet, WakeTab})"
  shows "sleep_inv z'"
proof (rule sleep_invI)
  note D = sleep_invD(1,2) [OF inv]
  show "has_lk (z_at z' u) \<longleftrightarrow> z_lk z' = Some u" for u
    using lk D(1) [of u] D(1) [of t] by (cases "u = t") (auto simp: at split: if_splits)
  show "has_tab (z_at z' u) \<longleftrightarrow> z_tab z' = Some u" for u
    using tab D(2) [of u] D(2) [of t] by (cases "u = t") (auto simp: at split: if_splits)
  show "z_at z' u = Sleep1 \<Longrightarrow> \<not> z_cond z'" for u
    using s1(1) s1(2) [of u] by (cases "u = t") (simp_all add: at)
  show "z_at z' u \<in> {Sleep2, Asleep} \<Longrightarrow> \<not> z_cond z' \<or> pending z'" for u
    using s2 [of u] by (cases "u = t") (auto simp: pending_def at)
qed

lemma others_sleep1: "sleep_inv z \<Longrightarrow> z_at z u = Sleep1 \<Longrightarrow> u \<noteq> t \<Longrightarrow> has_lk (z_at z t) \<Longrightarrow> False"
  using only_lk [of z t u] by auto

lemma sleep_inv_scan:
  assumes inv: "sleep_inv z" and t: "z_at z t = WakeTab"
  shows "sleep_inv (move t WakeDone (z\<lparr>z_tab := None, z_at := wake_all (z_at z)\<rparr>))"
proof (rule sleep_invI)
  let ?z = "move t WakeDone (z\<lparr>z_tab := None, z_at := wake_all (z_at z)\<rparr>)"
  note D = sleep_invD(1,2) [OF inv]
  have w: "has_lk (wake_all (z_at z) u) = has_lk (z_at z u)" "has_tab (wake_all (z_at z) u) = has_tab (z_at z u)" for u
    by (simp_all add: wake_all_def)
  show "has_lk (z_at ?z u) \<longleftrightarrow> z_lk ?z = Some u" for u
    using D(1) [of u] t by (cases "u = t") (simp_all add: w)
  have tab: "has_tab (z_at z u) \<Longrightarrow> u = t" for u using only_tab [OF inv, of u t] t by simp
  then show "has_tab (z_at ?z u) \<longleftrightarrow> z_tab ?z = Some u" for u
    by (cases "u = t") (auto simp: w)
  show "z_at ?z u = Sleep1 \<Longrightarrow> \<not> z_cond ?z" for u
    using tab [of u] by (cases "u = t") (auto simp: wake_all_def split: if_splits)
  show "z_at ?z u \<in> {Sleep2, Asleep} \<Longrightarrow> \<not> z_cond ?z \<or> pending ?z" for u
    using tab [of u] by (cases "u = t") (auto simp: wake_all_def split: if_splits)
qed

lemma sleep_inv_step:
  assumes inv: "sleep_inv z" and step: "sleep_step z z'"
  shows "sleep_inv z'"
proof -
  note D = sleep_invD(1,2) [OF inv]
  note F = sleeper_false [OF inv]
  note S = others_sleep1 [OF inv]
  note N = sleep_invD(3) [OF inv]
  from step show ?thesis
  proof cases
    case (wait_enter t)
    show ?thesis by (rule sleep_inv_move [OF inv, of _ t Test]) (use wait_enter F [of _ t] N in auto)
  next
    case (wait_through t c)
    have no: "z_at z u \<notin> {Sleep2, Asleep}" for u using F [of u t] wait_through by auto
    show ?thesis
      by (rule sleep_inv_move [OF inv, of _ t Through]) (use wait_through no S [of _ t] D(1) [of t] in auto)
  next
    case (wait_leave t)
    show ?thesis by (rule sleep_inv_move [OF inv, of _ t Outside]) (use wait_leave F [of _ t] N in auto)
  next
    case (sleep_lock t)
    show ?thesis by (rule sleep_inv_move [OF inv, of _ t Sleep1]) (use sleep_lock D(1) [of t] in auto)
  next
    case (sleep_release t)
    show ?thesis by (rule sleep_inv_move [OF inv, of _ t Sleep2]) (use sleep_release N [of t] D(2) [of t] in auto)
  next
    case (sleep_sched t)
    have p: "z_cond z \<Longrightarrow> \<exists>k. k \<noteq> t \<and> z_at z k \<in> {WakeSet, WakeTab}"
      using sleep_invD(4) [OF inv, of t] sleep_sched unfolding pending_def by force
    show ?thesis by (rule sleep_inv_move [OF inv, of _ t Asleep]) (use sleep_sched p N in auto)
  next
    case (wake_enter t)
    show ?thesis by (rule sleep_inv_move [OF inv, of _ t WakeLk]) (use wake_enter F [of _ t] N in auto)
  next
    case (wake_set t)
    show ?thesis by (rule sleep_inv_move [OF inv, of _ t WakeSet]) (use wake_set S [of _ t] D(1) [of t] in auto)
  next
    case (wake_lock t)
    show ?thesis by (rule sleep_inv_move [OF inv, of _ t WakeTab]) (use wake_lock D(1) [of t] N in auto)
  next
    case (wake_scan t)
    then show ?thesis using sleep_inv_scan [OF inv] by simp
  next
    case (wake_leave t)
    show ?thesis by (rule sleep_inv_move [OF inv, of _ t Outside]) (use wake_leave F [of _ t] N in auto)
  qed
qed

interpretation sleeping: invariant_system sleep_init sleep_step sleep_inv
  by unfold_locales (auto intro: sleep_inv_init sleep_inv_step)

end
