(* ===== verification/SchedProps.thy ===== *)
theory SchedProps
  imports Smp Gates SleepWake Example
begin

text \<open>
  Properties of the processors: interrupt bookkeeping and spinlocks (\<^verbatim>\<open>kernel/spinlock.c\<close>), the
  scheduler, \<open>sleep\<close>, \<open>wakeup\<close> and \<open>kill\<close> (\<^verbatim>\<open>kernel/proc.c\<close>) and the interrupt table
  (\<^verbatim>\<open>kernel/trap.c\<close>).
\<close>

section \<open>Interrupts and spinlocks\<close>

text \<open>
  C22: matched calls of \<open>pushcli\<close> and \<open>popcli\<close>, nested to any depth, give back the interrupt flag and
  the depth they found, interrupts stay off inside an outer \<open>pushcli\<close>, and a \<open>popcli\<close> without a
  \<open>pushcli\<close> panics.
\<close>

theorem cli_nesting:
  assumes "cli_inv c"
  shows "ok (nested n) c (\<lambda>_ c'. cpu_if c' = cpu_if c \<and> cpu_ncli c' = cpu_ncli c) \<and>
    ok (seqk pushcli (nested n)) c (\<lambda>_ c'. \<not> cpu_if c' \<and> cpu_ncli c' = cpu_ncli c + 1) \<and>
    (cpu_ncli c = 0 \<longrightarrow> (\<exists>msg. popcli c = Stop (Panic msg)))"
proof (intro conjI)
  show "ok (nested n) c (\<lambda>_ c'. cpu_if c' = cpu_if c \<and> cpu_ncli c' = cpu_ncli c)"
    by (rule ok_mono [OF nested_balanced [OF assms]]) simp
  have "ok (nested n) (pushed c) (\<lambda>_ c'. \<not> cpu_if c' \<and> cpu_ncli c' = cpu_ncli c + 1)"
    by (rule ok_mono [OF nested_balanced [OF cli_inv_pushed [OF assms]]]) simp
  then show "ok (seqk pushcli (nested n)) c (\<lambda>_ c'. \<not> cpu_if c' \<and> cpu_ncli c' = cpu_ncli c + 1)"
    by (simp add: wp)
qed (simp add: popcli_eq)

theorem cli_nesting_witness:
  "ok (nested 3) (pcpu ex_sys) (\<lambda>_ c'. cpu_if c' \<and> cpu_ncli c' = 0) \<and>
   ok (seqk pushcli (nested 3)) (pcpu ex_sys) (\<lambda>_ c'. \<not> cpu_if c' \<and> cpu_ncli c' = 1) \<and>
   (\<exists>msg. popcli (pcpu ex_sys) = Stop (Panic msg))"
  using cli_nesting [of "pcpu ex_sys" 3] by (simp add: cli_inv_def ex_sys_def)

text \<open>
  C13: the concrete \<open>acquire\<close> and \<open>release\<close>, with the \<open>locked\<close> word, the holding processor, the saved call
  stack and the interrupt depth, do to the view of a lock (free, held here, held elsewhere) exactly what
  the abstract lock operations do, in every state and with every panic.
\<close>

theorem spinlock_refines:
  assumes "cli_inv (sp_cpu s)"
  shows "lift_view me (spin_acquire me frame s) = abs_acquire (view me s, sp_cpu s) \<and>
    (0 < cpu_ncli (sp_cpu s) \<longrightarrow> lift_view me (spin_release me s) = abs_release (view me s, sp_cpu s))"
  using spin_acquire_refines [OF assms] spin_release_refines [OF assms] by blast

definition ex_spin :: spin where
  "ex_spin = \<lparr>sp_lk = \<lparr>lk_locked = 1, lk_cpu = Some 0, lk_pcs = replicate 10 0\<rparr>,
     sp_cpu = \<lparr>cpu_apicid = 0, cpu_ncli = 1, cpu_intena = True, cpu_if = False\<rparr>, sp_mem = ex_mem\<rparr>"

theorem spinlock_refines_witness:
  "lift_view 0 (spin_acquire 0 0x80500F00 ex_spin) = Stop (Panic ''acquire'') \<and>
   lift_view 1 (spin_acquire 1 0x80500F00 ex_spin) = Stop Spin \<and>
   lift_view 0 (spin_release 0 ex_spin) =
     Done () (Unlocked, \<lparr>cpu_apicid = 0, cpu_ncli = 0, cpu_intena = True, cpu_if = True\<rparr>)"
  using spinlock_refines [of ex_spin 0 "0x80500F00"] spinlock_refines [of ex_spin 1 "0x80500F00"]
  by (simp add: ex_spin_def cli_inv_def view_def abs_acquire_eq abs_release_eq popped_def)

text \<open>
  C3: whatever the interleaving of the processors, in which only \<open>xchg\<close> is atomic, at most one
  processor is between the \<open>xchg\<close> of \<open>acquire\<close> that returned 0 and the store of \<open>release\<close>, and
  \<open>holding\<close> is true on exactly the processor in the critical section.
\<close>

theorem mutual_exclusion:
  assumes "reaches spin_init spin_step w"
  shows "(inside (w_loc w c) \<longrightarrow> inside (w_loc w d) \<longrightarrow> c = d) \<and> (w_holding c w \<longleftrightarrow> w_loc w c = Crit)"
proof -
  have "spin_inv w" using assms by (rule spin.reachable_inv)
  then show ?thesis by (auto simp: spin_inv_def w_holding_def inside_def)
qed

definition ex_spins :: spins where
  "ex_spins = \<lparr>w_locked = True, w_cpu = Some 1, w_loc = (\<lambda>_. Out)(1 := Crit, 0 := Want)\<rparr>"

lemma ex_spins_reach: "reaches spin_init spin_step ex_spins"
proof -
  let ?z = "\<lparr>w_locked = False, w_cpu = None, w_loc = (\<lambda>_. Out)\<rparr>"
  let ?a = "?z\<lparr>w_loc := (w_loc ?z)(1 := Want)\<rparr>"
  let ?b = "?a\<lparr>w_loc := (w_loc ?a)(0 := Want)\<rparr>"
  let ?c = "?b\<lparr>w_locked := True, w_loc := (w_loc ?b)(1 := Got)\<rparr>"
  let ?d = "?c\<lparr>w_cpu := Some 1, w_loc := (w_loc ?c)(1 := Crit)\<rparr>"
  have "reaches spin_init spin_step ?z" by (rule reaches_init) (simp add: spin_init_def)
  then have "reaches spin_init spin_step ?a" by (rule reaches_step) (rule want, simp_all add: w_holding_def)
  then have "reaches spin_init spin_step ?b" by (rule reaches_step) (rule want, simp_all add: w_holding_def)
  then have "reaches spin_init spin_step ?c" by (rule reaches_step) (rule xchg_0, simp_all)
  then have "reaches spin_init spin_step ?d" by (rule reaches_step) (rule set_cpu, simp)
  moreover have "?d = ex_spins" by (auto simp: ex_spins_def)
  ultimately show ?thesis by metis
qed

theorem mutual_exclusion_witness:
  "reaches spin_init spin_step ex_spins \<and> w_holding 1 ex_spins \<and> \<not> inside (w_loc ex_spins 0)"
  using ex_spins_reach mutual_exclusion [OF ex_spins_reach, of 0 1] mutual_exclusion [OF ex_spins_reach, of 1 1]
  by (simp add: inside_def ex_spins_def)

section \<open>Processes and processors\<close>

text \<open>
  C6: whatever the processors do, a process is \<open>RUNNING\<close> exactly when a processor runs it, no two
  processors are ever on the same kernel stack, and a processor that has given up its process or
  is choosing one holds the lock of the process table.
\<close>

theorem one_processor_per_process:
  assumes "reaches smp_init smp_step w"
  shows "(i < length (sm_procs w) \<longrightarrow> p_state (sm_procs w ! i) = RUNNING \<longleftrightarrow> (\<exists>c. runs (sm_mode w c) = Some i)) \<and>
    (on_stack (sm_mode w c) = Some i \<longrightarrow> on_stack (sm_mode w d) = Some i \<longrightarrow> c = d) \<and>
    (sm_mode w c \<in> {Loop, Picked i, Gone i} \<longrightarrow> sm_lock w = Some c)"
proof -
  have inv: "smp_inv w" using assms by (rule smp.reachable_inv)
  show ?thesis
    using smp_invD(3) [OF inv, of i] smp_invD(4) [OF inv, of c i d] smp_invD(1) [OF inv, of c] by auto
qed

definition ex_smp :: smp where
  "ex_smp = \<lparr>sm_procs = [ex_proc\<lparr>p_state := RUNNING\<rparr>], sm_mode = (\<lambda>_. Idle)(0 := Picked 0), sm_lock = Some 0\<rparr>"

lemma ex_smp_reach: "reaches smp_init smp_step ex_smp"
proof -
  let ?z = "\<lparr>sm_procs = [ex_proc\<lparr>p_state := RUNNABLE\<rparr>], sm_mode = (\<lambda>_. Idle), sm_lock = None\<rparr>"
  let ?a = "?z\<lparr>sm_mode := (sm_mode ?z)(0 := Loop), sm_lock := Some 0\<rparr>"
  let ?b = "?a\<lparr>sm_mode := (sm_mode ?a)(0 := Picked 0), sm_procs := set_state 0 RUNNING (sm_procs ?a)\<rparr>"
  have "reaches smp_init smp_step ?z" by (rule reaches_init) (simp add: smp_init_def)
  then have "reaches smp_init smp_step ?a" by (rule reaches_step) (rule take, simp_all)
  then have "reaches smp_init smp_step ?b" by (rule reaches_step) (rule pick, simp_all)
  moreover have "?b = ex_smp" by (simp add: ex_smp_def set_state_def to_state_def)
  ultimately show ?thesis by metis
qed

theorem one_processor_per_process_witness:
  "reaches smp_init smp_step ex_smp \<and> (\<exists>c. runs (sm_mode ex_smp c) = Some 0) \<and> on_stack (sm_mode ex_smp 1) \<noteq> Some 0"
  using ex_smp_reach one_processor_per_process [OF ex_smp_reach, of 0 0 1]
  by (simp add: ex_smp_def)


text \<open>A process that comes back from \<open>yield\<close> and yields again at once is well behaved.\<close>

definition yields :: "nat \<Rightarrow> (psys, unit) kop" where
  "yields i = seqk (yield_back True) (bnd yield_out (\<lambda>_. ret ()))"

lemma yields_well_behaved: "well_behaved yields"
  unfolding well_behaved_def
proof (intro allI impI)
  fix i s
  assume a: "sched_ok s" "i < length (procs s)" "curproc s = Some i" "p_state (procs s ! i) = RUNNING"
    "p_kstack (procs s ! i) \<noteq> 0" "p_pgdir (procs s ! i) \<noteq> 0"
  show "ok (yields i) s (\<lambda>_ s'. keeps_runnable i s s')"
    using a unfolding yields_def yield_back_def yield_out_def sched_back_def sched_def
    by (auto simp: wp sched_ok_def settled_def keeps_runnable_def switchable_def nth_list_update
        dest!: set_update_subset_insert [THEN subsetD])
qed


text \<open>
  C7: no wakeup is lost. In every interleaving of threads that wait for a condition with \<open>sleep\<close> and
  threads that establish it and call \<open>wakeup\<close>, a thread that sleeps while the condition holds will be
  looked at by a waker that has not finished its scan; once no waker is active and the lock is
  free, no thread sleeps on a true condition.
\<close>

theorem no_lost_wakeup:
  assumes "reaches sleep_init sleep_step z" and "z_at z t = Asleep" and "z_cond z"
  shows "(\<exists>k. z_at z k \<in> {WakeSet, WakeTab} \<and> z_lk z = Some k) \<and>
    (z_at z k = WakeTab \<longrightarrow> sleep_step z z' \<longrightarrow> z_at z' k = WakeDone \<longrightarrow> z_at z' t = Woken)"
proof -
  have inv: "sleep_inv z" using assms(1) by (rule sleeping.reachable_inv)
  obtain j where j: "z_at z j \<in> {WakeSet, WakeTab}"
    using sleep_invD(4) [OF inv, of t] assms unfolding pending_def by auto
  then have "z_lk z = Some j" using sleep_invD(1) [OF inv, of j] by auto
  moreover have "z_at z' t = Woken" if "z_at z k = WakeTab" "sleep_step z z'" "z_at z' k = WakeDone"
    using that(2) by cases (use that(1,3) assms(2) in \<open>auto simp: wake_all_def split: if_splits\<close>)
  ultimately show ?thesis using j by blast
qed

definition ex_sleeps :: sleeps where
  "ex_sleeps = \<lparr>z_cond = True, z_lk = Some 1, z_tab = Some 1, z_at = (\<lambda>_. Outside)(0 := Asleep, 1 := WakeTab)\<rparr>"

lemma ex_sleeps_reach: "reaches sleep_init sleep_step ex_sleeps"
proof -
  let ?z = "\<lparr>z_cond = False, z_lk = None, z_tab = None, z_at = (\<lambda>_. Outside)\<rparr>"
  let ?a = "move 0 Test (?z\<lparr>z_lk := Some 0\<rparr>)"
  let ?b = "move 0 Sleep1 (?a\<lparr>z_tab := Some 0\<rparr>)"
  let ?c = "move 0 Sleep2 (?b\<lparr>z_lk := None\<rparr>)"
  let ?d = "move 0 Asleep (?c\<lparr>z_tab := None\<rparr>)"
  let ?e = "move 1 WakeLk (?d\<lparr>z_lk := Some 1\<rparr>)"
  let ?f = "move 1 WakeSet (?e\<lparr>z_cond := True\<rparr>)"
  let ?g = "move 1 WakeTab (?f\<lparr>z_tab := Some 1\<rparr>)"
  have "reaches sleep_init sleep_step ?z" by (rule reaches_init) (simp add: sleep_init_def)
  then have "reaches sleep_init sleep_step ?a" by (rule reaches_step) (rule wait_enter, simp_all)
  then have "reaches sleep_init sleep_step ?b" by (rule reaches_step) (rule sleep_lock, simp_all)
  then have "reaches sleep_init sleep_step ?c" by (rule reaches_step) (rule sleep_release, simp_all)
  then have "reaches sleep_init sleep_step ?d" by (rule reaches_step) (rule sleep_sched, simp_all)
  then have "reaches sleep_init sleep_step ?e" by (rule reaches_step) (rule wake_enter, simp_all)
  then have "reaches sleep_init sleep_step ?f" by (rule reaches_step) (rule wake_set, simp_all)
  then have "reaches sleep_init sleep_step ?g" by (rule reaches_step) (rule wake_lock, simp_all)
  moreover have "?g = ex_sleeps" by (auto simp: move_def ex_sleeps_def)
  ultimately show ?thesis by metis
qed

theorem no_lost_wakeup_witness:
  "z_at ex_sleeps 0 = Asleep \<and> z_cond ex_sleeps \<and> (\<exists>k. z_at ex_sleeps k \<in> {WakeSet, WakeTab} \<and> z_lk ex_sleeps = Some k) \<and>
   z_at (move 1 WakeDone (ex_sleeps\<lparr>z_tab := None, z_at := wake_all (z_at ex_sleeps)\<rparr>)) 0 = Woken"
proof -
  let ?z = "move 1 WakeDone (ex_sleeps\<lparr>z_tab := None, z_at := wake_all (z_at ex_sleeps)\<rparr>)"
  have "z_at ex_sleeps 0 = Asleep" "z_cond ex_sleeps" "z_at ex_sleeps 1 = WakeTab" by (simp_all add: ex_sleeps_def)
  then show ?thesis
    using no_lost_wakeup [OF ex_sleeps_reach, of 0 1 ?z] wake_scan [of ex_sleeps 1] by simp
qed



text \<open>
  C24: the interrupt table has a present gate for every vector, pointing at that vector's entry point,
  and the gate of the system call is the only one that a user program may call.
\<close>

theorem only_syscall_gate:
  assumes "i < 256"
  shows "gate_present (tvinit vectors ! i) \<and> gate_off (tvinit vectors ! i) = vectors i \<and>
    (gate_dpl (tvinit vectors ! i) = DPL_USER \<longleftrightarrow> i = 64) \<and> (gate_dpl (tvinit vectors ! i) = 0 \<longleftrightarrow> i \<noteq> 64)"
proof -
  have d: "take_bit 2 (if i = 64 then DPL_USER else 0) = (if i = 64 then DPL_USER else 0 :: uint64)"
    by (simp add: DPL_USER_def take_bit_eq_mask mask_eq_exp_minus_1)
  show ?thesis
    using assms by (simp add: tvinit_nth gate_present_SETGATE [OF d] gate_off_SETGATE [OF d] gate_dpl_SETGATE [OF d])
      (simp add: DPL_USER_def)
qed

theorem only_syscall_gate_witness:
  "gate_off (tvinit (\<lambda>i. 0x80105000 + 8 * of_nat i) ! 14) = 0x80105070 \<and>
   gate_dpl (tvinit (\<lambda>i. 0x80105000 + 8 * of_nat i) ! 14) = 0 \<and>
   gate_dpl (tvinit (\<lambda>i. 0x80105000 + 8 * of_nat i) ! 64) = DPL_USER"
  using only_syscall_gate [of 14 "\<lambda>i. 0x80105000 + 8 * of_nat i"] only_syscall_gate [of 64 "\<lambda>i. 0x80105000 + 8 * of_nat i"]
  by simp

end
