(* ===== verification/Sleeplock.thy ===== *)
theory Sleeplock
  imports FsDefs
begin

text \<open>
  What the sleep locks of \<^verbatim>\<open>kernel/sleeplock.c\<close> do, once for every place of the state that holds one:
  the locale \<open>sleeplock_at\<close> takes the selector and the update of the lock with their laws. The buffers
  and the inodes interpret it.
\<close>

section \<open>A process in the kernel\<close>

text \<open>
  A process runs in the kernel, does not hold the lock of the process table, and the interrupt flag
  that the outermost \<open>popcli\<close> restores is the current one; that is so after any matched pair.
\<close>

definition cli_calm :: "cpu \<Rightarrow> bool" where
  "cli_calm c \<longleftrightarrow> cli_inv c \<and> (cpu_ncli c = 0 \<longrightarrow> cpu_intena c = cpu_if c)"

definition calm :: "psys \<Rightarrow> bool" where
  "calm p \<longleftrightarrow> ptable_lock p = Unlocked \<and> cli_calm (pcpu p) \<and>
     (case curproc p of None \<Rightarrow> False | Some i \<Rightarrow> i < length (procs p))"

definition mypid :: "psys \<Rightarrow> uint" where
  "mypid p = p_pid (procs p ! the (curproc p))"

definition no_sleeper :: "chan \<Rightarrow> psys \<Rightarrow> bool" where
  "no_sleeper ch p \<longleftrightarrow> (\<forall>q\<in>set (procs p). \<not> (p_state q = SLEEPING \<and> p_chan q = ch))"

lemma popped_pushed:
  assumes "cli_calm c"
  shows "popped (pushed c) = c" "popped (pushed (pushed c)) = pushed c"
  using assms popped_pushed_deep [of c] popped_pushed_deep [of "pushed c"] cli_inv_pushed [of c]
  by (cases "cpu_ncli c = 0"; auto simp: cli_calm_def cli_inv_def pushed_def popped_def intro!: cpu.equality)+

lemma cli_calm_depth: "cli_calm c \<Longrightarrow> 0 \<le> cpu_ncli c"
  by (simp add: cli_calm_def cli_inv_def)

lemma calm_cur: "calm p \<Longrightarrow> cur p = Done (procs p ! the (curproc p)) p"
  by (auto simp: calm_def cur_def myproc_def get_proc_def bnd_def gets_def ret_def split: option.splits)

lemma wakeup_none: "no_sleeper ch p \<Longrightarrow> map (woken ch) (procs p) = procs p"
  by (auto simp: no_sleeper_def woken_def intro!: map_idI)

lemma f_acquire_eq: "f_acquire get put s = (let s' = s\<lparr>ps := (ps s)\<lparr>pcpu := pushed (pcpu (ps s))\<rparr>\<rparr> in
    case get s' of Unlocked \<Rightarrow> Done () (put Mine s') | Mine \<Rightarrow> Stop (Panic ''acquire'') | Theirs \<Rightarrow> Stop Spin)"
  by (simp add: f_acquire_def seqk_def bnd_def psop_def cpuop_def zoom_def pushcli_eq acquire_def Let_def split: lockview.split)

lemma f_release_eq:
  assumes "get s = Mine" "pcpu (ps (put Unlocked s)) = pushed c" "0 \<le> cpu_ncli c"
  shows "f_release get put s = Done () (let t = put Unlocked s in t\<lparr>ps := (ps t)\<lparr>pcpu := popped (pushed c)\<rparr>\<rparr>)"
  using assms by (simp add: f_release_def seqk_def bnd_def psop_def cpuop_def zoom_def popcli_eq release_def Let_def)

lemma wakeup_eq:
  assumes "ptable_lock p = Unlocked" "0 \<le> cpu_ncli (pcpu p)"
  shows "wakeup ch p = Done () (p\<lparr>procs := map (woken ch) (procs p), pcpu := popped (pushed (pcpu p))\<rparr>)"
  using assms by (simp add: wakeup_def wakeup1_def lock_ptable_def unlock_ptable_def seqk_def bnd_def cpuop_def zoom_def
      pushcli_eq popcli_eq acquire_def release_def upd_def)

section \<open>The lock\<close>

locale sleeplock_at =
  fixes get :: "fsys \<Rightarrow> sleeplock" and put :: "sleeplock \<Rightarrow> fsys \<Rightarrow> fsys" and dfn :: "fsys \<Rightarrow> bool"
  assumes get_put: "dfn s \<Longrightarrow> get (put l s) = l"
    and put_put: "put l (put l' s) = put l s"
    and put_get: "put (get s) s = s"
    and get_ps: "get (s\<lparr>ps := p\<rparr>) = get s"
    and put_ps: "put l (s\<lparr>ps := p\<rparr>) = (put l s)\<lparr>ps := p\<rparr>"
    and ps_put: "ps (put l s) = ps s"
    and dfn_put: "dfn (put l s) = dfn s"
    and dfn_ps: "dfn (s\<lparr>ps := p\<rparr>) = dfn s"
begin

lemma put_same_ps: "(put l s)\<lparr>ps := ps s\<rparr> = put l s"
  using put_ps [of l "ps s" s] by simp

lemmas laws = put_same_ps get_put put_put put_get get_ps put_ps ps_put dfn_put dfn_ps

lemma sl_acquire_eq:
  "dfn s \<Longrightarrow> sl_lk (get s) = Unlocked \<Longrightarrow> sl_acquire get put s =
     Done () (put ((get s)\<lparr>sl_lk := Mine\<rparr>) (s\<lparr>ps := (ps s)\<lparr>pcpu := pushed (pcpu (ps s))\<rparr>\<rparr>))"
  by (simp add: sl_acquire_def f_acquire_eq laws)

lemma sl_release_eq:
  "dfn s \<Longrightarrow> sl_lk (get s) = Mine \<Longrightarrow> pcpu (ps s) = pushed c \<Longrightarrow> cli_calm c \<Longrightarrow> sl_release get put s =
     Done () (put ((get s)\<lparr>sl_lk := Unlocked\<rparr>) (s\<lparr>ps := (ps s)\<lparr>pcpu := c\<rparr>\<rparr>))"
  unfolding sl_release_def
  by (subst f_release_eq [where c = c]) (simp_all add: laws cli_calm_depth popped_pushed Let_def)

lemma holdingsleep_eq:
  assumes "calm (ps s)" "dfn s" "sl_lk (get s) = Unlocked"
  shows "holdingsleep get put s = Done (sl_locked (get s) \<and> sl_pid (get s) = mypid (ps s)) s"
proof -
  have c: "cli_calm (pcpu (ps s))" using assms by (simp add: calm_def)
  let ?p = "(ps s)\<lparr>pcpu := pushed (pcpu (ps s))\<rparr>"
  have cp: "cur ?p = Done (procs (ps s) ! the (curproc (ps s))) ?p"
    using assms by (auto simp: calm_def cur_def myproc_def get_proc_def bnd_def gets_def ret_def split: option.splits)
  have l: "(get s)\<lparr>sl_lk := Mine, sl_lk := Unlocked\<rparr> = get s" using assms(3) by (cases "get s") simp
  show ?thesis
    using assms c
    by (simp add: holdingsleep_def seqk_def bnd_def sl_acquire_eq gets_def psop_def zoom_def ret_def laws cp mypid_def
        sl_release_eq [of _ "pcpu (ps s)"] l)
qed

lemma acquiresleep_eq:
  assumes "calm (ps s)" "dfn s" "sl_lk (get s) = Unlocked" "\<not> sl_locked (get s)"
  shows "acquiresleep ch get put s = Done () (put \<lparr>sl_locked = True, sl_lk = Unlocked, sl_pid = mypid (ps s)\<rparr> s)"
proof -
  have c: "cli_calm (pcpu (ps s))" using assms by (simp add: calm_def)
  let ?p = "(ps s)\<lparr>pcpu := pushed (pcpu (ps s))\<rparr>"
  have cp: "cur ?p = Done (procs (ps s) ! the (curproc (ps s))) ?p"
    using assms by (auto simp: calm_def cur_def myproc_def get_proc_def bnd_def gets_def ret_def split: option.splits)
  have l: "(get s)\<lparr>sl_locked := True, sl_pid := x, sl_lk := Unlocked\<rparr> = \<lparr>sl_locked = True, sl_lk = Unlocked, sl_pid = x\<rparr>" for x
    by (cases "get s") simp
  show ?thesis
    using assms c
    by (simp add: acquiresleep_def seqk_def bnd_def sl_acquire_eq gets_def psop_def zoom_def upd_def laws cp mypid_def
        sl_release_eq [of _ "pcpu (ps s)"] l)
qed

lemma releasesleep_eq:
  assumes "calm (ps s)" "dfn s" "sl_lk (get s) = Unlocked"
  shows "releasesleep ch get put s = Done () ((put \<lparr>sl_locked = False, sl_lk = Unlocked, sl_pid = 0\<rparr> s)
     \<lparr>ps := (ps s)\<lparr>procs := map (woken ch) (procs (ps s))\<rparr>\<rparr>)"
proof -
  have c: "cli_calm (pcpu (ps s))" "ptable_lock (ps s) = Unlocked" using assms by (simp_all add: calm_def)
  have l: "(get s)\<lparr>sl_locked := False, sl_pid := 0, sl_lk := Unlocked\<rparr> = \<lparr>sl_locked = False, sl_lk = Unlocked, sl_pid = 0\<rparr>"
    by (cases "get s") simp
  show ?thesis
    using assms c
    by (simp add: releasesleep_def seqk_def bnd_def sl_acquire_eq psop_def zoom_def upd_def laws wakeup_eq
        cli_calm_depth popped_pushed sl_release_eq [of _ "pcpu (ps s)"] l)
qed

end

end
