(* ===== verification/BlockSpec.thy ===== *)
theory BlockSpec
  imports Prelude
begin

text \<open>
  The contract between a block cache and its clients. A state is seen through the record \<open>blocks\<close>: the
  contents of each block, the blocks that must not be evicted, what the disk stores, the writes that
  have reached the disk, the capacity of the cache, the number of blocks and the rest of the state.
  A client reads a block into a buffer it then holds, looks at it or changes it, writes it
  through, and releases it.
\<close>

record 'r blocks =
  v_blk :: "uint \<Rightarrow> uchar list"
  v_pins :: "uint set"
  v_disk :: "uint \<Rightarrow> uchar list"
  v_writes :: "(uint \<times> uchar list) list"
  v_nbufs :: nat
  v_nblocks :: nat
  v_rest :: 'r

text \<open>The effect of a write of \<open>d\<close> to block \<open>b\<close> through to the disk.\<close>

definition written :: "uint \<Rightarrow> uchar list \<Rightarrow> 'r blocks \<Rightarrow> 'r blocks" where
  "written b d v = v\<lparr>v_blk := (v_blk v)(b := d), v_pins := v_pins v - {b}, v_disk := (v_disk v)(b := d),
     v_writes := v_writes v @ [(b, d)]\<rparr>"

lemma written_simps [simp]:
  "v_blk (written b d v) = (v_blk v)(b := d)" "v_pins (written b d v) = v_pins v - {b}"
  "v_disk (written b d v) = (v_disk v)(b := d)" "v_writes (written b d v) = v_writes v @ [(b, d)]"
  "v_nbufs (written b d v) = v_nbufs v" "v_nblocks (written b d v) = v_nblocks v" "v_rest (written b d v) = v_rest v"
  by (simp_all add: written_def)

definition fits :: "nat \<Rightarrow> uint \<Rightarrow> 'r blocks \<Rightarrow> bool" where
  "fits n b v \<longleftrightarrow> unat b < v_nblocks v \<and> (b \<in> v_pins v \<or> n + card (v_pins v) < v_nbufs v)"

lemma ok_bndI: "ok m s P \<Longrightarrow> (\<And>x s'. P x s' \<Longrightarrow> ok (f x) s' Q) \<Longrightarrow> ok (bnd m f) s Q"
  by (auto simp: ok_bnd elim: ok_mono)

lemma ok_seqkI: "ok m s P \<Longrightarrow> (\<And>x s'. P x s' \<Longrightarrow> ok k s' Q) \<Longrightarrow> ok (seqk m k) s Q"
  by (auto simp: ok_seqk elim: ok_mono)

locale block_cache =
  fixes inv :: "nat set \<Rightarrow> 's \<Rightarrow> bool" and vw :: "'s \<Rightarrow> 'r blocks" and bno :: "'s \<Rightarrow> nat \<Rightarrow> uint"
    and rd :: "uint \<Rightarrow> ('s, nat) kop" and dat :: "nat \<Rightarrow> ('s, uchar list) kop"
    and setd :: "nat \<Rightarrow> uchar list \<Rightarrow> ('s, unit) kop"
    and wr :: "nat \<Rightarrow> ('s, unit) kop" and rel :: "nat \<Rightarrow> ('s, unit) kop"
  assumes rd_ok: "inv H s \<Longrightarrow> b \<notin> bno s ` H \<Longrightarrow> fits (card H) b (vw s) \<Longrightarrow>
      ok (rd b) s (\<lambda>i s'. i \<notin> H \<and> inv (insert i H) s' \<and> bno s' i = b \<and> (\<forall>j\<in>H. bno s' j = bno s j) \<and> vw s' = vw s)"
    and dat_eq: "inv H s \<Longrightarrow> i \<in> H \<Longrightarrow> dat i s = Done (v_blk (vw s) (bno s i)) s"
    and setd_ok: "inv H s \<Longrightarrow> i \<in> H \<Longrightarrow>
      ok (setd i d) s (\<lambda>_ s'. inv H s' \<and> bno s' = bno s \<and> vw s' = (vw s)\<lparr>v_blk := (v_blk (vw s))(bno s i := d)\<rparr>)"
    and wr_ok: "inv H s \<Longrightarrow> i \<in> H \<Longrightarrow> unat (bno s i) < v_nblocks (vw s) \<Longrightarrow>
      ok (wr i) s (\<lambda>_ s'. inv H s' \<and> bno s' = bno s \<and> vw s' = written (bno s i) (v_blk (vw s) (bno s i)) (vw s))"
    and rel_ok: "inv H s \<Longrightarrow> i \<in> H \<Longrightarrow>
      bno s i \<in> v_pins (vw s) \<or> v_blk (vw s) (bno s i) = v_disk (vw s) (bno s i) \<Longrightarrow>
      ok (rel i) s (\<lambda>_ s'. inv (H - {i}) s' \<and> bno s' = bno s \<and> vw s' = vw s)"
    and clean_held: "inv H s \<Longrightarrow> b \<notin> bno s ` H \<Longrightarrow> b \<notin> v_pins (vw s) \<Longrightarrow> v_blk (vw s) b = v_disk (vw s) b"
begin

lemma clean: "inv {} s \<Longrightarrow> b \<notin> v_pins (vw s) \<Longrightarrow> v_blk (vw s) b = v_disk (vw s) b"
  using clean_held [of "{}"] by simp

text \<open>
  Reading a block and releasing it, with the buffers \<open>H\<close> held, changes nothing a client can see.
\<close>

lemma read_held:
  assumes s: "inv H s" "b \<notin> bno s ` H" "fits (card H) b (vw s)"
    and k: "\<And>x s'. x \<notin> H \<Longrightarrow> inv (insert x H) s' \<Longrightarrow> bno s' x = b \<Longrightarrow> \<forall>j\<in>H. bno s' j = bno s j \<Longrightarrow> vw s' = vw s \<Longrightarrow>
      ok (k x (v_blk (vw s) b)) s' Q"
  shows "ok (bnd (rd b) (\<lambda>x. bnd (dat x) (k x))) s Q"
proof (rule ok_bndI [OF rd_ok [OF s]])
  fix x s1 assume 1: "x \<notin> H \<and> inv (insert x H) s1 \<and> bno s1 x = b \<and> (\<forall>j\<in>H. bno s1 j = bno s j) \<and> vw s1 = vw s"
  have d: "dat x s1 = Done (v_blk (vw s) b) s1" using dat_eq [of "insert x H" s1 x] 1 by simp
  show "ok (bnd (dat x) (k x)) s1 Q"
    using k [of x s1] 1 by (simp add: ok_bnd ok_def [of "dat x"] d)
qed

lemma rel_held:
  assumes "x \<notin> H" "inv (insert x H) s" "bno s x = b" "b \<in> v_pins (vw s) \<or> v_blk (vw s) b = v_disk (vw s) b"
  shows "ok (rel x) s (\<lambda>_ s'. inv H s' \<and> bno s' = bno s \<and> vw s' = vw s)"
  by (rule ok_mono [OF rel_ok [OF assms(2)]]) (use assms in \<open>auto simp: insert_Diff_if\<close>)

lemma read_block:
  assumes s: "inv H s" "b \<notin> bno s ` H" "fits (card H) b (vw s)"
  shows "ok (bnd (rd b) (\<lambda>x. bnd (dat x) (\<lambda>d. seqk (rel x) (ret (f d))))) s
    (\<lambda>d s'. d = f (v_blk (vw s) b) \<and> inv H s' \<and> (\<forall>j\<in>H. bno s' j = bno s j) \<and> vw s' = vw s)"
proof (rule read_held [OF s])
  fix x s1 assume 1: "x \<notin> H" "inv (insert x H) s1" "bno s1 x = b" "\<forall>j\<in>H. bno s1 j = bno s j" "vw s1 = vw s"
  show "ok (seqk (rel x) (ret (f (v_blk (vw s) b)))) s1
    (\<lambda>d s'. d = f (v_blk (vw s) b) \<and> inv H s' \<and> (\<forall>j\<in>H. bno s' j = bno s j) \<and> vw s' = vw s)"
    unfolding ok_seqk ok_ret
    by (rule ok_mono [OF rel_held [OF 1(1-3)]]) (use 1 clean_held [OF s(1,2)] in auto)
qed

text \<open>Changing a block by \<open>f\<close> and writing it through.\<close>

lemma write_block:
  assumes s: "inv H s" "b \<notin> bno s ` H" "fits (card H) b (vw s)"
  shows "ok (bnd (rd b) (\<lambda>x. bnd (dat x) (\<lambda>d. seqk (setd x (f d)) (seqk (wr x) (rel x))))) s
    (\<lambda>_ s'. inv H s' \<and> (\<forall>j\<in>H. bno s' j = bno s j) \<and> vw s' = written b (f (v_blk (vw s) b)) (vw s))"
proof (rule read_held [OF s])
  let ?d = "f (v_blk (vw s) b)"
  let ?Q = "\<lambda>_ s'. inv H s' \<and> (\<forall>j\<in>H. bno s' j = bno s j) \<and> vw s' = written b ?d (vw s)"
  fix x s1 assume 1: "x \<notin> H" "inv (insert x H) s1" "bno s1 x = b" "\<forall>j\<in>H. bno s1 j = bno s j" "vw s1 = vw s"
  show "ok (seqk (setd x ?d) (seqk (wr x) (rel x))) s1 ?Q"
  proof (rule ok_seqkI [OF setd_ok [OF 1(2)]])
    fix u s2 assume 2: "inv (insert x H) s2 \<and> bno s2 = bno s1 \<and> vw s2 = (vw s1)\<lparr>v_blk := (v_blk (vw s1))(bno s1 x := ?d)\<rparr>"
    show "ok (seqk (wr x) (rel x)) s2 ?Q"
    proof (rule ok_seqkI [OF wr_ok [of "insert x H"]])
      fix u s3
      assume 3: "inv (insert x H) s3 \<and> bno s3 = bno s2 \<and> vw s3 = written (bno s2 x) (v_blk (vw s2) (bno s2 x)) (vw s2)"
      then have v: "vw s3 = written b ?d (vw s)" using 1 2 by (simp add: written_def)
      show "ok (rel x) s3 ?Q"
        by (rule ok_mono [OF rel_held [OF 1(1)]]) (use 1 2 3 v in auto)
    qed (use 1 2 s in \<open>auto simp: fits_def\<close>)
  qed simp
qed

text \<open>Two blocks held at once, one copied to the other.\<close>

lemma read_two:
  assumes "inv {} s" "fits 0 a (vw s)" "fits 1 b (vw s)" "a \<noteq> b"
    and k: "\<And>x y s'. x \<noteq> y \<Longrightarrow> inv {x, y} s' \<Longrightarrow> bno s' x = a \<Longrightarrow> bno s' y = b \<Longrightarrow> vw s' = vw s \<Longrightarrow> ok (k x y) s' Q"
  shows "ok (bnd (rd a) (\<lambda>x. bnd (rd b) (k x))) s Q"
proof (rule ok_bndI)
  show "ok (rd a) s (\<lambda>x s'. inv {x} s' \<and> bno s' x = a \<and> vw s' = vw s)"
    by (rule ok_mono [OF rd_ok [OF assms(1)]]) (use assms(2) in auto)
next
  fix x s1 assume 1: "inv {x} s1 \<and> bno s1 x = a \<and> vw s1 = vw s"
  show "ok (bnd (rd b) (k x)) s1 Q"
  proof (rule ok_bndI [OF rd_ok [of "{x}"]])
    fix y s2 assume "y \<notin> {x} \<and> inv (insert y {x}) s2 \<and> bno s2 y = b \<and> (\<forall>j\<in>{x}. bno s2 j = bno s1 j) \<and> vw s2 = vw s1"
    then show "ok (k x y) s2 Q" using k [of x y s2] 1 by (auto simp: insert_commute)
  qed (use 1 assms in auto)
qed

lemma copy_held:
  assumes "inv {x, y} s" "x \<noteq> y" "bno s x = a" "bno s y = b" "a \<noteq> b" "unat b < v_nblocks (vw s)"
    and a: "a \<in> v_pins (vw s) \<or> v_blk (vw s) a = v_disk (vw s) a"
  shows "ok (bnd (dat x) (\<lambda>d. seqk (setd y d) (seqk (wr y) (seqk (rel x) (rel y))))) s
     (\<lambda>_ s'. inv {} s' \<and> vw s' = written b (v_blk (vw s) a) (vw s))"
proof -
  let ?d = "v_blk (vw s) a"
  have "ok (setd y ?d) s (\<lambda>_ s'. ok (seqk (wr y) (seqk (rel x) (rel y))) s'
      (\<lambda>_ s'. inv {} s' \<and> vw s' = written b ?d (vw s)))"
  proof (rule ok_mono [OF setd_ok [of "{x, y}"]])
    fix u s2 assume 2: "inv {x, y} s2 \<and> bno s2 = bno s \<and> vw s2 = (vw s)\<lparr>v_blk := (v_blk (vw s))(bno s y := ?d)\<rparr>"
    show "ok (seqk (wr y) (seqk (rel x) (rel y))) s2 (\<lambda>_ s'. inv {} s' \<and> vw s' = written b ?d (vw s))"
    proof (rule ok_seqkI [OF wr_ok [of "{x, y}"]])
      fix u s3
      assume 3: "inv {x, y} s3 \<and> bno s3 = bno s2 \<and> vw s3 = written (bno s2 y) (v_blk (vw s2) (bno s2 y)) (vw s2)"
      then have v: "vw s3 = written b ?d (vw s)" using 2 assms by (simp add: written_def)
      show "ok (seqk (rel x) (rel y)) s3 (\<lambda>_ s'. inv {} s' \<and> vw s' = written b ?d (vw s))"
      proof (rule ok_seqkI [OF rel_ok [of "{x, y}"]])
        fix u s4 assume 4: "inv ({x, y} - {x}) s4 \<and> bno s4 = bno s3 \<and> vw s4 = vw s3"
        have "{x, y} - {x} = {y}" using assms(2) by auto
        then show "ok (rel y) s4 (\<lambda>_ s'. inv {} s' \<and> vw s' = written b ?d (vw s))"
          by (intro ok_mono [OF rel_ok [of "{y}"]]) (use 2 3 4 v assms(4) in auto)
      qed (use 2 3 v a assms in auto)
    qed (use 2 assms in auto)
  qed (use assms in auto)
  then show ?thesis
    using assms dat_eq [of "{x, y}" s x] by (simp add: ok_bnd ok_Done_eq ok_seqk)
qed

lemma copy_forward:
  assumes s: "inv {} s" "fits 0 a (vw s)" "fits 1 b (vw s)" "a \<noteq> b"
  shows "ok (bnd (rd a) (\<lambda>x. bnd (rd b) (\<lambda>y. bnd (dat x) (\<lambda>d. seqk (setd y d) (seqk (wr y) (seqk (rel x) (rel y))))))) s
     (\<lambda>_ s'. inv {} s' \<and> vw s' = written b (v_blk (vw s) a) (vw s))"
proof (rule read_two [OF s])
  fix x y s'
  assume 1: "x \<noteq> y" "inv {x, y} s'" "bno s' x = a" "bno s' y = b" "vw s' = vw s"
  then show "ok (bnd (dat x) (\<lambda>d. seqk (setd y d) (seqk (wr y) (seqk (rel x) (rel y))))) s'
     (\<lambda>_ s'. inv {} s' \<and> vw s' = written b (v_blk (vw s) a) (vw s))"
    using copy_held [of x y s' a b] s clean [OF s(1), of a] by (auto simp: fits_def)
qed

lemma copy_back:
  assumes s: "inv {} s" "fits 0 a (vw s)" "fits 1 b (vw s)" "a \<noteq> b"
  shows "ok (bnd (rd a) (\<lambda>x. bnd (rd b) (\<lambda>y. bnd (dat y) (\<lambda>d. seqk (setd x d) (seqk (wr x) (seqk (rel y) (rel x))))))) s
     (\<lambda>_ s'. inv {} s' \<and> vw s' = written a (v_blk (vw s) b) (vw s))"
proof (rule read_two [OF s])
  fix x y s'
  assume 1: "x \<noteq> y" "inv {x, y} s'" "bno s' x = a" "bno s' y = b" "vw s' = vw s"
  then show "ok (bnd (dat y) (\<lambda>d. seqk (setd x d) (seqk (wr x) (seqk (rel y) (rel x))))) s'
     (\<lambda>_ s'. inv {} s' \<and> vw s' = written a (v_blk (vw s) b) (vw s))"
    using copy_held [of y x s' b a] s clean [OF s(1), of b] by (auto simp: fits_def insert_commute)
qed

end

text \<open>
  A cache with a log: instead of writing a held block through, a client may record it in the current
  transaction, which pins it. \<open>lroom\<close> says that the log has room for one more block.
\<close>

definition logged :: "(uint \<Rightarrow> 'r \<Rightarrow> 'r) \<Rightarrow> uint \<Rightarrow> uchar list \<Rightarrow> 'r blocks \<Rightarrow> 'r blocks" where
  "logged rec b d v = v\<lparr>v_blk := (v_blk v)(b := d), v_pins := insert b (v_pins v), v_rest := rec b (v_rest v)\<rparr>"

locale logged_cache = block_cache +
  fixes lw :: "nat \<Rightarrow> ('s, unit) kop" and rec :: "uint \<Rightarrow> 'r \<Rightarrow> 'r" and lroom :: "'r \<Rightarrow> bool"
  assumes lw_ok: "inv H s \<Longrightarrow> i \<in> H \<Longrightarrow> lroom (v_rest (vw s)) \<Longrightarrow>
      ok (lw i) s (\<lambda>_ s'. inv H s' \<and> bno s' = bno s \<and>
        vw s' = (vw s)\<lparr>v_pins := insert (bno s i) (v_pins (vw s)), v_rest := rec (bno s i) (v_rest (vw s))\<rparr>)"
begin

lemma log_held:
  assumes 1: "x \<notin> H" "inv (insert x H) s1" "bno s1 x = b" "lroom (v_rest (vw s1))"
  shows "ok (seqk (setd x d) (seqk (lw x) (rel x))) s1 (\<lambda>_ s'. inv H s' \<and> bno s' = bno s1 \<and> vw s' = logged rec b d (vw s1))"
proof (rule ok_seqkI [OF setd_ok [OF 1(2)]])
  let ?Q = "\<lambda>_ s'. inv H s' \<and> bno s' = bno s1 \<and> vw s' = logged rec b d (vw s1)"
  fix u s2 assume 2: "inv (insert x H) s2 \<and> bno s2 = bno s1 \<and> vw s2 = (vw s1)\<lparr>v_blk := (v_blk (vw s1))(bno s1 x := d)\<rparr>"
  show "ok (seqk (lw x) (rel x)) s2 ?Q"
  proof (rule ok_seqkI [OF lw_ok [of "insert x H"]])
    fix u s3
    assume 3: "inv (insert x H) s3 \<and> bno s3 = bno s2 \<and>
      vw s3 = (vw s2)\<lparr>v_pins := insert (bno s2 x) (v_pins (vw s2)), v_rest := rec (bno s2 x) (v_rest (vw s2))\<rparr>"
    then have v: "vw s3 = logged rec b d (vw s1)" using 1 2 by (simp add: logged_def)
    show "ok (rel x) s3 ?Q"
      by (rule ok_mono [OF rel_held [OF 1(1)]]) (use 1 2 3 v in \<open>auto simp: logged_def\<close>)
  qed (use 1 2 in auto)
qed simp

lemma log_block:
  assumes s: "inv H s" "b \<notin> bno s ` H" "fits (card H) b (vw s)" and r: "lroom (v_rest (vw s))"
  shows "ok (bnd (rd b) (\<lambda>x. bnd (dat x) (\<lambda>d. seqk (setd x (f d)) (seqk (lw x) (rel x))))) s
    (\<lambda>_ s'. inv H s' \<and> (\<forall>j\<in>H. bno s' j = bno s j) \<and> vw s' = logged rec b (f (v_blk (vw s) b)) (vw s))"
proof (rule read_held [OF s])
  fix x s1 assume 1: "x \<notin> H" "inv (insert x H) s1" "bno s1 x = b" "\<forall>j\<in>H. bno s1 j = bno s j" "vw s1 = vw s"
  show "ok (seqk (setd x (f (v_blk (vw s) b))) (seqk (lw x) (rel x))) s1
    (\<lambda>_ s'. inv H s' \<and> (\<forall>j\<in>H. bno s' j = bno s j) \<and> vw s' = logged rec b (f (v_blk (vw s) b)) (vw s))"
    by (rule ok_mono [OF log_held [OF 1(1-3)]]) (use 1 r in auto)
qed

end

end
