(* ===== verification/Cache.thy ===== *)
theory Cache
  imports Bio Sleeplock BlockSpec
begin

text \<open>
  The buffer cache as its clients see it. \<open>blk s b\<close> is the contents of block \<open>b\<close>, from the cache or from
  the disk, and \<open>pinned s\<close> the blocks whose buffers are dirty. \<open>cache_inv H s\<close> is the invariant of the
  cache while the running process has the buffers \<open>H\<close> locked and no other process uses one. The
  locale \<open>block_cache\<close> is the contract between the cache and the log; it is interpreted on the
  operations of \<open>Bio\<close>.
\<close>

section \<open>The view\<close>

definition blk :: "fsys \<Rightarrow> uint \<Rightarrow> uchar list" where
  "blk s b = (case find_cached 1 b (bufs s) (lru s) of
      None \<Rightarrow> disk s b
    | Some i \<Rightarrow> if b_valid (bufs s ! i) then b_data (bufs s ! i) else disk s b)"

definition pinned :: "fsys \<Rightarrow> uint set" where
  "pinned s = b_blockno ` set (filter b_dirty (bufs s))"

definition mine :: "fsys \<Rightarrow> sleeplock" where
  "mine s = \<lparr>sl_locked = True, sl_lk = Unlocked, sl_pid = mypid (ps s)\<rparr>"

definition buf_ok :: "nat set \<Rightarrow> fsys \<Rightarrow> nat \<Rightarrow> bool" where
  "buf_ok H s i = (let b = bufs s ! i in
     sl_lk (b_lock b) = Unlocked \<and> (sl_locked (b_lock b) \<longleftrightarrow> i \<in> H) \<and>
     (i \<in> H \<longrightarrow> b_lock b = mine s \<and> b_refcnt b = 1 \<and> b_valid b \<and> b_dev b = 1) \<and>
     (i \<notin> H \<longrightarrow> b_refcnt b = 0) \<and>
     (b_dirty b \<longrightarrow> b_valid b \<and> b_dev b = 1) \<and>
     (i \<notin> H \<longrightarrow> b_valid b \<longrightarrow> \<not> b_dirty b \<longrightarrow> b_dev b = 1 \<longrightarrow> b_data b = disk s (b_blockno b)))"

definition lists_ok :: "buf list \<Rightarrow> nat list \<Rightarrow> bool" where
  "lists_ok bs l \<longleftrightarrow> distinct l \<and> set l = {..<length bs} \<and>
     (\<forall>i<length bs. \<forall>j<length bs. b_dev (bs ! i) = 1 \<longrightarrow> b_dev (bs ! j) = 1 \<longrightarrow>
        b_blockno (bs ! i) = b_blockno (bs ! j) \<longrightarrow> i = j)"

definition cache_inv :: "nat set \<Rightarrow> fsys \<Rightarrow> bool" where
  "cache_inv H s \<longleftrightarrow> calm (ps s) \<and> (\<forall>i. no_sleeper (ChanBufLock i) (ps s)) \<and> bcache_lock s = Unlocked \<and>
     lists_ok (bufs s) (lru s) \<and> H \<subseteq> {..<length (bufs s)} \<and> (\<forall>i<length (bufs s). buf_ok H s i)"

lemma set_buf_lock_twice: "set_buf_lock i l (set_buf_lock i l' s) = set_buf_lock i l s"
  by (cases "i < length (bufs s)") (simp_all add: set_buf_lock_def set_buf_def list_update_beyond)

interpretation buflock: sleeplock_at "buf_lock i" "set_buf_lock i" "\<lambda>s. i < length (bufs s)" for i
  by unfold_locales (simp_all add: set_buf_lock_twice, simp_all add: buf_lock_def set_buf_lock_def set_buf_def)

section \<open>Lookups\<close>

lemma find_cached_Some:
  "find_cached d b bs l = Some i \<Longrightarrow> i \<in> set l \<and> b_dev (bs ! i) = d \<and> b_blockno (bs ! i) = b"
  by (induction l) (auto split: if_splits)

lemma find_cached_None:
  "find_cached d b bs l = None \<longleftrightarrow> (\<forall>i\<in>set l. \<not> (b_dev (bs ! i) = d \<and> b_blockno (bs ! i) = b))"
  by (induction l) auto

lemma find_unused_Some:
  "find_unused bs l = Some i \<Longrightarrow> i \<in> set l \<and> b_refcnt (bs ! i) = 0 \<and> \<not> b_dirty (bs ! i)"
  by (induction l) (auto split: if_splits)

lemma find_unused_None:
  "find_unused bs l = None \<longleftrightarrow> (\<forall>i\<in>set l. \<not> (b_refcnt (bs ! i) = 0 \<and> \<not> b_dirty (bs ! i)))"
  by (induction l) auto

lemma cache_invD:
  assumes "cache_inv H s"
  shows "calm (ps s)" "no_sleeper (ChanBufLock i) (ps s)" "bcache_lock s = Unlocked" "lists_ok (bufs s) (lru s)"
    "i \<in> H \<Longrightarrow> i < length (bufs s)" "i < length (bufs s) \<Longrightarrow> buf_ok H s i"
  using assms by (auto simp: cache_inv_def)

lemma buf_okD:
  assumes "buf_ok H s i"
  shows "sl_lk (b_lock (bufs s ! i)) = Unlocked" "sl_locked (b_lock (bufs s ! i)) \<longleftrightarrow> i \<in> H"
    "i \<in> H \<Longrightarrow> b_lock (bufs s ! i) = mine s" "i \<in> H \<Longrightarrow> b_refcnt (bufs s ! i) = 1"
    "i \<in> H \<Longrightarrow> b_valid (bufs s ! i)" "i \<in> H \<Longrightarrow> b_dev (bufs s ! i) = 1"
    "i \<notin> H \<Longrightarrow> b_refcnt (bufs s ! i) = 0"
    "b_dirty (bufs s ! i) \<Longrightarrow> b_valid (bufs s ! i)" "b_dirty (bufs s ! i) \<Longrightarrow> b_dev (bufs s ! i) = 1"
    "i \<notin> H \<Longrightarrow> b_valid (bufs s ! i) \<Longrightarrow> \<not> b_dirty (bufs s ! i) \<Longrightarrow> b_dev (bufs s ! i) = 1 \<Longrightarrow>
       b_data (bufs s ! i) = disk s (b_blockno (bufs s ! i))"
  using assms by (simp_all add: buf_ok_def Let_def)

lemma find_cached_iff:
  assumes "lists_ok bs l"
  shows "find_cached 1 b bs l = Some i \<longleftrightarrow> i < length bs \<and> b_dev (bs ! i) = 1 \<and> b_blockno (bs ! i) = b"
proof
  assume "find_cached 1 b bs l = Some i"
  then show "i < length bs \<and> b_dev (bs ! i) = 1 \<and> b_blockno (bs ! i) = b"
    using find_cached_Some [of 1 b bs l i] assms by (auto simp: lists_ok_def)
next
  assume i: "i < length bs \<and> b_dev (bs ! i) = 1 \<and> b_blockno (bs ! i) = b"
  then have "i \<in> set l" using assms by (simp add: lists_ok_def)
  with i have "find_cached 1 b bs l \<noteq> None" unfolding find_cached_None by blast
  then obtain j where j: "find_cached 1 b bs l = Some j" by blast
  then have "j < length bs \<and> b_dev (bs ! j) = 1 \<and> b_blockno (bs ! j) = b"
    using find_cached_Some [of 1 b bs l j] assms by (auto simp: lists_ok_def)
  then have "j = i" using assms i unfolding lists_ok_def by blast
  with j show "find_cached 1 b bs l = Some i" by simp
qed

lemma blk_cached:
  assumes "lists_ok (bufs s) (lru s)" "i < length (bufs s)" "b_dev (bufs s ! i) = 1" "b_blockno (bufs s ! i) = b"
  shows "blk s b = (if b_valid (bufs s ! i) then b_data (bufs s ! i) else disk s b)"
proof -
  have "find_cached 1 b (bufs s) (lru s) = Some i" using assms by (simp add: find_cached_iff)
  then show ?thesis by (simp add: blk_def)
qed

lemma blk_uncached:
  assumes "lists_ok (bufs s) (lru s)"
    and "\<And>i. i < length (bufs s) \<Longrightarrow> b_dev (bufs s ! i) = 1 \<Longrightarrow> b_blockno (bufs s ! i) \<noteq> b"
  shows "blk s b = disk s b"
proof -
  have "find_cached 1 b (bufs s) (lru s) = None"
    using assms by (auto simp: find_cached_None lists_ok_def)
  then show ?thesis by (simp add: blk_def)
qed

lemma in_pinned: "b \<in> pinned s \<longleftrightarrow> (\<exists>i<length (bufs s). b_dirty (bufs s ! i) \<and> b_blockno (bufs s ! i) = b)"
  by (auto simp: pinned_def in_set_conv_nth)

section \<open>The operations\<close>

lemma lock_bcache_eq:
  "bcache_lock s = Unlocked \<Longrightarrow> lock_bcache s =
     Done () (s\<lparr>ps := (ps s)\<lparr>pcpu := pushed (pcpu (ps s))\<rparr>, bcache_lock := Mine\<rparr>)"
  by (simp add: lock_bcache_def f_acquire_eq)

lemma unlock_bcache_eq:
  "bcache_lock s = Mine \<Longrightarrow> pcpu (ps s) = pushed c \<Longrightarrow> cli_calm c \<Longrightarrow> unlock_bcache s =
     Done () (s\<lparr>ps := (ps s)\<lparr>pcpu := c\<rparr>, bcache_lock := Unlocked\<rparr>)"
  unfolding unlock_bcache_def by (subst f_release_eq [where c = c]) (simp_all add: cli_calm_depth popped_pushed Let_def)

lemma calm_cli: "calm p \<Longrightarrow> cli_calm (pcpu p)"
  by (simp add: calm_def)

lemma set_buf_set_buf: "set_buf i f (set_buf i g s) = set_buf i (\<lambda>b. f (g b)) s" if "i < length (bufs s)"
  using that by (simp add: set_buf_def)

lemma set_buf_cong: "f (bufs s ! i) = g (bufs s ! i) \<Longrightarrow> set_buf i f s = set_buf i g s"
  by (simp add: set_buf_def)

lemma set_buf_simps [simp]:
  "ps (set_buf i f s) = ps s" "lru (set_buf i f s) = lru s" "bcache_lock (set_buf i f s) = bcache_lock s"
  "disk (set_buf i f s) = disk s" "disksize (set_buf i f s) = disksize s" "length (bufs (set_buf i f s)) = length (bufs s)"
  "log (set_buf i f s) = log s" "dwrites (set_buf i f s) = dwrites s"
  "inodes (set_buf i f s) = inodes s" "sb (set_buf i f s) = sb s" "icache_lock (set_buf i f s) = icache_lock s"
  by (simp_all add: set_buf_def)

lemma bufs_set_buf: "i < length (bufs s) \<Longrightarrow> bufs (set_buf i f s) ! j = (if j = i then f (bufs s ! i) else bufs s ! j)"
  by (simp add: set_buf_def nth_list_update)

text \<open>Taking the sleep lock of a buffer that nobody has locked, and asking for it.\<close>

lemma buf_acquiresleep_eq:
  assumes "calm (ps s)" "i < length (bufs s)" "sl_lk (b_lock (bufs s ! i)) = Unlocked" "\<not> sl_locked (b_lock (bufs s ! i))"
  shows "buf_acquiresleep i s = Done () (set_buf i (\<lambda>b. b\<lparr>b_lock := mine s\<rparr>) s)"
  using buflock.acquiresleep_eq [of s i "ChanBufLock i"] assms
  by (simp add: buf_acquiresleep_def buf_lock_def set_buf_lock_def mine_def)

lemma buf_holdingsleep_eq:
  assumes "calm (ps s)" "i < length (bufs s)" "b_lock (bufs s ! i) = mine s"
  shows "buf_holdingsleep i s = Done True s"
  using buflock.holdingsleep_eq [of s i] assms by (simp add: buf_holdingsleep_def buf_lock_def mine_def)

lemma buf_releasesleep_eq:
  assumes "calm (ps s)" "no_sleeper (ChanBufLock i) (ps s)" "i < length (bufs s)" "b_lock (bufs s ! i) = mine s"
  shows "buf_releasesleep i s = Done () (set_buf i (\<lambda>b. b\<lparr>b_lock := \<lparr>sl_locked = False, sl_lk = Unlocked, sl_pid = 0\<rparr>\<rparr>) s)"
  using buflock.releasesleep_eq [of s i "ChanBufLock i"] assms
  by (simp add: buf_releasesleep_def buf_lock_def set_buf_lock_def mine_def wakeup_none)

lemma get_buf_eq: "i < length (bufs s) \<Longrightarrow> get_buf i s = Done (bufs s ! i) s"
  by (simp add: get_buf_def bnd_def gets_def ret_def)

lemma bget_found:
  assumes inv: "cache_inv H s" and c: "find_cached 1 b (bufs s) (lru s) = Some i" and i: "i \<notin> H"
  shows "bget 1 b s = Done i (set_buf i (\<lambda>x. x\<lparr>b_refcnt := 1, b_lock := mine s\<rparr>) s)"
proof -
  note I = cache_invD [OF inv]
  have li: "i < length (bufs s)" using c find_cached_iff [OF I(4)] by blast
  have ok: "buf_ok H s i" using I(6) [OF li] .
  let ?s = "set_buf i (\<lambda>x. x\<lparr>b_refcnt := 1\<rparr>) s"
  have a: "buf_acquiresleep i ?s = Done () (set_buf i (\<lambda>b. b\<lparr>b_lock := mine ?s\<rparr>) ?s)"
    using I(1) li buf_okD(1,2) [OF ok] i by (intro buf_acquiresleep_eq) (simp_all add: bufs_set_buf)
  have r: "set_buf i (\<lambda>x. x\<lparr>b_refcnt := b_refcnt x + 1\<rparr>) s = ?s"
    using buf_okD(7) [OF ok i] by (simp add: set_buf_def)
  have st: "(s\<lparr>ps := ps s, bcache_lock := Unlocked\<rparr>) = s" using I(3) by simp
  have u: "unlock_bcache (set_buf i f (s\<lparr>ps := (ps s)\<lparr>pcpu := pushed (pcpu (ps s))\<rparr>, bcache_lock := Mine\<rparr>)) =
      Done () (set_buf i f s)" for f
    using calm_cli [OF I(1)] I(3) by (subst unlock_bcache_eq [where c = "pcpu (ps s)"]) (simp_all add: set_buf_def)
  show ?thesis
    unfolding bget_def using I(3) c a r li
    by (simp add: seqk_def bnd_def lock_bcache_eq gets_def upd_buf_def upd_def ret_def u mine_def set_buf_set_buf)
qed

lemma bget_evicts:
  assumes inv: "cache_inv H s" and c: "find_cached 1 b (bufs s) (lru s) = None"
    and f: "find_unused (bufs s) (rev (lru s)) = Some i"
  shows "bget 1 b s = Done i (set_buf i (\<lambda>x. x\<lparr>b_dev := 1, b_blockno := b, b_valid := False, b_dirty := False,
     b_refcnt := 1, b_lock := mine s\<rparr>) s)"
proof -
  note I = cache_invD [OF inv]
  have li: "i < length (bufs s)" and r0: "b_refcnt (bufs s ! i) = 0"
    using find_unused_Some [OF f] I(4) by (auto simp: lists_ok_def)
  have ok: "buf_ok H s i" using I(6) [OF li] .
  have i: "i \<notin> H" using buf_okD(4) [OF ok] r0 by auto
  let ?f = "\<lambda>x. x\<lparr>b_dev := 1, b_blockno := b, b_valid := False, b_dirty := False, b_refcnt := 1\<rparr>"
  have a: "buf_acquiresleep i (set_buf i ?f s) = Done () (set_buf i (\<lambda>b. b\<lparr>b_lock := mine (set_buf i ?f s)\<rparr>) (set_buf i ?f s))"
    using I(1) li buf_okD(1,2) [OF ok] i by (intro buf_acquiresleep_eq) (simp_all add: bufs_set_buf)
  have u: "unlock_bcache (set_buf i f (s\<lparr>ps := (ps s)\<lparr>pcpu := pushed (pcpu (ps s))\<rparr>, bcache_lock := Mine\<rparr>)) =
      Done () (set_buf i f s)" for f
    using calm_cli [OF I(1)] I(3) by (subst unlock_bcache_eq [where c = "pcpu (ps s)"]) (simp_all add: set_buf_def)
  show ?thesis
    unfolding bget_def using I(3) c f a li
    by (simp add: seqk_def bnd_def lock_bcache_eq gets_def upd_buf_def upd_def ret_def u mine_def set_buf_set_buf)
qed

lemma iderw_read:
  assumes "calm (ps s)" "i < length (bufs s)" "b_lock (bufs s ! i) = mine s"
    "\<not> b_valid (bufs s ! i)" "\<not> b_dirty (bufs s ! i)" "b_dev (bufs s ! i) = 1"
    "unat (b_blockno (bufs s ! i)) < disksize s"
  shows "iderw i s = Done () (set_buf i (\<lambda>x. x\<lparr>b_data := disk s (b_blockno (bufs s ! i)), b_valid := True\<rparr>) s)"
  using assms by (simp add: iderw_def bnd_def buf_holdingsleep_eq get_buf_eq gets_def upd_buf_def upd_def)

lemma iderw_write:
  assumes "calm (ps s)" "i < length (bufs s)" "b_lock (bufs s ! i) = mine s"
    "b_dirty (bufs s ! i)" "b_dev (bufs s ! i) = 1" "unat (b_blockno (bufs s ! i)) < disksize s"
  shows "iderw i s = Done () (write_disk (b_blockno (bufs s ! i)) (b_data (bufs s ! i))
     (set_buf i (\<lambda>x. x\<lparr>b_dirty := False, b_valid := True\<rparr>) s))"
  using assms by (simp add: iderw_def seqk_def bnd_def buf_holdingsleep_eq get_buf_eq gets_def upd_buf_def upd_def)

text \<open>The buffer that \<open>bread\<close> returns, whether it was in the cache, was there without data, or was evicted.\<close>

definition held_buf :: "fsys \<Rightarrow> uint \<Rightarrow> buf" where
  "held_buf s b = \<lparr>b_valid = True, b_dirty = (b \<in> pinned s), b_dev = 1, b_blockno = b, b_lock = mine s,
     b_refcnt = 1, b_data = blk s b\<rparr>"

definition held_blocks :: "nat set \<Rightarrow> fsys \<Rightarrow> uint set" where
  "held_blocks H s = (\<lambda>i. b_blockno (bufs s ! i)) ` H"

lemma pinned_cached:
  assumes "cache_inv H s" "i < length (bufs s)" "b_dev (bufs s ! i) = 1"
  shows "b_blockno (bufs s ! i) \<in> pinned s \<longleftrightarrow> b_dirty (bufs s ! i)"
proof
  assume "b_blockno (bufs s ! i) \<in> pinned s"
  then obtain j where j: "j < length (bufs s)" "b_dirty (bufs s ! j)" "b_blockno (bufs s ! j) = b_blockno (bufs s ! i)"
    by (auto simp: in_pinned)
  have "b_dev (bufs s ! j) = 1" using cache_invD(6) [OF assms(1) j(1)] j(2) by (rule buf_okD(9))
  then have "j = i" using cache_invD(4) [OF assms(1)] j assms(2,3) unfolding lists_ok_def by blast
  then show "b_dirty (bufs s ! i)" using j by simp
qed (use assms in \<open>auto simp: in_pinned\<close>)

lemma bread_eq_found:
  assumes inv: "cache_inv H s" and c: "find_cached 1 b (bufs s) (lru s) = Some i" and i: "i \<notin> H"
    and b: "unat b < disksize s"
  shows "bread 1 b s = Done i (set_buf i (\<lambda>_. held_buf s b) s)"
proof -
  note I = cache_invD [OF inv]
  have li: "i < length (bufs s)" "b_dev (bufs s ! i) = 1" "b_blockno (bufs s ! i) = b"
    using c find_cached_iff [OF I(4)] by blast+
  note B = buf_okD [OF I(6) [OF li(1)]]
  have p: "b \<in> pinned s \<longleftrightarrow> b_dirty (bufs s ! i)" using pinned_cached [OF inv li(1,2)] li(3) by simp
  note blk = blk_cached [OF I(4) li]
  let ?s = "set_buf i (\<lambda>x. x\<lparr>b_refcnt := 1, b_lock := mine s\<rparr>) s"
  show ?thesis
  proof (cases "b_valid (bufs s ! i)")
    case True
    have "set_buf i (\<lambda>x. x\<lparr>b_refcnt := 1, b_lock := mine s\<rparr>) s = set_buf i (\<lambda>_. held_buf s b) s"
      by (rule set_buf_cong, rule buf.equality) (use True li p blk in \<open>simp_all add: held_buf_def\<close>)
    then show ?thesis
      using True li bget_found [OF inv c i]
      by (simp add: bread_def seqk_def bnd_def get_buf_eq bufs_set_buf held_buf_def whenk_def ret_def)
  next
    case False
    then have d: "\<not> b_dirty (bufs s ! i)" using B(8) by blast
    have r: "iderw i ?s = Done () (set_buf i (\<lambda>x. x\<lparr>b_data := disk s b, b_valid := True\<rparr>) ?s)"
      using I(1) li False d b iderw_read [of ?s i] by (simp add: bufs_set_buf mine_def)
    have "set_buf i (\<lambda>x. x\<lparr>b_data := disk s b, b_valid := True\<rparr>) ?s = set_buf i (\<lambda>_. held_buf s b) s"
      unfolding set_buf_set_buf [OF li(1)]
      by (rule set_buf_cong, rule buf.equality) (use False li p d blk in \<open>simp_all add: held_buf_def\<close>)
    then show ?thesis
      using False li bget_found [OF inv c i] r
      by (simp add: bread_def seqk_def bnd_def get_buf_eq bufs_set_buf whenk_def ret_def)
  qed
qed

lemma bread_eq_evicts:
  assumes inv: "cache_inv H s" and c: "find_cached 1 b (bufs s) (lru s) = None"
    and f: "find_unused (bufs s) (rev (lru s)) = Some i" and b: "unat b < disksize s"
  shows "bread 1 b s = Done i (set_buf i (\<lambda>_. held_buf s b) s)"
proof -
  note I = cache_invD [OF inv]
  have li: "i < length (bufs s)" using find_unused_Some [OF f] I(4) by (auto simp: lists_ok_def)
  have no: "\<not> (b_dev (bufs s ! j) = 1 \<and> b_blockno (bufs s ! j) = b)" if "j < length (bufs s)" for j
    using c that I(4) by (auto simp: find_cached_None lists_ok_def)
  then have blk: "blk s b = disk s b" using I(4) by (intro blk_uncached) auto
  have p: "b \<notin> pinned s"
    using no buf_okD(9) [OF I(6)] by (auto simp: in_pinned)
  let ?s = "set_buf i (\<lambda>x. x\<lparr>b_dev := 1, b_blockno := b, b_valid := False, b_dirty := False,
     b_refcnt := 1, b_lock := mine s\<rparr>) s"
  have r: "iderw i ?s = Done () (set_buf i (\<lambda>x. x\<lparr>b_data := disk s b, b_valid := True\<rparr>) ?s)"
    using I(1) li b iderw_read [of ?s i] by (simp add: bufs_set_buf mine_def)
  have "set_buf i (\<lambda>x. x\<lparr>b_data := disk s b, b_valid := True\<rparr>) ?s = set_buf i (\<lambda>_. held_buf s b) s"
    unfolding set_buf_set_buf [OF li]
    by (rule set_buf_cong, rule buf.equality) (use li p blk in \<open>simp_all add: held_buf_def\<close>)
  then show ?thesis
    using li bget_evicts [OF inv c f] r
    by (simp add: bread_def seqk_def bnd_def get_buf_eq bufs_set_buf whenk_def ret_def)
qed

section \<open>The invariant and the view\<close>

lemma held_bufD [simp]:
  "b_valid (held_buf s b)" "b_dev (held_buf s b) = 1" "b_blockno (held_buf s b) = b" "b_lock (held_buf s b) = mine s"
  "b_refcnt (held_buf s b) = 1" "b_data (held_buf s b) = blk s b" "b_dirty (held_buf s b) \<longleftrightarrow> b \<in> pinned s"
  by (simp_all add: held_buf_def)

lemma cache_invI:
  assumes "calm (ps s)" "\<And>i. no_sleeper (ChanBufLock i) (ps s)" "bcache_lock s = Unlocked" "lists_ok (bufs s) (lru s)"
    "H \<subseteq> {..<length (bufs s)}" "\<And>i. i < length (bufs s) \<Longrightarrow> buf_ok H s i"
  shows "cache_inv H s"
  using assms by (simp add: cache_inv_def)

text \<open>
  \<open>target H s b i\<close>: buffer \<open>i\<close> may hold block \<open>b\<close>, because it does or because it is clean, unused and no other
  buffer does.
\<close>

definition target :: "nat set \<Rightarrow> fsys \<Rightarrow> uint \<Rightarrow> nat \<Rightarrow> bool" where
  "target H s b i \<longleftrightarrow> i < length (bufs s) \<and> i \<notin> H \<and>
     (b_dev (bufs s ! i) = 1 \<and> b_blockno (bufs s ! i) = b \<or>
      \<not> b_dirty (bufs s ! i) \<and> (\<forall>j<length (bufs s). \<not> (b_dev (bufs s ! j) = 1 \<and> b_blockno (bufs s ! j) = b)))"

lemma target_other:
  assumes "cache_inv H s" "target H s b i" "j < length (bufs s)" "j \<noteq> i" "b_dev (bufs s ! j) = 1"
  shows "b_blockno (bufs s ! j) \<noteq> b"
  using assms(2-5) cache_invD(4) [OF assms(1)] unfolding target_def lists_ok_def by blast

lemma bread_target:
  assumes inv: "cache_inv H s" and b: "b \<notin> held_blocks H s" "unat b < disksize s"
    and room: "b \<in> pinned s \<or> card H + card (pinned s) < length (bufs s)"
  shows "\<exists>i. target H s b i \<and> bread 1 b s = Done i (set_buf i (\<lambda>_. held_buf s b) s)"
proof (cases "find_cached 1 b (bufs s) (lru s)")
  case (Some i)
  note I = cache_invD [OF inv]
  have li: "i < length (bufs s)" "b_dev (bufs s ! i) = 1" "b_blockno (bufs s ! i) = b"
    using Some find_cached_iff [OF I(4)] by blast+
  then have "i \<notin> H" using b(1) by (auto simp: held_blocks_def)
  then show ?thesis using bread_eq_found [OF inv Some _ b(2)] li by (auto simp: target_def)
next
  case None
  note I = cache_invD [OF inv]
  have no: "\<forall>j<length (bufs s). \<not> (b_dev (bufs s ! j) = 1 \<and> b_blockno (bufs s ! j) = b)"
    using None I(4) by (auto simp: find_cached_None lists_ok_def)
  then have room: "card H + card (pinned s) < length (bufs s)"
    using room buf_okD(9) [OF I(6)] by (auto simp: in_pinned)
  let ?D = "{i. i < length (bufs s) \<and> b_dirty (bufs s ! i)}"
  have "inj_on (\<lambda>i. b_blockno (bufs s ! i)) ?D"
    using I(4) buf_okD(9) [OF I(6)] unfolding lists_ok_def inj_on_def by blast
  from card_image [OF this] have "card ?D = card ((\<lambda>i. b_blockno (bufs s ! i)) ` ?D)" by (rule sym)
  moreover have "(\<lambda>i. b_blockno (bufs s ! i)) ` ?D = pinned s" by (auto simp: in_pinned)
  ultimately have "card ?D = card (pinned s)" by simp
  moreover have H: "H \<subseteq> {..<length (bufs s)}" using I(5) by auto
  ultimately have "card (H \<union> ?D) < length (bufs s)"
    using room card_Un_le [of H ?D] by simp
  moreover have "H \<union> ?D \<subseteq> {..<length (bufs s)}" using H by auto
  ultimately have "H \<union> ?D \<noteq> {..<length (bufs s)}" by (metis card_lessThan less_irrefl)
  then obtain j where j: "j < length (bufs s)" "j \<notin> H" "\<not> b_dirty (bufs s ! j)" using H by auto
  have "b_refcnt (bufs s ! j) = 0" using buf_okD(7) [OF I(6) [OF j(1)] j(2)] .
  then have "find_unused (bufs s) (rev (lru s)) \<noteq> None"
    using j I(4) by (auto simp: find_unused_None lists_ok_def)
  then obtain i where f: "find_unused (bufs s) (rev (lru s)) = Some i" by blast
  have i: "i < length (bufs s)" "b_refcnt (bufs s ! i) = 0" "\<not> b_dirty (bufs s ! i)"
    using find_unused_Some [OF f] I(4) by (auto simp: lists_ok_def)
  then have "i \<notin> H" using buf_okD(4) [OF I(6)] by force
  then show ?thesis using bread_eq_evicts [OF inv None f b(2)] i no by (auto simp: target_def)
qed

lemma lists_ok_held:
  assumes inv: "cache_inv H s" and t: "target H s b i"
  shows "lists_ok (bufs (set_buf i (\<lambda>_. held_buf s b) s)) (lru s)"
proof -
  have i: "i < length (bufs s)" using t by (simp add: target_def)
  have l: "lists_ok (bufs s) (lru s)" using cache_invD(4) [OF inv] .
  show ?thesis
    unfolding lists_ok_def
  proof (intro conjI allI impI)
    show "distinct (lru s)" "set (lru s) = {..<length (bufs (set_buf i (\<lambda>_. held_buf s b) s))}"
      using l by (simp_all add: lists_ok_def)
  next
    fix j k
    assume "j < length (bufs (set_buf i (\<lambda>_. held_buf s b) s))" "k < length (bufs (set_buf i (\<lambda>_. held_buf s b) s))"
      "b_dev (bufs (set_buf i (\<lambda>_. held_buf s b) s) ! j) = 1" "b_dev (bufs (set_buf i (\<lambda>_. held_buf s b) s) ! k) = 1"
      "b_blockno (bufs (set_buf i (\<lambda>_. held_buf s b) s) ! j) = b_blockno (bufs (set_buf i (\<lambda>_. held_buf s b) s) ! k)"
    then show "j = k"
      using target_other [OF inv t, of j] target_other [OF inv t, of k] l i unfolding lists_ok_def
      by (simp add: bufs_set_buf split: if_splits)
  qed
qed

text \<open>Overwriting a buffer that keeps its device and block number.\<close>

lemma lists_ok_same:
  assumes "lists_ok (bufs s) l" "i < length (bufs s)" "b_dev (f (bufs s ! i)) = b_dev (bufs s ! i)"
    "b_blockno (f (bufs s ! i)) = b_blockno (bufs s ! i)" "distinct l'" "set l' = set l"
  shows "lists_ok (bufs (set_buf i f s)) l'"
proof -
  have "b_dev (bufs (set_buf i f s) ! j) = b_dev (bufs s ! j)" "b_blockno (bufs (set_buf i f s) ! j) = b_blockno (bufs s ! j)" for j
    using assms(2-4) by (simp_all add: bufs_set_buf)
  then show ?thesis using assms(1,5,6) by (simp add: lists_ok_def)
qed

lemma bread_inv:
  assumes inv: "cache_inv H s" and t: "target H s b i"
  shows "cache_inv (insert i H) (set_buf i (\<lambda>_. held_buf s b) s)"
proof -
  let ?s = "set_buf i (\<lambda>_. held_buf s b) s"
  note I = cache_invD [OF inv]
  have i: "i < length (bufs s)" "i \<notin> H" using t by (simp_all add: target_def)
  show ?thesis
  proof (rule cache_invI)
    show "lists_ok (bufs ?s) (lru ?s)" using lists_ok_held [OF inv t] by simp
    show "insert i H \<subseteq> {..<length (bufs ?s)}" using I(5) i by auto
    fix j assume j: "j < length (bufs ?s)"
    show "buf_ok (insert i H) ?s j"
    proof (cases "j = i")
      case True
      then show ?thesis using i by (simp add: buf_ok_def bufs_set_buf) (simp add: mine_def)
    next
      case False
      have "buf_ok H s j" using I(6) j by simp
      then show ?thesis using i False by (simp add: buf_ok_def bufs_set_buf mine_def)
    qed
  qed (use I in simp_all)
qed

lemma bread_pinned:
  assumes inv: "cache_inv H s" and t: "target H s b i"
  shows "pinned (set_buf i (\<lambda>_. held_buf s b) s) = pinned s"
proof -
  have i: "i < length (bufs s)" using t by (simp add: target_def)
  have "c \<in> pinned (set_buf i (\<lambda>_. held_buf s b) s) \<longleftrightarrow> c \<in> pinned s" for c
  proof -
    have "c \<in> pinned (set_buf i (\<lambda>_. held_buf s b) s) \<longleftrightarrow>
        (b \<in> pinned s \<and> b = c) \<or> (\<exists>j<length (bufs s). j \<noteq> i \<and> b_dirty (bufs s ! j) \<and> b_blockno (bufs s ! j) = c)"
      using i by (auto simp: in_pinned [of _ "set_buf i _ s"] bufs_set_buf)
    moreover have "b_blockno (bufs s ! i) = c \<Longrightarrow> b_dirty (bufs s ! i) \<Longrightarrow> b = c"
      using t buf_okD(9) [OF cache_invD(6) [OF inv i]] unfolding target_def by blast
    ultimately show ?thesis unfolding in_pinned [of _ s] using i by blast
  qed
  then show ?thesis by blast
qed

lemma bread_blk:
  assumes inv: "cache_inv H s" and t: "target H s b i"
  shows "blk (set_buf i (\<lambda>_. held_buf s b) s) = blk s"
proof
  fix c
  let ?s = "set_buf i (\<lambda>_. held_buf s b) s"
  note I = cache_invD [OF inv]
  have i: "i < length (bufs s)" "i \<notin> H" using t by (simp_all add: target_def)
  have l: "lists_ok (bufs ?s) (lru ?s)" using lists_ok_held [OF inv t] by simp
  show "blk ?s c = blk s c"
  proof (cases "c = b")
    case True
    then show ?thesis using blk_cached [OF l, of i b] i by (simp add: bufs_set_buf)
  next
    case ne: False
    show ?thesis
    proof (cases "\<exists>j<length (bufs s). j \<noteq> i \<and> b_dev (bufs s ! j) = 1 \<and> b_blockno (bufs s ! j) = c")
      case True
      then obtain j where "j < length (bufs s)" "j \<noteq> i" "b_dev (bufs s ! j) = 1" "b_blockno (bufs s ! j) = c" by blast
      then show ?thesis using blk_cached [OF l, of j c] blk_cached [OF I(4), of j c] i by (simp add: bufs_set_buf)
    next
      case False
      have "blk ?s c = disk s c"
        using False ne i by (subst blk_uncached [OF l]) (auto simp: bufs_set_buf)
      also have "\<dots> = blk s c"
      proof (cases "b_dev (bufs s ! i) = 1 \<and> b_blockno (bufs s ! i) = c")
        case True
        then have "\<not> b_dirty (bufs s ! i)" using t ne by (auto simp: target_def)
        then show ?thesis using True blk_cached [OF I(4) i(1)] buf_okD(10) [OF I(6) [OF i(1)] i(2)] by simp
      next
        case no: False
        have "blk s c = disk s c" by (rule blk_uncached [OF I(4)]) (use False no in blast)
        then show ?thesis by simp
      qed
      finally show ?thesis .
    qed
  qed
qed

text \<open>
  A change of a buffer that the process has locked: it keeps its device, block, lock and count,
  and stays valid. \<open>f\<close> may change the data and the dirty flag, \<open>dk\<close> the disk at its block.
\<close>

definition keeps_held :: "(buf \<Rightarrow> buf) \<Rightarrow> bool" where
  "keeps_held f \<longleftrightarrow> (\<forall>x. b_dev (f x) = b_dev x \<and> b_blockno (f x) = b_blockno x \<and> b_lock (f x) = b_lock x \<and>
     b_refcnt (f x) = b_refcnt x \<and> (b_valid x \<longrightarrow> b_valid (f x)))"

lemma held_unique:
  assumes "cache_inv H s" "i \<in> H" "j < length (bufs s)" "b_dev (bufs s ! j) = 1"
    "b_blockno (bufs s ! j) = b_blockno (bufs s ! i)"
  shows "j = i"
proof -
  have "i < length (bufs s)" "b_dev (bufs s ! i) = 1"
    using cache_invD(5) [OF assms(1,2)] buf_okD(6) [OF cache_invD(6) [OF assms(1)]] assms(2) by auto
  then show ?thesis using assms cache_invD(4) [OF assms(1)] unfolding lists_ok_def by blast
qed

definition with_disk :: "(uint \<Rightarrow> uchar list) \<Rightarrow> (uint \<times> uchar list) list \<Rightarrow> fsys \<Rightarrow> fsys" where
  "with_disk dk dw s = s\<lparr>disk := dk, dwrites := dw\<rparr>"

lemma with_disk_simps [simp]:
  "bufs (with_disk dk dw s) = bufs s" "lru (with_disk dk dw s) = lru s" "ps (with_disk dk dw s) = ps s"
  "bcache_lock (with_disk dk dw s) = bcache_lock s" "disk (with_disk dk dw s) = dk" "dwrites (with_disk dk dw s) = dw"
  "pinned (with_disk dk dw s) = pinned s" "mine (with_disk dk dw s) = mine s" "disksize (with_disk dk dw s) = disksize s"
  "log (with_disk dk dw s) = log s"
  by (simp_all add: with_disk_def pinned_def mine_def)

lemma mine_simps [simp]: "sl_lk (mine s) = Unlocked" "sl_locked (mine s)" "sl_pid (mine s) = mypid (ps s)"
  by (simp_all add: mine_def)

lemma write_disk_with: "write_disk b d s = with_disk ((disk s)(b := d)) (dwrites s @ [(b, d)]) s"
  by (simp add: write_disk_def with_disk_def)

lemma change_inv:
  assumes inv: "cache_inv H s" and i: "i \<in> H" and f: "keeps_held f"
    and dk: "\<And>c. c \<noteq> b_blockno (bufs s ! i) \<Longrightarrow> dk c = disk s c"
  shows "cache_inv H (with_disk dk dw (set_buf i f s))"
proof -
  let ?s = "with_disk dk dw (set_buf i f s)"
  note I = cache_invD [OF inv]
  have li: "i < length (bufs s)" using I(5) i .
  have m: "mine (set_buf i f s) = mine s" by (simp add: mine_def)
  show ?thesis
  proof (rule cache_invI)
    show "lists_ok (bufs ?s) (lru ?s)"
      using lists_ok_same [OF I(4) li, of f "lru s"] f I(4) by (simp add: keeps_held_def lists_ok_def)
    show "H \<subseteq> {..<length (bufs ?s)}" using I(5) by auto
    fix j assume j: "j < length (bufs ?s)"
    have o: "buf_ok H s j" using I(6) j by simp
    show "buf_ok H ?s j"
    proof (cases "j = i")
      case True
      then show ?thesis using o i f li by (simp add: buf_ok_def bufs_set_buf keeps_held_def m Let_def)
    next
      case False
      have "b_dev (bufs s ! j) = 1 \<Longrightarrow> dk (b_blockno (bufs s ! j)) = disk s (b_blockno (bufs s ! j))"
        using held_unique [OF inv i, of j] False j by (intro dk) auto
      then show ?thesis using o False li by (simp add: buf_ok_def bufs_set_buf m Let_def)
    qed
  qed (use I in simp_all)
qed

lemma change_blk:
  assumes inv: "cache_inv H s" and i: "i \<in> H" and f: "keeps_held f"
    and dk: "\<And>c. c \<noteq> b_blockno (bufs s ! i) \<Longrightarrow> dk c = disk s c"
  shows "blk (with_disk dk dw (set_buf i f s)) = (blk s)(b_blockno (bufs s ! i) := b_data (f (bufs s ! i)))"
proof
  fix c
  let ?s = "with_disk dk dw (set_buf i f s)"
  note I = cache_invD [OF inv]
  have li: "i < length (bufs s)" using I(5) i .
  note B = buf_okD [OF I(6) [OF li]]
  have l: "lists_ok (bufs ?s) (lru ?s)" using cache_invD(4) [OF change_inv [OF assms]] .
  show "blk ?s c = ((blk s)(b_blockno (bufs s ! i) := b_data (f (bufs s ! i)))) c"
  proof (cases "\<exists>j<length (bufs s). b_dev (bufs s ! j) = 1 \<and> b_blockno (bufs s ! j) = c")
    case True
    then obtain j where j: "j < length (bufs s)" "b_dev (bufs s ! j) = 1" "b_blockno (bufs s ! j) = c" by blast
    have "b_dev (bufs ?s ! j) = 1" "b_blockno (bufs ?s ! j) = c"
      using j f li by (auto simp: bufs_set_buf keeps_held_def)
    from blk_cached [OF l _ this] j(1)
    have b: "blk ?s c = (if b_valid (bufs ?s ! j) then b_data (bufs ?s ! j) else dk c)" by simp
    show ?thesis
    proof (cases "j = i")
      case True
      then show ?thesis using b j li f B(5) [OF i] by (simp add: bufs_set_buf keeps_held_def)
    next
      case False
      then have "c \<noteq> b_blockno (bufs s ! i)" using held_unique [OF inv i, of j] j by auto
      then show ?thesis using b False li dk [of c] blk_cached [OF I(4) j] by (simp add: bufs_set_buf)
    qed
  next
    case False
    then have c: "c \<noteq> b_blockno (bufs s ! i)" using li B(6) [OF i] by blast
    have "blk ?s c = dk c"
      using False f li by (subst blk_uncached [OF l]) (auto simp: bufs_set_buf keeps_held_def)
    moreover have "blk s c = disk s c" by (rule blk_uncached [OF I(4)]) (use False in blast)
    ultimately show ?thesis using c dk by simp
  qed
qed

lemma change_pinned:
  assumes inv: "cache_inv H s" and i: "i \<in> H" and f: "keeps_held f"
  shows "pinned (set_buf i f s) = (if b_dirty (f (bufs s ! i)) then insert (b_blockno (bufs s ! i)) (pinned s)
     else pinned s - {b_blockno (bufs s ! i)})"
proof -
  note I = cache_invD [OF inv]
  have li: "i < length (bufs s)" using I(5) i .
  have u: "j = i" if "j < length (bufs s)" "b_dirty (bufs s ! j)" "b_blockno (bufs s ! j) = b_blockno (bufs s ! i)" for j
    using held_unique [OF inv i that(1) _ that(3)] buf_okD(9) [OF I(6) [OF that(1)] that(2)] .
  have "c \<in> pinned (set_buf i f s) \<longleftrightarrow> (b_dirty (f (bufs s ! i)) \<and> b_blockno (bufs s ! i) = c) \<or>
      (\<exists>j<length (bufs s). j \<noteq> i \<and> b_dirty (bufs s ! j) \<and> b_blockno (bufs s ! j) = c)" for c
    using li f by (auto simp: in_pinned bufs_set_buf keeps_held_def)
  moreover have "(\<exists>j<length (bufs s). j \<noteq> i \<and> b_dirty (bufs s ! j) \<and> b_blockno (bufs s ! j) = c) \<longleftrightarrow>
      c \<in> pinned s \<and> c \<noteq> b_blockno (bufs s ! i)" for c
    unfolding in_pinned using u by blast
  ultimately show ?thesis by auto
qed

lemma brelse_eq:
  assumes inv: "cache_inv H s" and i: "i \<in> H"
  shows "brelse i s = Done () ((set_buf i (\<lambda>x. x\<lparr>b_lock := \<lparr>sl_locked = False, sl_lk = Unlocked, sl_pid = 0\<rparr>, b_refcnt := 0\<rparr>) s)
     \<lparr>lru := i # remove1 i (lru s)\<rparr>)"
proof -
  note I = cache_invD [OF inv]
  have li: "i < length (bufs s)" using I(5) i .
  note B = buf_okD [OF I(6) [OF li]]
  let ?f = "\<lambda>x. x\<lparr>b_lock := \<lparr>sl_locked = False, sl_lk = Unlocked, sl_pid = 0\<rparr>\<rparr>"
  have r: "buf_releasesleep i s = Done () (set_buf i ?f s)"
    using buf_releasesleep_eq [OF I(1) I(2) li B(3) [OF i]] .
  have u: "unlock_bcache ((set_buf i g (s\<lparr>ps := (ps s)\<lparr>pcpu := pushed (pcpu (ps s))\<rparr>, bcache_lock := Mine\<rparr>))\<lparr>lru := l\<rparr>) =
      Done () ((set_buf i g s)\<lparr>lru := l\<rparr>)" for g l
    using calm_cli [OF I(1)] I(3) by (subst unlock_bcache_eq [where c = "pcpu (ps s)"]) (simp_all add: set_buf_def)
  have lk: "lock_bcache (set_buf i ?f s) =
      Done () (set_buf i ?f (s\<lparr>ps := (ps s)\<lparr>pcpu := pushed (pcpu (ps s))\<rparr>, bcache_lock := Mine\<rparr>))"
    using I(3) by (simp add: lock_bcache_eq set_buf_def)
  show ?thesis
    using li B(4) [OF i] u
    by (simp add: brelse_def seqk_def bnd_def buf_holdingsleep_eq [OF I(1) li B(3) [OF i]] r lk upd_buf_def upd_def
        set_buf_set_buf get_buf_eq bufs_set_buf whenk_def)
      (simp add: set_buf_def)
qed

lemma brelse_inv:
  assumes inv: "cache_inv H s" and i: "i \<in> H"
    and c: "b_dirty (bufs s ! i) \<or> b_data (bufs s ! i) = disk s (b_blockno (bufs s ! i))"
  shows "cache_inv (H - {i}) ((set_buf i (\<lambda>x. x\<lparr>b_lock := \<lparr>sl_locked = False, sl_lk = Unlocked, sl_pid = 0\<rparr>, b_refcnt := 0\<rparr>) s)
     \<lparr>lru := i # remove1 i (lru s)\<rparr>)" (is "cache_inv _ (?s\<lparr>lru := ?l\<rparr>)")
proof -
  note I = cache_invD [OF inv]
  have li: "i < length (bufs s)" using I(5) i .
  have l: "distinct ?l" "set ?l = set (lru s)" using I(4) li by (auto simp: lists_ok_def)
  show ?thesis
  proof (rule cache_invI)
    show "lists_ok (bufs (?s\<lparr>lru := ?l\<rparr>)) (lru (?s\<lparr>lru := ?l\<rparr>))"
      using lists_ok_same [OF I(4) li _ _ l] by simp
    show "H - {i} \<subseteq> {..<length (bufs (?s\<lparr>lru := ?l\<rparr>))}" using I(5) by auto
    fix j assume "j < length (bufs (?s\<lparr>lru := ?l\<rparr>))"
    then have o: "buf_ok H s j" using I(6) by simp
    then show "buf_ok (H - {i}) (?s\<lparr>lru := ?l\<rparr>) j"
      using li i c by (cases "j = i") (auto simp: buf_ok_def bufs_set_buf mine_def Let_def)
  qed (use I in simp_all)
qed

lemma brelse_view:
  assumes inv: "cache_inv H s" and i: "i \<in> H"
    and c: "b_dirty (bufs s ! i) \<or> b_data (bufs s ! i) = disk s (b_blockno (bufs s ! i))"
  defines "s' \<equiv> (set_buf i (\<lambda>x. x\<lparr>b_lock := \<lparr>sl_locked = False, sl_lk = Unlocked, sl_pid = 0\<rparr>, b_refcnt := 0\<rparr>) s)
     \<lparr>lru := i # remove1 i (lru s)\<rparr>"
  shows "blk s' = blk s" "pinned s' = pinned s"
proof -
  note I = cache_invD [OF inv]
  have li: "i < length (bufs s)" using I(5) i .
  have l: "lists_ok (bufs s') (lru s')" using cache_invD(4) [OF brelse_inv [OF inv i c]] by (simp add: s'_def)
  have b: "length (bufs s') = length (bufs s)" "b_dev (bufs s' ! j) = b_dev (bufs s ! j)"
    "b_blockno (bufs s' ! j) = b_blockno (bufs s ! j)" "b_valid (bufs s' ! j) = b_valid (bufs s ! j)"
    "b_data (bufs s' ! j) = b_data (bufs s ! j)" "b_dirty (bufs s' ! j) = b_dirty (bufs s ! j)" "disk s' = disk s" for j
    using li by (simp_all add: s'_def bufs_set_buf)
  show "pinned s' = pinned s" unfolding set_eq_iff in_pinned b by simp
  have "blk s' k = blk s k" for k
  proof (cases "\<exists>j<length (bufs s). b_dev (bufs s ! j) = 1 \<and> b_blockno (bufs s ! j) = k")
    case True
    then obtain j where "j < length (bufs s)" "b_dev (bufs s ! j) = 1" "b_blockno (bufs s ! j) = k" by blast
    then show ?thesis using blk_cached [OF l, of j k] blk_cached [OF I(4), of j k] by (simp add: b)
  next
    case False
    then show ?thesis using blk_uncached [OF l, of k] blk_uncached [OF I(4), of k] by (auto simp: b)
  qed
  then show "blk s' = blk s" by blast
qed

section \<open>The contract\<close>

definition rest_of :: "fsys \<Rightarrow> fsys" where
  "rest_of s = s\<lparr>bufs := [], lru := [], disk := (\<lambda>_. []), dwrites := []\<rparr>"

definition bview :: "fsys \<Rightarrow> fsys blocks" where
  "bview s = \<lparr>v_blk = blk s, v_pins = pinned s, v_disk = disk s, v_writes = dwrites s, v_nbufs = length (bufs s),
     v_nblocks = disksize s, v_rest = rest_of s\<rparr>"

definition bno :: "fsys \<Rightarrow> nat \<Rightarrow> uint" where
  "bno s i = b_blockno (bufs s ! i)"

lemma rest_of_simps [simp]:
  "rest_of (set_buf i f s) = rest_of s" "rest_of (s\<lparr>lru := l\<rparr>) = rest_of s" "rest_of (with_disk dk dw s) = rest_of s"
  by (simp_all add: rest_of_def set_buf_def with_disk_def)

lemma bview_simps [simp]:
  "v_blk (bview s) = blk s" "v_pins (bview s) = pinned s" "v_disk (bview s) = disk s" "v_writes (bview s) = dwrites s"
  "v_nbufs (bview s) = length (bufs s)" "v_nblocks (bview s) = disksize s" "v_rest (bview s) = rest_of s"
  by (simp_all add: bview_def)

lemma bview_cong:
  "blk s' = blk s \<Longrightarrow> pinned s' = pinned s \<Longrightarrow> disk s' = disk s \<Longrightarrow> dwrites s' = dwrites s \<Longrightarrow>
   length (bufs s') = length (bufs s) \<Longrightarrow> disksize s' = disksize s \<Longrightarrow> rest_of s' = rest_of s \<Longrightarrow> bview s' = bview s"
  by (simp add: bview_def)

lemma bread_contract:
  assumes inv: "cache_inv H s" and b: "b \<notin> bno s ` H" and f: "fits (card H) b (bview s)"
  shows "ok (bread 1 b) s (\<lambda>i s'. i \<notin> H \<and> cache_inv (insert i H) s' \<and> bno s' i = b \<and>
     (\<forall>j\<in>H. bno s' j = bno s j) \<and> bview s' = bview s)"
proof -
  obtain i where i: "target H s b i" and e: "bread 1 b s = Done i (set_buf i (\<lambda>_. held_buf s b) s)"
    using bread_target [OF inv, of b] b f by (auto simp: held_blocks_def bno_def fits_def)
  have li: "i < length (bufs s)" "i \<notin> H" using i by (simp_all add: target_def)
  have "bview (set_buf i (\<lambda>_. held_buf s b) s) = bview s"
    by (rule bview_cong) (simp_all add: bread_blk [OF inv i] bread_pinned [OF inv i])
  then show ?thesis
    using li bread_inv [OF inv i] by (auto simp: ok_def e bno_def bufs_set_buf)
qed

lemma bdata_contract:
  assumes inv: "cache_inv H s" and i: "i \<in> H"
  shows "bdata i s = Done (v_blk (bview s) (bno s i)) s"
proof -
  note I = cache_invD [OF inv]
  have li: "i < length (bufs s)" using I(5) i .
  note B = buf_okD [OF I(6) [OF li]]
  show ?thesis
    using blk_cached [OF I(4) li B(6) [OF i]] B(5) [OF i] li
    by (simp add: bdata_def bnd_def get_buf_eq ret_def bno_def)
qed

lemma with_disk_id: "with_disk (disk s) (dwrites s) s = s"
  by (simp add: with_disk_def)

lemma set_bdata_contract:
  assumes inv: "cache_inv H s" and i: "i \<in> H"
  shows "ok (set_bdata i d) s (\<lambda>_ s'. cache_inv H s' \<and> bno s' = bno s \<and>
     bview s' = (bview s)\<lparr>v_blk := (v_blk (bview s))(bno s i := d)\<rparr>)"
proof -
  let ?f = "\<lambda>x. x\<lparr>b_data := d\<rparr>"
  let ?s = "set_buf i ?f s"
  have k: "keeps_held ?f" by (simp add: keeps_held_def)
  have li: "i < length (bufs s)" using cache_invD(5) [OF inv i] .
  have w: "with_disk (disk s) (dwrites s) ?s = ?s" using with_disk_id [of ?s] by simp
  have "cache_inv H ?s" using change_inv [OF inv i k, of "disk s" "dwrites s"] w by simp
  moreover have "blk ?s = (blk s)(bno s i := d)"
    using change_blk [OF inv i k, of "disk s" "dwrites s"] w by (simp add: bno_def)
  moreover have "pinned ?s = pinned s"
    using change_pinned [OF inv i k] pinned_cached [OF inv li] buf_okD(6) [OF cache_invD(6) [OF inv li] i]
    by (auto simp: insert_absorb)
  ultimately show ?thesis
    using li by (simp add: set_bdata_def upd_buf_def ok_upd bno_def fun_eq_iff bufs_set_buf bview_def)
qed

lemma bwrite_contract:
  assumes inv: "cache_inv H s" and i: "i \<in> H" and b: "unat (bno s i) < v_nblocks (bview s)"
  shows "ok (bwrite i) s (\<lambda>_ s'. cache_inv H s' \<and> bno s' = bno s \<and>
     bview s' = written (bno s i) (v_blk (bview s) (bno s i)) (bview s))"
proof -
  let ?f = "\<lambda>x. x\<lparr>b_dirty := False, b_valid := True\<rparr>"
  let ?b = "bno s i" and ?d = "b_data (bufs s ! i)"
  let ?s = "with_disk ((disk s)(?b := ?d)) (dwrites s @ [(?b, ?d)]) (set_buf i ?f s)"
  note I = cache_invD [OF inv]
  have li: "i < length (bufs s)" using I(5) i .
  note B = buf_okD [OF I(6) [OF li]]
  have k: "keeps_held ?f" by (simp add: keeps_held_def)
  have d: "blk s ?b = ?d" using blk_cached [OF I(4) li B(6) [OF i]] B(5) [OF i] by (simp add: bno_def)
  have "iderw i (set_buf i (\<lambda>x. x\<lparr>b_dirty := True\<rparr>) s) = Done () ?s"
    using iderw_write [of "set_buf i (\<lambda>x. x\<lparr>b_dirty := True\<rparr>) s" i] I(1) li B(3,6) [OF i] b
    by (simp add: bufs_set_buf set_buf_set_buf write_disk_with bno_def mine_def)
  then have e: "bwrite i s = Done () ?s"
    by (simp add: bwrite_def seqk_def bnd_def buf_holdingsleep_eq [OF I(1) li B(3) [OF i]] upd_buf_def upd_def)
  have "cache_inv H ?s" by (rule change_inv [OF inv i k]) (simp add: bno_def)
  moreover have "blk ?s = blk s"
    using change_blk [OF inv i k, of "(disk s)(?b := ?d)"] d by (simp add: bno_def fun_upd_idem)
  moreover have "pinned ?s = pinned s - {?b}"
    using change_pinned [OF inv i k] by (simp add: bno_def)
  ultimately show ?thesis
    using li d by (simp add: ok_def e bno_def fun_eq_iff bufs_set_buf bview_def written_def)
qed

lemma brelse_contract:
  assumes inv: "cache_inv H s" and i: "i \<in> H"
    and c: "bno s i \<in> v_pins (bview s) \<or> v_blk (bview s) (bno s i) = v_disk (bview s) (bno s i)"
  shows "ok (brelse i) s (\<lambda>_ s'. cache_inv (H - {i}) s' \<and> bno s' = bno s \<and> bview s' = bview s)"
proof -
  note I = cache_invD [OF inv]
  have li: "i < length (bufs s)" using I(5) i .
  note B = buf_okD [OF I(6) [OF li]]
  have c': "b_dirty (bufs s ! i) \<or> b_data (bufs s ! i) = disk s (b_blockno (bufs s ! i))"
    using c pinned_cached [OF inv li B(6) [OF i]] blk_cached [OF I(4) li B(6) [OF i]] B(5) [OF i]
    by (auto simp: bno_def)
  note v = brelse_view [OF inv i c'] and n = brelse_inv [OF inv i c']
  have "bview ((set_buf i (\<lambda>x. x\<lparr>b_lock := \<lparr>sl_locked = False, sl_lk = Unlocked, sl_pid = 0\<rparr>, b_refcnt := 0\<rparr>) s)
     \<lparr>lru := i # remove1 i (lru s)\<rparr>) = bview s"
    by (rule bview_cong) (simp_all add: v)
  then show ?thesis
    using n li by (simp add: ok_def brelse_eq [OF inv i] bno_def fun_eq_iff bufs_set_buf)
qed

lemma clean_contract:
  assumes inv: "cache_inv H s" and h: "b \<notin> bno s ` H" and b: "b \<notin> v_pins (bview s)"
  shows "v_blk (bview s) b = v_disk (bview s) b"
proof (cases "\<exists>i<length (bufs s). b_dev (bufs s ! i) = 1 \<and> b_blockno (bufs s ! i) = b")
  case True
  then obtain i where i: "i < length (bufs s)" "b_dev (bufs s ! i) = 1" "b_blockno (bufs s ! i) = b" by blast
  then have "\<not> b_dirty (bufs s ! i)" "i \<notin> H" using b h by (auto simp: in_pinned bno_def)
  then show ?thesis
    using blk_cached [OF cache_invD(4) [OF inv] i] buf_okD(10) [OF cache_invD(6) [OF inv i(1)]] i by simp
next
  case False
  then show ?thesis using blk_uncached [OF cache_invD(4) [OF inv], of b] by auto
qed

interpretation bc: block_cache cache_inv bview bno "bread 1" bdata set_bdata bwrite brelse
  by (rule block_cache.intro)
    (rule bread_contract bdata_contract set_bdata_contract bwrite_contract brelse_contract clean_contract; assumption)+

end
