(* ===== verification/Commit.thy ===== *)
theory Commit
  imports Log Cache
begin

text \<open>
  What a commit of the log (\<^verbatim>\<open>kernel/log.c\<close>) writes to the disk, in order, and what recovery makes of
  any prefix of these writes. The proofs use the cache only through its contract.
\<close>

section \<open>Sequences of writes\<close>

definition written_all :: "(uint \<times> uchar list) list \<Rightarrow> 'r blocks \<Rightarrow> 'r blocks" where
  "written_all ws v = fold (\<lambda>(b, d). written b d) ws v"

definition apply_writes :: "(uint \<times> uchar list) list \<Rightarrow> (uint \<Rightarrow> uchar list) \<Rightarrow> uint \<Rightarrow> uchar list" where
  "apply_writes ws f = fold (\<lambda>(b, d) g. g(b := d)) ws f"

lemma written_all_Nil [simp]: "written_all [] v = v"
  by (simp add: written_all_def)

lemma written_all_snoc: "written_all (ws @ [(b, d)]) v = written b d (written_all ws v)"
  by (simp add: written_all_def)

lemma apply_writes_Nil [simp]: "apply_writes [] f = f"
  by (simp add: apply_writes_def)

lemma apply_writes_append: "apply_writes (xs @ ys) f = apply_writes ys (apply_writes xs f)"
  by (simp add: apply_writes_def)

lemma apply_writes_snoc: "apply_writes (ws @ [(b, d)]) f = (apply_writes ws f)(b := d)"
  by (simp add: apply_writes_def)

lemma written_all_simps [simp]:
  "v_blk (written_all ws v) = apply_writes ws (v_blk v)" "v_pins (written_all ws v) = v_pins v - fst ` set ws"
  "v_disk (written_all ws v) = apply_writes ws (v_disk v)" "v_writes (written_all ws v) = v_writes v @ ws"
  "v_nbufs (written_all ws v) = v_nbufs v" "v_nblocks (written_all ws v) = v_nblocks v"
  "v_rest (written_all ws v) = v_rest v"
proof (induction ws rule: rev_induct)
  case (snoc w ws)
  obtain b d where w: "w = (b, d)" by (cases w)
  {
    case 1
    then show ?case using snoc by (simp add: w written_all_snoc apply_writes_snoc)
  next
    case 2
    then show ?case using snoc by (auto simp: w written_all_snoc)
  next
    case 3
    then show ?case using snoc by (simp add: w written_all_snoc apply_writes_snoc)
  next
    case 4
    then show ?case using snoc by (simp add: w written_all_snoc)
  next
    case 5
    then show ?case using snoc by (simp add: w written_all_snoc)
  next
    case 6
    then show ?case using snoc by (simp add: w written_all_snoc)
  next
    case 7
    then show ?case using snoc by (simp add: w written_all_snoc)
  }
qed simp_all

lemma apply_writes_other: "b \<notin> fst ` set ws \<Longrightarrow> apply_writes ws f b = f b"
  by (induction ws rule: rev_induct) (auto simp: apply_writes_snoc)

lemma apply_writes_in:
  "distinct (map fst ws) \<Longrightarrow> (b, d) \<in> set ws \<Longrightarrow> apply_writes ws f b = d"
  by (induction ws rule: rev_induct) (force simp: apply_writes_snoc)+

section \<open>The header block\<close>

lemma length_concat_bytes: "length (concat (map bytes32 bs)) = 4 * length bs"
  by (induction bs) simp_all

lemma rd32_concat: "k < length bs \<Longrightarrow> length pre = p \<Longrightarrow> rd32 (pre @ concat (map bytes32 bs) @ suf) (p + 4 * k) = bs ! k"
proof -
  assume k: "k < length bs" and p: "length pre = p"
  have "bs = take k bs @ bs ! k # drop (Suc k) bs" using k by (rule id_take_nth_drop)
  then have "concat (map bytes32 bs) = concat (map bytes32 (take k bs)) @ bytes32 (bs ! k) @ concat (map bytes32 (drop (Suc k) bs))"
    by (metis concat.simps(2) concat_append list.simps(9) map_append)
  then have "pre @ concat (map bytes32 bs) @ suf =
      (pre @ concat (map bytes32 (take k bs))) @ bytes32 (bs ! k) @ (concat (map bytes32 (drop (Suc k) bs)) @ suf)" by simp
  then show ?thesis using rd32_bytes [of "pre @ concat (map bytes32 (take k bs))" "p + 4 * k"] k p
    by (simp add: length_concat_bytes)
qed

lemma header_count:
  assumes "length bs \<le> LOGSIZE"
  shows "rd32 (patch 0 (header_bytes bs) d) 0 = of_nat (length bs)"
    and "sint (rd32 (patch 0 (header_bytes bs) d) 0) = int (length bs)"
proof -
  show e: "rd32 (patch 0 (header_bytes bs) d) 0 = of_nat (length bs)"
    using rd32_bytes [of "[]" 0] by (simp add: patch_def header_bytes_def)
  have "sint (of_nat (length bs) :: uint) = int (length bs)"
    using signed_take_bit_int_eq_self [of 31 "int (length bs)"] assms by (simp add: signed_of_nat fs_consts)
  then show "sint (rd32 (patch 0 (header_bytes bs) d) 0) = int (length bs)" unfolding e by simp
qed

lemma header_roundtrip:
  assumes "length bs \<le> LOGSIZE"
  shows "header_blocks (patch 0 (header_bytes bs) d) = bs"
proof (rule nth_equalityI)
  show l: "length (header_blocks (patch 0 (header_bytes bs) d)) = length bs"
    using header_count(2) [OF assms] by (simp add: header_blocks_def)
  fix k assume "k < length (header_blocks (patch 0 (header_bytes bs) d))"
  then have k: "k < length bs" using l by simp
  have "rd32 (patch 0 (header_bytes bs) d) (4 + 4 * k) = bs ! k"
    using rd32_concat [OF k, of "bytes32 (of_nat (length bs))" 4] by (simp add: patch_def header_bytes_def)
  then show "header_blocks (patch 0 (header_bytes bs) d) ! k = bs ! k"
    using k header_count(2) [OF assms] by (simp add: header_blocks_def)
qed

section \<open>One block at a time\<close>

text \<open>The header and the blocks of the log.\<close>

definition log_area :: "logst \<Rightarrow> uint set" where
  "log_area l = {b. unat (log_start l) \<le> unat b \<and> unat b < unat (log_start l) + nat (log_size l)}"

lemma log_area_blocks [simp]: "log_area (l\<lparr>log_blocks := bs\<rparr>) = log_area l"
  by (simp add: log_area_def)

definition logblk :: "uint \<Rightarrow> nat \<Rightarrow> uint" where
  "logblk st k = st + of_nat k + 1"

text \<open>The log lies on the disk and the blocks of the transaction lie outside of it.\<close>

definition log_fits :: "logst \<Rightarrow> nat \<Rightarrow> bool" where
  "log_fits l N \<longleftrightarrow> log_dev l = 1 \<and> length (log_blocks l) \<le> LOGSIZE \<and> distinct (log_blocks l) \<and>
     length (log_blocks l) < nat (log_size l) \<and> unat (log_start l) + nat (log_size l) \<le> N \<and> N < 4294967296 \<and>
     (\<forall>b\<in>set (log_blocks l). unat b < N \<and> b \<notin> log_area l)"

lemma unat_logblk: "unat st + k + 1 < 4294967296 \<Longrightarrow> unat (logblk st k) = unat st + k + 1"
proof -
  assume a: "unat st + k + 1 < 4294967296"
  have "logblk st k = st + of_nat (k + 1)" by (simp add: logblk_def)
  moreover have "unat (of_nat (k + 1) :: uint) = k + 1" using a by (intro unat_of_nat32) simp
  ultimately show ?thesis using a unat_add32 [of st "of_nat (k + 1)"] by simp
qed

lemma logblk_area:
  assumes "log_fits l N" "k < length (log_blocks l)"
  shows "logblk (log_start l) k \<in> log_area l" "unat (logblk (log_start l) k) < N"
    "logblk (log_start l) k \<noteq> log_start l" "logblk (log_start l) k \<notin> set (log_blocks l)"
proof -
  have u: "unat (logblk (log_start l) k) = unat (log_start l) + k + 1"
    using assms by (intro unat_logblk) (auto simp: log_fits_def)
  show a: "logblk (log_start l) k \<in> log_area l"
    using u assms by (auto simp: log_fits_def log_area_def)
  show "unat (logblk (log_start l) k) < N" using u assms by (auto simp: log_fits_def)
  show "logblk (log_start l) k \<noteq> log_start l" using u by auto
  show "logblk (log_start l) k \<notin> set (log_blocks l)" using a assms by (auto simp: log_fits_def)
qed

lemma logblk_inj:
  assumes "log_fits l N" "j < length (log_blocks l)" "k < length (log_blocks l)" "logblk (log_start l) j = logblk (log_start l) k"
  shows "j = k"
proof -
  have "unat (log_start l) + j + 1 < 4294967296" "unat (log_start l) + k + 1 < 4294967296"
    using assms by (auto simp: log_fits_def)
  then have "unat (log_start l) + j + 1 = unat (log_start l) + k + 1"
    using unat_logblk [of "log_start l" j] unat_logblk [of "log_start l" k] unfolding assms(4) by linarith
  then show ?thesis by simp
qed

lemma log_of_bview: "log (v_rest (bview s)) = log s"
  by (simp add: rest_of_def)

lemma log_block_ok:
  assumes inv: "cache_inv {} s" and l: "log_fits (log s) (disksize s)" and k: "k < length (log_blocks (log s))"
    and f: "fits 0 (logblk (log_start (log s)) k) (bview s)" "fits 1 (log_blocks (log s) ! k) (bview s)"
  shows "ok (log_block k) s (\<lambda>_ s'. cache_inv {} s' \<and>
     bview s' = written (logblk (log_start (log s)) k) (blk s (log_blocks (log s) ! k)) (bview s))"
proof -
  have ne: "logblk (log_start (log s)) k \<noteq> log_blocks (log s) ! k"
    using logblk_area(4) [OF l k] k nth_mem by metis
  show ?thesis
    using bc.copy_back [OF inv f ne] l by (simp add: log_block_def ok_bnd [of "gets log"] ok_gets log_fits_def logblk_def)
qed

lemma install_block_ok:
  assumes inv: "cache_inv {} s" and l: "log_fits (log s) (disksize s)" and k: "k < length (log_blocks (log s))"
    and f: "fits 0 (logblk (log_start (log s)) k) (bview s)" "fits 1 (log_blocks (log s) ! k) (bview s)"
  shows "ok (install_block k) s (\<lambda>_ s'. cache_inv {} s' \<and>
     bview s' = written (log_blocks (log s) ! k) (blk s (logblk (log_start (log s)) k)) (bview s))"
proof -
  have ne: "logblk (log_start (log s)) k \<noteq> log_blocks (log s) ! k"
    using logblk_area(4) [OF l k] k nth_mem by metis
  show ?thesis
    using bc.copy_forward [OF inv f ne] l by (simp add: install_block_def ok_bnd [of "gets log"] ok_gets log_fits_def logblk_def)
qed

lemma write_head_ok:
  assumes inv: "cache_inv {} s" and l: "log_fits (log s) (disksize s)" and f: "fits 0 (log_start (log s)) (bview s)"
  shows "ok write_head s (\<lambda>_ s'. cache_inv {} s' \<and> bview s' =
     written (log_start (log s)) (patch 0 (header_bytes (log_blocks (log s))) (blk s (log_start (log s)))) (bview s))"
  using bc.write_block [OF inv, of "log_start (log s)" "patch 0 (header_bytes (log_blocks (log s)))"] f l
  by (simp add: write_head_def ok_bnd [of "gets log"] ok_gets log_fits_def)

text \<open>A loop over the entries of the log that writes one block each.\<close>

lemma ok_upt_loop:
  assumes step: "\<And>k s. k < n \<Longrightarrow> I k s \<Longrightarrow> ok (f k) s (\<lambda>_ s'. I (Suc k) s')" and "I 0 s"
  shows "ok (foreach [0..<n] f) s (\<lambda>_ s'. I n s')"
proof -
  have "m \<le> n \<Longrightarrow> I (n - m) s \<Longrightarrow> ok (foreach [n - m..<n] f) s (\<lambda>_ s'. I n s')" for m s
  proof (induction m arbitrary: s)
    case (Suc m)
    then have u: "[n - Suc m..<n] = (n - Suc m) # [n - m..<n]"
      using upt_conv_Cons [of "n - Suc m" n] by (simp add: Suc_diff_Suc)
    have "ok (f (n - Suc m)) s (\<lambda>_ s'. I (Suc (n - Suc m)) s')" using Suc.prems by (intro step) auto
    then have "ok (f (n - Suc m)) s (\<lambda>_ s'. ok (foreach [n - m..<n] f) s' (\<lambda>_ s'. I n s'))"
      by (rule ok_mono) (use Suc in \<open>simp add: Suc_diff_Suc\<close>)
    then show ?case by (simp add: u ok_seqk)
  qed (simp add: ok_ret)
  from this [of n s] assms(2) show ?thesis by simp
qed

section \<open>Writing the log and installing it\<close>

definition to_log :: "logst \<Rightarrow> (uint \<Rightarrow> uchar list) \<Rightarrow> nat \<Rightarrow> (uint \<times> uchar list) list" where
  "to_log l f n = map (\<lambda>k. (logblk (log_start l) k, f (log_blocks l ! k))) [0..<n]"

definition from_log :: "logst \<Rightarrow> (uint \<Rightarrow> uchar list) \<Rightarrow> nat \<Rightarrow> (uint \<times> uchar list) list" where
  "from_log l f n = map (\<lambda>k. (log_blocks l ! k, f (logblk (log_start l) k))) [0..<n]"

lemma to_log_Suc: "to_log l f (Suc n) = to_log l f n @ [(logblk (log_start l) n, f (log_blocks l ! n))]"
  and from_log_Suc: "from_log l f (Suc n) = from_log l f n @ [(log_blocks l ! n, f (logblk (log_start l) n))]"
  by (simp_all add: to_log_def from_log_def)

lemma to_log_targets: "fst ` set (to_log l f n) = logblk (log_start l) ` {..<n}"
  and from_log_targets: "n \<le> length (log_blocks l) \<Longrightarrow> fst ` set (from_log l f n) = set (take n (log_blocks l))"
  by (auto simp: to_log_def from_log_def image_image lessThan_atLeast0 nth_image [symmetric])

lemma to_log_area:
  assumes "log_fits l N" "n \<le> length (log_blocks l)"
  shows "fst ` set (to_log l f n) \<subseteq> log_area l" "log_start l \<notin> fst ` set (to_log l f n)"
    "fst ` set (to_log l f n) \<inter> set (log_blocks l) = {}"
proof -
  have "logblk (log_start l) k \<in> log_area l - {log_start l} - set (log_blocks l)" if "k < n" for k
    using logblk_area [OF assms(1), of k] that assms(2) by auto
  then show "fst ` set (to_log l f n) \<subseteq> log_area l" "log_start l \<notin> fst ` set (to_log l f n)"
    "fst ` set (to_log l f n) \<inter> set (log_blocks l) = {}"
    unfolding to_log_targets by (blast, metis DiffE imageE lessThan_iff singletonI, blast)
qed

lemma from_log_area:
  assumes "log_fits l N" "n \<le> length (log_blocks l)" "b \<in> log_area l"
  shows "b \<notin> fst ` set (from_log l f n)"
  using assms from_log_targets [OF assms(2), of f] set_take_subset [of n "log_blocks l"] by (auto simp: log_fits_def)

lemma bview_proj:
  assumes "bview s' = v"
  shows "blk s' = v_blk v" "pinned s' = v_pins v" "disk s' = v_disk v" "dwrites s' = v_writes v"
    "length (bufs s') = v_nbufs v" "disksize s' = v_nblocks v" "rest_of s' = v_rest v"
  using assms by auto

lemma log_same: "bview s' = written_all ws (bview s) \<Longrightarrow> log s' = log s"
proof -
  assume "bview s' = written_all ws (bview s)"
  then have "rest_of s' = rest_of s" by (auto dest: bview_proj(7))
  then have "log (rest_of s') = log (rest_of s)" by simp
  then show ?thesis by (simp add: rest_of_def)
qed

lemma write_log_ok:
  assumes inv: "cache_inv {} s" and l: "log_fits (log s) (disksize s)"
    and p: "pinned s = set (log_blocks (log s))" "card (pinned s) < length (bufs s)"
  shows "ok write_log s (\<lambda>_ s'. cache_inv {} s' \<and>
     bview s' = written_all (to_log (log s) (blk s) (length (log_blocks (log s)))) (bview s))"
proof -
  let ?l = "log s"
  let ?I = "\<lambda>k s'. cache_inv {} s' \<and> bview s' = written_all (to_log ?l (blk s) k) (bview s)"
  have "ok (foreach [0..<length (log_blocks ?l)] log_block) s (\<lambda>_ s'. ?I (length (log_blocks ?l)) s')"
  proof (rule ok_upt_loop [where I = ?I])
    fix k s' assume k: "k < length (log_blocks ?l)" and i: "?I k s'"
    note v = bview_proj [OF i [THEN conjunct2]] and ls = log_same [OF i [THEN conjunct2]]
    note a = to_log_area [OF l, of k "blk s"]
    have pins: "pinned s' = pinned s" using v(2) a(3) k p(1) by auto
    have "log_blocks ?l ! k \<notin> fst ` set (to_log ?l (blk s) k)" using a(3) k by fastforce
    then have b: "blk s' (log_blocks ?l ! k) = blk s (log_blocks ?l ! k)" by (simp add: v(1) apply_writes_other)
    have "ok (log_block k) s' (\<lambda>_ s2. cache_inv {} s2 \<and>
       bview s2 = written (logblk (log_start (log s')) k) (blk s' (log_blocks (log s') ! k)) (bview s'))"
    proof (rule log_block_ok)
      show "fits 0 (logblk (log_start (log s')) k) (bview s')"
        using logblk_area(2) [OF l k] p v(5,6) pins by (simp add: fits_def ls)
      show "fits 1 (log_blocks (log s') ! k) (bview s')"
        using l k p pins v(6) by (auto simp: fits_def ls log_fits_def)
    qed (use i l k v(6) in \<open>simp_all add: ls\<close>)
    then show "ok (log_block k) s' (\<lambda>_ s2. ?I (Suc k) s2)"
      by (rule ok_mono) (use i b in \<open>simp add: ls to_log_Suc written_all_snoc\<close>)
  qed (use inv in \<open>simp add: to_log_def\<close>)
  then show ?thesis by (simp add: write_log_def ok_bnd ok_gets)
qed

lemma install_trans_ok:
  assumes inv: "cache_inv {} s" and l: "log_fits (log s) (disksize s)"
    and p: "pinned s = set (log_blocks (log s)) \<and> card (pinned s) < length (bufs s) \<or> pinned s = {} \<and> 1 < length (bufs s)"
  shows "ok install_trans s (\<lambda>_ s'. cache_inv {} s' \<and>
     bview s' = written_all (from_log (log s) (blk s) (length (log_blocks (log s)))) (bview s))"
proof -
  let ?l = "log s"
  let ?I = "\<lambda>k s'. cache_inv {} s' \<and> bview s' = written_all (from_log ?l (blk s) k) (bview s)"
  have fin: "finite (pinned s)" by (simp add: pinned_def)
  have "ok (foreach [0..<length (log_blocks ?l)] install_block) s (\<lambda>_ s'. ?I (length (log_blocks ?l)) s')"
  proof (rule ok_upt_loop [where I = ?I])
    fix k s' assume k: "k < length (log_blocks ?l)" and i: "?I k s'"
    note v = bview_proj [OF i [THEN conjunct2]] and ls = log_same [OF i [THEN conjunct2]]
    have pins: "pinned s' = pinned s - set (take k (log_blocks ?l))" using v(2) k by (simp add: from_log_targets)
    have c: "card (pinned s') \<le> card (pinned s)" unfolding pins using fin by (intro card_mono) auto
    have "distinct (log_blocks ?l)" using l by (simp add: log_fits_def)
    then have nt: "log_blocks ?l ! k \<notin> set (take k (log_blocks ?l))"
      using k by (auto simp: in_set_conv_nth nth_eq_iff_index_eq)
    have b: "blk s' (logblk (log_start ?l) k) = blk s (logblk (log_start ?l) k)"
      unfolding v(1) written_all_simps by (subst apply_writes_other) (use from_log_area [OF l] k logblk_area [OF l k] in auto)
    have "ok (install_block k) s' (\<lambda>_ s2. cache_inv {} s2 \<and>
       bview s2 = written (log_blocks (log s') ! k) (blk s' (logblk (log_start (log s')) k)) (bview s'))"
    proof (rule install_block_ok)
      show "fits 0 (logblk (log_start (log s')) k) (bview s')"
        using logblk_area(2) [OF l k] p c v(5,6) by (auto simp: fits_def ls)
      show "fits 1 (log_blocks (log s') ! k) (bview s')"
        using l k p pins nt v(5,6) c by (auto simp: fits_def ls log_fits_def)
    qed (use i l k v(6) in \<open>simp_all add: ls\<close>)
    then show "ok (install_block k) s' (\<lambda>_ s2. ?I (Suc k) s2)"
      by (rule ok_mono) (use i b in \<open>simp add: ls from_log_Suc written_all_snoc\<close>)
  qed (use inv in \<open>simp add: from_log_def\<close>)
  then show ?thesis by (simp add: install_trans_def ok_bnd ok_gets)
qed

section \<open>A commit\<close>

definition commit_writes :: "logst \<Rightarrow> (uint \<Rightarrow> uchar list) \<Rightarrow> (uint \<times> uchar list) list" where
  "commit_writes l f = (let hdr = patch 0 (header_bytes (log_blocks l)) (f (log_start l)) in
     to_log l f (length (log_blocks l)) @ [(log_start l, hdr)] @ map (\<lambda>b. (b, f b)) (log_blocks l) @
     [(log_start l, patch 0 (header_bytes []) hdr)])"

lemma cache_inv_log [simp]: "cache_inv H (s\<lparr>log := l\<rparr>) = cache_inv H s"
  by (simp add: cache_inv_def buf_ok_def mine_def)

lemma blk_log [simp]: "blk (s\<lparr>log := l\<rparr>) = blk s" "pinned (s\<lparr>log := l\<rparr>) = pinned s"
proof -
  have "blk (s\<lparr>log := l\<rparr>) b = blk s b" for b by (simp add: blk_def split: option.split)
  then show "blk (s\<lparr>log := l\<rparr>) = blk s" by blast
qed (simp add: pinned_def)

lemma rest_of_log: "rest_of (s\<lparr>log := l\<rparr>) = (rest_of s)\<lparr>log := l\<rparr>"
  by (rule fsys.equality) (simp_all add: rest_of_def)

lemma bview_log: "bview (s\<lparr>log := l\<rparr>) = (bview s)\<lparr>v_rest := (rest_of s)\<lparr>log := l\<rparr>\<rparr>"
  by (simp add: bview_def rest_of_log)

lemma apply_writes_mid: "b \<notin> fst ` set ys \<Longrightarrow> apply_writes (xs @ [(b, d)] @ ys) f b = d"
  using apply_writes_other [of b ys "apply_writes (xs @ [(b, d)]) f"]
  by (simp add: apply_writes_append [of "xs @ [(b, d)]" ys, simplified] apply_writes_snoc)

lemma start_area: "log_fits l N \<Longrightarrow> log_start l \<in> log_area l"
  by (auto simp: log_area_def log_fits_def)

lemma log_fits_start: "log_fits l N \<Longrightarrow> unat (log_start l) < N \<and> log_start l \<notin> set (log_blocks l)"
  using start_area [of l N] by (auto simp: log_fits_def)

lemma from_log_written:
  assumes l: "log_fits l N" and g: "\<And>k. k < length (log_blocks l) \<Longrightarrow> g (logblk (log_start l) k) = f (log_blocks l ! k)"
  shows "from_log l g (length (log_blocks l)) = map (\<lambda>b. (b, f b)) (log_blocks l)"
  using g by (auto simp: from_log_def intro: nth_equalityI)

lemma to_log_read:
  assumes l: "log_fits l N" and k: "k < length (log_blocks l)"
  shows "apply_writes (to_log l f (length (log_blocks l))) g (logblk (log_start l) k) = f (log_blocks l ! k)"
proof (rule apply_writes_in)
  have "inj_on (logblk (log_start l)) {..<length (log_blocks l)}"
    using logblk_inj [OF l] by (auto simp: inj_on_def)
  then show "distinct (map fst (to_log l f (length (log_blocks l))))"
    by (simp add: to_log_def comp_def distinct_map lessThan_atLeast0)
  show "(logblk (log_start l) k, f (log_blocks l ! k)) \<in> set (to_log l f (length (log_blocks l)))"
    using k by (auto simp: to_log_def)
qed

text \<open>The header write, with the log in any state.\<close>

lemma write_head_step:
  assumes "cache_inv {} s" "bview s = v" "log s = l" "log_fits l (v_nblocks v)" "card (v_pins v) < v_nbufs v"
  shows "ok write_head s (\<lambda>_ s'. cache_inv {} s' \<and> bview s' =
     written (log_start l) (patch 0 (header_bytes (log_blocks l)) (v_blk v (log_start l))) v)"
  using write_head_ok [OF assms(1)] assms log_fits_start [of l "v_nblocks v"] by (auto simp: fits_def)

lemma log_written: "bview s' = written b d (bview s) \<Longrightarrow> log s' = log s"
  using log_same [of s' "[(b, d)]" s] by (simp add: written_all_def)

lemma written_all_cons: "written_all ((b, d) # ws) v = written_all ws (written b d v)"
  by (simp add: written_all_def)

lemma written_all_append: "written_all (xs @ ys) v = written_all ys (written_all xs v)"
  by (simp add: written_all_def)

text \<open>The three writing phases of a commit, before the log in memory is cleared.\<close>

lemma commit_front:
  assumes inv: "cache_inv {} s" and l: "log_fits (log s) (disksize s)"
    and p: "pinned s = set (log_blocks (log s))" "card (pinned s) < length (bufs s)"
  defines "hdr \<equiv> patch 0 (header_bytes (log_blocks (log s))) (blk s (log_start (log s)))"
  shows "ok (seqk write_log (seqk write_head install_trans)) s (\<lambda>_ s'. cache_inv {} s' \<and> bview s' =
     written_all (to_log (log s) (blk s) (length (log_blocks (log s))) @ [(log_start (log s), hdr)] @
       map (\<lambda>b. (b, blk s b)) (log_blocks (log s))) (bview s))"
proof (rule ok_seqkI [OF write_log_ok [OF inv l p]])
  let ?l = "log s" and ?n = "length (log_blocks (log s))"
  let ?L = "to_log ?l (blk s) ?n"
  fix u s1 assume 1: "cache_inv {} s1 \<and> bview s1 = written_all ?L (bview s)"
  note v1 = bview_proj [OF 1 [THEN conjunct2]] and l1 = log_same [OF 1 [THEN conjunct2]]
  note a = to_log_area [OF l order_refl, of "blk s"]
  have p1: "pinned s1 = pinned s" using v1(2) a(3) p(1) by auto
  have h: "v_blk (bview s1) (log_start ?l) = blk s (log_start ?l)"
    using v1(1) a(2) by (simp add: apply_writes_other)
  have "ok write_head s1 (\<lambda>_ s2. cache_inv {} s2 \<and> bview s2 = written (log_start ?l) hdr (bview s1))"
  proof -
    have "card (v_pins (bview s1)) < v_nbufs (bview s1)" "log_fits ?l (v_nblocks (bview s1))"
      using p p1 l v1(5,6) by simp_all
    from write_head_step [OF 1 [THEN conjunct1] refl l1 this(2,1)] show ?thesis unfolding h hdr_def .
  qed
  then show "ok (seqk write_head install_trans) s1 (\<lambda>_ s'. cache_inv {} s' \<and> bview s' =
     written_all (?L @ [(log_start ?l, hdr)] @ map (\<lambda>b. (b, blk s b)) (log_blocks ?l)) (bview s))"
  proof (rule ok_seqkI)
    fix u s2 assume 2: "cache_inv {} s2 \<and> bview s2 = written (log_start ?l) hdr (bview s1)"
    note v2 = bview_proj [OF 2 [THEN conjunct2]]
    have l2: "log s2 = ?l" using log_written [OF 2 [THEN conjunct2]] l1 by simp
    have p2: "pinned s2 = pinned s" using v2(2) p1 p(1) log_fits_start [OF l] by auto
    have g: "blk s2 (logblk (log_start ?l) k) = blk s (log_blocks ?l ! k)" if "k < ?n" for k
      using that v2(1) v1(1) logblk_area(3) [OF l that] to_log_read [OF l that] by simp
    have "ok install_trans s2 (\<lambda>_ s3. cache_inv {} s3 \<and> bview s3 = written_all (from_log ?l (blk s2) ?n) (bview s2))"
      using install_trans_ok [of s2] 2 l l2 p p2 v1(5,6) v2(5,6) by simp
    then show "ok install_trans s2 (\<lambda>_ s'. cache_inv {} s' \<and> bview s' =
       written_all (?L @ [(log_start ?l, hdr)] @ map (\<lambda>b. (b, blk s b)) (log_blocks ?l)) (bview s))"
      by (rule ok_mono) (use 1 2 from_log_written [of ?l _ "blk s2" "blk s", OF l g] in \<open>simp add: written_all_append written_all_cons\<close>)
  qed
qed

lemma commit_ok:
  assumes inv: "cache_inv {} s" and l: "log_fits (log s) (disksize s)"
    and p: "pinned s = set (log_blocks (log s))" "card (pinned s) < length (bufs s)" and ne: "log_blocks (log s) \<noteq> []"
  shows "ok commit s (\<lambda>_ s'. cache_inv {} s' \<and> log s' = (log s)\<lparr>log_blocks := []\<rparr> \<and>
     bview s' = (written_all (commit_writes (log s) (blk s)) (bview s))\<lparr>v_rest := rest_of (s\<lparr>log := (log s)\<lparr>log_blocks := []\<rparr>\<rparr>)\<rparr>)"
proof -
  let ?l = "log s"
  let ?hdr = "patch 0 (header_bytes (log_blocks ?l)) (blk s (log_start ?l))"
  let ?W = "to_log ?l (blk s) (length (log_blocks ?l)) @ [(log_start ?l, ?hdr)] @ map (\<lambda>b. (b, blk s b)) (log_blocks ?l)"
  have "ok (seqk (seqk write_log (seqk write_head install_trans)) (seqk (upd_log (\<lambda>l. l\<lparr>log_blocks := []\<rparr>)) write_head)) s
    (\<lambda>_ s'. cache_inv {} s' \<and> log s' = ?l\<lparr>log_blocks := []\<rparr> \<and>
     bview s' = (written_all (commit_writes ?l (blk s)) (bview s))\<lparr>v_rest := rest_of (s\<lparr>log := ?l\<lparr>log_blocks := []\<rparr>\<rparr>)\<rparr>)"
  proof (rule ok_seqkI [OF commit_front [OF inv l p]])
    fix u s1 assume 1: "cache_inv {} s1 \<and> bview s1 = written_all ?W (bview s)"
    note v1 = bview_proj [OF 1 [THEN conjunct2]] and l1 = log_same [OF 1 [THEN conjunct2]]
    let ?s2 = "s1\<lparr>log := ?l\<lparr>log_blocks := []\<rparr>\<rparr>"
    have p1: "pinned s1 = {}" using v1(2) p(1) by (auto simp: image_Un image_image)
    have h: "blk s1 (log_start ?l) = ?hdr"
      unfolding v1(1) written_all_simps bview_simps
      by (rule apply_writes_mid) (use log_fits_start [OF l] in \<open>simp add: image_image\<close>)
    have hd: "ok write_head ?s2 (\<lambda>_ s'. cache_inv {} s' \<and> bview s' =
        written (log_start ?l) (patch 0 (header_bytes []) ?hdr) (bview ?s2))"
    proof -
      have "card (v_pins (bview ?s2)) < v_nbufs (bview ?s2)" "log_fits (?l\<lparr>log_blocks := []\<rparr>) (v_nblocks (bview ?s2))"
        "cache_inv {} ?s2" "log ?s2 = ?l\<lparr>log_blocks := []\<rparr>"
        using p p1 l v1(5,6) 1 by (auto simp: log_fits_def)
      from write_head_step [OF this(3) refl this(4,2,1)] show ?thesis using h by simp
    qed
    have e1: "bview ?s2 = (written_all ?W (bview s))\<lparr>v_rest := rest_of (s\<lparr>log := ?l\<lparr>log_blocks := []\<rparr>\<rparr>)\<rparr>"
      unfolding bview_log 1 [THEN conjunct2] rest_of_log v1(7) by simp
    have e2: "written (log_start ?l) (patch 0 (header_bytes []) ?hdr)
        ((written_all ?W (bview s))\<lparr>v_rest := rest_of (s\<lparr>log := ?l\<lparr>log_blocks := []\<rparr>\<rparr>)\<rparr>) =
      (written_all (commit_writes ?l (blk s)) (bview s))\<lparr>v_rest := rest_of (s\<lparr>log := ?l\<lparr>log_blocks := []\<rparr>\<rparr>)\<rparr>"
      unfolding commit_writes_def Let_def append_assoc [symmetric] written_all_append [of _ "[_]"] written_all_cons written_all_Nil
      by (simp only: written_def) simp
    have "ok write_head ?s2 (\<lambda>_ s'. cache_inv {} s' \<and> log s' = ?l\<lparr>log_blocks := []\<rparr> \<and>
        bview s' = (written_all (commit_writes ?l (blk s)) (bview s))\<lparr>v_rest := rest_of (s\<lparr>log := ?l\<lparr>log_blocks := []\<rparr>\<rparr>)\<rparr>)"
    proof (rule ok_mono [OF hd])
      fix u s' assume a: "cache_inv {} s' \<and> bview s' = written (log_start ?l) (patch 0 (header_bytes []) ?hdr) (bview ?s2)"
      show "cache_inv {} s' \<and> log s' = ?l\<lparr>log_blocks := []\<rparr> \<and>
        bview s' = (written_all (commit_writes ?l (blk s)) (bview s))\<lparr>v_rest := rest_of (s\<lparr>log := ?l\<lparr>log_blocks := []\<rparr>\<rparr>)\<rparr>"
        unfolding e2 [symmetric] e1 [symmetric] using a log_written [OF a [THEN conjunct2]] by simp
    qed
    then show "ok (seqk (upd_log (\<lambda>l. l\<lparr>log_blocks := []\<rparr>)) write_head) s1
      (\<lambda>_ s'. cache_inv {} s' \<and> log s' = ?l\<lparr>log_blocks := []\<rparr> \<and>
     bview s' = (written_all (commit_writes ?l (blk s)) (bview s))\<lparr>v_rest := rest_of (s\<lparr>log := ?l\<lparr>log_blocks := []\<rparr>\<rparr>)\<rparr>)"
      by (simp add: ok_seqk upd_log_def ok_upd l1)
  qed
  then show ?thesis using ne by (simp add: commit_def ok_bnd ok_gets ok_whenk ok_seqk)
qed

section \<open>Recovery\<close>

lemma bno_log [simp]: "bno (s\<lparr>log := l\<rparr>) = bno s"
  by (simp add: bno_def fun_eq_iff)

lemma read_head_ok:
  assumes inv: "cache_inv {} s" and dev: "log_dev (log s) = 1" and f: "fits 0 (log_start (log s)) (bview s)"
    and n: "sint (rd32 (blk s (log_start (log s))) 0) \<le> int LOGSIZE"
  defines "l' \<equiv> (log s)\<lparr>log_blocks := header_blocks (blk s (log_start (log s)))\<rparr>"
  shows "ok read_head s (\<lambda>_ s'. cache_inv {} s' \<and> log s' = l' \<and> bview s' = bview (s\<lparr>log := l'\<rparr>))"
proof -
  let ?b = "log_start (log s)"
  have "ok (bnd (bread 1 ?b) (\<lambda>x. bnd (bdata x) (\<lambda>d. if sint (rd32 d 0) > int LOGSIZE then halt (Fault ''read_head'')
      else seqk (upd_log (\<lambda>l. l\<lparr>log_blocks := header_blocks d\<rparr>)) (brelse x)))) s
      (\<lambda>_ s'. cache_inv {} s' \<and> log s' = l' \<and> bview s' = bview (s\<lparr>log := l'\<rparr>))"
  proof (rule ok_bndI)
    show "ok (bread 1 ?b) s (\<lambda>x s'. cache_inv {x} s' \<and> bno s' x = ?b \<and> bview s' = bview s)"
      by (rule ok_mono [OF bc.rd_ok [OF inv]]) (use f in auto)
    fix x s1 assume 1: "cache_inv {x} s1 \<and> bno s1 x = ?b \<and> bview s1 = bview s"
    note v = bview_proj [OF 1 [THEN conjunct2, THEN conjunct2]]
    have l1: "log s1 = log s" using log_same [of s1 "[]" s] 1 by simp
    have d: "bdata x s1 = Done (blk s ?b) s1" using bc.dat_eq [of "{x}" s1 x] 1 v(1) by simp
    have e: "bview (s1\<lparr>log := l'\<rparr>) = bview (s\<lparr>log := l'\<rparr>)" using 1 v(7) by (simp add: bview_log)
    have "ok (brelse x) (s1\<lparr>log := l'\<rparr>) (\<lambda>_ s'. cache_inv {} s' \<and> bview s' = bview (s1\<lparr>log := l'\<rparr>))"
      by (rule ok_mono [OF bc.rel_ok [of "{x}"]]) (use 1 v bc.clean [OF inv, of ?b] in auto)
    then have "ok (brelse x) (s1\<lparr>log := l'\<rparr>) (\<lambda>_ s'. cache_inv {} s' \<and> log s' = l' \<and> bview s' = bview (s\<lparr>log := l'\<rparr>))"
    proof (rule ok_mono)
      fix u s' assume a: "cache_inv {} s' \<and> bview s' = bview (s1\<lparr>log := l'\<rparr>)"
      have "log s' = l'" using log_same [of s' "[]" "s1\<lparr>log := l'\<rparr>"] a by simp
      with a e show "cache_inv {} s' \<and> log s' = l' \<and> bview s' = bview (s\<lparr>log := l'\<rparr>)" by simp
    qed
    then show "ok (bnd (bdata x) (\<lambda>d. if sint (rd32 d 0) > int LOGSIZE then halt (Fault ''read_head'')
      else seqk (upd_log (\<lambda>l. l\<lparr>log_blocks := header_blocks d\<rparr>)) (brelse x))) s1
      (\<lambda>_ s'. cache_inv {} s' \<and> log s' = l' \<and> bview s' = bview (s\<lparr>log := l'\<rparr>))"
      using n d l1 by (simp add: ok_bnd ok_def [of "bdata x"] ok_seqk upd_log_def ok_upd l'_def)
  qed
  then show ?thesis by (simp add: read_head_def ok_bnd [of "gets log"] ok_gets dev)
qed

lemma recover_ok:
  assumes inv: "cache_inv {} t" and p: "pinned t = {}" "1 < length (bufs t)"
    and n: "sint (rd32 (disk t (log_start (log t))) 0) \<le> int LOGSIZE"
  defines "l' \<equiv> (log t)\<lparr>log_blocks := header_blocks (disk t (log_start (log t)))\<rparr>"
  assumes l: "log_fits l' (disksize t)"
  shows "ok recover_from_log t (\<lambda>_ t'. cache_inv {} t' \<and> pinned t' = {} \<and> log_blocks (log t') = [] \<and>
     disk t' = (apply_writes (from_log l' (disk t) (length (log_blocks l'))) (disk t))
       (log_start (log t) := patch 0 (header_bytes []) (disk t (log_start (log t)))))"
  unfolding recover_from_log_def
proof (rule ok_seqkI)
  let ?b = "log_start (log t)" and ?W = "from_log l' (disk t) (length (log_blocks l'))"
  have c: "blk t = disk t" using bc.clean [OF inv] p by auto
  have dev: "log_dev (log t) = 1" "unat ?b < disksize t" "log_start l' = ?b"
    using l log_fits_start [OF l] by (auto simp: log_fits_def l'_def)
  show "ok read_head t (\<lambda>_ s. cache_inv {} s \<and> log s = l' \<and> bview s = bview (t\<lparr>log := l'\<rparr>))"
  proof -
    have "fits 0 ?b (bview t)" "sint (rd32 (blk t ?b) 0) \<le> int LOGSIZE"
      using n p dev(2) c by (auto simp: fits_def)
    from read_head_ok [OF inv dev(1) this] show ?thesis unfolding c l'_def .
  qed
  fix u s1 assume 1: "cache_inv {} s1 \<and> log s1 = l' \<and> bview s1 = bview (t\<lparr>log := l'\<rparr>)"
  note v1 = bview_proj [OF 1 [THEN conjunct2, THEN conjunct2]]
  show "ok (seqk install_trans (seqk (upd_log (\<lambda>l. l\<lparr>log_blocks := []\<rparr>)) write_head)) s1 (\<lambda>_ t'. cache_inv {} t' \<and>
     pinned t' = {} \<and> log_blocks (log t') = [] \<and> disk t' = (apply_writes ?W (disk t))(?b := patch 0 (header_bytes []) (disk t ?b)))"
  proof (rule ok_seqkI)
    show "ok install_trans s1 (\<lambda>_ s. cache_inv {} s \<and> bview s = written_all ?W (bview s1))"
    proof -
      have "log_fits (log s1) (disksize s1)" "pinned s1 = {} \<and> 1 < length (bufs s1)" "log s1 = l'" "blk s1 = disk t"
        using 1 l p c v1 by simp_all
      from install_trans_ok [of s1, OF 1 [THEN conjunct1] this(1)] this show ?thesis by simp
    qed
    fix u s2 assume 2: "cache_inv {} s2 \<and> bview s2 = written_all ?W (bview s1)"
    note v2 = bview_proj [OF 2 [THEN conjunct2]]
    let ?s3 = "s2\<lparr>log := l'\<lparr>log_blocks := []\<rparr>\<rparr>"
    have l2: "log s2 = l'" using log_same [OF 2 [THEN conjunct2]] 1 by simp
    have h: "blk s2 ?b = disk t ?b"
      using v2(1) v1(1) c from_log_area [OF l order_refl, of ?b "disk t"] start_area [OF l] dev(3)
      by (simp add: apply_writes_other)
    have "card (v_pins (bview ?s3)) < v_nbufs (bview ?s3)" "log_fits (l'\<lparr>log_blocks := []\<rparr>) (v_nblocks (bview ?s3))"
      "cache_inv {} ?s3" "log ?s3 = l'\<lparr>log_blocks := []\<rparr>"
      using p l v1(2,5,6) v2(2,5,6) 2 by (auto simp: log_fits_def)
    from write_head_step [OF this(3) refl this(4,2,1)]
    have "ok write_head ?s3 (\<lambda>_ s'. cache_inv {} s' \<and> bview s' = written ?b (patch 0 (header_bytes []) (disk t ?b)) (bview ?s3))"
      using h dev(3) by simp
    then have "ok write_head ?s3 (\<lambda>_ t'. cache_inv {} t' \<and> pinned t' = {} \<and> log_blocks (log t') = [] \<and>
        disk t' = (apply_writes ?W (disk t))(?b := patch 0 (header_bytes []) (disk t ?b)))"
    proof (rule ok_mono)
      fix u s' assume a: "cache_inv {} s' \<and> bview s' = written ?b (patch 0 (header_bytes []) (disk t ?b)) (bview ?s3)"
      show "cache_inv {} s' \<and> pinned s' = {} \<and> log_blocks (log s') = [] \<and>
        disk s' = (apply_writes ?W (disk t))(?b := patch 0 (header_bytes []) (disk t ?b))"
        using a bview_proj [OF a [THEN conjunct2]] log_written [OF a [THEN conjunct2]] v1 v2 p by simp
    qed
    then show "ok (seqk (upd_log (\<lambda>l. l\<lparr>log_blocks := []\<rparr>)) write_head) s2 (\<lambda>_ t'. cache_inv {} t' \<and>
      pinned t' = {} \<and> log_blocks (log t') = [] \<and> disk t' = (apply_writes ?W (disk t))(?b := patch 0 (header_bytes []) (disk t ?b)))"
      by (simp add: ok_seqk upd_log_def ok_upd l2)
  qed
qed

section \<open>Crashes\<close>

text \<open>
  The disk after the first \<open>m\<close> writes of a commit, where \<open>f\<close> is what the cache holds and \<open>g\<close> what the disk
  held before: up to the header write no block outside the log has changed and the header is
  the old one; from then on the header names the blocks and the log holds their new contents, until
  the header is cleared, when the blocks themselves do.
\<close>

lemma take_commit:
  fixes l f
  defines "n \<equiv> length (log_blocks l)" and "hdr \<equiv> patch 0 (header_bytes (log_blocks l)) (f (log_start l))"
  shows "m \<le> n \<Longrightarrow> take m (commit_writes l f) = to_log l f m"
    and "n < m \<Longrightarrow> m \<le> 2 * n + 1 \<Longrightarrow> take m (commit_writes l f) =
      to_log l f n @ [(log_start l, hdr)] @ map (\<lambda>b. (b, f b)) (take (m - n - 1) (log_blocks l))"
    and "2 * n + 1 < m \<Longrightarrow> take m (commit_writes l f) =
      (to_log l f n @ [(log_start l, hdr)] @ map (\<lambda>b. (b, f b)) (log_blocks l)) @ [(log_start l, patch 0 (header_bytes []) hdr)]"
proof -
  have ln: "length (to_log l f n) = n" by (simp add: to_log_def)
  show "m \<le> n \<Longrightarrow> take m (commit_writes l f) = to_log l f m"
    by (simp add: commit_writes_def Let_def to_log_def take_map n_def)
  show "n < m \<Longrightarrow> m \<le> 2 * n + 1 \<Longrightarrow> take m (commit_writes l f) =
      to_log l f n @ [(log_start l, hdr)] @ map (\<lambda>b. (b, f b)) (take (m - n - 1) (log_blocks l))"
    using ln by (auto simp: commit_writes_def Let_def take_map hdr_def n_def take_Cons' not_le)
  show "2 * n + 1 < m \<Longrightarrow> take m (commit_writes l f) =
      (to_log l f n @ [(log_start l, hdr)] @ map (\<lambda>b. (b, f b)) (log_blocks l)) @ [(log_start l, patch 0 (header_bytes []) hdr)]"
    using ln by (simp add: commit_writes_def Let_def hdr_def n_def)
qed

lemma before_header:
  assumes l: "log_fits l N" and m: "m \<le> length (log_blocks l)" and b: "b = log_start l \<or> b \<notin> log_area l"
  shows "apply_writes (take m (commit_writes l f)) g b = g b"
proof -
  have "b \<notin> fst ` set (to_log l f m)"
  proof (cases "b = log_start l")
    case False
    then show ?thesis using b subsetD [OF to_log_area(1) [OF l m, of f], of b] by argo
  qed (simp only: to_log_area(2) [OF l m] not_False_eq_True)
  then show ?thesis using take_commit(1) [OF m, of f] by (simp add: apply_writes_other)
qed

lemma area_blocks: "log_fits l N \<Longrightarrow> b \<in> log_area l \<Longrightarrow> b \<notin> fst ` (\<lambda>b. (b, f b)) ` set (take k (log_blocks l))"
  using set_take_subset [of k "log_blocks l"] by (auto simp: log_fits_def)

lemma after_header:
  assumes l: "log_fits l N" and m: "length (log_blocks l) < m" "m \<le> 2 * length (log_blocks l) + 1"
  shows "apply_writes (take m (commit_writes l f)) g (log_start l) = patch 0 (header_bytes (log_blocks l)) (f (log_start l))"
    and "k < length (log_blocks l) \<Longrightarrow> apply_writes (take m (commit_writes l f)) g (logblk (log_start l) k) = f (log_blocks l ! k)"
    and "b \<notin> log_area l \<Longrightarrow> b \<notin> set (log_blocks l) \<Longrightarrow> apply_writes (take m (commit_writes l f)) g b = g b"
proof -
  let ?n = "length (log_blocks l)"
  let ?M = "map (\<lambda>b. (b, f b)) (take (m - ?n - 1) (log_blocks l))"
  let ?h = "(log_start l, patch 0 (header_bytes (log_blocks l)) (f (log_start l)))"
  note W = take_commit(2) [OF m, of f]
  have M: "b \<notin> fst ` set ?M" if "b \<in> log_area l" for b using area_blocks [OF l that] by simp
  show "apply_writes (take m (commit_writes l f)) g (log_start l) = patch 0 (header_bytes (log_blocks l)) (f (log_start l))"
    unfolding W by (rule apply_writes_mid) (rule M, rule start_area [OF l])
  show "apply_writes (take m (commit_writes l f)) g (logblk (log_start l) k) = f (log_blocks l ! k)" if k: "k < ?n"
  proof -
    have "apply_writes (to_log l f ?n @ [?h] @ ?M) g (logblk (log_start l) k) =
        apply_writes (to_log l f ?n @ [?h]) g (logblk (log_start l) k)"
      unfolding append_assoc [symmetric] apply_writes_append [of _ ?M]
      by (rule apply_writes_other) (rule M, rule logblk_area(1) [OF l k])
    also have "\<dots> = f (log_blocks l ! k)"
      using logblk_area(3) [OF l k] to_log_read [OF l k] by (simp add: apply_writes_snoc)
    finally show ?thesis unfolding W .
  qed
  show "apply_writes (take m (commit_writes l f)) g b = g b"
    if b: "b \<notin> log_area l" "b \<notin> set (log_blocks l)"
  proof -
    have "b \<notin> fst ` set (to_log l f ?n @ [?h] @ ?M)"
      using b to_log_area(1) [OF l order_refl, of f] start_area [OF l] set_take_subset [of "m - ?n - 1" "log_blocks l"]
      by (auto simp: image_image)
    then show ?thesis unfolding W by (rule apply_writes_other)
  qed
qed

lemma after_clear:
  assumes l: "log_fits l N" and m: "2 * length (log_blocks l) + 1 < m"
  shows "apply_writes (take m (commit_writes l f)) g (log_start l) =
      patch 0 (header_bytes []) (patch 0 (header_bytes (log_blocks l)) (f (log_start l)))"
    and "b \<notin> log_area l \<Longrightarrow> apply_writes (take m (commit_writes l f)) g b =
      (if b \<in> set (log_blocks l) then f b else g b)"
proof -
  let ?n = "length (log_blocks l)"
  let ?M = "map (\<lambda>b. (b, f b)) (log_blocks l)"
  let ?h = "(log_start l, patch 0 (header_bytes (log_blocks l)) (f (log_start l)))"
  note W = take_commit(3) [OF m, of f]
  show "apply_writes (take m (commit_writes l f)) g (log_start l) =
      patch 0 (header_bytes []) (patch 0 (header_bytes (log_blocks l)) (f (log_start l)))"
    unfolding W by (simp only: apply_writes_snoc fun_upd_same)
  assume b: "b \<notin> log_area l"
  then have ne: "b \<noteq> log_start l" using start_area [OF l] by auto
  have "apply_writes (take m (commit_writes l f)) g b = apply_writes ?M (apply_writes (to_log l f ?n @ [?h]) g) b"
    unfolding W append_assoc [symmetric] apply_writes_snoc apply_writes_append [of _ ?M] using ne by simp
  also have "\<dots> = (if b \<in> set (log_blocks l) then f b else apply_writes (to_log l f ?n @ [?h]) g b)"
  proof (cases "b \<in> set (log_blocks l)")
    case True
    have "apply_writes ?M (apply_writes (to_log l f ?n @ [?h]) g) b = f b"
      by (rule apply_writes_in) (use True l in \<open>auto simp: log_fits_def comp_def\<close>)
    then show ?thesis using True by simp
  next
    case False
    then show ?thesis by (simp add: apply_writes_other image_image)
  qed
  also have "apply_writes (to_log l f ?n @ [?h]) g b = g b"
    using b ne to_log_area(1) [OF l order_refl, of f] by (intro apply_writes_other) auto
  finally show "apply_writes (take m (commit_writes l f)) g b = (if b \<in> set (log_blocks l) then f b else g b)" .
qed

text \<open>A machine that starts with the disk \<open>d\<close>, an empty cache and the log of \<open>l\<close> located.\<close>

definition boots :: "logst \<Rightarrow> nat \<Rightarrow> (uint \<Rightarrow> uchar list) \<Rightarrow> fsys \<Rightarrow> bool" where
  "boots l N d t \<longleftrightarrow> cache_inv {} t \<and> pinned t = {} \<and> 1 < length (bufs t) \<and> disksize t = N \<and> disk t = d \<and>
     log_dev (log t) = log_dev l \<and> log_start (log t) = log_start l \<and> log_size (log t) = log_size l"

lemma recover_boots:
  assumes b: "boots l N d t" and l: "log_fits l N" and h: "header_blocks (d (log_start l)) = bs"
    and n: "sint (rd32 (d (log_start l)) 0) \<le> int LOGSIZE" and bs: "bs = [] \<or> bs = log_blocks l"
  shows "ok recover_from_log t (\<lambda>_ t'. \<forall>b. b \<notin> log_area l \<longrightarrow>
     disk t' b = apply_writes (from_log (l\<lparr>log_blocks := bs\<rparr>) d (length bs)) d b)"
proof -
  have t: "cache_inv {} t" "pinned t = {}" "1 < length (bufs t)" "disksize t = N" "disk t = d"
    "log_dev (log t) = log_dev l" "log_start (log t) = log_start l" "log_size (log t) = log_size l"
    using b by (simp_all add: boots_def)
  have f: "log_fits ((log t)\<lparr>log_blocks := header_blocks (disk t (log_start (log t)))\<rparr>) (disksize t)"
    using l bs t h by (auto simp: log_fits_def log_area_def)
  have fl: "from_log ((log t)\<lparr>log_blocks := bs\<rparr>) d k = from_log (l\<lparr>log_blocks := bs\<rparr>) d k" for k
    using t(7) by (simp add: from_log_def)
  show ?thesis
    by (rule ok_mono [OF recover_ok [OF t(1,2,3) _ f]]) (use t h n fl start_area [OF l] in auto)
qed

lemma recover_after_crash:
  assumes b: "boots l N (apply_writes (take m (commit_writes l f)) g) t" and l: "log_fits l N"
    and clean: "\<And>b. b \<notin> set (log_blocks l) \<Longrightarrow> f b = g b" and h0: "rd32 (g (log_start l)) 0 = 0"
  shows "ok recover_from_log t (\<lambda>_ t'. \<forall>b. b \<notin> log_area l \<longrightarrow>
     disk t' b = (if m \<le> length (log_blocks l) then g b else f b))"
proof -
  let ?n = "length (log_blocks l)" and ?D = "apply_writes (take m (commit_writes l f)) g"
  have ln: "?n \<le> LOGSIZE" using l by (simp add: log_fits_def)
  consider "m \<le> ?n" | "?n < m" "m \<le> 2 * ?n + 1" | "2 * ?n + 1 < m" by linarith
  then show ?thesis
  proof cases
    case 1
    have D: "?D (log_start l) = g (log_start l)" by (rule before_header [OF l 1]) simp
    have "header_blocks (?D (log_start l)) = []" "sint (rd32 (?D (log_start l)) 0) \<le> int LOGSIZE"
      unfolding D by (simp_all add: header_blocks_def h0)
    from recover_boots [OF b l this] show ?thesis
      by (rule ok_mono) (use 1 before_header [OF l 1, of _ f g] in \<open>simp_all add: from_log_def\<close>)
  next
    case 2
    note a = after_header [OF l 2, where f = f and g = g]
    have hd: "header_blocks (?D (log_start l)) = log_blocks l" "sint (rd32 (?D (log_start l)) 0) \<le> int LOGSIZE"
      unfolding a(1) using header_roundtrip [OF ln] header_count(2) [OF ln] ln by simp_all
    have fl: "from_log l ?D ?n = map (\<lambda>b. (b, f b)) (log_blocks l)"
      by (rule from_log_written [OF l]) (rule a(2))
    have "apply_writes (map (\<lambda>b. (b, f b)) (log_blocks l)) ?D b = f b" if "b \<notin> log_area l" for b
    proof (cases "b \<in> set (log_blocks l)")
      case True
      show ?thesis by (rule apply_writes_in) (use True l in \<open>auto simp: log_fits_def comp_def\<close>)
    next
      case False
      have "apply_writes (map (\<lambda>b. (b, f b)) (log_blocks l)) ?D b = ?D b"
        by (rule apply_writes_other) (use False in \<open>simp add: image_image\<close>)
      then show ?thesis using a(3) [OF that False] clean [OF False] by simp
    qed
    moreover have "l\<lparr>log_blocks := log_blocks l\<rparr> = l" by simp
    ultimately show ?thesis
      by (intro ok_mono [OF recover_boots [OF b l hd]]) (use 2(1) fl in simp_all)
  next
    case 3
    note a = after_clear [OF l 3, where f = f and g = g]
    have "header_blocks (?D (log_start l)) = []" "sint (rd32 (?D (log_start l)) 0) \<le> int LOGSIZE"
      unfolding a(1) using header_roundtrip [of "[]"] header_count(2) [of "[]"] by simp_all
    from recover_boots [OF b l this] show ?thesis
      by (rule ok_mono) (use 3 a(2) clean in \<open>auto simp: from_log_def\<close>)
  qed
qed

end
