(* ===== verification/FsExample.thy ===== *)
theory FsExample
  imports Commit Example
begin

text \<open>
  A small concrete file system: a disk of 1000 blocks with the log at block 2, a cache of 30 buffers
  in which block 50 has been changed by a transaction, a file of two blocks, and a machine that starts after a crash.
\<close>

definition ex_lock :: sleeplock where
  "ex_lock = \<lparr>sl_locked = False, sl_lk = Unlocked, sl_pid = 0\<rparr>"

definition ex_buf :: buf where
  "ex_buf = \<lparr>b_valid = False, b_dirty = False, b_dev = 0, b_blockno = 0, b_lock = ex_lock, b_refcnt = 0,
     b_data = replicate 512 0\<rparr>"

definition ex_dirty :: buf where
  "ex_dirty = ex_buf\<lparr>b_valid := True, b_dirty := True, b_dev := 1, b_blockno := 50, b_data := replicate 512 7\<rparr>"

definition ex_log :: logst where
  "ex_log = \<lparr>log_lock = Unlocked, log_start = 2, log_size = 30, log_outstanding = 1, log_committing = False,
     log_dev = 1, log_blocks = [50]\<rparr>"

definition ex_sb :: superblock where
  "ex_sb = \<lparr>sb_size = 1000, sb_nblocks = 941, sb_ninodes = 200, sb_nlog = 30, sb_logstart = 2, sb_inodestart = 32,
     sb_bmapstart = 58\<rparr>"

definition ex_cons :: console where
  "ex_cons = \<lparr>cons_lock = Unlocked, cons_locking = True, in_buf = replicate 128 0, in_r = 0, in_w = 0, in_e = 0,
     panicked = False, uart_on = False, uart_out = [], crt = (\<lambda>_. 0), crt_pos = 0\<rparr>"

definition ex_fs :: fsys where
  "ex_fs = \<lparr>ps = ex_sys, disk = (\<lambda>_. replicate 512 0), disksize = 1000, dwrites = [], bcache_lock = Unlocked,
     bufs = ex_dirty # replicate 29 ex_buf, lru = [0..<30], log = ex_log, icache_lock = Unlocked, inodes = [],
     sb = ex_sb, cons = ex_cons\<rparr>"

definition ex_ino :: inode where
  "ex_ino = \<lparr>i_dev = 1, i_inum = 1, i_ref = 1, i_lock = ex_lock, i_valid = True, i_type = T_FILE, i_major = 0, i_minor = 0,
     i_nlink = 1, i_size = 511, i_addrs = [100, 101] @ replicate 11 0\<rparr>"

definition ex_boot :: "(uint \<Rightarrow> uchar list) \<Rightarrow> fsys" where
  "ex_boot d = ex_fs\<lparr>disk := d, bufs := replicate 30 ex_buf, log := ex_log\<lparr>log_blocks := []\<rparr>\<rparr>"

lemma ex_calm: "calm ex_sys"
  by (simp add: calm_def ex_sys_def cli_calm_def cli_inv_def)

lemma ex_no_sleeper: "no_sleeper ch ex_sys"
  by (simp add: no_sleeper_def ex_sys_def ex_proc_def)

lemma ex_bufs_nth: "i < 30 \<Longrightarrow> (ex_dirty # replicate 29 ex_buf) ! i = (if i = 0 then ex_dirty else ex_buf)"
  by (cases i) auto

lemma ex_buf_simps [simp]:
  "b_dev ex_buf = 0" "\<not> b_valid ex_buf" "\<not> b_dirty ex_buf" "b_refcnt ex_buf = 0" "b_lock ex_buf = ex_lock"
  "b_dev ex_dirty = 1" "b_valid ex_dirty" "b_dirty ex_dirty" "b_refcnt ex_dirty = 0" "b_lock ex_dirty = ex_lock"
  "b_blockno ex_dirty = 50" "b_data ex_dirty = replicate 512 7" "\<not> sl_locked ex_lock" "sl_lk ex_lock = Unlocked"
  by (simp_all add: ex_buf_def ex_dirty_def ex_lock_def)

lemma ex_cache_inv: "cache_inv {} ex_fs"
proof (rule cache_invI)
  show "lists_ok (bufs ex_fs) (lru ex_fs)"
    unfolding lists_ok_def ex_fs_def fsys.simps
  proof (intro conjI allI impI)
    fix i j :: nat
    assume "i < length (ex_dirty # replicate 29 ex_buf)" "j < length (ex_dirty # replicate 29 ex_buf)"
      "b_dev ((ex_dirty # replicate 29 ex_buf) ! i) = 1" "b_dev ((ex_dirty # replicate 29 ex_buf) ! j) = 1"
    then show "i = j" by (simp add: ex_bufs_nth split: if_splits)
  qed (auto simp del: upt_Suc)
  fix i assume "i < length (bufs ex_fs)"
  then show "buf_ok {} ex_fs i" by (simp add: buf_ok_def ex_fs_def ex_bufs_nth)
qed (simp_all add: ex_fs_def ex_calm ex_no_sleeper)

lemma ex_pinned: "pinned ex_fs = {50}"
  by (simp add: pinned_def ex_fs_def)

lemma ex_log_fits: "log_fits (log ex_fs) (disksize ex_fs)"
  by (simp add: log_fits_def ex_fs_def ex_log_def fs_consts log_area_def)

lemma ex_boots: "boots (log ex_fs) (disksize ex_fs) d (ex_boot d)"
proof -
  have "cache_inv {} (ex_boot d)"
    by (rule cache_invI) (simp_all add: ex_boot_def ex_fs_def ex_calm ex_no_sleeper lists_ok_def buf_ok_def, auto simp del: upt_Suc)
  then show ?thesis by (simp add: boots_def ex_boot_def ex_fs_def ex_log_def pinned_def)
qed

end
