(* ===== verification/LogProps.thy ===== *)
theory LogProps
  imports FsExample
begin

text \<open>
  Properties of sleep locks, the buffer cache and the log (\<^verbatim>\<open>kernel/sleeplock.c\<close>, \<^verbatim>\<open>kernel/bio.c\<close>,
  \<^verbatim>\<open>kernel/log.c\<close>).
\<close>

section \<open>Commits\<close>

text \<open>
  C2: a commit is atomic under crashes. A commit with blocks in the log returns, has written all of
  them to their places on the disk and has cleared the log. Whatever prefix of its disk writes reached
  the disk when the machine stopped, recovery at the next start returns and leaves every block outside
  the log as it was before the transaction if the header had not been written, and with
  the contents of the transaction if it had.
\<close>

theorem commit_crash_atomic:
  assumes "cache_inv {} s" and "log_fits (log s) (disksize s)" and "log_blocks (log s) \<noteq> []"
    and "pinned s = set (log_blocks (log s))" and "card (pinned s) < length (bufs s)"
    and "rd32 (disk s (log_start (log s))) 0 = 0"
  shows "ok commit s (\<lambda>_ s'. \<exists>W. dwrites s' = dwrites s @ W \<and> disk s' = apply_writes W (disk s) \<and>
     pinned s' = {} \<and> log_blocks (log s') = [] \<and>
     (\<forall>b. b \<notin> log_area (log s) \<longrightarrow> disk s' b = blk s b) \<and>
     (\<forall>m t. boots (log s) (disksize s) (apply_writes (take m W) (disk s)) t \<longrightarrow>
        ok recover_from_log t (\<lambda>_ t'. \<forall>b. b \<notin> log_area (log s) \<longrightarrow>
          disk t' b = (if m \<le> length (log_blocks (log s)) then disk s b else blk s b))))"
proof (rule ok_mono [OF commit_ok [OF assms(1,2,4,5,3)]])
  let ?l = "log s" and ?W = "commit_writes (log s) (blk s)"
  have clean: "blk s b = disk s b" if "b \<notin> set (log_blocks ?l)" for b
    using bc.clean [OF assms(1), of b] that assms(4) by simp
  fix u s' assume a: "cache_inv {} s' \<and> log s' = ?l\<lparr>log_blocks := []\<rparr> \<and>
     bview s' = (written_all ?W (bview s))\<lparr>v_rest := rest_of (s\<lparr>log := ?l\<lparr>log_blocks := []\<rparr>\<rparr>)\<rparr>"
  note v = bview_proj [OF a [THEN conjunct2, THEN conjunct2]]
  have all: "?W = take (2 * length (log_blocks ?l) + 2) ?W"
    using take_commit(3) [of ?l "2 * length (log_blocks ?l) + 2" "blk s"]
    by (simp add: commit_writes_def Let_def)
  have "disk s' b = blk s b" if "b \<notin> log_area ?l" for b
  proof -
    have "apply_writes ?W (disk s) b = (if b \<in> set (log_blocks ?l) then blk s b else disk s b)"
      by (subst all, rule after_clear(2) [OF assms(2) _ that]) simp
    then show ?thesis using v(3) clean by simp
  qed
  moreover have "ok recover_from_log t (\<lambda>_ t'. \<forall>b. b \<notin> log_area ?l \<longrightarrow>
      disk t' b = (if m \<le> length (log_blocks ?l) then disk s b else blk s b))"
    if "boots ?l (disksize s) (apply_writes (take m ?W) (disk s)) t" for m t
    by (rule recover_after_crash [OF that assms(2) clean assms(6)])
  moreover have "pinned s' = {}"
    using v(2) assms(4) by (auto simp: commit_writes_def Let_def image_Un image_image)
  ultimately show "\<exists>W. dwrites s' = dwrites s @ W \<and> disk s' = apply_writes W (disk s) \<and>
     pinned s' = {} \<and> log_blocks (log s') = [] \<and> (\<forall>b. b \<notin> log_area ?l \<longrightarrow> disk s' b = blk s b) \<and>
     (\<forall>m t. boots ?l (disksize s) (apply_writes (take m W) (disk s)) t \<longrightarrow>
        ok recover_from_log t (\<lambda>_ t'. \<forall>b. b \<notin> log_area ?l \<longrightarrow>
          disk t' b = (if m \<le> length (log_blocks ?l) then disk s b else blk s b)))"
    using a v(3,4) by (intro exI [of _ ?W]) auto
qed

theorem commit_crash_atomic_witness:
  "ok commit ex_fs (\<lambda>_ s'. disk s' 50 = replicate 512 7 \<and> (\<exists>W. dwrites s' = W \<and>
     ok recover_from_log (ex_boot (apply_writes (take 1 W) (disk ex_fs))) (\<lambda>_ t'. disk t' 50 = replicate 512 0) \<and>
     ok recover_from_log (ex_boot (apply_writes (take 2 W) (disk ex_fs))) (\<lambda>_ t'. disk t' 50 = replicate 512 7)))"
proof (rule ok_mono [OF commit_crash_atomic [OF ex_cache_inv ex_log_fits]])
  show "log_blocks (log ex_fs) \<noteq> []" "pinned ex_fs = set (log_blocks (log ex_fs))"
    "card (pinned ex_fs) < length (bufs ex_fs)" "rd32 (disk ex_fs (log_start (log ex_fs))) 0 = 0"
    unfolding ex_pinned by (simp_all add: ex_fs_def ex_log_def rd32_def)
next
  have o: "50 \<notin> log_area (log ex_fs)" by (simp add: log_area_def ex_fs_def ex_log_def)
  have b: "blk ex_fs 50 = replicate 512 7" "disk ex_fs 50 = replicate 512 0" "length (log_blocks (log ex_fs)) = 1"
    "dwrites ex_fs = []"
    using blk_cached [OF cache_invD(4) [OF ex_cache_inv], of 0 50] by (simp_all add: ex_fs_def ex_log_def)
  fix u s' assume "\<exists>W. dwrites s' = dwrites ex_fs @ W \<and> disk s' = apply_writes W (disk ex_fs) \<and>
     pinned s' = {} \<and> log_blocks (log s') = [] \<and> (\<forall>b. b \<notin> log_area (log ex_fs) \<longrightarrow> disk s' b = blk ex_fs b) \<and>
     (\<forall>m t. boots (log ex_fs) (disksize ex_fs) (apply_writes (take m W) (disk ex_fs)) t \<longrightarrow>
        ok recover_from_log t (\<lambda>_ t'. \<forall>b. b \<notin> log_area (log ex_fs) \<longrightarrow>
          disk t' b = (if m \<le> length (log_blocks (log ex_fs)) then disk ex_fs b else blk ex_fs b)))"
  then obtain W where W: "dwrites s' = W" "disk s' 50 = blk ex_fs 50"
    and r: "\<And>m. ok recover_from_log (ex_boot (apply_writes (take m W) (disk ex_fs))) (\<lambda>_ t'. \<forall>b. b \<notin> log_area (log ex_fs) \<longrightarrow>
          disk t' b = (if m \<le> length (log_blocks (log ex_fs)) then disk ex_fs b else blk ex_fs b))"
    using o ex_boots b(4) by auto
  have "ok recover_from_log (ex_boot (apply_writes (take m W) (disk ex_fs)))
      (\<lambda>_ t'. disk t' 50 = (if m \<le> 1 then replicate 512 0 else replicate 512 7))" for m
    by (rule ok_mono [OF r [of m]]) (use o b in auto)
  from W this [of 1] this [of 2] show "disk s' 50 = replicate 512 7 \<and> (\<exists>W. dwrites s' = W \<and>
     ok recover_from_log (ex_boot (apply_writes (take 1 W) (disk ex_fs))) (\<lambda>_ t'. disk t' 50 = replicate 512 0) \<and>
     ok recover_from_log (ex_boot (apply_writes (take 2 W) (disk ex_fs))) (\<lambda>_ t'. disk t' 50 = replicate 512 7))"
    using b by simp
qed

end
