(* ===== verification/Tx.thy ===== *)
theory Tx
  imports Commit
begin

text \<open>
  Blocks inside a transaction: \<open>log_write\<close> fulfils the contract \<open>logged_cache\<close>, and \<open>tx_inv\<close> is what holds
  between two file-system operations of a transaction, in which exactly the logged blocks are pinned.
  \<open>did ws s s'\<close> says that \<open>s'\<close> differs from \<open>s\<close> by logged writes of the blocks \<open>ws\<close> only.
\<close>

section \<open>Recording a block\<close>

definition rec_log :: "uint \<Rightarrow> fsys \<Rightarrow> fsys" where
  "rec_log b r = r\<lparr>log := (log r)\<lparr>log_blocks := absorb b (log_blocks (log r))\<rparr>\<rparr>"

definition log_room :: "nat \<Rightarrow> logst \<Rightarrow> bool" where
  "log_room k l \<longleftrightarrow> length (log_blocks l) + k \<le> LOGSIZE \<and> int (length (log_blocks l)) + int k \<le> log_size l - 1 \<and>
     1 \<le> log_outstanding l \<and> log_lock l = Unlocked"

lemma lock_log_eq: "log_lock (log s) = Unlocked \<Longrightarrow> lock_log s =
     Done () (s\<lparr>ps := (ps s)\<lparr>pcpu := pushed (pcpu (ps s))\<rparr>, log := (log s)\<lparr>log_lock := Mine\<rparr>\<rparr>)"
  by (simp add: lock_log_def f_acquire_eq)

lemma unlock_log_eq: "log_lock (log s) = Mine \<Longrightarrow> pcpu (ps s) = pushed c \<Longrightarrow> cli_calm c \<Longrightarrow> unlock_log s =
     Done () (s\<lparr>ps := (ps s)\<lparr>pcpu := c\<rparr>, log := (log s)\<lparr>log_lock := Unlocked\<rparr>\<rparr>)"
  unfolding unlock_log_def by (subst f_release_eq [where c = c]) (simp_all add: cli_calm_depth popped_pushed Let_def)

lemma log_write_eq:
  assumes "calm (ps s)" "i < length (bufs s)" "log_room 1 (log s)"
  shows "log_write i s = Done () ((set_buf i (\<lambda>b. b\<lparr>b_dirty := True\<rparr>) s)
     \<lparr>log := (log s)\<lparr>log_blocks := absorb (bno s i) (log_blocks (log s))\<rparr>\<rparr>)"
proof -
  have l: "\<not> length (log_blocks (log s)) \<ge> LOGSIZE" "\<not> int (length (log_blocks (log s))) \<ge> log_size (log s) - 1"
    "\<not> log_outstanding (log s) < 1" "log_lock (log s) = Unlocked"
    using assms(3) by (auto simp: log_room_def)
  let ?l = "(log s)\<lparr>log_lock := Mine, log_blocks := absorb (bno s i) (log_blocks (log s))\<rparr>"
  let ?s = "s\<lparr>ps := (ps s)\<lparr>pcpu := pushed (pcpu (ps s))\<rparr>, log := ?l\<rparr>"
  have L: "(log s)\<lparr>log_blocks := bs, log_lock := Unlocked\<rparr> = (log s)\<lparr>log_blocks := bs\<rparr>" for bs
    using l(4) by (intro logst.equality) simp_all
  have u: "unlock_log (set_buf i f ?s) = Done () ((set_buf i f s)
      \<lparr>log := (log s)\<lparr>log_blocks := absorb (bno s i) (log_blocks (log s))\<rparr>\<rparr>)" for f
    using l(4) calm_cli [OF assms(1)]
    by (subst unlock_log_eq [where c = "pcpu (ps s)"]) (simp_all add: set_buf_def L)
  show ?thesis
    using l assms(2) u
    by (simp add: log_write_def seqk_def bnd_def gets_def lock_log_eq get_buf_eq upd_log_def upd_buf_def upd_def bno_def)
qed

lemma rest_log: "log (rest_of s) = log s"
  by (simp add: rest_of_def)

lemma log_write_contract:
  assumes inv: "cache_inv H s" and i: "i \<in> H" and r: "log_room 1 (log (v_rest (bview s)))"
  shows "ok (log_write i) s (\<lambda>_ s'. cache_inv H s' \<and> bno s' = bno s \<and>
     bview s' = (bview s)\<lparr>v_pins := insert (bno s i) (v_pins (bview s)), v_rest := rec_log (bno s i) (v_rest (bview s))\<rparr>)"
proof -
  let ?f = "\<lambda>b. b\<lparr>b_dirty := True\<rparr>"
  let ?s = "set_buf i ?f s"
  let ?l = "(log s)\<lparr>log_blocks := absorb (bno s i) (log_blocks (log s))\<rparr>"
  note I = cache_invD [OF inv]
  have li: "i < length (bufs s)" using I(5) i .
  have k: "keeps_held ?f" by (simp add: keeps_held_def)
  have w: "with_disk (disk s) (dwrites s) ?s = ?s" using with_disk_id [of ?s] by simp
  have e: "log_write i s = Done () (?s\<lparr>log := ?l\<rparr>)"
    using log_write_eq [OF I(1) li] r by (simp add: rest_log)
  have "cache_inv H ?s" using change_inv [OF inv i k, of "disk s" "dwrites s"] w by simp
  moreover have "blk ?s = blk s"
    using change_blk [OF inv i k, of "disk s" "dwrites s"] w bc.dat_eq [OF inv i] li
    by (simp add: bno_def fun_upd_idem bdata_def bnd_def get_buf_eq ret_def)
  moreover have "pinned ?s = insert (bno s i) (pinned s)" using change_pinned [OF inv i k] by (simp add: bno_def)
  moreover have "bno (?s\<lparr>log := ?l\<rparr>) = bno s" using li by (simp add: bno_def fun_eq_iff bufs_set_buf)
  moreover have "rest_of (?s\<lparr>log := ?l\<rparr>) = rec_log (bno s i) (rest_of s)"
    by (simp add: rest_of_log rec_log_def rest_log)
  ultimately show ?thesis by (simp add: ok_def e bview_def)
qed

interpretation lc: logged_cache cache_inv bview bno "bread 1" bdata set_bdata bwrite brelse log_write rec_log
    "\<lambda>r. log_room 1 (log r)"
  by unfold_locales (rule log_write_contract)

section \<open>Transactions\<close>

definition tx_inv :: "nat set \<Rightarrow> fsys \<Rightarrow> bool" where
  "tx_inv H s \<longleftrightarrow> cache_inv H s \<and> pinned s = set (log_blocks (log s)) \<and> distinct (log_blocks (log s))"

text \<open>Room for \<open>k\<close> more blocks in the log and for \<open>h\<close> buffers held at once.\<close>

definition tx_room :: "nat \<Rightarrow> nat \<Rightarrow> fsys \<Rightarrow> bool" where
  "tx_room k h s \<longleftrightarrow> log_room k (log s) \<and> length (log_blocks (log s)) + k + h \<le> length (bufs s)"

definition recorded :: "(uint \<times> uchar list) list \<Rightarrow> uint list \<Rightarrow> uint list" where
  "recorded ws bs = fold (\<lambda>w. absorb (fst w)) ws bs"

lemma recorded_simps [simp]: "recorded [] bs = bs" "recorded (ws @ [w]) bs = absorb (fst w) (recorded ws bs)"
  by (simp_all add: recorded_def)

lemma logged_simps [simp]:
  "v_blk (logged rec b d v) = (v_blk v)(b := d)" "v_pins (logged rec b d v) = insert b (v_pins v)"
  "v_disk (logged rec b d v) = v_disk v" "v_nbufs (logged rec b d v) = v_nbufs v"
  "v_nblocks (logged rec b d v) = v_nblocks v"
  by (simp_all add: logged_def)

lemma rest_logged: "v_rest (logged rec_log b d v) =
    (v_rest v)\<lparr>log := (log (v_rest v))\<lparr>log_blocks := absorb b (log_blocks (log (v_rest v)))\<rparr>\<rparr>"
  by (simp add: logged_def rec_log_def)

definition did :: "(uint \<times> uchar list) list \<Rightarrow> fsys \<Rightarrow> fsys \<Rightarrow> bool" where
  "did ws s s' \<longleftrightarrow> bview s' = fold (\<lambda>(b, d). logged rec_log b d) ws (bview s)"

lemma did_Nil [simp]: "did [] s s' \<longleftrightarrow> bview s' = bview s"
  by (simp add: did_def)

lemma did_one: "did [(b, d)] s s' \<longleftrightarrow> bview s' = logged rec_log b d (bview s)"
  by (simp add: did_def)

lemma did_trans: "did xs s t \<Longrightarrow> did ys t u \<Longrightarrow> did (xs @ ys) s u"
  by (simp add: did_def)

lemma fold_logged:
  "v_blk (fold (\<lambda>(b, d). logged rec_log b d) ws v) = apply_writes ws (v_blk v) \<and>
   v_pins (fold (\<lambda>(b, d). logged rec_log b d) ws v) = v_pins v \<union> fst ` set ws \<and>
   v_disk (fold (\<lambda>(b, d). logged rec_log b d) ws v) = v_disk v \<and>
   v_nbufs (fold (\<lambda>(b, d). logged rec_log b d) ws v) = v_nbufs v \<and>
   v_nblocks (fold (\<lambda>(b, d). logged rec_log b d) ws v) = v_nblocks v \<and>
   v_rest (fold (\<lambda>(b, d). logged rec_log b d) ws v) =
     (v_rest v)\<lparr>log := (log (v_rest v))\<lparr>log_blocks := recorded ws (log_blocks (log (v_rest v)))\<rparr>\<rparr>"
proof (induction ws rule: rev_induct)
  case (snoc w ws)
  then show ?case by (cases w) (simp add: apply_writes_snoc rest_logged)
qed simp

lemma did_view:
  assumes "did ws s s'"
  shows "blk s' = apply_writes ws (blk s)" "pinned s' = pinned s \<union> fst ` set ws" "disk s' = disk s"
    "length (bufs s') = length (bufs s)" "disksize s' = disksize s"
    "rest_of s' = (rest_of s)\<lparr>log := (log s)\<lparr>log_blocks := recorded ws (log_blocks (log s))\<rparr>\<rparr>"
  using bview_proj [OF assms [unfolded did_def]] fold_logged [of ws "bview s"] by (simp_all add: rest_log)

text \<open>What a logged write leaves alone.\<close>

lemma did_rest:
  assumes "did ws s s'"
  shows "log s' = (log s)\<lparr>log_blocks := recorded ws (log_blocks (log s))\<rparr>" "sb s' = sb s" "inodes s' = inodes s"
    "ps s' = ps s" "icache_lock s' = icache_lock s"
proof -
  note r = did_view(6) [OF assms]
  have "log (rest_of s') = (log s)\<lparr>log_blocks := recorded ws (log_blocks (log s))\<rparr>" unfolding r by simp
  then show "log s' = (log s)\<lparr>log_blocks := recorded ws (log_blocks (log s))\<rparr>" by (simp add: rest_log)
  have "sb (rest_of s') = sb (rest_of s)" "inodes (rest_of s') = inodes (rest_of s)" "ps (rest_of s') = ps (rest_of s)"
    "icache_lock (rest_of s') = icache_lock (rest_of s)" unfolding r by simp_all
  then show "sb s' = sb s" "inodes s' = inodes s" "ps s' = ps s" "icache_lock s' = icache_lock s" by (simp_all add: rest_of_def)
qed

lemma absorb_facts: "set (absorb b bs) = insert b (set bs)" "distinct bs \<Longrightarrow> distinct (absorb b bs)"
  "length (absorb b bs) \<le> length bs + 1" "length bs \<le> length (absorb b bs)"
  by (auto simp: absorb_def)

lemma absorb_all: "set (recorded ws bs) = set bs \<union> fst ` set ws"
  "distinct bs \<Longrightarrow> distinct (recorded ws bs)" "length (recorded ws bs) \<le> length bs + length ws"
proof -
  show "set (recorded ws bs) = set bs \<union> fst ` set ws"
    by (induction ws rule: rev_induct) (auto simp: absorb_facts)
  show "distinct bs \<Longrightarrow> distinct (recorded ws bs)"
    by (induction ws rule: rev_induct) (auto simp: absorb_facts)
  show "length (recorded ws bs) \<le> length bs + length ws"
  proof (induction ws rule: rev_induct)
    case (snoc w ws)
    then show ?case using absorb_facts(3) [of "fst w" "recorded ws bs"] by simp
  qed simp
qed

lemma did_tx:
  assumes "did ws s s'" "tx_inv H s" "cache_inv H' s'"
  shows "tx_inv H' s'"
  using assms(2,3) did_view(2) [OF assms(1)] did_rest(1) [OF assms(1)]
  by (simp add: tx_inv_def absorb_all)

lemma did_room:
  assumes "did ws s s'" "tx_room (length ws + k) h s"
  shows "tx_room k h s'"
proof -
  have l: "log s' = (log s)\<lparr>log_blocks := recorded ws (log_blocks (log s))\<rparr>" using did_rest(1) [OF assms(1)] .
  have "length (log_blocks (log s')) \<le> length (log_blocks (log s)) + length ws"
    unfolding l using absorb_all(3) [of ws "log_blocks (log s)"] by simp
  then show ?thesis using assms(2) did_view(4) [OF assms(1)] unfolding tx_room_def log_room_def by (simp add: l)
qed

lemma tx_room_mono: "tx_room k h s \<Longrightarrow> k' \<le> k \<Longrightarrow> h' \<le> h \<Longrightarrow> tx_room k' h' s"
  by (auto simp: tx_room_def log_room_def)

lemma tx_fits:
  assumes "tx_inv H s" "tx_room k h s" "card H < h" "unat b < disksize s"
  shows "fits (card H) b (bview s)"
  using assms by (auto simp: fits_def tx_inv_def tx_room_def distinct_card)

section \<open>Holding a block\<close>

text \<open>The rules with which the file-system operations are verified: a block is read and its data given to the
  continuation, released unchanged, or changed, logged and released.\<close>

lemma did_zero: "did [] s s' \<Longrightarrow> sb s' = sb s \<and> inodes s' = inodes s \<and> log s' = log s \<and> ps s' = ps s \<and> icache_lock s' = icache_lock s"
  using did_rest [of "[]" s s'] by simp

lemma tx_held:
  assumes s: "tx_inv H s" "b \<notin> bno s ` H" "tx_room k h s" "card H < h" "unat b < disksize s"
    and m: "\<And>x s'. x \<notin> H \<Longrightarrow> tx_inv (insert x H) s' \<Longrightarrow> bno s' x = b \<Longrightarrow> \<forall>j\<in>H. bno s' j = bno s j \<Longrightarrow> did [] s s' \<Longrightarrow>
      b \<in> pinned s' \<or> blk s' b = disk s' b \<Longrightarrow> ok (f x (blk s b)) s' Q"
  shows "ok (bnd (bread 1 b) (\<lambda>x. bnd (bdata x) (f x))) s Q"
proof (rule bc.read_held)
  show "cache_inv H s" "fits (card H) b (bview s)" using s(1) tx_fits [OF s(1,3,4,5)] by (simp_all add: tx_inv_def)
  fix x s' assume a: "x \<notin> H" "cache_inv (insert x H) s'" "bno s' x = b" "\<forall>j\<in>H. bno s' j = bno s j" "bview s' = bview s"
  have c: "b \<in> pinned s' \<or> blk s' b = disk s' b"
    using bc.clean_held [of H s b] s(1,2) bview_proj [OF a(5)] by (auto simp: tx_inv_def)
  show "ok (f x (v_blk (bview s) b)) s' Q"
    using m [OF a(1) _ a(3,4)] did_tx [of "[]" s s' H "insert x H"] a c s(1) by simp
qed (rule s(2))

lemma tx_rel:
  assumes "x \<notin> H" "tx_inv (insert x H) s" "bno s x = b" "b \<in> pinned s \<or> blk s b = disk s b"
    and m: "\<And>s'. tx_inv H s' \<Longrightarrow> bno s' = bno s \<Longrightarrow> did [] s s' \<Longrightarrow> ok m s' Q"
  shows "ok (seqk (brelse x) m) s Q"
proof (rule ok_seqkI [OF bc.rel_held [OF assms(1)]])
  show "cache_inv (insert x H) s" using assms(2) by (simp add: tx_inv_def)
  fix u s' assume "cache_inv H s' \<and> bno s' = bno s \<and> bview s' = bview s"
  then show "ok m s' Q" using m did_tx [of "[]" s s' "insert x H" H] assms(2) by simp
qed (use assms in simp_all)

lemma tx_log:
  assumes "x \<notin> H" "tx_inv (insert x H) s" "bno s x = b" "tx_room (Suc k) h s"
    and m: "\<And>s'. tx_inv H s' \<Longrightarrow> bno s' = bno s \<Longrightarrow> did [(b, d)] s s' \<Longrightarrow> tx_room k h s' \<Longrightarrow> ok m s' Q"
  shows "ok (seqk (set_bdata x d) (seqk (log_write x) (seqk (brelse x) m))) s Q"
proof -
  have "ok (seqk (set_bdata x d) (seqk (log_write x) (brelse x))) s
      (\<lambda>_ s'. cache_inv H s' \<and> bno s' = bno s \<and> bview s' = logged rec_log b d (bview s))"
    using lc.log_held [OF assms(1) _ assms(3)] assms(2,4) by (simp add: tx_inv_def rest_log tx_room_def log_room_def)
  then have "ok (seqk (set_bdata x d) (seqk (log_write x) (brelse x))) s (\<lambda>_ s'. ok m s' Q)"
  proof (rule ok_mono)
    fix u s' assume a: "cache_inv H s' \<and> bno s' = bno s \<and> bview s' = logged rec_log b d (bview s)"
    then have d: "did [(b, d)] s s'" by (simp add: did_one)
    show "ok m s' Q" using m a d did_tx [OF d assms(2)] did_room [OF d, of k h] assms(4) by simp
  qed
  then show ?thesis by (simp add: ok_seqk)
qed

lemma seqk_ret: "seqk m (ret ()) = m"
  by (auto simp: seqk_def bnd_def ret_def fun_eq_iff split: res.split)

lemma tx_log_end:
  assumes "x \<notin> H" "tx_inv (insert x H) s" "bno s x = b" "tx_room (Suc k) h s"
    and m: "\<And>s'. tx_inv H s' \<Longrightarrow> bno s' = bno s \<Longrightarrow> did [(b, d)] s s' \<Longrightarrow> tx_room k h s' \<Longrightarrow> Q () s'"
  shows "ok (seqk (set_bdata x d) (seqk (log_write x) (brelse x))) s Q"
  using tx_log [OF assms(1-4), of d "ret ()" Q] m by (simp add: seqk_ret ok_ret)

lemma did_room0: "did [] s s' \<Longrightarrow> tx_room k h s \<Longrightarrow> tx_room k h s'"
  using did_room [of "[]" s s' k h] by simp

end
