(* ===== verification/Alloc.thy ===== *)
theory Alloc
  imports Inode Tx
begin

text \<open>
  The block allocator and the on-disk inodes of \<^verbatim>\<open>kernel/fs.c\<close> inside a transaction: which bit of the
  bitmap belongs to a block, what \<open>balloc\<close> and \<open>bfree\<close> do to it, and the layout of an inode in its block.
\<close>

section \<open>Bits\<close>

lemma bit_used_bit: "bit_used d bi \<longleftrightarrow> bit (d ! (bi div 8)) (bi mod 8)"
  by (simp add: bit_used_def push_bit_of_1 and_exp_eq_0_iff_not_bit)

lemma bit_mark:
  assumes "i < 8 * length d" "j < 8 * length d"
  shows "bit_used (mark_bit i d) j \<longleftrightarrow> j = i \<or> bit_used d j"
proof -
  have e: "j = i \<longleftrightarrow> j div 8 = i div 8 \<and> j mod 8 = i mod 8" by (metis div_mult_mod_eq)
  have "i div 8 < length d" using assms by auto
  moreover have "i mod 8 < 8" "j mod 8 < 8" by simp_all
  ultimately show ?thesis
    by (auto simp: bit_used_bit mark_bit_def nth_list_update bit_or_iff push_bit_of_1 bit_exp_iff e)
qed

lemma bit_clear:
  assumes "i < 8 * length d" "j < 8 * length d"
  shows "bit_used (clear_bit i d) j \<longleftrightarrow> j \<noteq> i \<and> bit_used d j"
proof -
  have e: "j = i \<longleftrightarrow> j div 8 = i div 8 \<and> j mod 8 = i mod 8" by (metis div_mult_mod_eq)
  have "i div 8 < length d" using assms by auto
  moreover have "i mod 8 < 8" "j mod 8 < 8" by simp_all
  ultimately show ?thesis
    by (auto simp: bit_used_bit clear_bit_def nth_list_update bit_and_iff bit_not_iff push_bit_of_1 bit_exp_iff e)
qed

lemma length_mark [simp]: "length (mark_bit i d) = length d" "length (clear_bit i d) = length d"
  by (simp_all add: mark_bit_def clear_bit_def)

lemma clear_mark:
  assumes "i < 8 * length d" "\<not> bit_used d i"
  shows "clear_bit i (mark_bit i d) = d"
proof -
  have "(d ! (i div 8) OR push_bit (i mod 8) 1) AND NOT (push_bit (i mod 8) 1) = d ! (i div 8)"
  proof (rule bit_word_eqI)
    fix n assume "n < LENGTH(8)"
    then show "bit ((d ! (i div 8) OR push_bit (i mod 8) 1) AND NOT (push_bit (i mod 8) 1)) n = bit (d ! (i div 8)) n"
      using assms(2) by (auto simp: bit_used_bit bit_or_iff bit_and_iff bit_not_iff push_bit_of_1 bit_exp_iff)
  qed
  then show ?thesis using assms(1) by (simp add: clear_bit_def mark_bit_def push_bit_of_1)
qed

lemma free_bit_Some:
  "free_bit d bi n = Some k \<Longrightarrow> bi \<le> k \<and> k < bi + n \<and> \<not> bit_used d k \<and> (\<forall>j. bi \<le> j \<longrightarrow> j < k \<longrightarrow> bit_used d j)"
proof (induction n arbitrary: bi)
  case (Suc n)
  show ?case
  proof (cases "bit_used d bi")
    case True
    with Suc.prems have "free_bit d (Suc bi) n = Some k" by simp
    note IH = Suc.IH [OF this]
    have "bit_used d j" if "bi \<le> j" "j < k" for j using that True IH by (cases "j = bi") auto
    with IH show ?thesis by auto
  qed (use Suc.prems in simp)
qed simp

lemma free_bit_None: "free_bit d bi n = None \<Longrightarrow> bi \<le> j \<Longrightarrow> j < bi + n \<Longrightarrow> bit_used d j"
proof (induction n arbitrary: bi)
  case (Suc n)
  then have "bit_used d bi" "free_bit d (Suc bi) n = None" by (auto split: if_splits)
  then show ?case using Suc.IH [of "Suc bi"] Suc.prems by (cases "j = bi") auto
qed simp

section \<open>The allocator\<close>

text \<open>The bit of block \<open>b\<close> as the current contents of the bitmap blocks give it.\<close>

definition used :: "fsys \<Rightarrow> nat \<Rightarrow> bool" where
  "used s b = bit_used (blk s (BBLOCK b (sb s))) (b mod BPB)"

definition bitmap_blocks :: "superblock \<Rightarrow> uint set" where
  "bitmap_blocks su = (\<lambda>b. BBLOCK b su) ` {..<unat (sb_size su)}"

text \<open>The bitmap lies on the disk, has whole blocks, and marks the blocks it consists of.\<close>

definition bitmap_ok :: "fsys \<Rightarrow> bool" where
  "bitmap_ok s \<longleftrightarrow> unat (sb_size (sb s)) \<le> disksize s \<and>
     (\<forall>b<unat (sb_size (sb s)). unat (BBLOCK b (sb s)) < disksize s \<and> length (blk s (BBLOCK b (sb s))) = BSIZE) \<and>
     (\<forall>b<unat (sb_size (sb s)). of_nat b \<in> bitmap_blocks (sb s) \<longrightarrow> used s b)"

lemma used_cong: "bview s' = bview s \<Longrightarrow> sb s' = sb s \<Longrightarrow> used s' b = used s b"
  by (simp add: used_def bview_def)

lemma sb_did: "did ws s s' \<Longrightarrow> sb s' = sb s"
  by (rule did_rest(2))

lemma bdata_eq: "i < length (bufs s) \<Longrightarrow> bdata i s = Done (b_data (bufs s ! i)) s"
  by (simp add: bdata_def bnd_def get_buf_eq ret_def)

text \<open>A block that is read only to be overwritten.\<close>

lemma ok_skip_bdata: "ok (bnd (bread 1 b) (\<lambda>x. bnd (bdata x) (\<lambda>d. f x))) s Q \<Longrightarrow> ok (bnd (bread 1 b) f) s Q"
proof -
  have "ok (bdata x) s1 (\<lambda>d s2. ok (f x) s2 Q) \<Longrightarrow> ok (f x) s1 Q" for x s1
    by (auto simp: bdata_def get_buf_def wp split: if_splits)
  then show "ok (bnd (bread 1 b) (\<lambda>x. bnd (bdata x) (\<lambda>d. f x))) s Q \<Longrightarrow> ok (bnd (bread 1 b) f) s Q"
    by (auto simp: ok_bnd elim: ok_mono)
qed

lemma bzero_ok:
  assumes "tx_inv H s" "b \<notin> bno s ` H" "tx_room (Suc k) h s" "card H < h" "unat b < disksize s"
  shows "ok (bzero 1 b) s (\<lambda>_ s'. tx_inv H s' \<and> (\<forall>j\<in>H. bno s' j = bno s j) \<and> did [(b, replicate BSIZE 0)] s s' \<and> tx_room k h s')"
  unfolding bzero_def
proof (rule ok_skip_bdata, rule tx_held [OF assms])
  fix x s' assume 1: "x \<notin> H" "tx_inv (insert x H) s'" "bno s' x = b" "\<forall>j\<in>H. bno s' j = bno s j" "did [] s s'"
  show "ok (seqk (set_bdata x (replicate BSIZE 0)) (seqk (log_write x) (brelse x))) s'
    (\<lambda>_ s'. tx_inv H s' \<and> (\<forall>j\<in>H. bno s' j = bno s j) \<and> did [(b, replicate BSIZE 0)] s s' \<and> tx_room k h s')"
    by (rule tx_log_end [OF 1(1-3) did_room0 [OF 1(5) assms(3)]])
      (use 1 did_trans [OF 1(5)] in auto)
qed

lemma BBLOCK_add: "BPB dvd b \<Longrightarrow> bi < BPB \<Longrightarrow> BBLOCK (b + bi) su = BBLOCK b su \<and> (b + bi) mod BPB = bi"
  by (auto simp: BBLOCK_def elim!: dvdE)

text \<open>The scan finds the first free block.\<close>

definition first_free :: "fsys \<Rightarrow> nat \<Rightarrow> bool" where
  "first_free s b \<longleftrightarrow> b < unat (sb_size (sb s)) \<and> \<not> used s b \<and> (\<forall>c<b. used s c)"

definition allocates :: "nat \<Rightarrow> fsys \<Rightarrow> (uint \<times> uchar list) list" where
  "allocates b s = [(BBLOCK b (sb s), mark_bit (b mod BPB) (blk s (BBLOCK b (sb s)))), (of_nat b, replicate BSIZE 0)]"

lemma sb_size_lt: "unat (sb_size su) < 4294967296"
  using unat_lt32 .

lemma bitmap_ok_cong:
  assumes "did [] s s'" "bitmap_ok s"
  shows "bitmap_ok s'" "used s' b = used s b" "first_free s' c = first_free s c" "allocates c s' = allocates c s"
proof -
  have u: "used s' b = used s b" for b using did_view [OF assms(1)] did_zero [OF assms(1)] by (simp add: used_def)
  show "bitmap_ok s'" "used s' b = used s b" "first_free s' c = first_free s c" "allocates c s' = allocates c s"
    using did_view [OF assms(1)] did_zero [OF assms(1)] assms(2)
    by (simp_all add: bitmap_ok_def u first_free_def allocates_def)
qed

lemma balloc_loop_ok:
  assumes "tx_inv H s" "tx_room (Suc (Suc k)) h s" "card H < h" "bitmap_ok s" "first_free s b"
    and "bno s ` H \<inter> bitmap_blocks (sb s) = {}" "of_nat b \<notin> bno s ` H"
    and "b0 \<le> b" "BPB dvd b0" "unat (sb_size (sb s)) \<le> b0 + n * BPB"
  shows "ok (balloc_loop 1 b0 n) s (\<lambda>r s'. r = of_nat b \<and> tx_inv H s' \<and> (\<forall>j\<in>H. bno s' j = bno s j) \<and>
     did (allocates b s) s s' \<and> tx_room k h s')"
  using assms
proof (induction n arbitrary: s b0)
  case 0
  then show ?case by (simp add: first_free_def)
next
  case (Suc n)
  let ?B = "BBLOCK b0 (sb s)" and ?m = "min BPB (unat (sb_size (sb s)) - b0)"
  have bs: "b < unat (sb_size (sb s))" "\<not> used s b" "\<And>c. c < b \<Longrightarrow> used s c" using Suc.prems(5) by (auto simp: first_free_def)
  have "?B \<in> bitmap_blocks (sb s)" using Suc.prems(8) bs(1) by (auto simp: bitmap_blocks_def)
  then have B: "?B \<notin> bno s ` H" "unat ?B < disksize s"
    using Suc.prems(4,6,8) bs(1) by (blast, simp add: bitmap_ok_def)
  have u: "used s (b0 + j) \<longleftrightarrow> bit_used (blk s ?B) j" if "j < BPB" for j
    using BBLOCK_add [OF Suc.prems(9) that, of "sb s"] by (simp add: used_def)
  show ?case
    unfolding balloc_loop.simps ok_bnd [of "gets sb"] ok_gets
  proof (rule tx_held [OF Suc.prems(1) B(1) Suc.prems(2,3) B(2)])
    fix x s1 assume 1: "x \<notin> H" "tx_inv (insert x H) s1" "bno s1 x = ?B" "\<forall>j\<in>H. bno s1 j = bno s j" "did [] s s1"
      "?B \<in> pinned s1 \<or> blk s1 ?B = disk s1 ?B"
    note cong = bitmap_ok_cong [OF 1(5) Suc.prems(4)] and sb1 = did_zero [OF 1(5)] and v1 = did_view [OF 1(5)]
    let ?Q = "\<lambda>r s'. r = of_nat b \<and> tx_inv H s' \<and> (\<forall>j\<in>H. bno s' j = bno s j) \<and> did (allocates b s) s s' \<and> tx_room k h s'"
    show "ok (case free_bit (blk s ?B) 0 ?m of
         None \<Rightarrow> seqk (brelse x) (balloc_loop 1 (b0 + BPB) n)
       | Some bi \<Rightarrow> seqk (set_bdata x (mark_bit bi (blk s ?B))) (seqk (log_write x) (seqk (brelse x)
           (seqk (bzero 1 (of_nat (b0 + bi))) (ret (of_nat (b0 + bi))))))) s1 ?Q"
    proof (cases "free_bit (blk s ?B) 0 ?m")
      case None
      have ge: "b0 + BPB \<le> b"
        using free_bit_None [OF None, of "b - b0"] u [of "b - b0"] bs(1,2) Suc.prems(8)
        by (cases "b < b0 + BPB") (auto simp: less_diff_conv2)
      show ?thesis
        unfolding None option.case
      proof (rule tx_rel [OF 1(1,2,3,6)])
        fix s2 assume 2: "tx_inv H s2" "bno s2 = bno s1" "did [] s1 s2"
        have d: "did [] s s2" using did_trans [OF 1(5) 2(3)] by simp
        note c2 = bitmap_ok_cong [OF d Suc.prems(4)] and sb2 = did_zero [OF d]
        have im: "bno s2 ` H = bno s ` H" using 1(4) 2(2) by auto
        have "ok (balloc_loop 1 (b0 + BPB) n) s2 (\<lambda>r s'. r = of_nat b \<and> tx_inv H s' \<and> (\<forall>j\<in>H. bno s' j = bno s2 j) \<and>
            did (allocates b s2) s2 s' \<and> tx_room k h s')"
          using Suc.prems 2(1) d did_room0 [OF d Suc.prems(2)] c2 sb2 im ge
          by (intro Suc.IH) (simp_all add: algebra_simps dvd_add)
        then show "ok (balloc_loop 1 (b0 + BPB) n) s2 ?Q"
          by (rule ok_mono) (use 1(4) 2(2) c2(4) did_trans [OF d] in auto)
      qed
    next
      case (Some bi)
      note j = free_bit_Some [OF Some]
      have bi: "bi < BPB" "b0 + bi < unat (sb_size (sb s))" using j by auto
      have "\<not> used s (b0 + bi)" using j u [OF bi(1)] by simp
      then have "\<not> b0 + bi < b" using bs(3) [of "b0 + bi"] by blast
      moreover have "\<not> b < b0 + bi"
      proof
        assume l: "b < b0 + bi"
        then have "bit_used (blk s ?B) (b - b0)" "b - b0 < BPB" using j bi(1) Suc.prems(8) by auto
        then show False using u [of "b - b0"] bs(2) Suc.prems(8) by simp
      qed
      ultimately have eq: "b0 + bi = b" by linarith
      have B': "BBLOCK b (sb s) = ?B" "b mod BPB = bi" using BBLOCK_add [OF Suc.prems(9) bi(1), of "sb s"] eq by simp_all
      have a: "unat (of_nat b :: uint) = b" using bs(1) sb_size_lt [of "sb s"] by (intro unat_of_nat32) simp
      show ?thesis
        unfolding Some option.case eq
      proof (rule tx_log [OF 1(1-3) did_room0 [OF 1(5) Suc.prems(2)]])
        fix s2 assume 2: "tx_inv H s2" "bno s2 = bno s1" "did [(?B, mark_bit bi (blk s ?B))] s1 s2" "tx_room (Suc k) h s2"
        have d: "did [(?B, mark_bit bi (blk s ?B))] s s2" using did_trans [OF 1(5) 2(3)] by simp
        have n: "of_nat b \<notin> bno s2 ` H" using Suc.prems(7) 1(4) 2(2) by auto
        have l: "unat (of_nat b :: uint) < disksize s2"
          using a bs(1) Suc.prems(4) did_view(5) [OF d] by (simp add: bitmap_ok_def)
        show "ok (seqk (bzero 1 (of_nat b)) (ret (of_nat b))) s2 ?Q"
          unfolding ok_seqk ok_ret
          by (rule ok_mono [OF bzero_ok [OF 2(1) n 2(4) Suc.prems(3) l]])
            (use 1(4) 2(2) did_trans [OF d] in \<open>auto simp: allocates_def B'\<close>)
      qed
    qed
  qed
qed

lemma balloc_ok:
  assumes "tx_inv H s" "tx_room (Suc (Suc k)) h s" "card H < h" "bitmap_ok s" "first_free s b"
    and "bno s ` H \<inter> bitmap_blocks (sb s) = {}" "of_nat b \<notin> bno s ` H"
  shows "ok (balloc 1) s (\<lambda>r s'. r = of_nat b \<and> tx_inv H s' \<and> (\<forall>j\<in>H. bno s' j = bno s j) \<and>
     did (allocates b s) s s' \<and> tx_room k h s')"
proof -
  let ?n = "unat (sb_size (sb s))"
  have "?n \<le> (?n + BPB - 1) div BPB * BPB"
    by (simp add: fs_consts)
  then show ?thesis
    unfolding balloc_def ok_bnd [of "gets sb"] ok_gets
    by (intro balloc_loop_ok [OF assms]) simp_all
qed

lemma bfree_ok:
  assumes s: "tx_inv H s" "tx_room (Suc k) h s" "card H < h" "BBLOCK (unat b) (sb s) \<notin> bno s ` H"
    "unat (BBLOCK (unat b) (sb s)) < disksize s" and u: "used s (unat b)"
  shows "ok (bfree 1 b) s (\<lambda>_ s'. tx_inv H s' \<and> (\<forall>j\<in>H. bno s' j = bno s j) \<and> tx_room k h s' \<and>
     did [(BBLOCK (unat b) (sb s), clear_bit (unat b mod BPB) (blk s (BBLOCK (unat b) (sb s))))] s s')"
  unfolding bfree_def ok_bnd [of "gets sb"] ok_gets Let_def
proof (rule tx_held [OF s(1,4,2,3,5)])
  let ?B = "BBLOCK (unat b) (sb s)"
  fix x s1 assume 1: "x \<notin> H" "tx_inv (insert x H) s1" "bno s1 x = ?B" "\<forall>j\<in>H. bno s1 j = bno s j" "did [] s s1"
  let ?m = "seqk (set_bdata x (clear_bit (unat b mod BPB) (blk s ?B))) (seqk (log_write x) (brelse x))"
  have "ok ?m s1 (\<lambda>_ s'. tx_inv H s' \<and> (\<forall>j\<in>H. bno s' j = bno s j) \<and> tx_room k h s' \<and>
     did [(?B, clear_bit (unat b mod BPB) (blk s ?B))] s s')"
    by (rule tx_log_end [OF 1(1-3) did_room0 [OF 1(5) s(2)]]) (use 1 did_trans [OF 1(5)] in auto)
  then show "ok (if \<not> bit_used (blk s ?B) (unat b mod BPB) then panic ''freeing free block'' else ?m) s1
    (\<lambda>_ s'. tx_inv H s' \<and> (\<forall>j\<in>H. bno s' j = bno s j) \<and> tx_room k h s' \<and>
     did [(?B, clear_bit (unat b mod BPB) (blk s ?B))] s s')"
    using u by (simp add: used_def)
qed

lemma allocates_used:
  assumes d: "did (allocates b s) s s'" and bm: "bitmap_ok s" and b: "b < unat (sb_size (sb s))" "\<not> used s b"
    and c: "c < unat (sb_size (sb s))"
  shows "used s' c \<longleftrightarrow> c = b \<or> used s c"
proof -
  let ?B = "BBLOCK b (sb s)"
  have nb: "of_nat b \<notin> bitmap_blocks (sb s)" using bm b by (auto simp: bitmap_ok_def)
  then have ne: "BBLOCK c (sb s) \<noteq> of_nat b" using c unfolding bitmap_blocks_def by (metis imageI lessThan_iff)
  have l: "length (blk s ?B) = BSIZE" using bm b by (simp add: bitmap_ok_def)
  have e: "blk s' (BBLOCK c (sb s)) = (if BBLOCK c (sb s) = ?B then mark_bit (b mod BPB) (blk s ?B) else blk s (BBLOCK c (sb s)))"
    using did_view(1) [OF d] ne by (simp add: allocates_def apply_writes_def)
  have lt: "x mod BPB < 8 * BSIZE" for x by (simp add: fs_consts)
  have same: "BBLOCK c (sb s) = ?B \<Longrightarrow> c mod BPB = b mod BPB \<Longrightarrow> c = b"
  proof -
    assume h: "BBLOCK c (sb s) = ?B" "c mod BPB = b mod BPB"
    have "unat (of_nat (c div BPB) :: uint) = c div BPB" "unat (of_nat (b div BPB) :: uint) = b div BPB"
      by (rule unat_of_nat32, rule le_less_trans [OF div_le_dividend], use b(1) c sb_size_lt [of "sb s"] in simp)+
    moreover have "(of_nat (c div BPB) :: uint) = of_nat (b div BPB)" using h(1) by (simp add: BBLOCK_def)
    ultimately have "c div BPB = b div BPB" by metis
    then show "c = b" using h(2) by (metis div_mult_mod_eq)
  qed
  show ?thesis
    using e same bit_mark [of "b mod BPB" "blk s ?B" "c mod BPB"] lt l sb_did [OF d]
    by (auto simp: used_def split: if_splits)
qed

section \<open>Inodes in their blocks\<close>

lemma rd16_patch_in: "o' + length xs \<le> length d \<Longrightarrow> p + 2 \<le> length xs \<Longrightarrow> rd16 (patch o' xs d) (o' + p) = rd16 xs p"
  by (simp add: rd16_def nth_patch)

lemma rd32_patch_in: "o' + length xs \<le> length d \<Longrightarrow> p + 4 \<le> length xs \<Longrightarrow> rd32 (patch o' xs d) (o' + p) = rd32 xs p"
  by (simp add: rd32_def nth_patch)

lemma rd16_patch_out: "o' + length xs \<le> length d \<Longrightarrow> q + 2 \<le> length d \<Longrightarrow> q + 2 \<le> o' \<or> o' + length xs \<le> q \<Longrightarrow>
    rd16 (patch o' xs d) q = rd16 d q"
  by (auto simp: rd16_def nth_patch)

lemma rd32_patch_out: "o' + length xs \<le> length d \<Longrightarrow> q + 4 \<le> length d \<Longrightarrow> q + 4 \<le> o' \<or> o' + length xs \<le> q \<Longrightarrow>
    rd32 (patch o' xs d) q = rd32 d q"
  by (auto simp: rd32_def nth_patch)

lemma length_dinode_bytes: "length (di_addrs di) = NDIRECT + 1 \<Longrightarrow> length (dinode_bytes di) = DINODESIZE"
  by (simp add: dinode_bytes_def length_concat_bytes fs_consts)

lemma dinode_fields:
  assumes "length (di_addrs di) = NDIRECT + 1"
  shows "rd16 (dinode_bytes di) 0 = di_type di" "rd16 (dinode_bytes di) 2 = di_major di"
    "rd16 (dinode_bytes di) 4 = di_minor di" "rd16 (dinode_bytes di) 6 = di_nlink di"
    "rd32 (dinode_bytes di) 8 = di_size di" "j < NDIRECT + 1 \<Longrightarrow> rd32 (dinode_bytes di) (12 + 4 * j) = di_addrs di ! j"
proof -
  let ?a = "bytes16 (di_type di)" and ?b = "bytes16 (di_major di)" and ?c = "bytes16 (di_minor di)"
    and ?d = "bytes16 (di_nlink di)" and ?e = "bytes32 (di_size di)"
  show "rd16 (dinode_bytes di) 0 = di_type di"
    using rd16_bytes [of "[]" 0] by (simp add: dinode_bytes_def)
  show "rd16 (dinode_bytes di) 2 = di_major di"
    using rd16_bytes [of ?a 2] by (simp add: dinode_bytes_def)
  show "rd16 (dinode_bytes di) 4 = di_minor di"
    using rd16_bytes [of "?a @ ?b" 4] by (simp add: dinode_bytes_def)
  show "rd16 (dinode_bytes di) 6 = di_nlink di"
    using rd16_bytes [of "?a @ ?b @ ?c" 6] by (simp add: dinode_bytes_def)
  show "rd32 (dinode_bytes di) 8 = di_size di"
    using rd32_bytes [of "?a @ ?b @ ?c @ ?d" 8] by (simp add: dinode_bytes_def)
  show "rd32 (dinode_bytes di) (12 + 4 * j) = di_addrs di ! j" if "j < NDIRECT + 1"
    using rd32_concat [of j "di_addrs di" "?a @ ?b @ ?c @ ?d @ ?e" 12 "[]"] that assms by (simp add: dinode_bytes_def)
qed

lemma dinode_roundtrip:
  assumes "length (di_addrs di) = NDIRECT + 1" "length d = BSIZE" "k < IPB"
  shows "dinode_of (patch (DINODESIZE * k) (dinode_bytes di) d) k = di"
proof -
  let ?o = "DINODESIZE * k"
  have l: "?o + length (dinode_bytes di) \<le> length d"
    using assms length_dinode_bytes [OF assms(1)] by (simp add: fs_consts)
  have n: "length (dinode_bytes di) = 64" using length_dinode_bytes [OF assms(1)] by (simp add: fs_consts)
  note r16 = rd16_patch_in [OF l] and r32 = rd32_patch_in [OF l]
  have "map (\<lambda>j. rd32 (patch ?o (dinode_bytes di) d) (?o + 12 + 4 * j)) [0..<NDIRECT + 1] = di_addrs di"
  proof (rule nth_equalityI)
    fix j assume "j < length (map (\<lambda>j. rd32 (patch ?o (dinode_bytes di) d) (?o + 12 + 4 * j)) [0..<NDIRECT + 1])"
    then have j: "j < NDIRECT + 1" by simp
    then have "rd32 (patch ?o (dinode_bytes di) d) (?o + (12 + 4 * j)) = rd32 (dinode_bytes di) (12 + 4 * j)"
      by (intro r32) (simp add: n fs_consts)
    then show "map (\<lambda>j. rd32 (patch ?o (dinode_bytes di) d) (?o + 12 + 4 * j)) [0..<NDIRECT + 1] ! j = di_addrs di ! j"
      using j dinode_fields(6) [OF assms(1) j] by (simp del: upt_Suc add: add.assoc)
  qed (use assms in simp)
  then show ?thesis
    using dinode_fields [OF assms(1)] r16 [of 0] r16 [of 2] r16 [of 4] r16 [of 6] r32 [of 8]
    by (simp add: dinode_of_def Let_def n del: upt_Suc)
qed

lemma dinode_other:
  assumes "length xs = DINODESIZE" "length d = BSIZE" "k < IPB" "j < IPB" "j \<noteq> k"
  shows "dinode_of (patch (DINODESIZE * k) xs d) j = dinode_of d j"
proof -
  let ?k = "64 * k" and ?j = "64 * j"
  have l: "?k + length xs \<le> length d" "length xs = 64" "length d = 512" "?j + 64 \<le> ?k \<or> ?k + 64 \<le> ?j" "?j + 64 \<le> 512"
    using assms by (auto simp: fs_consts)
  have a: "rd16 (patch ?k xs d) (?j + p) = rd16 d (?j + p)" if "p + 2 \<le> 64" for p
    by (rule rd16_patch_out) (use l that in auto)
  have b: "rd32 (patch ?k xs d) (?j + p) = rd32 d (?j + p)" if "p + 4 \<le> 64" for p
    by (rule rd32_patch_out) (use l that in auto)
  have "rd32 (patch ?k xs d) (?j + 12 + 4 * i) = rd32 d (?j + 12 + 4 * i)" if "i < 13" for i
    using b [of "12 + 4 * i"] that by (simp add: add.assoc)
  then have "map (\<lambda>i. rd32 (patch ?k xs d) (?j + 12 + 4 * i)) [0..<13] = map (\<lambda>i. rd32 d (?j + 12 + 4 * i)) [0..<13]"
    by (intro map_cong refl) simp
  then show ?thesis
    using a [of 0] a [of 2] a [of 4] a [of 6] b [of 8] by (simp add: dinode_of_def Let_def fs_consts del: upt_Suc)
qed

end
