(* ===== verification/FileData.thy ===== *)
theory FileData
  imports Dir Alloc
begin

text \<open>
  The contents of a file whose blocks are allocated (\<^verbatim>\<open>kernel/fs.c\<close>): the block map \<open>bmap\<close>, the loops of
  \<open>readi\<close> and \<open>writei\<close> and the update of the inode on disk, as operations on the sequence of the file's bytes.
\<close>

section \<open>The inode table beside the cache\<close>

lemma tx_inodes [simp]:
  "cache_inv H (s\<lparr>inodes := x\<rparr>) = cache_inv H s" "tx_inv H (s\<lparr>inodes := x\<rparr>) = tx_inv H s"
  "tx_room k h (s\<lparr>inodes := x\<rparr>) = tx_room k h s" "bno (s\<lparr>inodes := x\<rparr>) = bno s"
  "blk (s\<lparr>inodes := x\<rparr>) = blk s" "pinned (s\<lparr>inodes := x\<rparr>) = pinned s"
proof -
  show c: "cache_inv H (s\<lparr>inodes := x\<rparr>) = cache_inv H s" by (simp add: cache_inv_def buf_ok_def mine_def)
  show "pinned (s\<lparr>inodes := x\<rparr>) = pinned s" by (simp add: pinned_def)
  then show "tx_inv H (s\<lparr>inodes := x\<rparr>) = tx_inv H s" using c by (simp add: tx_inv_def)
  show "tx_room k h (s\<lparr>inodes := x\<rparr>) = tx_room k h s" by (simp add: tx_room_def)
  show "bno (s\<lparr>inodes := x\<rparr>) = bno s" by (simp add: bno_def fun_eq_iff)
  have "blk (s\<lparr>inodes := x\<rparr>) b = blk s b" for b by (simp add: blk_def split: option.split)
  then show "blk (s\<lparr>inodes := x\<rparr>) = blk s" by blast
qed

lemma get_inode_eq: "i < length (inodes s) \<Longrightarrow> get_inode i s = Done (inodes s ! i) s"
  by (simp add: get_inode_def bnd_def gets_def ret_def)

lemma ok_get_inode [wp]: "ok (get_inode i) s Q = (i < length (inodes s) \<and> Q (inodes s ! i) s)"
  by (simp add: get_inode_def wp)

lemma did_inodes: "did ws s s' \<Longrightarrow> inodes s' = inodes s"
  by (rule did_rest(3))

section \<open>The block map\<close>

definition fblock :: "(uint \<Rightarrow> uchar list) \<Rightarrow> inode \<Rightarrow> nat \<Rightarrow> uint" where
  "fblock f ip n = (if n < NDIRECT then i_addrs ip ! n
     else if i_addrs ip ! NDIRECT = 0 then 0 else ind_entry (f (i_addrs ip ! NDIRECT)) (n - NDIRECT))"

text \<open>The blocks \<open>S\<close> of the file are allocated, distinct, on the disk and different from its indirect block.\<close>

definition mapped_blocks :: "fsys \<Rightarrow> inode \<Rightarrow> nat set \<Rightarrow> bool" where
  "mapped_blocks s ip S \<longleftrightarrow> i_dev ip = 1 \<and> S \<subseteq> {..<MAXFILE} \<and> inj_on (fblock (blk s) ip) S \<and>
     (\<forall>n\<in>S. fblock (blk s) ip n \<noteq> 0 \<and> unat (fblock (blk s) ip n) < disksize s \<and>
        length (blk s (fblock (blk s) ip n)) = BSIZE \<and>
        (NDIRECT \<le> n \<longrightarrow> unat (i_addrs ip ! NDIRECT) < disksize s) \<and>
        (i_addrs ip ! NDIRECT \<noteq> 0 \<longrightarrow> fblock (blk s) ip n \<noteq> i_addrs ip ! NDIRECT))"

lemma bmap_mapped:
  assumes s: "tx_inv {} s" "tx_room k 1 s" and i: "i < length (inodes s)" and m: "mapped_blocks s (inodes s ! i) S" "n \<in> S"
  shows "ok (bmap i (of_nat n)) s (\<lambda>r s'. r = fblock (blk s) (inodes s ! i) n \<and> tx_inv {} s' \<and> did [] s s')"
proof -
  let ?ip = "inodes s ! i" and ?ind = "i_addrs (inodes s ! i) ! NDIRECT"
  have n: "n < MAXFILE" "fblock (blk s) ?ip n \<noteq> 0" "i_dev ?ip = 1" "NDIRECT \<le> n \<Longrightarrow> unat ?ind < disksize s"
    using m by (auto simp: mapped_blocks_def)
  have u: "unat (of_nat n :: uint) = n" using n(1) by (intro unat_of_nat32) (simp add: fs_consts)
  show ?thesis
  proof (cases "n < NDIRECT")
    case True
    then show ?thesis using i u n s by (simp add: bmap_def wp fblock_def Let_def)
  next
    case False
    have ind: "?ind \<noteq> 0" "ind_entry (blk s ?ind) (n - NDIRECT) \<noteq> 0" "n - NDIRECT < NINDIRECT"
      "fblock (blk s) ?ip n = ind_entry (blk s ?ind) (n - NDIRECT)"
      using False n(1,2) by (auto simp: fblock_def MAXFILE_def split: if_splits)
    have "ok (bnd (bread 1 ?ind) (\<lambda>bp. bnd (bdata bp) (\<lambda>d.
           if ind_entry d (n - NDIRECT) = 0 then
             bnd (balloc (i_dev ?ip)) (\<lambda>addr. bnd (bdata bp) (\<lambda>d.
               seqk (set_bdata bp (patch (4 * (n - NDIRECT)) (bytes32 addr) d))
              (seqk (log_write bp) (seqk (brelse bp) (ret addr)))))
           else seqk (brelse bp) (ret (ind_entry d (n - NDIRECT)))))) s
       (\<lambda>r s'. r = ind_entry (blk s ?ind) (n - NDIRECT) \<and> tx_inv {} s' \<and> did [] s s')"
    proof (rule tx_held [OF s(1) _ s(2)])
      fix x s1 assume 1: "x \<notin> {}" "tx_inv (insert x {}) s1" "bno s1 x = ?ind" "did [] s s1"
        "?ind \<in> pinned s1 \<or> blk s1 ?ind = disk s1 ?ind"
      have "ok (seqk (brelse x) (ret (ind_entry (blk s ?ind) (n - NDIRECT)))) s1
         (\<lambda>r s'. r = ind_entry (blk s ?ind) (n - NDIRECT) \<and> tx_inv {} s' \<and> did [] s s')"
        by (rule tx_rel [OF 1(1,2,3,5)]) (use 1(4) in \<open>auto simp: ok_ret\<close>)
      then show "ok (if ind_entry (blk s ?ind) (n - NDIRECT) = 0 then
             bnd (balloc (i_dev ?ip)) (\<lambda>addr. bnd (bdata x) (\<lambda>d.
               seqk (set_bdata x (patch (4 * (n - NDIRECT)) (bytes32 addr) d))
              (seqk (log_write x) (seqk (brelse x) (ret addr)))))
           else seqk (brelse x) (ret (ind_entry (blk s ?ind) (n - NDIRECT)))) s1
         (\<lambda>r s'. r = ind_entry (blk s ?ind) (n - NDIRECT) \<and> tx_inv {} s' \<and> did [] s s')"
        using ind(2) by simp
    qed (use False n(4) in auto)
    then show ?thesis
      unfolding ind(4)
      using i u n(3) ind False by (simp add: bmap_def ok_bnd [of "get_inode i"] ok_get_inode Let_def ok_bnd [of "ret _"] ok_ret)
  qed
qed

section \<open>Bytes of a file\<close>

definition fbyte :: "(uint \<Rightarrow> uchar list) \<Rightarrow> inode \<Rightarrow> nat \<Rightarrow> uchar" where
  "fbyte f ip off = f (fblock f ip (off div BSIZE)) ! (off mod BSIZE)"

definition blocks_of :: "nat \<Rightarrow> nat \<Rightarrow> nat set" where
  "blocks_of off len = {n. \<exists>k<len. n = (off + k) div BSIZE}"

lemma blocks_of_first: "0 < len \<Longrightarrow> off div BSIZE \<in> blocks_of off len"
  by (auto simp: blocks_of_def intro!: exI [of _ 0])

lemma blocks_of_rest: "m \<le> len \<Longrightarrow> blocks_of (off + m) (len - m) \<subseteq> blocks_of off len"
proof
  fix n assume m: "m \<le> len" and "n \<in> blocks_of (off + m) (len - m)"
  then obtain k where "k < len - m" "n = (off + (m + k)) div BSIZE" by (auto simp: blocks_of_def add.assoc)
  moreover from this m have "m + k < len" by simp
  ultimately show "n \<in> blocks_of off len" unfolding blocks_of_def by blast
qed

lemma mapped_blocks_mono: "mapped_blocks s ip S \<Longrightarrow> T \<subseteq> S \<Longrightarrow> mapped_blocks s ip T"
  unfolding mapped_blocks_def by (blast intro: inj_on_subset)

lemma mapped_did0: "did [] s s' \<Longrightarrow> mapped_blocks s' ip S = mapped_blocks s ip S"
  using did_view [of "[]" s s'] by (simp add: mapped_blocks_def)

lemma chunk_mod: "k < BSIZE - off mod BSIZE \<Longrightarrow> (off + k) mod BSIZE = off mod BSIZE + k"
  and chunk_div: "k < BSIZE - off mod BSIZE \<Longrightarrow> (off + k) div BSIZE = off div BSIZE"
proof -
  assume k: "k < BSIZE - off mod BSIZE"
  have e: "off + k = (off mod BSIZE + k) + BSIZE * (off div BSIZE)" by simp
  have l: "off mod BSIZE + k < BSIZE" using k by simp
  show "(off + k) mod BSIZE = off mod BSIZE + k" unfolding e mod_mult_self2 using l by simp
  have "(off + k) div BSIZE = off div BSIZE + (off mod BSIZE + k) div BSIZE"
    unfolding e by (rule div_mult_self2) (use l in simp)
  then show "(off + k) div BSIZE = off div BSIZE" using l by simp
qed

lemma chunk_bytes:
  assumes l: "length d = BSIZE" and m: "m \<le> BSIZE - off mod BSIZE"
  shows "take m (drop (off mod BSIZE) d) = map (\<lambda>k. d ! ((off + k) mod BSIZE)) [0..<m]"
proof (rule nth_equalityI)
  have B: "off mod BSIZE < BSIZE" by (simp add: fs_consts)
  show "length (take m (drop (off mod BSIZE) d)) = length (map (\<lambda>k. d ! ((off + k) mod BSIZE)) [0..<m])"
    using l m by simp
  fix k assume "k < length (take m (drop (off mod BSIZE) d))"
  then have k: "k < m" by simp
  have "(off + k) mod BSIZE = off mod BSIZE + k"
    using k m by (intro chunk_mod) simp
  then show "take m (drop (off mod BSIZE) d) ! k = map (\<lambda>k. d ! ((off + k) mod BSIZE)) [0..<m] ! k"
    using k m l by simp
qed

section \<open>Reading\<close>

lemma readi_loop_ok:
  assumes "tx_inv {} s" "tx_room k 1 s" "i < length (inodes s)" "left \<le> fuel"
    "mapped_blocks s (inodes s ! i) (blocks_of (unat off) left)" "unat off + left < 4294967296"
  shows "ok (readi_loop fuel i off left) s (\<lambda>bs s'.
     bs = map (fbyte (blk s) (inodes s ! i)) [unat off..<unat off + left] \<and> tx_inv {} s' \<and> did [] s s')"
  using assms
proof (induction fuel arbitrary: s off left)
  case 0
  then show ?case by (simp add: wp)
next
  case (Suc fuel)
  let ?ip = "inodes s ! i" and ?o = "unat off"
  show ?case
  proof (cases "left = 0")
    case True
    then show ?thesis using Suc.prems by (simp add: wp)
  next
    case False
    let ?n = "?o div BSIZE" and ?m = "min left (BSIZE - ?o mod BSIZE)"
    let ?b = "fblock (blk s) ?ip ?n"
    let ?P = "\<lambda>bs s'. bs = map (fbyte (blk s) ?ip) [?o..<?o + left] \<and> tx_inv {} s' \<and> did [] s s'"
    have m: "0 < ?m" "?m \<le> left" "?m \<le> BSIZE - ?o mod BSIZE" using False by (simp_all add: fs_consts)
    have n: "?n \<in> blocks_of ?o left" using False by (intro blocks_of_first) simp
    have b: "i_dev ?ip = 1" "unat ?b < disksize s" "length (blk s ?b) = BSIZE"
      using Suc.prems(5) n by (auto simp: mapped_blocks_def)
    have o': "unat (off + of_nat ?m) = ?o + ?m"
      using Suc.prems(6) m(2) unat_of_nat32 [of ?m] by (subst unat_add32) simp_all
    have "[?o..<?o + left] = [?o..<?o + ?m] @ [?o + ?m..<?o + left]"
      using m(2) upt_add_eq_append [of ?o "?o + ?m" "left - ?m"] by simp
    moreover have "map (fbyte (blk s) ?ip) [?o..<?o + ?m] = take ?m (drop (?o mod BSIZE) (blk s ?b))"
      unfolding chunk_bytes [OF b(3) m(3)]
      by (rule nth_equalityI) (use m(3) chunk_div [of _ ?o] in \<open>auto simp: fbyte_def\<close>)
    ultimately have whole: "map (fbyte (blk s) ?ip) [?o..<?o + left] =
        take ?m (drop (?o mod BSIZE) (blk s ?b)) @ map (fbyte (blk s) ?ip) [?o + ?m..<?o + left]" by simp
    have rest: "ok (bnd (readi_loop fuel i (off + of_nat ?m) (left - ?m)) (\<lambda>rest.
          ret (take ?m (drop (?o mod BSIZE) (blk s ?b)) @ rest))) s2 ?P"
      if 2: "tx_inv {} s2" "did [] s s2" for s2
    proof -
      note v = did_view [OF 2(2)] and z = did_zero [OF 2(2)]
      have "ok (readi_loop fuel i (off + of_nat ?m) (left - ?m)) s2 (\<lambda>bs s'.
          bs = map (fbyte (blk s2) (inodes s2 ! i)) [unat (off + of_nat ?m)..<unat (off + of_nat ?m) + (left - ?m)] \<and>
          tx_inv {} s' \<and> did [] s2 s')"
      proof (rule Suc.IH)
        show "mapped_blocks s2 (inodes s2 ! i) (blocks_of (unat (off + of_nat ?m)) (left - ?m))"
          unfolding o' mapped_did0 [OF 2(2)] using z Suc.prems(5) blocks_of_rest [OF m(2), of ?o] by (simp add: mapped_blocks_mono)
        show "tx_room k 1 s2" using did_room0 [OF 2(2) Suc.prems(2)] .
        show "unat (off + of_nat ?m) + (left - ?m) < 4294967296" unfolding o' using Suc.prems(6) m(2) by simp
      qed (use 2 Suc.prems m z in auto)
      then show ?thesis
        unfolding ok_bnd ok_ret by (rule ok_mono) (use whole o' v z m(2) 2(2) in auto)
    qed
    have "ok (bnd (bread 1 ?b) (\<lambda>bp. bnd (bdata bp) (\<lambda>d. seqk (brelse bp)
         (bnd (readi_loop fuel i (off + of_nat ?m) (left - ?m)) (\<lambda>rest. ret (take ?m (drop (?o mod BSIZE) d) @ rest)))))) s1 ?P"
      if 1: "tx_inv {} s1" "did [] s s1" for s1
    proof (rule tx_held [OF 1(1) _ did_room0 [OF 1(2) Suc.prems(2)]])
      note v = did_view [OF 1(2)]
      show "unat ?b < disksize s1" using v b by simp
      fix x s2 assume 2: "x \<notin> {}" "tx_inv (insert x {}) s2" "bno s2 x = ?b" "did [] s1 s2"
        "?b \<in> pinned s2 \<or> blk s2 ?b = disk s2 ?b"
      have e: "blk s1 ?b = blk s ?b" using v by simp
      show "ok (seqk (brelse x) (bnd (readi_loop fuel i (off + of_nat ?m) (left - ?m)) (\<lambda>rest.
          ret (take ?m (drop (?o mod BSIZE) (blk s1 ?b)) @ rest)))) s2 ?P"
        unfolding e by (rule tx_rel [OF 2(1,2,3,5)], rule rest) (use 1 2 in auto)
    qed simp_all
    then have "ok (bmap i (of_nat ?n)) s (\<lambda>r s1. ok (bnd (bread 1 r) (\<lambda>bp. bnd (bdata bp) (\<lambda>d. seqk (brelse bp)
         (bnd (readi_loop fuel i (off + of_nat ?m) (left - ?m)) (\<lambda>rest. ret (take ?m (drop (?o mod BSIZE) d) @ rest)))))) s1 ?P)"
      by (intro ok_mono [OF bmap_mapped [OF Suc.prems(1,2,3,5) n]]) auto
    then show ?thesis
      using False Suc.prems(3) b(1) by (simp add: ok_bnd ok_get_inode Let_def ok_seqk ok_ret)
  qed
qed

text \<open>\<open>readi\<close> on a file: nothing beyond the end, at most the bytes up to it.\<close>

definition clip :: "uint \<Rightarrow> uint \<Rightarrow> uint \<Rightarrow> uint" where
  "clip lim off n = (if off + n > lim then lim - off else n)"

lemma readi_ok:
  assumes s: "tx_inv {} s" "tx_room k 1 s" "i < length (inodes s)" and t: "i_type (inodes s ! i) \<noteq> T_DEV"
    and o: "off \<le> i_size (inodes s ! i)" "unat off + unat n < 4294967296"
    and m: "mapped_blocks s (inodes s ! i) (blocks_of (unat off) (unat (clip (i_size (inodes s ! i)) off n)))"
  shows "ok (readi i off n) s (\<lambda>(r, bs) s'. r = sint (clip (i_size (inodes s ! i)) off n) \<and>
     bs = map (fbyte (blk s) (inodes s ! i)) [unat off..<unat off + unat (clip (i_size (inodes s ! i)) off n)] \<and>
     tx_inv {} s' \<and> did [] s s')"
proof -
  let ?n = "clip (i_size (inodes s ! i)) off n"
  have u: "unat (off + n) = unat off + unat n" using o(2) by (rule unat_add32)
  have sz: "unat (i_size (inodes s ! i) - off) = unat (i_size (inodes s ! i)) - unat off"
    using o(1) by (intro unat_sub32) (simp add: word_le_nat_alt)
  have le: "unat ?n \<le> unat n"
    using u sz by (auto simp: clip_def word_less_nat_alt)
  have w: "\<not> off + n < off" using u by (simp add: word_less_nat_alt)
  have "ok (readi_loop (unat ?n) i off (unat ?n)) s (\<lambda>bs s'.
     bs = map (fbyte (blk s) (inodes s ! i)) [unat off..<unat off + unat ?n] \<and> tx_inv {} s' \<and> did [] s s')"
    by (rule readi_loop_ok [OF s _ m]) (use o(2) le in auto)
  then show ?thesis
    using s(3) t o(1) leD [OF o(1)] w by (simp add: readi_def ok_bnd ok_get_inode Let_def clip_def [symmetric] ok_ret)
qed

section \<open>Writing\<close>

text \<open>How many blocks \<open>len\<close> bytes from \<open>off\<close> on touch.\<close>

definition touched :: "nat \<Rightarrow> nat \<Rightarrow> nat" where
  "touched off len = (if len = 0 then 0 else (off + len - 1) div BSIZE - off div BSIZE + 1)"

lemma touched_step:
  assumes "0 < len" "m = min len (BSIZE - off mod BSIZE)"
  shows "touched off len = Suc (touched (off + m) (len - m))"
proof (cases "len \<le> BSIZE - off mod BSIZE")
  case True
  then have "(off + (len - 1)) div BSIZE = off div BSIZE" using assms(1) by (intro chunk_div) simp
  then show ?thesis using True assms by (simp add: touched_def)
next
  case False
  have B: "off mod BSIZE < BSIZE" by (simp add: fs_consts)
  have m: "m = BSIZE - off mod BSIZE" using False assms by simp
  have e: "off + m = BSIZE * (off div BSIZE + 1)"
  proof -
    have "off + m = off mod BSIZE + BSIZE * (off div BSIZE) + (BSIZE - off mod BSIZE)" unfolding m by simp
    also have "\<dots> = BSIZE * (off div BSIZE) + BSIZE" using B by linarith
    finally show ?thesis by simp
  qed
  have d: "(off + m) div BSIZE = off div BSIZE + 1" unfolding e by (simp add: fs_consts)
  have "off + m \<le> off + len - 1" using False m by simp
  then have "off div BSIZE + 1 \<le> (off + len - 1) div BSIZE" using d div_le_mono by metis
  then show ?thesis using False assms(1) m d by (simp add: touched_def)
qed

lemma fblock_upd:
  assumes "i_addrs ip ! NDIRECT \<noteq> 0 \<Longrightarrow> b \<noteq> i_addrs ip ! NDIRECT"
  shows "fblock (f(b := d)) ip n = fblock f ip n"
  using assms by (auto simp: fblock_def)

text \<open>One logged write of a block of the file.\<close>

lemma write_chunk:
  assumes m: "mapped_blocks s ip S" "n \<in> S" and d: "did [(fblock (blk s) ip n, d)] s s'" and l: "length d = BSIZE"
  shows "mapped_blocks s' ip S" "c \<in> S \<Longrightarrow> fblock (blk s') ip c = fblock (blk s) ip c"
    "off div BSIZE \<in> S \<Longrightarrow> fbyte (blk s') ip off = (if off div BSIZE = n then d ! (off mod BSIZE) else fbyte (blk s) ip off)"
proof -
  let ?b = "fblock (blk s) ip n"
  have v: "blk s' = (blk s)(?b := d)" "disksize s' = disksize s" using did_view [OF d] by (simp_all add: apply_writes_def)
  have ne: "i_addrs ip ! NDIRECT \<noteq> 0 \<Longrightarrow> ?b \<noteq> i_addrs ip ! NDIRECT" using m by (auto simp: mapped_blocks_def)
  have f: "fblock ((blk s)(?b := d)) ip = fblock (blk s) ip" using fblock_upd [OF ne] by blast
  show "fblock (blk s') ip c = fblock (blk s) ip c" by (simp add: f v)
  show "mapped_blocks s' ip S" using m(1) l unfolding mapped_blocks_def v f by auto
  show "fbyte (blk s') ip off = (if off div BSIZE = n then d ! (off mod BSIZE) else fbyte (blk s) ip off)" if "off div BSIZE \<in> S"
  proof -
    have "fblock (blk s) ip (off div BSIZE) = ?b \<longleftrightarrow> off div BSIZE = n"
      using m that by (auto simp: mapped_blocks_def inj_on_def)
    then show ?thesis by (simp add: fbyte_def f v)
  qed
qed

definition overwritten :: "fsys \<Rightarrow> inode \<Rightarrow> nat set \<Rightarrow> nat \<Rightarrow> uchar list \<Rightarrow> fsys \<Rightarrow> bool" where
  "overwritten s ip S off src s' \<longleftrightarrow> mapped_blocks s' ip S \<and> (\<forall>n\<in>S. fblock (blk s') ip n = fblock (blk s) ip n) \<and>
     (\<exists>ws. did ws s s' \<and> fst ` set ws \<subseteq> fblock (blk s) ip ` S) \<and>
     (\<forall>p. p div BSIZE \<in> S \<longrightarrow> fbyte (blk s') ip p =
        (if off \<le> p \<and> p < off + length src then src ! (p - off) else fbyte (blk s) ip p))"

lemma chunk_patch:
  assumes l: "length d = BSIZE" and m: "m = min (length src) (BSIZE - off mod BSIZE)" and p: "p div BSIZE = off div BSIZE"
  shows "length (patch (off mod BSIZE) (take m src) d) = BSIZE"
    "patch (off mod BSIZE) (take m src) d ! (p mod BSIZE) = (if off \<le> p \<and> p < off + m then src ! (p - off) else d ! (p mod BSIZE))"
proof -
  have B: "off mod BSIZE < BSIZE" "p mod BSIZE < BSIZE" by (simp_all add: fs_consts)
  have fit: "off mod BSIZE + length (take m src) \<le> length d" using l m B(1) by simp
  show "length (patch (off mod BSIZE) (take m src) d) = BSIZE" using fit l by simp
  have q: "p = off div BSIZE * BSIZE + p mod BSIZE" "off = off div BSIZE * BSIZE + off mod BSIZE"
    using p by (metis div_mult_mod_eq)+
  have "off \<le> p \<longleftrightarrow> off mod BSIZE \<le> p mod BSIZE" "p < off + m \<longleftrightarrow> p mod BSIZE < off mod BSIZE + m"
    "p - off = p mod BSIZE - off mod BSIZE"
    using q by linarith+
  moreover have lm: "length (take m src) = m" using m by simp
  moreover have "patch (off mod BSIZE) (take m src) d ! (p mod BSIZE) =
      (if off mod BSIZE \<le> p mod BSIZE \<and> p mod BSIZE < off mod BSIZE + m then take m src ! (p mod BSIZE - off mod BSIZE)
       else d ! (p mod BSIZE))"
    using nth_patch [OF fit, of "p mod BSIZE"] B l unfolding lm by simp
  ultimately show "patch (off mod BSIZE) (take m src) d ! (p mod BSIZE) =
      (if off \<le> p \<and> p < off + m then src ! (p - off) else d ! (p mod BSIZE))"
    by (auto intro!: nth_take)
qed

lemma overwritten_step:
  assumes m: "mapped_blocks s ip S" "off div BSIZE \<in> S" and mm: "mm = min (length src) (BSIZE - off mod BSIZE)" "0 < mm"
    and d: "did [(fblock (blk s) ip (off div BSIZE),
        patch (off mod BSIZE) (take mm src) (blk s (fblock (blk s) ip (off div BSIZE))))] s s1"
    and o: "overwritten s1 ip S (off + mm) (drop mm src) s'"
  shows "overwritten s ip S off src s'"
proof -
  let ?n = "off div BSIZE" and ?b = "fblock (blk s) ip (off div BSIZE)"
  have l: "length (blk s ?b) = BSIZE" using m by (auto simp: mapped_blocks_def)
  note cp = chunk_patch [OF l mm(1)]
  note w = write_chunk [OF m d cp(1) [OF refl]]
  have o': "mapped_blocks s' ip S" "\<And>n. n \<in> S \<Longrightarrow> fblock (blk s') ip n = fblock (blk s1) ip n"
    "\<And>p. p div BSIZE \<in> S \<Longrightarrow> fbyte (blk s') ip p =
        (if off + mm \<le> p \<and> p < off + mm + length (drop mm src) then drop mm src ! (p - (off + mm)) else fbyte (blk s1) ip p)"
    using o by (auto simp: overwritten_def)
  obtain ws where ws: "did ws s1 s'" "fst ` set ws \<subseteq> fblock (blk s1) ip ` S" using o by (auto simp: overwritten_def)
  have im: "fblock (blk s1) ip ` S = fblock (blk s) ip ` S" using w(2) by auto
  have "fbyte (blk s') ip p = (if off \<le> p \<and> p < off + length src then src ! (p - off) else fbyte (blk s) ip p)"
    if p: "p div BSIZE \<in> S" for p
  proof (cases "off + mm \<le> p")
    case True
    have "fbyte (blk s1) ip p = fbyte (blk s) ip p" if "p \<ge> off + length src"
      using w(3) [OF p] cp(2) [of p] True p mm that by (simp add: fbyte_def)
    moreover have "mm + (p - (off + mm)) = p - off" using True by simp
    ultimately show ?thesis using o'(3) [OF p] True mm by auto
  next
    case False
    have "fbyte (blk s1) ip p = (if off \<le> p \<and> p < off + length src then src ! (p - off) else fbyte (blk s) ip p)"
    proof (cases "p div BSIZE = ?n")
      case True
      then show ?thesis using w(3) [OF p] cp(2) [OF True] False mm by (auto simp: fbyte_def)
    next
      case ne: False
      have "\<not> off \<le> p"
      proof
        assume "off \<le> p"
        then have "p - off < BSIZE - off mod BSIZE" "off + (p - off) = p" using False mm by auto
        then show False using chunk_div [of "p - off" off] ne by simp
      qed
      then show ?thesis using w(3) [OF p] ne by simp
    qed
    then show ?thesis using o'(3) [OF p] False by simp
  qed
  then show ?thesis
    unfolding overwritten_def
    using o'(1,2) w(2) did_trans [OF d ws(1)] ws(2) im m(2) by (intro conjI exI [of _ "_ # ws"]) auto
qed

lemma overwritten_refl: "mapped_blocks s ip S \<Longrightarrow> did [] s s' \<Longrightarrow> overwritten s ip S off [] s'"
  using mapped_did0 [of s s' ip S] did_view [of "[]" s s']
  by (auto simp: overwritten_def intro!: exI [of _ "[]"])

lemma overwritten_did0:
  assumes "did [] s s1" "overwritten s1 ip S off src s'"
  shows "overwritten s ip S off src s'"
proof -
  have "blk s1 = blk s" using did_view(1) [OF assms(1)] by simp
  moreover have "did ws s1 s' \<Longrightarrow> did ws s s'" for ws using did_trans [OF assms(1)] by simp
  ultimately show ?thesis using assms(2) unfolding overwritten_def by auto
qed

lemma writei_loop_ok:
  assumes "tx_inv {} s" "tx_room (touched (unat off) (length src) + k) 1 s" "i < length (inodes s)" "length src \<le> fuel"
    "mapped_blocks s (inodes s ! i) S" "blocks_of (unat off) (length src) \<subseteq> S" "unat off + length src < 4294967296"
  shows "ok (writei_loop fuel i off src) s (\<lambda>_ s'. tx_inv {} s' \<and> tx_room k 1 s' \<and> inodes s' = inodes s \<and>
     overwritten s (inodes s ! i) S (unat off) src s')"
  using assms
proof (induction fuel arbitrary: s off src)
  case 0
  then show ?case using overwritten_refl [of s _ S s] by (simp add: wp touched_def)
next
  case (Suc fuel)
  let ?ip = "inodes s ! i" and ?o = "unat off"
  show ?case
  proof (cases "src = []")
    case True
    then show ?thesis using Suc.prems overwritten_refl [of s _ S s] by (simp add: wp touched_def)
  next
    case False
    let ?n = "?o div BSIZE" and ?m = "min (length src) (BSIZE - ?o mod BSIZE)"
    let ?b = "fblock (blk s) ?ip ?n" and ?d = "\<lambda>d. patch (?o mod BSIZE) (take ?m src) d"
    let ?P = "\<lambda>_ s'. tx_inv {} s' \<and> tx_room k 1 s' \<and> inodes s' = inodes s \<and> overwritten s ?ip S ?o src s'"
    have m: "0 < ?m" "?m \<le> length src" using False by (simp_all add: fs_consts)
    have n: "?n \<in> S" using False Suc.prems(6) blocks_of_first [of "length src" ?o] by auto
    have b: "i_dev ?ip = 1" "unat ?b < disksize s" using Suc.prems(5) n by (auto simp: mapped_blocks_def)
    have o': "unat (off + of_nat ?m) = ?o + ?m"
      using Suc.prems(7) m(2) unat_of_nat32 [of ?m] by (subst unat_add32) simp_all
    have t: "touched ?o (length src) = Suc (touched (?o + ?m) (length (drop ?m src)))"
      using False touched_step [of "length src" ?m ?o] by simp
    have sub: "blocks_of (?o + ?m) (length (drop ?m src)) \<subseteq> S"
      using blocks_of_rest [OF m(2), of ?o] Suc.prems(6) by simp
    have "ok (bnd (bread 1 ?b) (\<lambda>bp. bnd (bdata bp) (\<lambda>d. seqk (set_bdata bp (?d d)) (seqk (log_write bp) (seqk (brelse bp)
         (writei_loop fuel i (off + of_nat ?m) (drop ?m src))))))) s1 ?P"
      if 1: "tx_inv {} s1" "did [] s s1" for s1
    proof -
      note v1 = did_view [OF 1(2)] and z1 = did_zero [OF 1(2)]
      have r1: "tx_room (Suc (touched (?o + ?m) (length (drop ?m src)) + k)) 1 s1"
        using did_room0 [OF 1(2) Suc.prems(2)] t by simp
      show ?thesis
      proof (rule tx_held [OF 1(1) _ r1])
        show "unat ?b < disksize s1" using v1 b by simp
        fix x s2 assume 2: "x \<notin> {}" "tx_inv (insert x {}) s2" "bno s2 x = ?b" "did [] s1 s2"
        have e: "blk s1 ?b = blk s ?b" using v1 by simp
        show "ok (seqk (set_bdata x (?d (blk s1 ?b))) (seqk (log_write x) (seqk (brelse x)
            (writei_loop fuel i (off + of_nat ?m) (drop ?m src))))) s2 ?P"
          unfolding e
        proof (rule tx_log [OF 2(1-3) did_room0 [OF 2(4) r1]])
          fix s3 assume 3: "tx_inv {} s3" "did [(?b, ?d (blk s ?b))] s2 s3"
            "tx_room (touched (?o + ?m) (length (drop ?m src)) + k) 1 s3"
          have d3: "did [(?b, ?d (blk s ?b))] s s3" using did_trans [OF 1(2) did_trans [OF 2(4) 3(2)]] by simp
          have i3: "inodes s3 = inodes s" using did_inodes [OF d3] .
          have m3: "mapped_blocks s3 ?ip S"
            using write_chunk(1) [OF Suc.prems(5) n d3] chunk_patch(1) [of "blk s ?b" ?m src ?o ?o] Suc.prems(5) n
            by (auto simp: mapped_blocks_def)
          have "ok (writei_loop fuel i (off + of_nat ?m) (drop ?m src)) s3 (\<lambda>_ s'. tx_inv {} s' \<and> tx_room k 1 s' \<and>
              inodes s' = inodes s3 \<and> overwritten s3 (inodes s3 ! i) S (unat (off + of_nat ?m)) (drop ?m src) s')"
            by (rule Suc.IH) (use 3 Suc.prems i3 m3 sub m o' in auto)
          then show "ok (writei_loop fuel i (off + of_nat ?m) (drop ?m src)) s3 ?P"
            by (rule ok_mono) (use overwritten_step [OF Suc.prems(5) n refl m(1) d3] i3 o' in auto)
        qed
      qed simp_all
    qed
    then have "ok (bmap i (of_nat ?n)) s (\<lambda>r s1. ok (bnd (bread 1 r) (\<lambda>bp. bnd (bdata bp) (\<lambda>d. seqk (set_bdata bp (?d d))
         (seqk (log_write bp) (seqk (brelse bp) (writei_loop fuel i (off + of_nat ?m) (drop ?m src))))))) s1 ?P)"
      by (intro ok_mono [OF bmap_mapped [OF Suc.prems(1,2,3,5) n]]) auto
    then show ?thesis
      using False Suc.prems(3) b(1) by (simp add: ok_bnd ok_get_inode Let_def ok_seqk ok_ret)
  qed
qed

section \<open>The inode on disk\<close>

definition inode_block :: "fsys \<Rightarrow> inode \<Rightarrow> uint" where
  "inode_block s ip = IBLOCK (i_inum ip) (sb s)"

definition slot_in_block :: "inode \<Rightarrow> nat" where
  "slot_in_block ip = unat (i_inum ip) mod IPB"

definition updated_block :: "fsys \<Rightarrow> inode \<Rightarrow> uchar list" where
  "updated_block s ip = patch (DINODESIZE * slot_in_block ip) (dinode_bytes (to_dinode ip)) (blk s (inode_block s ip))"

text \<open>The inode lives on the disk, in a whole block.\<close>

definition inode_ok :: "fsys \<Rightarrow> inode \<Rightarrow> bool" where
  "inode_ok s ip \<longleftrightarrow> i_dev ip = 1 \<and> length (i_addrs ip) = NDIRECT + 1 \<and> unat (inode_block s ip) < disksize s \<and>
     length (blk s (inode_block s ip)) = BSIZE"

lemma iupdate_ok:
  assumes s: "tx_inv {} s" "tx_room (Suc k) 1 s" "i < length (inodes s)" and ip: "inode_ok s (inodes s ! i)"
  shows "ok (iupdate i) s (\<lambda>_ s'. tx_inv {} s' \<and> tx_room k 1 s' \<and>
     did [(inode_block s (inodes s ! i), updated_block s (inodes s ! i))] s s')"
proof -
  let ?ip = "inodes s ! i"
  have "ok (bnd (bread 1 (inode_block s ?ip)) (\<lambda>bp. bnd (bdata bp) (\<lambda>d.
       seqk (set_bdata bp (patch (DINODESIZE * slot_in_block ?ip) (dinode_bytes (to_dinode ?ip)) d))
      (seqk (log_write bp) (brelse bp))))) s (\<lambda>_ s'. tx_inv {} s' \<and> tx_room k 1 s' \<and>
     did [(inode_block s ?ip, updated_block s ?ip)] s s')"
  proof (rule tx_held [OF s(1) _ s(2)])
    show "unat (inode_block s ?ip) < disksize s" using ip by (simp add: inode_ok_def)
    fix x s1 assume 1: "x \<notin> {}" "tx_inv (insert x {}) s1" "bno s1 x = inode_block s ?ip" "did [] s s1"
    show "ok (seqk (set_bdata x (patch (DINODESIZE * slot_in_block ?ip) (dinode_bytes (to_dinode ?ip)) (blk s (inode_block s ?ip))))
      (seqk (log_write x) (brelse x))) s1 (\<lambda>_ s'. tx_inv {} s' \<and> tx_room k 1 s' \<and>
        did [(inode_block s ?ip, updated_block s ?ip)] s s')"
      by (rule tx_log_end [OF 1(1-3) did_room0 [OF 1(4) s(2)]]) (use did_trans [OF 1(4)] in \<open>auto simp: updated_block_def\<close>)
  qed simp_all
  then show ?thesis
    using s(3) ip unfolding inode_block_def slot_in_block_def
    by (simp add: iupdate_def ok_bnd [of "get_inode i"] ok_bnd [of "gets sb"] ok_get_inode ok_gets inode_ok_def)
qed

lemma updated_dinode:
  assumes "inode_ok s ip"
  shows "dinode_of (updated_block s ip) (slot_in_block ip) = to_dinode ip"
    "j < IPB \<Longrightarrow> j \<noteq> slot_in_block ip \<Longrightarrow> dinode_of (updated_block s ip) j = dinode_of (blk s (inode_block s ip)) j"
    "length (updated_block s ip) = BSIZE"
proof -
  have a: "length (di_addrs (to_dinode ip)) = NDIRECT + 1" "length (blk s (inode_block s ip)) = BSIZE" "slot_in_block ip < IPB"
    using assms by (simp_all add: inode_ok_def to_dinode_def slot_in_block_def fs_consts)
  note l = length_dinode_bytes [OF a(1)]
  show "dinode_of (updated_block s ip) (slot_in_block ip) = to_dinode ip"
    unfolding updated_block_def by (rule dinode_roundtrip [OF a])
  show "dinode_of (updated_block s ip) j = dinode_of (blk s (inode_block s ip)) j" if "j < IPB" "j \<noteq> slot_in_block ip"
    unfolding updated_block_def by (rule dinode_other [OF l a(2,3) that])
  show "length (updated_block s ip) = BSIZE"
    unfolding updated_block_def using a l by (simp add: fs_consts)
qed

lemma set_inode_nth: "i < length (inodes s) \<Longrightarrow> inodes (set_inode i f s) ! i = f (inodes s ! i)"
  by (simp add: set_inode_def)

text \<open>The size grows to the end of the write, if it lay below it.\<close>

definition grown :: "uint \<Rightarrow> uint \<Rightarrow> inode \<Rightarrow> inode" where
  "grown off n ip = (if n > 0 \<and> off + n > i_size ip then ip\<lparr>i_size := off + n\<rparr> else ip)"

lemma grown_fields [simp]: "i_addrs (grown off n ip) = i_addrs ip" "i_dev (grown off n ip) = i_dev ip"
  "i_inum (grown off n ip) = i_inum ip" "i_type (grown off n ip) = i_type ip"
  by (simp_all add: grown_def)

lemma fblock_addrs: "i_addrs ip' = i_addrs ip \<Longrightarrow> fblock f ip' = fblock f ip \<and> fbyte f ip' = fbyte f ip"
  by (simp add: fblock_def fbyte_def fun_eq_iff)

lemma mapped_addrs: "i_addrs ip' = i_addrs ip \<Longrightarrow> i_dev ip' = i_dev ip \<Longrightarrow> mapped_blocks s ip' S = mapped_blocks s ip S"
  using fblock_addrs [of ip' ip] by (simp add: mapped_blocks_def)

text \<open>A write outside the file's blocks leaves its contents alone.\<close>

lemma other_block:
  assumes m: "mapped_blocks s ip S" and d: "did [(b, x)] s s'" and b: "b \<notin> fblock (blk s) ip ` S" "b \<noteq> i_addrs ip ! NDIRECT"
  shows "mapped_blocks s' ip S" "p div BSIZE \<in> S \<Longrightarrow> fbyte (blk s') ip p = fbyte (blk s) ip p"
proof -
  have v: "blk s' = (blk s)(b := x)" "disksize s' = disksize s" using did_view [OF d] by (simp_all add: apply_writes_def)
  have f: "fblock ((blk s)(b := x)) ip = fblock (blk s) ip" using fblock_upd [of ip b "blk s" x] b(2) by blast
  show "mapped_blocks s' ip S" using m b(1) unfolding mapped_blocks_def v f by auto
  show "p div BSIZE \<in> S \<Longrightarrow> fbyte (blk s') ip p = fbyte (blk s) ip p" using b(1) unfolding fbyte_def v f by auto
qed

end
