(* ===== verification/FileProps.thy ===== *)
theory FileProps
  imports FileData FsExample
begin

text \<open>
  Properties of files, blocks and inodes (\<^verbatim>\<open>kernel/fs.c\<close>).
\<close>

section \<open>Writing and reading a file\<close>

text \<open>A write of \<open>src\<close> at \<open>off\<close> into the allocated blocks \<open>S\<close> of the file of inode \<open>i\<close>.\<close>

definition can_write :: "fsys \<Rightarrow> nat \<Rightarrow> nat set \<Rightarrow> uint \<Rightarrow> uchar list \<Rightarrow> bool" where
  "can_write s i S off src \<longleftrightarrow> i < length (inodes s) \<and> i_type (inodes s ! i) \<noteq> T_DEV \<and> off \<le> i_size (inodes s ! i) \<and>
     unat off + length src \<le> MAXFILE * BSIZE \<and> mapped_blocks s (inodes s ! i) S \<and> blocks_of (unat off) (length src) \<subseteq> S \<and>
     inode_ok s (inodes s ! i) \<and> inode_block s (inodes s ! i) \<notin> fblock (blk s) (inodes s ! i) ` S \<and>
     inode_block s (inodes s ! i) \<noteq> i_addrs (inodes s ! i) ! NDIRECT"

definition wrote :: "fsys \<Rightarrow> nat \<Rightarrow> nat set \<Rightarrow> uint \<Rightarrow> uchar list \<Rightarrow> fsys \<Rightarrow> bool" where
  "wrote s i S off src s' \<longleftrightarrow> inodes s' = (inodes s)[i := grown off (of_nat (length src)) (inodes s ! i)] \<and>
     mapped_blocks s' (inodes s ! i) S \<and>
     (\<forall>p. p div BSIZE \<in> S \<longrightarrow> fbyte (blk s') (inodes s ! i) p =
        (if unat off \<le> p \<and> p < unat off + length src then src ! (p - unat off) else fbyte (blk s) (inodes s ! i) p)) \<and>
     (inodes s' ! i \<noteq> inodes s ! i \<longrightarrow>
        dinode_of (blk s' (inode_block s (inodes s ! i))) (slot_in_block (inodes s ! i)) = to_dinode (inodes s' ! i))"

lemma mapped_inodes: "mapped_blocks (s\<lparr>inodes := x\<rparr>) ip S = mapped_blocks s ip S"
  by (simp add: mapped_blocks_def)

lemma upd_inode_eq: "upd_inode i f s = Done () (set_inode i f s)"
  by (simp add: upd_inode_def upd_def)

lemma grow_ok:
  assumes t: "tx_inv {} s1" "tx_room (Suc k) 1 s1" and c: "can_write s i S off src" and i: "inodes s1 = inodes s"
    and o: "overwritten s (inodes s ! i) S (unat off) src s1" and g: "off + of_nat (length src) > i_size (inodes s ! i)" "src \<noteq> []"
  shows "ok (seqk (upd_inode i (\<lambda>ip. ip\<lparr>i_size := off + of_nat (length src)\<rparr>)) (iupdate i)) s1
     (\<lambda>_ s'. tx_inv {} s' \<and> tx_room k 1 s' \<and> wrote s i S off src s')"
proof -
  let ?ip = "inodes s ! i" and ?g = "grown off (of_nat (length src)) (inodes s ! i)"
  have li: "i < length (inodes s)" and m: "mapped_blocks s ?ip S" using c by (simp_all add: can_write_def)
  have bnd: "length src < 4294967296" using c by (simp add: can_write_def fs_consts)
  have gr: "?g = ?ip\<lparr>i_size := off + of_nat (length src)\<rparr>"
    using g bnd unat_of_nat32 [of "length src"] by (simp add: grown_def word_less_nat_alt)
  let ?s2 = "set_inode i (\<lambda>ip. ip\<lparr>i_size := off + of_nat (length src)\<rparr>) s1"
  have s2: "?s2 = s1\<lparr>inodes := (inodes s)[i := ?g]\<rparr>" by (simp add: set_inode_def i gr)
  obtain ws where ws: "did ws s s1" "fst ` set ws \<subseteq> fblock (blk s) ?ip ` S" using o by (auto simp: overwritten_def)
  have fb: "fblock (blk s1) ?ip ` S = fblock (blk s) ?ip ` S" using o by (auto simp: overwritten_def)
  have ib: "inode_block ?s2 ?g = inode_block s ?ip"
    unfolding s2 using did_rest(2) [OF ws(1)] by (simp add: inode_block_def)
  have unch: "blk s1 (inode_block s ?ip) = blk s (inode_block s ?ip)"
    unfolding did_view(1) [OF ws(1)] by (rule apply_writes_other) (use ws(2) c in \<open>auto simp: can_write_def\<close>)
  have iok: "inode_ok ?s2 ?g"
    using c unch did_view(5) [OF ws(1)] unfolding inode_ok_def ib by (simp add: s2 can_write_def inode_ok_def)
  have "ok (iupdate i) ?s2 (\<lambda>_ s'. tx_inv {} s' \<and> tx_room k 1 s' \<and>
      did [(inode_block ?s2 (inodes ?s2 ! i), updated_block ?s2 (inodes ?s2 ! i))] ?s2 s')"
    by (rule iupdate_ok) (use t li iok in \<open>simp_all add: s2\<close>)
  then have "ok (iupdate i) ?s2 (\<lambda>_ s'. tx_inv {} s' \<and> tx_room k 1 s' \<and> wrote s i S off src s')"
  proof (rule ok_mono)
    fix u s' assume a: "tx_inv {} s' \<and> tx_room k 1 s' \<and>
      did [(inode_block ?s2 (inodes ?s2 ! i), updated_block ?s2 (inodes ?s2 ! i))] ?s2 s'"
    have ni: "inodes ?s2 ! i = ?g" using li by (simp add: s2)
    have d: "did [(inode_block s ?ip, updated_block ?s2 ?g)] ?s2 s'" using a unfolding ni ib by simp
    have b2: "blk ?s2 = blk s1" by (simp add: s2)
    have m2: "mapped_blocks ?s2 ?ip S" using o by (simp add: s2 overwritten_def mapped_inodes)
    have sep: "inode_block s ?ip \<notin> fblock (blk ?s2) ?ip ` S" "inode_block s ?ip \<noteq> i_addrs ?ip ! NDIRECT"
      using c fb by (simp_all add: b2 can_write_def)
    note ob = other_block [OF m2 d sep]
    have "inodes s' = (inodes s)[i := ?g]" using did_inodes [OF d] by (simp add: s2)
    moreover have "dinode_of (blk s' (inode_block s ?ip)) (slot_in_block ?ip) = to_dinode ?g"
      using updated_dinode(1) [OF iok] did_view(1) [OF d] by (simp add: apply_writes_def slot_in_block_def)
    moreover have "fbyte (blk s') ?ip p = (if unat off \<le> p \<and> p < unat off + length src then src ! (p - unat off)
        else fbyte (blk s) ?ip p)" if "p div BSIZE \<in> S" for p
      using ob(2) [OF that] o that unfolding b2 by (simp add: overwritten_def)
    ultimately show "tx_inv {} s' \<and> tx_room k 1 s' \<and> wrote s i S off src s'"
      using a ob(1) li by (auto simp: wrote_def)
  qed
  then show ?thesis by (simp add: ok_seqk ok_Done_eq [OF upd_inode_eq])
qed

lemma writei_ok:
  assumes t: "tx_inv {} s" "tx_room (touched (unat off) (length src) + Suc k) 1 s" and c: "can_write s i S off src"
  shows "ok (writei i src off) s (\<lambda>r s'. r = int (length src) \<and> tx_inv {} s' \<and> tx_room k 1 s' \<and> wrote s i S off src s')"
proof -
  let ?n = "of_nat (length src) :: uint" and ?ip = "inodes s ! i"
  have c': "i < length (inodes s)" "i_type ?ip \<noteq> T_DEV" "\<not> off > i_size ?ip" "mapped_blocks s ?ip S"
    "blocks_of (unat off) (length src) \<subseteq> S" and len: "unat off + length src \<le> 71680"
    using c by (auto simp: can_write_def fs_consts)
  have n: "unat ?n = length src" using len by (intro unat_of_nat32) simp
  have add: "unat (off + ?n) = unat off + length src" using len n by (subst unat_add32) simp_all
  have g: "\<not> off + ?n < off" "\<not> off + ?n > of_nat (MAXFILE * BSIZE)"
    using add len by (simp_all add: word_less_nat_alt fs_consts)
  have sn: "sint ?n = int (length src)"
    using len by (simp add: signed_of_nat signed_take_bit_int_eq_self)
  have nz: "?n > 0 \<longleftrightarrow> src \<noteq> []" using n by (simp add: word_less_nat_alt)
  have "ok (writei_loop (length src) i off src) s (\<lambda>_ s1. tx_inv {} s1 \<and> tx_room (Suc k) 1 s1 \<and> inodes s1 = inodes s \<and>
     overwritten s ?ip S (unat off) src s1)"
    by (rule writei_loop_ok) (use t c' len in auto)
  then have "ok (writei_loop (length src) i off src) s (\<lambda>_ s1. i < length (inodes s1) \<and>
     ok (whenk (?n > 0 \<and> off + ?n > i_size (inodes s1 ! i))
             (seqk (upd_inode i (\<lambda>ip. ip\<lparr>i_size := off + ?n\<rparr>)) (iupdate i))) s1
       (\<lambda>_ s'. int (length src) = int (length src) \<and> tx_inv {} s' \<and> tx_room k 1 s' \<and> wrote s i S off src s'))"
  proof (rule ok_mono)
    fix u s1 assume 1: "tx_inv {} s1 \<and> tx_room (Suc k) 1 s1 \<and> inodes s1 = inodes s \<and> overwritten s ?ip S (unat off) src s1"
    show "i < length (inodes s1) \<and>
     ok (whenk (?n > 0 \<and> off + ?n > i_size (inodes s1 ! i))
             (seqk (upd_inode i (\<lambda>ip. ip\<lparr>i_size := off + ?n\<rparr>)) (iupdate i))) s1
       (\<lambda>_ s'. int (length src) = int (length src) \<and> tx_inv {} s' \<and> tx_room k 1 s' \<and> wrote s i S off src s')"
    proof (cases "?n > 0 \<and> off + ?n > i_size ?ip")
      case True
      then show ?thesis using grow_ok [OF _ _ c _ _ _ _, of s1 k] 1 nz c'(1) by (simp add: ok_whenk)
    next
      case False
      then have "grown off ?n ?ip = ?ip" by (auto simp: grown_def)
      then show ?thesis
        using False 1 c'(1) tx_room_mono [of "Suc k" 1 s1 k 1]
        by (auto simp: ok_whenk wrote_def overwritten_def)
    qed
  qed
  then show ?thesis
    using c'(1-3) g by (simp add: writei_def Let_def ok_bnd ok_get_inode ok_seqk sn ok_ret)
qed

lemma clip_grown:
  assumes "unat off + n \<le> 71680" and "off \<le> i_size ip"
  shows "clip (i_size (grown off (of_nat n) ip)) off (of_nat n) = of_nat n" "off \<le> i_size (grown off (of_nat n) ip)"
    "i_size (grown off (of_nat n) ip) = max (i_size ip) (off + of_nat n)"
proof -
  have u: "unat (of_nat n :: uint) = n" using assms(1) by (intro unat_of_nat32) simp
  have a: "unat (off + of_nat n) = unat off + n" using assms(1) u by (subst unat_add32) simp_all
  have z: "(0::uint) < of_nat n \<or> off + of_nat n \<le> i_size ip"
    using u a assms(2) by (cases n) (simp_all add: word_less_nat_alt)
  show g: "i_size (grown off (of_nat n) ip) = max (i_size ip) (off + of_nat n)"
    using z by (auto simp: grown_def max_def not_le)
  show "off \<le> i_size (grown off (of_nat n) ip)" unfolding g using assms(2) by (simp add: le_max_iff_disj)
  show "clip (i_size (grown off (of_nat n) ip)) off (of_nat n) = of_nat n"
    unfolding clip_def g by (simp add: not_less)
qed


definition ex_file :: fsys where
  "ex_file = (ex_boot (\<lambda>_. replicate 512 0))\<lparr>inodes := [ex_ino]\<rparr>"

lemma ex_file_tx: "tx_inv {} ex_file" "k \<le> 29 \<Longrightarrow> h = 1 \<Longrightarrow> tx_room k h ex_file"
proof -
  have "boots (log ex_fs) (disksize ex_fs) (\<lambda>_. replicate 512 0) (ex_boot (\<lambda>_. replicate 512 0))" by (rule ex_boots)
  then show "tx_inv {} ex_file"
    by (simp add: ex_file_def boots_def tx_inv_def) (simp add: ex_boot_def)
  show "k \<le> 29 \<Longrightarrow> h = 1 \<Longrightarrow> tx_room k h ex_file"
    by (simp add: ex_file_def tx_room_def log_room_def ex_boot_def ex_log_def fs_consts ex_fs_def)
qed

lemma ex_file_simps [simp]: "inodes ex_file = [ex_ino]" "sb ex_file = ex_sb" "disksize ex_file = 1000"
  "blk ex_file b = replicate 512 0"
proof -
  have p: "pinned ex_file = {}" by (auto simp: pinned_def ex_file_def ex_boot_def)
  show "blk ex_file b = replicate 512 0"
    using bc.clean [of ex_file b] ex_file_tx(1) p by (simp add: tx_inv_def) (simp add: ex_file_def ex_boot_def)
qed (simp_all add: ex_file_def ex_boot_def ex_fs_def)

lemma ex_blocks: "fblock f ex_ino 0 = 100" "fblock f ex_ino (Suc 0) = 101"
  by (simp_all add: fblock_def ex_ino_def fs_consts)

lemma ex_can_write: "can_write ex_file 0 {0, 1} 510 [1, 2, 3, 4]"
proof -
  have b: "blocks_of 510 (Suc (Suc (Suc (Suc 0)))) \<subseteq> {0, 1}" by (auto simp: blocks_of_def fs_consts)
  have m: "mapped_blocks ex_file ex_ino {0, 1}"
    by (simp add: mapped_blocks_def ex_blocks) (simp add: ex_ino_def fs_consts)
  have o: "inode_ok ex_file ex_ino" "inode_block ex_file ex_ino = 32"
    by (simp_all add: inode_ok_def inode_block_def IBLOCK_def ex_ino_def ex_sb_def fs_consts)
  show ?thesis
    unfolding can_write_def using b m o by (simp add: ex_blocks) (simp add: ex_ino_def fs_consts)
qed


section \<open>Allocating and freeing blocks\<close>

text \<open>
  C26: while the bitmap has a free block, \<open>balloc\<close> returns the lowest one, marks exactly it as used
  and fills exactly it with zeros, no other block outside the bitmap changing; freeing it with \<open>bfree\<close>
  makes the bitmap mark exactly the blocks it marked before.
\<close>

theorem balloc_fresh:
  assumes "tx_inv {} s" and "tx_room 3 1 s" and "bitmap_ok s" and "c < unat (sb_size (sb s))" and "\<not> used s c"
  shows "ok (balloc 1) s (\<lambda>r s1. unat r \<le> c \<and> \<not> used s (unat r) \<and> (\<forall>b < unat r. used s b) \<and>
     (\<forall>b < unat (sb_size (sb s)). used s1 b \<longleftrightarrow> b = unat r \<or> used s b) \<and> blk s1 r = replicate BSIZE 0 \<and>
     (\<forall>b. b \<noteq> r \<longrightarrow> b \<notin> bitmap_blocks (sb s) \<longrightarrow> blk s1 b = blk s b) \<and>
     ok (bfree 1 r) s1 (\<lambda>_ s2. \<forall>b < unat (sb_size (sb s)). used s2 b \<longleftrightarrow> used s b))"
proof -
  let ?F = "\<lambda>b. \<not> used s b"
  obtain b where b0: "\<not> used s b" "b \<le> c" "\<forall>x<b. used s x"
    using LeastI [of ?F, OF assms(5)] Least_le [of ?F, OF assms(5)] not_less_Least [of _ ?F] by blast
  have ff: "first_free s b" using b0 assms(4) by (simp add: first_free_def)
  then have b: "b < unat (sb_size (sb s))" "\<not> used s b" "\<forall>x<b. used s x" by (simp_all add: first_free_def)
  have ub: "unat (of_nat b :: uint) = b" using b(1) sb_size_lt [of "sb s"] by (intro unat_of_nat32) linarith
  have nb: "of_nat b \<notin> bitmap_blocks (sb s)" using assms(3) b by (auto simp: bitmap_ok_def)
  have B: "BBLOCK x (sb s) \<in> bitmap_blocks (sb s)" if "x < unat (sb_size (sb s))" for x
    using that by (auto simp: bitmap_blocks_def)
  have "ok (balloc 1) s (\<lambda>r s'. r = of_nat b \<and> tx_inv {} s' \<and> (\<forall>j\<in>{}. bno s' j = bno s j) \<and> did (allocates b s) s s' \<and> tx_room 1 1 s')"
    by (rule balloc_ok) (use assms(1-3) ff in \<open>simp_all add: numeral_3_eq_3\<close>)
  then show ?thesis
  proof (rule ok_mono)
    fix r :: uint and s1 assume a: "r = of_nat b \<and> tx_inv {} s1 \<and> (\<forall>j\<in>{}. bno s1 j = bno s j) \<and> did (allocates b s) s s1 \<and> tx_room 1 1 s1"
    then have d: "did (allocates b s) s s1" and r: "r = of_nat b" by auto
    note v = did_view [OF d] and sb1 = sb_did [OF d]
    let ?B = "BBLOCK b (sb s)"
    have nB: "?B \<noteq> r" using nb B [OF b(1)] r by metis
    have bl: "blk s1 = (blk s)(?B := mark_bit (b mod BPB) (blk s ?B), r := replicate BSIZE 0)"
      using v(1) by (simp add: allocates_def apply_writes_def r)
    have u1: "used s1 x \<longleftrightarrow> x = b \<or> used s x" if "x < unat (sb_size (sb s))" for x
      by (rule allocates_used [OF d assms(3) b(1,2) that])
    have len: "length (blk s ?B) = BSIZE" "unat ?B < disksize s" using assms(3) b(1) by (simp_all add: bitmap_ok_def)
    have undo: "clear_bit (b mod BPB) (blk s1 ?B) = blk s ?B"
      using nB len b(2) by (simp add: bl used_def clear_mark fs_consts)
    have "ok (bfree 1 r) s1 (\<lambda>_ s2. tx_inv {} s2 \<and> (\<forall>j\<in>{}. bno s2 j = bno s1 j) \<and> tx_room 0 1 s2 \<and>
        did [(BBLOCK (unat r) (sb s1), clear_bit (unat r mod BPB) (blk s1 (BBLOCK (unat r) (sb s1))))] s1 s2)"
      by (rule bfree_ok) (use a u1 [OF b(1)] len(2) v(5) ub in \<open>simp_all add: sb1\<close>)
    then have "ok (bfree 1 r) s1 (\<lambda>_ s2. \<forall>x < unat (sb_size (sb s)). used s2 x \<longleftrightarrow> used s x)"
    proof (rule ok_mono)
      fix u s2 assume "tx_inv {} s2 \<and> (\<forall>j\<in>{}. bno s2 j = bno s1 j) \<and> tx_room 0 1 s2 \<and>
        did [(BBLOCK (unat r) (sb s1), clear_bit (unat r mod BPB) (blk s1 (BBLOCK (unat r) (sb s1))))] s1 s2"
      then have d2: "did [(?B, blk s ?B)] s1 s2" using undo by (simp add: r ub sb1)
      have "blk s2 (BBLOCK x (sb s)) = blk s (BBLOCK x (sb s))" if "x < unat (sb_size (sb s))" for x
        using B [OF that] nb r did_view(1) [OF d2] by (auto simp: apply_writes_def bl)
      then show "\<forall>x < unat (sb_size (sb s)). used s2 x \<longleftrightarrow> used s x"
        using sb_did [OF d2] by (simp add: used_def sb1)
    qed
    moreover have "blk s1 r = replicate BSIZE 0" by (simp add: bl)
    moreover have "\<forall>x. x \<noteq> r \<longrightarrow> x \<notin> bitmap_blocks (sb s) \<longrightarrow> blk s1 x = blk s x" using B [OF b(1)] by (auto simp: bl)
    ultimately show "unat r \<le> c \<and> \<not> used s (unat r) \<and> (\<forall>b < unat r. used s b) \<and>
     (\<forall>b < unat (sb_size (sb s)). used s1 b \<longleftrightarrow> b = unat r \<or> used s b) \<and> blk s1 r = replicate BSIZE 0 \<and>
     (\<forall>b. b \<noteq> r \<longrightarrow> b \<notin> bitmap_blocks (sb s) \<longrightarrow> blk s1 b = blk s b) \<and>
     ok (bfree 1 r) s1 (\<lambda>_ s2. \<forall>b < unat (sb_size (sb s)). used s2 b \<longleftrightarrow> used s b)"
      using b0(2) b u1 by (simp add: r ub)
  qed
qed

text \<open>A bitmap block in which only the blocks up to the bitmap itself are marked.\<close>

definition ex_bitmap :: "uchar list" where
  "ex_bitmap = replicate 7 255 @ [7] @ replicate 504 0"

definition ex_disk :: fsys where
  "ex_disk = ex_boot ((\<lambda>_. replicate 512 0)(58 := ex_bitmap))"

lemma ex_disk_tx: "tx_inv {} ex_disk" "tx_room 3 1 ex_disk"
  and ex_disk_blk: "blk ex_disk = (\<lambda>_. replicate 512 0)(58 := ex_bitmap)" "sb ex_disk = ex_sb"
proof -
  have b: "boots (log ex_fs) (disksize ex_fs) ((\<lambda>_. replicate 512 0)(58 := ex_bitmap)) ex_disk"
    unfolding ex_disk_def by (rule ex_boots)
  then show t: "tx_inv {} ex_disk" by (simp add: boots_def tx_inv_def) (simp add: ex_disk_def ex_boot_def)
  show "tx_room 3 1 ex_disk" "sb ex_disk = ex_sb"
    by (simp_all add: ex_disk_def tx_room_def log_room_def ex_boot_def ex_log_def fs_consts ex_fs_def)
  have "blk ex_disk x = disk ex_disk x" for x using bc.clean [of ex_disk x] t b by (simp add: tx_inv_def boots_def)
  then show "blk ex_disk = (\<lambda>_. replicate 512 0)(58 := ex_bitmap)" by (simp add: fun_eq_iff) (simp add: ex_disk_def ex_boot_def)
qed

lemma ex_used: "b < 60 \<Longrightarrow> used ex_disk b \<longleftrightarrow> b < 59"
proof -
  have all: "\<forall>b\<in>set [0..<60]. bit_used ex_bitmap b \<longleftrightarrow> b < 59" by code_simp
  assume b: "b < 60"
  then have "b mod BPB = b" "BBLOCK b ex_sb = 58" by (simp_all add: BBLOCK_def ex_sb_def fs_consts)
  then show ?thesis using all b by (simp add: used_def ex_disk_blk)
qed

theorem balloc_fresh_witness:
  "ok (balloc 1) ex_disk (\<lambda>r s1. unat r = 59 \<and> used s1 59 \<and> blk s1 r = replicate BSIZE 0 \<and>
     ok (bfree 1 r) s1 (\<lambda>_ s2. \<not> used s2 59))"
proof -
  have ok: "bitmap_ok ex_disk"
  proof -
    have B: "BBLOCK x ex_sb = 58" if "x < 1000" for x using that by (simp add: BBLOCK_def ex_sb_def fs_consts)
    have z: "unat (sb_size ex_sb) = 1000" "disksize ex_disk = 1000" by (simp_all add: ex_sb_def ex_disk_def ex_boot_def ex_fs_def)
    have bb: "bitmap_blocks ex_sb = {58}"
      unfolding bitmap_blocks_def z using B by (auto intro!: image_eqI [of _ _ 0])
    have "used ex_disk x" if "x < 1000" "(of_nat x :: uint) = 58" for x
    proof -
      have "unat (of_nat x :: uint) = x" using that by (intro unat_of_nat32) simp
      then have "x = 58" using that by simp
      then show ?thesis using ex_used [of 58] by simp
    qed
    then show ?thesis
      unfolding bitmap_ok_def ex_disk_blk(2) z bb using B by (simp add: ex_disk_blk ex_bitmap_def fs_consts)
  qed
  have s: "59 < unat (sb_size (sb ex_disk))" by (simp add: ex_disk_blk ex_sb_def)
  show ?thesis
  proof (rule ok_mono [OF balloc_fresh [OF ex_disk_tx ok s]])
    show "\<not> used ex_disk 59" using ex_used [of 59] by simp
    fix r s1 assume a: "unat r \<le> 59 \<and> \<not> used ex_disk (unat r) \<and> (\<forall>b < unat r. used ex_disk b) \<and>
     (\<forall>b < unat (sb_size (sb ex_disk)). used s1 b \<longleftrightarrow> b = unat r \<or> used ex_disk b) \<and> blk s1 r = replicate BSIZE 0 \<and>
     (\<forall>b. b \<noteq> r \<longrightarrow> b \<notin> bitmap_blocks (sb ex_disk) \<longrightarrow> blk s1 b = blk ex_disk b) \<and>
     ok (bfree 1 r) s1 (\<lambda>_ s2. \<forall>b < unat (sb_size (sb ex_disk)). used s2 b \<longleftrightarrow> used ex_disk b)"
    then have r: "unat r = 59" using ex_used [of "unat r"] by auto
    have "ok (bfree 1 r) s1 (\<lambda>_ s2. \<not> used s2 59)"
      by (rule ok_mono [of _ _ "\<lambda>_ s2. \<forall>b < unat (sb_size (sb ex_disk)). used s2 b \<longleftrightarrow> used ex_disk b"])
        (use a s ex_used [of 59] in auto)
    then show "unat r = 59 \<and> used s1 59 \<and> blk s1 r = replicate BSIZE 0 \<and> ok (bfree 1 r) s1 (\<lambda>_ s2. \<not> used s2 59)"
      using a r s by simp
  qed
qed

end
