(* ===== verification/UserMem.thy ===== *)
theory UserMem
  imports Syscall AddrSpace
begin

text \<open>
  The memory of the running process as its own bytes: what a load and a store through the loaded page
  table do, in terms of the byte at each user address. The frames of a process are distinct and
  none of them holds a page table, so a store changes one user byte and no translation.
\<close>

definition user_ok :: "addr list \<Rightarrow> psys \<Rightarrow> bool" where
  "user_ok fs s \<longleftrightarrow> user_inv (P2V (cr3 s)) (unat SHAREDBASE) fs (km s)"

abbreviation upte :: "psys \<Rightarrow> addr \<Rightarrow> uint" where
  "upte s va \<equiv> pte_val (mem (km s)) (P2V (cr3 s)) va"

definition can_load :: "psys \<Rightarrow> addr \<Rightarrow> bool" where
  "can_load s va \<longleftrightarrow> unat (PGROUNDDOWN va) < unat SHAREDBASE \<and> present (upte s va)"

definition can_store :: "psys \<Rightarrow> addr \<Rightarrow> bool" where
  "can_store s va \<longleftrightarrow> can_load s va \<and> upte s va AND PTE_W \<noteq> 0"

definition upaddr :: "psys \<Rightarrow> addr \<Rightarrow> addr" where
  "upaddr s va = uframe (mem (km s)) (P2V (cr3 s)) va + (va AND 0xFFF)"

definition ubyte :: "psys \<Rightarrow> addr \<Rightarrow> uchar" where
  "ubyte s va = mem (km s) (upaddr s va)"

lemma can_load_xlate: "can_load s va \<Longrightarrow> xlate (mem (km s)) (P2V (cr3 s)) va = Some (upaddr s va, upte s va)"
  by (simp add: xlate_eq can_load_def upaddr_def uframe_def)

lemma uload8_eq: "can_load s va \<Longrightarrow> uload8 va s = Done (ubyte s va) s"
  by (simp add: uload8_def bnd_def gets_def can_load_xlate ubyte_def)

lemma ustr_ubyte: "can_load s (va + of_nat k) \<Longrightarrow> ustr s va k = ubyte s (va + of_nat k)"
  by (simp add: ustr_def can_load_xlate ubyte_def)

lemma ustore8_eq: "can_store s va \<Longrightarrow>
    ustore8 va b s = Done () (s\<lparr>km := (km s)\<lparr>mem := (mem (km s))(upaddr s va := b)\<rparr>\<rparr>)"
  by (simp add: can_store_def ustore8_def bnd_def gets_def can_load_xlate kmop_def zoom_def set_mem_def upd_def)

lemma upaddr_page:
  assumes "user_ok fs s" "can_load s va"
  shows "PGROUNDDOWN (upaddr s va) = uframe (mem (km s)) (P2V (cr3 s)) va"
proof -
  have "mapped (mem (km s)) (P2V (cr3 s)) 0 (unat SHAREDBASE) va" using assms(2) by (simp add: can_load_def mapped_def)
  then have "vframe (km s) (uframe (mem (km s)) (P2V (cr3 s)) va)" using assms(1) user_invD(3) unfolding user_ok_def by blast
  then show ?thesis unfolding upaddr_def by (intro PGROUNDDOWN_frame) (simp add: vframe_def)
qed

lemma upaddr_inj:
  assumes u: "user_ok fs s" and l: "can_load s va" "can_load s vb" and e: "upaddr s va = upaddr s vb"
  shows "va = vb"
proof -
  have m: "mapped (mem (km s)) (P2V (cr3 s)) 0 (unat SHAREDBASE) va" "mapped (mem (km s)) (P2V (cr3 s)) 0 (unat SHAREDBASE) vb"
    using l by (simp_all add: can_load_def mapped_def)
  have f: "uframe (mem (km s)) (P2V (cr3 s)) va = uframe (mem (km s)) (P2V (cr3 s)) vb"
    using upaddr_page [OF u l(1)] upaddr_page [OF u l(2)] e by simp
  then have "PGROUNDDOWN va = PGROUNDDOWN vb" using user_invD(6) [OF u [unfolded user_ok_def] m] by simp
  moreover have "va AND 0xFFF = vb AND 0xFFF" using e f by (simp add: upaddr_def)
  ultimately show ?thesis by (simp add: off_eq_diff)
qed

text \<open>The effect of storing \<open>bs\<close> from \<open>va\<close> on: the process has these bytes there, and nothing else of it changed.\<close>

definition uwrote :: "psys \<Rightarrow> addr \<Rightarrow> uchar list \<Rightarrow> psys \<Rightarrow> bool" where
  "uwrote s va bs s' \<longleftrightarrow> (\<exists>m. s' = s\<lparr>km := (km s)\<lparr>mem := m\<rparr>\<rparr>) \<and> (\<forall>v. upte s' v = upte s v) \<and>
     (\<forall>v. can_load s v \<longrightarrow> ubyte s' v = (if unat (v - va) < length bs then bs ! unat (v - va) else ubyte s v))"

lemma ustore8_ok:
  assumes u: "user_ok fs s" and st: "can_store s va"
  shows "ok (ustore8 va b) s (\<lambda>_ s'. user_ok fs s' \<and> uwrote s va [b] s')"
proof -
  define k where "k = (km s)\<lparr>mem := (mem (km s))(upaddr s va := b)\<rparr>"
  let ?pd = "P2V (cr3 s)" and ?s = "s\<lparr>km := k\<rparr>"
  have k: "mem k = (mem (km s))(upaddr s va := b)" "freelist k = freelist (km s)" "end_sym k = end_sym (km s)"
    "kmem_lock k = kmem_lock (km s)" by (simp_all add: k_def)
  have l: "can_load s va" using st by (simp add: can_store_def)
  then have mp: "mapped (mem (km s)) ?pd 0 (unat SHAREDBASE) va" by (simp add: can_load_def mapped_def)
  note U = user_invD [OF u [unfolded user_ok_def]]
  have pg: "PGROUNDDOWN (upaddr s va) \<notin> pt_pages (mem (km s)) ?pd" "PGROUNDDOWN (upaddr s va) \<notin> set fs"
    using U(4,5) [OF mp] upaddr_page [OF u l] by simp_all
  have so: "same_on (pt_pages (mem (km s)) ?pd) (mem (km s)) (mem k)" "same_on (set fs) (mem (km s)) (mem k)"
    using pg by (auto simp: same_on_def k)
  have pi: "pt_inv ?pd (km s)" "kmem_inv fs (km s)" using U(1) by (simp_all add: vm_inv_def)
  note pv = pt_view_same_on [OF so(1) pi(1)]
  have e: "upte ?s v = upte s v" for v using pv(3) by simp
  have fr: "uframe (mem k) ?pd v = uframe (mem (km s)) ?pd v" for v unfolding uframe_def pv(3) by simp
  have mm: "mapped (mem k) ?pd lo hi v = mapped (mem (km s)) ?pd lo hi v" for lo hi v unfolding mapped_def pv(3) by simp
  have "kmem_inv fs k" by (rule kmem_inv_frame [OF pi(2) so(2) k(2-4)])
  moreover have "pt_inv ?pd k" by (rule pt_inv_same_on [OF so(1) pi(1) k(3)])
  ultimately have "vm_inv ?pd fs k" using U(1) unfolding vm_inv_def pv(4) by simp
  then have "user_inv ?pd (unat SHAREDBASE) fs k"
    unfolding user_inv_def mm fr pv(4) k(3) vframe_cong [OF k(3)]
    using u [unfolded user_ok_def user_inv_def] by (elim conjE, intro conjI)
  then have "user_ok fs ?s" by (simp add: user_ok_def)
  moreover have "ubyte ?s v = (if unat (v - va) < length [b] then [b] ! unat (v - va) else ubyte s v)" if "can_load s v" for v
  proof -
    have "upaddr ?s v = upaddr s v" using fr by (simp add: upaddr_def)
    moreover have "upaddr s v = upaddr s va \<longleftrightarrow> v = va" using upaddr_inj [OF u that l] by auto
    moreover have "unat (v - va) < length [b] \<longleftrightarrow> v = va" by (simp add: unat_eq_0)
    ultimately show ?thesis by (auto simp: ubyte_def k)
  qed
  ultimately have "user_ok fs ?s \<and> uwrote s va [b] ?s"
    unfolding uwrote_def using e k_def by (intro conjI allI impI) auto
  then show ?thesis unfolding ok_def ustore8_eq [OF st] res.case k_def [symmetric] .
qed

lemma uwrote_can: "uwrote s va bs s' \<Longrightarrow> can_load s' v = can_load s v \<and> can_store s' v = can_store s v"
  by (auto simp: uwrote_def can_load_def can_store_def)

lemma uwrote_refl: "uwrote s va [] s"
  by (auto simp: uwrote_def intro: exI [of _ "mem (km s)"])

lemma uwrote_cons:
  assumes a: "uwrote s va [b] s1" and c: "uwrote s1 (va + 1) bs s2" and n: "length bs < 4294967296"
  shows "uwrote s va (b # bs) s2"
proof -
  have "\<exists>m. s2 = s\<lparr>km := (km s)\<lparr>mem := m\<rparr>\<rparr>" using a c by (auto simp: uwrote_def)
  moreover have "upte s2 v = upte s v" for v using a c by (simp add: uwrote_def)
  moreover have "ubyte s2 v = (if unat (v - va) < length (b # bs) then (b # bs) ! unat (v - va) else ubyte s v)"
    if v: "can_load s v" for v
  proof -
    have v1: "can_load s1 v" using uwrote_can [OF a] v by simp
    have e1: "ubyte s1 v = (if v = va then b else ubyte s v)" using a v by (simp add: uwrote_def unat_eq_0)
    have e2: "ubyte s2 v = (if unat (v - (va + 1)) < length bs then bs ! unat (v - (va + 1)) else ubyte s1 v)"
      using c v1 by (simp add: uwrote_def)
    show ?thesis
    proof (cases "v = va")
      case True
      have "unat (va - (va + 1)) = 4294967295" using unat_minus32 [of 0 1] by simp
      then show ?thesis using True e1 e2 n by simp
    next
      case False
      then have "v - va \<noteq> 0" by simp
      then have "unat (v - va) = Suc (unat (v - va - 1))" by (simp add: unat_minus_one unat_gt_0)
      moreover have "v - va - 1 = v - (va + 1)" by simp
      ultimately have "unat (v - va) = Suc (unat (v - (va + 1)))" by (simp only:)
      then show ?thesis using False e1 e2 by simp
    qed
  qed
  ultimately show ?thesis unfolding uwrote_def by blast
qed

end
