(* ===== verification/Pipe.thy ===== *)
theory Pipe
  imports File UserMem Sleeplock
begin

text \<open>
  Pipes (\<^verbatim>\<open>kernel/pipe.c\<close>) as queues of bytes: the ring of a pipe read as a list, what a write and a read
  do to it and to the memory of their callers, and writers and readers that take turns in any order.
\<close>

section \<open>The queue of a pipe\<close>

interpretation pipe_ring: ring PIPESIZE
  by unfold_locales (simp_all add: PIPESIZE_def)

definition pipe_inv :: "pipe \<Rightarrow> bool" where
  "pipe_inv q \<longleftrightarrow> length (pi_data q) = PIPESIZE \<and> unat (pi_nwrite q - pi_nread q) \<le> PIPESIZE"

definition pipe_bytes :: "pipe \<Rightarrow> uchar list" where
  "pipe_bytes q = contents PIPESIZE (pi_data q) (pi_nread q) (pi_nwrite q)"

lemma pipe_full_iff:
  assumes "pipe_inv q"
  shows "pi_nwrite q = pi_nread q + of_nat PIPESIZE \<longleftrightarrow> length (pipe_bytes q) = PIPESIZE"
proof -
  have "pi_nwrite q = pi_nread q + of_nat PIPESIZE \<longleftrightarrow> pi_nwrite q - pi_nread q = of_nat PIPESIZE"
    by (auto simp: algebra_simps)
  also have "\<dots> \<longleftrightarrow> unat (pi_nwrite q - pi_nread q) = PIPESIZE"
    by (simp add: word_unat_eq_iff PIPESIZE_def)
  finally show ?thesis by (simp add: pipe_bytes_def)
qed

lemma pipe_empty_iff: "pi_nread q = pi_nwrite q \<longleftrightarrow> pipe_bytes q = []"
  by (simp add: pipe_bytes_def pipe_ring.contents_empty_iff)

lemma pipe_length: "pipe_inv q \<Longrightarrow> length (pipe_bytes q) \<le> PIPESIZE"
  by (simp add: pipe_inv_def pipe_bytes_def)

text \<open>Putting appends, getting takes the first byte; both keep the invariant.\<close>

lemma pipe_put_ok:
  assumes "pipe_inv q" "length (pipe_bytes q) < PIPESIZE"
  shows "pipe_inv (pipe_put c q)" "pipe_bytes (pipe_put c q) = pipe_bytes q @ [c]"
proof -
  have l: "length (pi_data q) = PIPESIZE" "unat (pi_nwrite q - pi_nread q) < PIPESIZE"
    using assms by (simp_all add: pipe_inv_def pipe_bytes_def)
  then show b: "pipe_bytes (pipe_put c q) = pipe_bytes q @ [c]"
    by (simp add: pipe_bytes_def pipe_put_def pipe_ring.contents_push)
  have "length (pipe_bytes (pipe_put c q)) = unat (pi_nwrite q + 1 - pi_nread q)"
    by (simp add: pipe_bytes_def pipe_put_def)
  then show "pipe_inv (pipe_put c q)" using b l assms(2) by (simp add: pipe_inv_def pipe_put_def)
qed

lemma pipe_get_ok:
  assumes "pipe_inv q" "pipe_bytes q \<noteq> []"
  shows "pipe_inv (snd (pipe_get q))" "pipe_bytes q = fst (pipe_get q) # pipe_bytes (snd (pipe_get q))"
proof -
  have ne: "pi_nread q \<noteq> pi_nwrite q" using assms(2) by (simp add: pipe_empty_iff)
  show b: "pipe_bytes q = fst (pipe_get q) # pipe_bytes (snd (pipe_get q))"
    using pipe_ring.contents_pop [OF ne] by (simp add: pipe_bytes_def pipe_get_def)
  have "length (pipe_bytes (snd (pipe_get q))) = unat (pi_nwrite q - (pi_nread q + 1))"
    by (simp add: pipe_bytes_def pipe_get_def)
  then show "pipe_inv (snd (pipe_get q))"
    using b assms(1) pipe_length [OF assms(1)] by (simp add: pipe_inv_def pipe_get_def)
qed

lemma pipe_fields [simp]:
  "pi_lock (pipe_put c q) = pi_lock q" "pi_readopen (pipe_put c q) = pi_readopen q" "pi_writeopen (pipe_put c q) = pi_writeopen q"
  "pi_lock (snd (pipe_get q)) = pi_lock q" "pi_readopen (snd (pipe_get q)) = pi_readopen q"
  "pi_writeopen (snd (pipe_get q)) = pi_writeopen q"
  by (simp_all add: pipe_put_def pipe_get_def)

lemma pipe_lock_simps [simp]:
  "pipe_inv (q\<lparr>pi_lock := l\<rparr>) = pipe_inv q" "pipe_bytes (q\<lparr>pi_lock := l\<rparr>) = pipe_bytes q"
  by (simp_all add: pipe_inv_def pipe_bytes_def)

section \<open>The loops\<close>

abbreviation kps :: "ksys \<Rightarrow> psys" where
  "kps s \<equiv> ps (fs s)"

definition set_kps :: "psys \<Rightarrow> ksys \<Rightarrow> ksys" where
  "set_kps p s = s\<lparr>fs := (fs s)\<lparr>ps := p\<rparr>\<rparr>"

definition set_pipe :: "addr \<Rightarrow> pipe \<Rightarrow> ksys \<Rightarrow> ksys" where
  "set_pipe p q s = s\<lparr>pipes := (pipes s)(p \<mapsto> q)\<rparr>"

lemma set_simps [simp]:
  "kps (set_kps p s) = p" "pipes (set_kps p s) = pipes s" "kps (set_pipe a q s) = kps s" "pipes (set_pipe a q s) a = Some q"
  "set_kps p (set_kps p' s) = set_kps p s" "set_pipe a q (set_pipe a q' s) = set_pipe a q s"
  "set_kps p (set_pipe a q s) = set_pipe a q (set_kps p s)" "set_kps (kps s) s = s"
  by (simp_all add: set_kps_def set_pipe_def)

lemma set_pipe_same [simp]: "pipes s p = Some q \<Longrightarrow> set_pipe p q s = s"
  by (auto simp: set_pipe_def fun_upd_idem)

lemma kpsop_eq: "kpsop m s = (case m (kps s) of Done x p \<Rightarrow> Done x (set_kps p s) | Stop e \<Rightarrow> Stop e)"
  by (simp add: kpsop_def fsop_def psop_def zoom_def set_kps_def split: res.split)

lemma ok_kpsop [wp]: "ok (kpsop m) s Q = ok m (kps s) (\<lambda>x p. Q x (set_kps p s))"
  by (simp add: ok_def kpsop_eq split: res.split)

lemma ok_get_pipe [wp]: "ok (get_pipe p) s Q = (\<exists>q. pipes s p = Some q \<and> Q q s)"
  by (auto simp: get_pipe_def wp split: option.split)

lemma ok_upd_pipe: "pipes s p = Some q \<Longrightarrow> ok (upd_pipe p f) s Q = Q () (set_pipe p (f q) s)"
  by (simp add: upd_pipe_def wp set_pipe_def)

lemma ok_uload8: "can_load s va \<Longrightarrow> ok (uload8 va) s Q = Q (ubyte s va) s"
  by (simp add: ok_def uload8_eq)

lemma pipewrite_loop_ok:
  assumes "pipes s p = Some q" "pipe_inv q" "length (pipe_bytes q) + n \<le> PIPESIZE"
    "\<And>k. k < n \<Longrightarrow> can_load (kps s) (a + of_nat k)"
  shows "ok (pipewrite_loop p a n) s (\<lambda>r s'. r \<and> (\<exists>q'. s' = set_pipe p q' s \<and> pipe_inv q' \<and> pi_lock q' = pi_lock q \<and>
     pi_readopen q' = pi_readopen q \<and> pi_writeopen q' = pi_writeopen q \<and>
     pipe_bytes q' = pipe_bytes q @ map (\<lambda>k. ubyte (kps s) (a + of_nat k)) [0..<n]))"
  using assms
proof (induction n arbitrary: s q a)
  case 0
  then show ?case by (auto simp: wp intro!: exI [of _ q])
next
  case (Suc n)
  let ?c = "ubyte (kps s) a" and ?s = "set_pipe p (pipe_put (ubyte (kps s) a) q) s"
  have nf: "pi_nwrite q \<noteq> pi_nread q + of_nat PIPESIZE" "length (pipe_bytes q) < PIPESIZE"
    using Suc.prems(2,3) pipe_full_iff [of q] by auto
  note put = pipe_put_ok [OF Suc.prems(2) nf(2), of ?c]
  have ld: "can_load (kps s) a" using Suc.prems(4) [of 0] by simp
  have "ok (pipewrite_loop p (a + 1) n) ?s (\<lambda>r s'. r \<and> (\<exists>q'. s' = set_pipe p q' ?s \<and> pipe_inv q' \<and> pi_lock q' = pi_lock (pipe_put ?c q) \<and>
     pi_readopen q' = pi_readopen (pipe_put ?c q) \<and> pi_writeopen q' = pi_writeopen (pipe_put ?c q) \<and>
     pipe_bytes q' = pipe_bytes (pipe_put ?c q) @ map (\<lambda>k. ubyte (kps ?s) (a + 1 + of_nat k)) [0..<n]))"
  proof (rule Suc.IH)
    fix k assume "k < n"
    then show "can_load (kps ?s) (a + 1 + of_nat k)" using Suc.prems(4) [of "Suc k"] by (simp add: add.assoc)
  qed (use put Suc.prems(3) in auto)
  moreover have "map (\<lambda>k. ubyte (kps s) (a + of_nat k)) [0..<Suc n] =
      ?c # map (\<lambda>k. ubyte (kps s) (a + 1 + of_nat k)) [0..<n]"
    by (simp add: upt_conv_Cons map_Suc_upt [symmetric] add.assoc del: upt_Suc)
  ultimately have "ok (pipewrite_loop p (a + 1) n) ?s (\<lambda>r s'. r \<and> (\<exists>q'. s' = set_pipe p q' s \<and> pipe_inv q' \<and> pi_lock q' = pi_lock q \<and>
     pi_readopen q' = pi_readopen q \<and> pi_writeopen q' = pi_writeopen q \<and>
     pipe_bytes q' = pipe_bytes q @ map (\<lambda>k. ubyte (kps s) (a + of_nat k)) [0..<Suc n]))"
    by (intro ok_mono [OF \<open>ok (pipewrite_loop p (a + 1) n) ?s _\<close>]) (simp add: put(2) del: upt_Suc)
  then show ?case
    using Suc.prems(1) nf(1) ld by (simp add: ok_bnd ok_get_pipe ok_kpsop ok_uload8 ok_seqk ok_upd_pipe del: upt_Suc)
qed

lemma piperead_loop_ok:
  assumes "pipes s p = Some q" "pipe_inv q" "user_ok fr (kps s)" "n < 4294967296"
    "\<And>k. k < min n (length (pipe_bytes q)) \<Longrightarrow> can_store (kps s) (a + of_nat k)"
  shows "ok (piperead_loop p a n) s (\<lambda>r s'. r = min n (length (pipe_bytes q)) \<and> (\<exists>q' u. s' = set_pipe p q' (set_kps u s) \<and>
     pipe_inv q' \<and> pi_lock q' = pi_lock q \<and> pi_readopen q' = pi_readopen q \<and> pi_writeopen q' = pi_writeopen q \<and>
     pipe_bytes q' = drop n (pipe_bytes q) \<and> user_ok fr u \<and> uwrote (kps s) a (take n (pipe_bytes q)) u))"
  using assms
proof (induction n arbitrary: s q a)
  case 0
  then show ?case by (auto simp: wp uwrote_refl intro!: exI [of _ q] exI [of _ "kps s"])
next
  case (Suc n)
  show ?case
  proof (cases "pipe_bytes q = []")
    case True
    then show ?thesis
      using Suc.prems pipe_empty_iff [of q] by (auto simp: wp uwrote_refl intro!: exI [of _ q] exI [of _ "kps s"])
  next
    case False
    let ?c = "fst (pipe_get q)" and ?q = "snd (pipe_get q)"
    note get = pipe_get_ok [OF Suc.prems(2) False]
    have ne: "pi_nread q \<noteq> pi_nwrite q" using False by (simp add: pipe_empty_iff)
    have st: "can_store (kps s) a" using Suc.prems(5) [of 0] False by simp
    let ?P = "\<lambda>r s'. r = min (Suc n) (length (pipe_bytes q)) \<and> (\<exists>q' u. s' = set_pipe p q' (set_kps u s) \<and>
     pipe_inv q' \<and> pi_lock q' = pi_lock q \<and> pi_readopen q' = pi_readopen q \<and> pi_writeopen q' = pi_writeopen q \<and>
     pipe_bytes q' = drop (Suc n) (pipe_bytes q) \<and> user_ok fr u \<and> uwrote (kps s) a (take (Suc n) (pipe_bytes q)) u)"
    have rest: "ok (piperead_loop p (a + 1) n) (set_kps v (set_pipe p ?q s)) (\<lambda>k. ?P (Suc k))"
      if v: "user_ok fr v" "uwrote (kps s) a [?c] v" for v
    proof -
      let ?s = "set_kps v (set_pipe p ?q s)"
      have "ok (piperead_loop p (a + 1) n) ?s (\<lambda>r s'. r = min n (length (pipe_bytes ?q)) \<and> (\<exists>q' u. s' = set_pipe p q' (set_kps u ?s) \<and>
         pipe_inv q' \<and> pi_lock q' = pi_lock ?q \<and> pi_readopen q' = pi_readopen ?q \<and> pi_writeopen q' = pi_writeopen ?q \<and>
         pipe_bytes q' = drop n (pipe_bytes ?q) \<and> user_ok fr u \<and> uwrote (kps ?s) (a + 1) (take n (pipe_bytes ?q)) u))"
      proof (rule Suc.IH)
        fix k assume "k < min n (length (pipe_bytes ?q))"
        then have "can_store (kps s) (a + of_nat (Suc k))" using Suc.prems(5) [of "Suc k"] get(2) by (metis Suc_less_eq length_Cons min_Suc_Suc)
        then show "can_store (kps ?s) (a + 1 + of_nat k)" using uwrote_can [OF v(2)] by (simp add: add.assoc)
      qed (use get v Suc.prems in auto)
      then show ?thesis
      proof (rule ok_mono)
        fix r s' assume r: "r = min n (length (pipe_bytes ?q)) \<and> (\<exists>q' u. s' = set_pipe p q' (set_kps u ?s) \<and>
         pipe_inv q' \<and> pi_lock q' = pi_lock ?q \<and> pi_readopen q' = pi_readopen ?q \<and> pi_writeopen q' = pi_writeopen ?q \<and>
         pipe_bytes q' = drop n (pipe_bytes ?q) \<and> user_ok fr u \<and> uwrote (kps ?s) (a + 1) (take n (pipe_bytes ?q)) u)"
        then obtain q' u where u: "s' = set_pipe p q' (set_kps u ?s)" "pipe_inv q'" "pi_lock q' = pi_lock q"
          "pi_readopen q' = pi_readopen q" "pi_writeopen q' = pi_writeopen q" "pipe_bytes q' = drop n (pipe_bytes ?q)"
          "user_ok fr u" "uwrote v (a + 1) (take n (pipe_bytes ?q)) u" by auto
        have "uwrote (kps s) a (?c # take n (pipe_bytes ?q)) u"
          by (rule uwrote_cons [OF v(2) u(8)]) (use Suc.prems(4) in simp)
        then have "uwrote (kps s) a (take (Suc n) (pipe_bytes q)) u" by (subst get(2)) simp
        moreover have "s' = set_pipe p q' (set_kps u s)" using u(1) by simp
        moreover have "pipe_bytes q' = drop (Suc n) (pipe_bytes q)" using u(6) by (subst get(2)) simp
        moreover have "Suc r = min (Suc n) (length (pipe_bytes q))" using r by (subst get(2)) simp
        ultimately show "?P (Suc r) s'" using u by blast
      qed
    qed
    have "ok (ustore8 a ?c) (kps (set_pipe p ?q s)) (\<lambda>_ v. ok (piperead_loop p (a + 1) n) (set_kps v (set_pipe p ?q s)) (\<lambda>k. ?P (Suc k)))"
      using ustore8_ok [OF Suc.prems(3) st, of ?c] by (simp del: set_simps(7)) (rule ok_mono, assumption, rule rest, auto)
    then show ?thesis
      using Suc.prems(1) ne by (simp add: ok_bnd ok_get_pipe ok_kpsop ok_seqk ok_upd_pipe ok_ret del: set_simps(7))
  qed
qed

section \<open>Calls\<close>

text \<open>The pipe is there, nobody holds its lock, and the caller is a process inside a system call.\<close>

definition pipe_ready :: "addr \<Rightarrow> pipe \<Rightarrow> ksys \<Rightarrow> bool" where
  "pipe_ready p q s \<longleftrightarrow> pipes s p = Some q \<and> pipe_inv q \<and> pi_lock q = Unlocked \<and> calm (kps s)"

definition locked_cpu :: "psys \<Rightarrow> psys" where
  "locked_cpu u = u\<lparr>pcpu := pushed (pcpu u)\<rparr>"

lemma locked_simps [simp]:
  "can_load (locked_cpu u) v = can_load u v" "can_store (locked_cpu u) v = can_store u v"
  "ubyte (locked_cpu u) v = ubyte u v" "user_ok fr (locked_cpu u) = user_ok fr u"
  by (simp_all add: locked_cpu_def can_load_def can_store_def ubyte_def upaddr_def user_ok_def)

lemma lock_pipe_eq:
  assumes "pipe_ready p q s"
  shows "lock_pipe p s = Done () (set_pipe p (q\<lparr>pi_lock := Mine\<rparr>) (set_kps (locked_cpu (kps s)) s))"
  using assms
  by (simp add: pipe_ready_def lock_pipe_def get_pipe_def bnd_def gets_def ret_def k_acquire_def seqk_def kpsop_eq cpuop_def
      zoom_def pushcli_eq acquire_def pipe_lock_def set_pipe_lock_def set_pipe_def locked_cpu_def)

lemma ok_lock_pipe: "pipe_ready p q s \<Longrightarrow>
    ok (lock_pipe p) s Q = Q () (set_pipe p (q\<lparr>pi_lock := Mine\<rparr>) (set_kps (locked_cpu (kps s)) s))"
  by (simp add: ok_def lock_pipe_eq)

lemma wake_unlock_eq:
  assumes c: "calm u" and u': "\<exists>m. u' = (locked_cpu u)\<lparr>km := (km u)\<lparr>mem := m\<rparr>\<rparr>" and q: "pi_lock q = Mine"
  shows "seqk (kpsop (wakeup ch)) (seqk (unlock_pipe p) (ret r)) (set_pipe p q (set_kps u' s)) =
     Done r (set_pipe p (q\<lparr>pi_lock := Unlocked\<rparr>) (set_kps (u'\<lparr>pcpu := pcpu u, procs := map (woken ch) (procs u)\<rparr>) s))"
proof -
  from u' obtain m where u': "u' = (locked_cpu u)\<lparr>km := (km u)\<lparr>mem := m\<rparr>\<rparr>" ..
  have cc: "cli_calm (pcpu u)" "ptable_lock u = Unlocked" using c by (simp_all add: calm_def)
  have d: "0 \<le> cpu_ncli (pushed (pcpu u))" "0 \<le> cpu_ncli (pcpu u)" "\<not> cpu_if (pushed (pcpu u))" "\<not> cpu_ncli (pushed (pcpu u)) \<le> 0"
    using cli_calm_depth [OF cc(1)] by (simp_all add: pushed_def)
  show ?thesis
    using cc d q
    by (simp add: u' seqk_def bnd_def kpsop_eq wakeup_eq locked_cpu_def popped_pushed unlock_pipe_def k_release_def release_def
        pipe_lock_def set_pipe_lock_def cpuop_def zoom_def popcli_eq ret_def)
      (simp add: set_pipe_def set_kps_def)
qed

text \<open>What a call leaves behind: another queue, changed bytes of the caller's memory, and woken processes.\<close>

lemma pipewrite_ok:
  assumes r: "pipe_ready p q s" and n: "0 \<le> n" "length (pipe_bytes q) + nat n \<le> PIPESIZE"
    and l: "\<And>k. k < nat n \<Longrightarrow> can_load (kps s) (a + of_nat k)"
  shows "ok (pipewrite p a n) s (\<lambda>v s'. v = n \<and> (\<exists>q'. pipe_ready p q' s' \<and>
     pipe_bytes q' = pipe_bytes q @ map (\<lambda>k. ubyte (kps s) (a + of_nat k)) [0..<nat n] \<and>
     pi_readopen q' = pi_readopen q \<and> pi_writeopen q' = pi_writeopen q) \<and>
     kps s' = (kps s)\<lparr>procs := map (woken (ChanPipeR p)) (procs (kps s))\<rparr>)"
proof -
  let ?s = "set_pipe p (q\<lparr>pi_lock := Mine\<rparr>) (set_kps (locked_cpu (kps s)) s)"
  have c: "calm (kps s)" "pipe_inv q" using r by (simp_all add: pipe_ready_def)
  have "ok (pipewrite_loop p a (nat n)) ?s (\<lambda>r s'. r \<and> (\<exists>q'. s' = set_pipe p q' ?s \<and> pipe_inv q' \<and>
     pi_lock q' = pi_lock (q\<lparr>pi_lock := Mine\<rparr>) \<and> pi_readopen q' = pi_readopen (q\<lparr>pi_lock := Mine\<rparr>) \<and>
     pi_writeopen q' = pi_writeopen (q\<lparr>pi_lock := Mine\<rparr>) \<and>
     pipe_bytes q' = pipe_bytes (q\<lparr>pi_lock := Mine\<rparr>) @ map (\<lambda>k. ubyte (kps ?s) (a + of_nat k)) [0..<nat n]))"
    by (rule pipewrite_loop_ok) (use c n l in auto)
  then show ?thesis
    unfolding pipewrite_def ok_seqk [of "lock_pipe p"] ok_bnd ok_lock_pipe [OF r]
  proof (rule ok_mono)
    fix d s' assume "d \<and> (\<exists>q'. s' = set_pipe p q' ?s \<and> pipe_inv q' \<and>
     pi_lock q' = pi_lock (q\<lparr>pi_lock := Mine\<rparr>) \<and> pi_readopen q' = pi_readopen (q\<lparr>pi_lock := Mine\<rparr>) \<and>
     pi_writeopen q' = pi_writeopen (q\<lparr>pi_lock := Mine\<rparr>) \<and>
     pipe_bytes q' = pipe_bytes (q\<lparr>pi_lock := Mine\<rparr>) @ map (\<lambda>k. ubyte (kps ?s) (a + of_nat k)) [0..<nat n])"
    then obtain q' where d: "d" "s' = set_pipe p q' (set_kps (locked_cpu (kps s)) s)" "pipe_inv q'" "pi_lock q' = Mine"
      "pi_readopen q' = pi_readopen q" "pi_writeopen q' = pi_writeopen q"
      "pipe_bytes q' = pipe_bytes q @ map (\<lambda>k. ubyte (kps s) (a + of_nat k)) [0..<nat n]" by auto
    have w: "\<exists>m. locked_cpu (kps s) = (locked_cpu (kps s))\<lparr>km := (km (kps s))\<lparr>mem := m\<rparr>\<rparr>"
      by (intro exI [of _ "mem (km (kps s))"]) (simp add: locked_cpu_def)
    have cl: "calm ((kps s)\<lparr>procs := map (woken (ChanPipeR p)) (procs (kps s))\<rparr>)"
      using c(1) by (auto simp: calm_def split: option.splits)
    have undo: "(locked_cpu (kps s))\<lparr>pcpu := pcpu (kps s), procs := x\<rparr> = (kps s)\<lparr>procs := x\<rparr>" for x by (simp add: locked_cpu_def)
    show "ok (if d then seqk (kpsop (wakeup (ChanPipeR p))) (seqk (unlock_pipe p) (ret n)) else seqk (unlock_pipe p) (ret (-1))) s'
      (\<lambda>v s'. v = n \<and> (\<exists>q'. pipe_ready p q' s' \<and>
     pipe_bytes q' = pipe_bytes q @ map (\<lambda>k. ubyte (kps s) (a + of_nat k)) [0..<nat n] \<and>
     pi_readopen q' = pi_readopen q \<and> pi_writeopen q' = pi_writeopen q) \<and>
     kps s' = (kps s)\<lparr>procs := map (woken (ChanPipeR p)) (procs (kps s))\<rparr>)"
      using d cl by (simp add: ok_def wake_unlock_eq [OF c(1) w d(4)] undo pipe_ready_def)
  qed
qed

lemma piperead_ok:
  assumes r: "pipe_ready p q s" and n: "0 \<le> n" "n < 4294967296" and o: "pipe_bytes q \<noteq> [] \<or> \<not> pi_writeopen q"
    and u: "user_ok fr (kps s)" and st: "\<And>k. k < min (nat n) (length (pipe_bytes q)) \<Longrightarrow> can_store (kps s) (a + of_nat k)"
  shows "ok (piperead p a n) s (\<lambda>v s'. v = min n (int (length (pipe_bytes q))) \<and>
     (\<exists>q'. pipe_ready p q' s' \<and> pipe_bytes q' = drop (nat n) (pipe_bytes q) \<and>
        pi_readopen q' = pi_readopen q \<and> pi_writeopen q' = pi_writeopen q) \<and>
     (\<forall>x. can_load (kps s) x \<longrightarrow> ubyte (kps s') x =
        (if unat (x - a) < length (take (nat n) (pipe_bytes q)) then take (nat n) (pipe_bytes q) ! unat (x - a) else ubyte (kps s) x)))"
proof -
  let ?s = "set_pipe p (q\<lparr>pi_lock := Mine\<rparr>) (set_kps (locked_cpu (kps s)) s)" and ?q = "q\<lparr>pi_lock := Mine\<rparr>"
  let ?P = "\<lambda>v s'. v = min n (int (length (pipe_bytes q))) \<and>
     (\<exists>q'. pipe_ready p q' s' \<and> pipe_bytes q' = drop (nat n) (pipe_bytes q) \<and>
        pi_readopen q' = pi_readopen q \<and> pi_writeopen q' = pi_writeopen q) \<and>
     (\<forall>x. can_load (kps s) x \<longrightarrow> ubyte (kps s') x =
        (if unat (x - a) < length (take (nat n) (pipe_bytes q)) then take (nat n) (pipe_bytes q) ! unat (x - a) else ubyte (kps s) x))"
  have c: "calm (kps s)" "pipe_inv q" using r by (simp_all add: pipe_ready_def)
  have "ok (piperead_loop p a (nat n)) ?s (\<lambda>k s'. k = min (nat n) (length (pipe_bytes ?q)) \<and>
     (\<exists>q' v. s' = set_pipe p q' (set_kps v ?s) \<and> pipe_inv q' \<and> pi_lock q' = pi_lock ?q \<and> pi_readopen q' = pi_readopen ?q \<and>
       pi_writeopen q' = pi_writeopen ?q \<and> pipe_bytes q' = drop (nat n) (pipe_bytes ?q) \<and> user_ok fr v \<and>
       uwrote (kps ?s) a (take (nat n) (pipe_bytes ?q)) v))"
    by (rule piperead_loop_ok) (use c n u st in auto)
  then have "ok (piperead_loop p a (nat n)) ?s (\<lambda>k s'. ok (seqk (kpsop (wakeup (ChanPipeW p))) (seqk (unlock_pipe p) (ret (int k)))) s' ?P)"
  proof (rule ok_mono)
    fix k s' assume a: "k = min (nat n) (length (pipe_bytes ?q)) \<and>
     (\<exists>q' v. s' = set_pipe p q' (set_kps v ?s) \<and> pipe_inv q' \<and> pi_lock q' = pi_lock ?q \<and> pi_readopen q' = pi_readopen ?q \<and>
       pi_writeopen q' = pi_writeopen ?q \<and> pipe_bytes q' = drop (nat n) (pipe_bytes ?q) \<and> user_ok fr v \<and>
       uwrote (kps ?s) a (take (nat n) (pipe_bytes ?q)) v)"
    then obtain q' v where v: "s' = set_pipe p q' (set_kps v s)" "pipe_inv q'" "pi_lock q' = Mine"
      "pi_readopen q' = pi_readopen q" "pi_writeopen q' = pi_writeopen q" "pipe_bytes q' = drop (nat n) (pipe_bytes q)"
      "uwrote (locked_cpu (kps s)) a (take (nat n) (pipe_bytes q)) v" by auto
    have ex: "\<exists>m. v = (locked_cpu (kps s))\<lparr>km := (km (kps s))\<lparr>mem := m\<rparr>\<rparr>" using v(7) by (auto simp: uwrote_def locked_cpu_def)
    let ?v = "v\<lparr>pcpu := pcpu (kps s), procs := map (woken (ChanPipeW p)) (procs (kps s))\<rparr>"
    have cl: "calm ?v" using c(1) ex by (auto simp: calm_def locked_cpu_def split: option.splits)
    have "ubyte ?v x = ubyte v x" for x by (simp add: ubyte_def upaddr_def)
    moreover have "ubyte v x = (if unat (x - a) < length (take (nat n) (pipe_bytes q)) then take (nat n) (pipe_bytes q) ! unat (x - a)
        else ubyte (kps s) x)" if "can_load (kps s) x" for x
      using v(7) that by (simp add: uwrote_def)
    moreover have "int k = min n (int (length (pipe_bytes q)))" using a [THEN conjunct1] n(1) by (auto simp: min_def nat_le_iff)
    ultimately show "ok (seqk (kpsop (wakeup (ChanPipeW p))) (seqk (unlock_pipe p) (ret (int k)))) s' ?P"
      using v(1-6) cl by (simp add: ok_def wake_unlock_eq [OF c(1) ex v(3)] pipe_ready_def)
  qed
  moreover have "\<not> (pi_nread q = pi_nwrite q \<and> pi_writeopen q)" using o pipe_empty_iff [of q] by auto
  ultimately show ?thesis
    unfolding piperead_def ok_seqk [of "lock_pipe p"] ok_bnd [of "get_pipe p"] ok_lock_pipe [OF r] ok_get_pipe
    by (intro exI [of _ ?q]) (auto simp: ok_bnd)
qed

section \<open>Writers and readers in any order\<close>

text \<open>
  The bytes that writers still have to write, the pipe, and the bytes that readers have received. A
  writer that holds the lock puts a byte unless the pipe is full, a reader takes one unless it is empty;
  each holds the lock for any number of such steps, and sleeping and waking only orders them.
\<close>

record stream =
  to_write :: "uchar list"
  st_pipe :: pipe
  received :: "uchar list"

inductive pipe_step :: "stream \<Rightarrow> stream \<Rightarrow> bool" where
  put: "to_write z = c # cs \<Longrightarrow> pi_nwrite (st_pipe z) \<noteq> pi_nread (st_pipe z) + of_nat PIPESIZE \<Longrightarrow>
     pipe_step z (z\<lparr>to_write := cs, st_pipe := pipe_put c (st_pipe z)\<rparr>)"
| get: "pi_nread (st_pipe z) \<noteq> pi_nwrite (st_pipe z) \<Longrightarrow>
     pipe_step z (z\<lparr>st_pipe := snd (pipe_get (st_pipe z)), received := received z @ [fst (pipe_get (st_pipe z))]\<rparr>)"

definition stream_inv :: "uchar list \<Rightarrow> stream \<Rightarrow> bool" where
  "stream_inv bs z \<longleftrightarrow> pipe_inv (st_pipe z) \<and> received z @ pipe_bytes (st_pipe z) @ to_write z = bs"

lemma stream_inv_step: "pipe_step z z' \<Longrightarrow> stream_inv bs z \<Longrightarrow> stream_inv bs z'"
proof (induction rule: pipe_step.induct)
  case (put z c cs)
  let ?q = "st_pipe z"
  have i: "pipe_inv ?q" using put.prems by (simp add: stream_inv_def)
  then have "length (pipe_bytes ?q) < PIPESIZE" using put.hyps(2) pipe_full_iff [OF i] pipe_length [OF i] by simp
  then show ?case using put pipe_put_ok [OF i, of c] by (simp add: stream_inv_def)
next
  case (get z)
  have "pipe_inv (st_pipe z)" "pipe_bytes (st_pipe z) \<noteq> []"
    using get by (simp_all add: stream_inv_def pipe_empty_iff)
  from pipe_get_ok [OF this] get.prems show ?case by (simp add: stream_inv_def)
qed

definition stream_init :: "uchar list \<Rightarrow> stream \<Rightarrow> bool" where
  "stream_init bs z \<longleftrightarrow> to_write z = bs \<and> received z = [] \<and> pi_nread (st_pipe z) = pi_nwrite (st_pipe z) \<and>
     length (pi_data (st_pipe z)) = PIPESIZE"

interpretation stream: invariant_system "stream_init bs" pipe_step "stream_inv bs" for bs
proof
  show "stream_init bs z \<Longrightarrow> stream_inv bs z" for z
    using pipe_empty_iff [of "st_pipe z"] by (auto simp: stream_init_def stream_inv_def pipe_inv_def)
  show "stream_inv bs z \<Longrightarrow> pipe_step z z' \<Longrightarrow> stream_inv bs z'" for z z'
    by (rule stream_inv_step)
qed

end
