(* ===== verification/InodeLock.thy ===== *)
theory InodeLock
  imports Inode Sleeplock
begin

text \<open>
  The locks of the inodes (\<open>ilock\<close> and \<open>iunlock\<close> of \<^verbatim>\<open>kernel/fs.c\<close>), as sleep locks at the place of an inode in
  the cache.
\<close>

lemma set_inode_lock_twice: "set_inode_lock i l (set_inode_lock i l' s) = set_inode_lock i l s"
  by (cases "i < length (inodes s)") (simp_all add: set_inode_lock_def set_inode_def list_update_beyond)

interpretation inodelock: sleeplock_at "inode_lock i" "set_inode_lock i" "\<lambda>s. i < length (inodes s)" for i
  by unfold_locales (simp_all add: set_inode_lock_twice, simp_all add: inode_lock_def set_inode_lock_def set_inode_def)

text \<open>The inode is cached and its lock is free, or held by the running process.\<close>

definition ilock_free :: "nat \<Rightarrow> fsys \<Rightarrow> bool" where
  "ilock_free i s \<longleftrightarrow> calm (ps s) \<and> i < length (inodes s) \<and> sl_lk (inode_lock i s) = Unlocked \<and> \<not> sl_locked (inode_lock i s) \<and>
     i_ref (inodes s ! i) \<ge> 1"

definition ilock_held :: "nat \<Rightarrow> fsys \<Rightarrow> bool" where
  "ilock_held i s \<longleftrightarrow> calm (ps s) \<and> i < length (inodes s) \<and> i_ref (inodes s ! i) \<ge> 1 \<and>
     inode_lock i s = \<lparr>sl_locked = True, sl_lk = Unlocked, sl_pid = mypid (ps s)\<rparr>"

lemma ilock_valid:
  assumes "ilock_free i s" "i_valid (inodes s ! i)"
  shows "ilock i s = Done () (set_inode_lock i \<lparr>sl_locked = True, sl_lk = Unlocked, sl_pid = mypid (ps s)\<rparr> s)"
  using assms
  by (simp add: ilock_free_def ilock_def bnd_def seqk_def get_inode_def gets_def ret_def inodelock.acquiresleep_eq)
    (simp add: set_inode_lock_def set_inode_def)

lemma iunlock_eq:
  assumes "ilock_held i s"
  shows "iunlock i s = Done () ((set_inode_lock i \<lparr>sl_locked = False, sl_lk = Unlocked, sl_pid = 0\<rparr> s)
     \<lparr>ps := (ps s)\<lparr>procs := map (woken (ChanInodeLock i)) (procs (ps s))\<rparr>\<rparr>)"
  using assms
  by (simp add: ilock_held_def iunlock_def bnd_def get_inode_def gets_def ret_def inodelock.holdingsleep_eq inodelock.releasesleep_eq)

end
