(* ===== verification/ConsoleData.thy ===== *)
theory ConsoleData
  imports Console InodeLock
begin

text \<open>
  The console (\<^verbatim>\<open>kernel/console.c\<close>) against what it promises: the digits that \<open>printint\<close> puts denote the
  number, the cursor stays on the screen, and the three indices of the input ring implement a list of
  finished bytes and a line under edit.
\<close>

section \<open>Numbers\<close>

definition digit_value :: "uchar \<Rightarrow> nat" where
  "digit_value c = (if c < 58 then unat c - 48 else unat c - 87)"

definition number :: "nat \<Rightarrow> uchar list \<Rightarrow> nat" where
  "number base ds = foldl (\<lambda>v c. v * base + digit_value c) 0 ds"

definition read_int :: "nat \<Rightarrow> uchar list \<Rightarrow> int" where
  "read_int base out = (case out of [] \<Rightarrow> 0
     | c # ds \<Rightarrow> if c = 45 then - int (number base ds) else int (number base out))"

lemma digit_values: "x < 16 \<Longrightarrow> digit_value (digits ! x) = x \<and> digits ! x \<noteq> 45"
proof -
  have "\<forall>x\<in>set [0..<16]. digit_value (digits ! x) = x \<and> digits ! x \<noteq> 45" by code_simp
  then show "x < 16 \<Longrightarrow> digit_value (digits ! x) = x \<and> digits ! x \<noteq> 45" by simp
qed

lemma number_snoc: "number base (ds @ [c]) = number base ds * base + digit_value c"
  by (simp add: number_def)

lemma digit_loop_number:
  assumes "2 \<le> base" "base \<le> 16"
  shows "number base (rev (digit_loop x base)) = x \<and> 45 \<notin> set (digit_loop x base)"
proof (induction x rule: less_induct)
  case (less x)
  have "x mod base < 16" using mod_less_divisor [of base x] assms by linarith
  from digit_values [OF this]
  have d: "digit_value (digits ! (x mod base)) = x mod base" "digits ! (x mod base) \<noteq> 45" by simp_all
  show ?case
  proof (cases "x div base = 0")
    case True
    then have "x < base" using assms by (simp add: div_eq_0_iff)
    then show ?thesis using True d assms by (simp add: digit_loop.simps [of x base] number_def)
  next
    case False
    then have "0 < x" by (auto intro: gr0I)
    then have "x div base < x" using assms by (simp add: div_less_dividend)
    from less.IH [OF this] False d assms show ?thesis
      by (simp add: digit_loop.simps [of x base] number_snoc div_mult_mod_eq)
  qed
qed

lemma length_digit_loop: "2 \<le> base \<Longrightarrow> x < base ^ Suc n \<Longrightarrow> length (digit_loop x base) \<le> Suc n"
proof (induction n arbitrary: x)
  case 0
  then show ?case by (simp add: digit_loop.simps [of x base])
next
  case (Suc n)
  have "x div base < base ^ Suc n"
    using Suc.prems by (simp add: div_less_iff_less_mult mult.commute)
  from Suc.IH [OF Suc.prems(1) this] show ?case by (simp add: digit_loop.simps [of x base])
qed

lemma digit_loop_not_Nil: "digit_loop x base \<noteq> []"
  by (simp add: digit_loop.simps [of x base])

lemma neg_value:
  fixes x :: uint
  assumes "x <s 0"
  shows "int (unat (- x)) = - sint x"
proof -
  have n: "sint x < 0" using assms by (simp add: word_sless_alt)
  have b: "- 2147483648 \<le> sint x" using sint_greater_eq [of x] by simp
  have "- x = word_of_int (- sint x)" by simp
  then have "uint (- x) = uint (word_of_int (- sint x) :: uint)" by (rule arg_cong)
  also have "\<dots> = (- sint x) mod 4294967296" by (subst uint_word_of_int) (simp add: take_bit_eq_mod)
  finally show ?thesis using n b by simp
qed

lemma nonneg_value:
  fixes x :: uint
  assumes "\<not> x <s 0"
  shows "uint x = sint x"
proof -
  have n: "0 \<le> sint x" "sint x < 2147483648" using assms sint_less [of x] by (simp_all add: word_sless_alt)
  have "uint x = uint (word_of_int (sint x) :: uint)" by simp
  also have "\<dots> = sint x mod 4294967296" by (subst uint_word_of_int) (simp add: take_bit_eq_mod)
  finally show ?thesis using n by simp
qed

section \<open>The screen\<close>

text \<open>The cursor is on one of the first 24 rows.\<close>

definition screen_ok :: "console \<Rightarrow> bool" where
  "screen_ok s \<longleftrightarrow> crt_pos s < 24 * 80 \<and> \<not> panicked s"

text \<open>Everything but the screen and the bytes sent to the serial port is as before.\<close>

definition only_shown :: "uchar list \<Rightarrow> console \<Rightarrow> console \<Rightarrow> bool" where
  "only_shown out s s' \<longleftrightarrow> (\<exists>f p. s' = s\<lparr>crt := f, crt_pos := p, uart_out := uart_out s @ (if uart_on s then out else [])\<rparr> \<and>
     (\<forall>k \<ge> 24 * 80. f k = crt s k))"

lemma only_shown_refl: "only_shown [] s s"
  by (auto simp: only_shown_def intro!: exI [of _ "crt s"] exI [of _ "crt_pos s"])

lemma only_shown_trans:
  assumes "only_shown xs s t" "only_shown ys t u"
  shows "only_shown (xs @ ys) s u"
proof -
  obtain f p where 1: "t = s\<lparr>crt := f, crt_pos := p, uart_out := uart_out s @ (if uart_on s then xs else [])\<rparr>"
    "\<forall>k \<ge> 24 * 80. f k = crt s k" using assms(1) by (auto simp: only_shown_def)
  obtain g q where 2: "u = t\<lparr>crt := g, crt_pos := q, uart_out := uart_out t @ (if uart_on t then ys else [])\<rparr>"
    "\<forall>k \<ge> 24 * 80. g k = crt t k" using assms(2) by (auto simp: only_shown_def)
  have "u = s\<lparr>crt := g, crt_pos := q, uart_out := uart_out s @ (if uart_on s then xs @ ys else [])\<rparr>" "\<forall>k \<ge> 24 * 80. g k = crt s k"
    using 1 2 by auto
  then show ?thesis unfolding only_shown_def by blast
qed

lemma cga_place_ok:
  assumes "pos \<le> 1920" "\<not> panicked s" "\<forall>k \<ge> 1920. h k = crt s k"
  shows "ok (cga_place pos) (s\<lparr>crt := h\<rparr>) (\<lambda>_ s'. screen_ok s' \<and> only_shown [] s s')"
proof (cases "pos = 1920")
  case True
  let ?g = "(scrolled 1840 h)(1840 := 0x0720)"
  have "\<forall>k \<ge> 1920. ?g k = crt s k" using assms(3) by (simp add: scrolled_def)
  then show ?thesis
    using True assms(2)
    by (auto simp: cga_place_def wp screen_ok_def only_shown_def intro!: exI [of _ ?g] exI [of _ 1840])
next
  case False
  then have "\<not> pos div 80 \<ge> 24" "\<not> pos > 25 * 80" "pos < 1920"
    using assms(1) by (auto simp: less_eq_div_iff_mult_less_eq)
  then show ?thesis
    using assms(2,3)
    by (auto simp: cga_place_def wp screen_ok_def only_shown_def intro!: exI [of _ "h(pos := 0x0720)"] exI [of _ pos])
qed

lemma row_end: "pos < 1920 \<Longrightarrow> pos + (80 - pos mod 80) \<le> (1920 :: nat)"
proof -
  assume p: "pos < 1920"
  then have "pos div 80 < 24" by (simp add: div_less_iff_less_mult)
  moreover have "80 * (pos div 80) + pos mod 80 = pos" "pos mod 80 < 80" by simp_all
  ultimately show ?thesis by linarith
qed

lemma cgaputc_ok:
  assumes "screen_ok s"
  shows "ok (cgaputc c) s (\<lambda>_ s'. screen_ok s' \<and> only_shown [] s s')"
proof -
  let ?pos = "crt_pos s" and ?h = "(crt s)(crt_pos s := (ucast c AND 0xFF) OR 0x0700)"
  have p: "?pos < 1920" "\<not> panicked s" using assms by (simp_all add: screen_ok_def)
  have same: "ok (cga_place pos) s (\<lambda>_ s'. screen_ok s' \<and> only_shown [] s s')" if "pos \<le> 1920" for pos
    using cga_place_ok [OF that p(2), of "crt s"] by simp
  have put: "ok (cga_place (?pos + 1)) (s\<lparr>crt := ?h\<rparr>) (\<lambda>_ s'. screen_ok s' \<and> only_shown [] s s')"
    by (rule cga_place_ok) (use p in simp_all)
  show ?thesis
    unfolding cgaputc_def ok_bnd ok_gets ok_if ok_seqk ok_upd ok_ret
    using same [OF row_end [OF p(1)]] same [of "?pos - 1"] put p by simp
qed

definition echoed :: "uint \<Rightarrow> uchar list" where
  "echoed c = (if c = BACKSPACE then [8, 32, 8] else [ucast c])"

lemma consputc_ok:
  assumes "screen_ok s"
  shows "ok (consputc c) s (\<lambda>_ s'. screen_ok s' \<and> only_shown (echoed c) s s')"
proof -
  let ?s = "s\<lparr>uart_out := uart_out s @ (if uart_on s then echoed c else [])\<rparr>"
  have s: "screen_ok ?s" "only_shown (echoed c) s ?s"
    using assms by (auto simp: screen_ok_def only_shown_def intro!: exI [of _ "crt s"] exI [of _ "crt_pos s"])
  have "ok (cgaputc c) ?s (\<lambda>_ s'. screen_ok s' \<and> only_shown (echoed c) s s')"
    by (rule ok_mono [OF cgaputc_ok [OF s(1)]]) (use only_shown_trans [OF s(2), of "[]"] in auto)
  moreover have "ok (if c = BACKSPACE then seqk (uartputc 8) (seqk (uartputc 32) (uartputc 8)) else uartputc c) s Q = Q () ?s" for Q
    by (simp add: uartputc_def wp echoed_def)
  ultimately show ?thesis
    using assms by (simp add: consputc_def ok_bnd ok_gets screen_ok_def ok_seqk)
qed

section \<open>The input\<close>

interpretation input_ring: ring INPUT_BUF
  by unfold_locales (simp_all add: INPUT_BUF_def)

text \<open>The bytes a reader may take, and the line that is being edited.\<close>

definition ready :: "console \<Rightarrow> uchar list" where
  "ready s = contents INPUT_BUF (in_buf s) (in_r s) (in_w s)"

definition line :: "console \<Rightarrow> uchar list" where
  "line s = contents INPUT_BUF (in_buf s) (in_w s) (in_e s)"

definition input_inv :: "console \<Rightarrow> bool" where
  "input_inv s \<longleftrightarrow> length (in_buf s) = INPUT_BUF \<and> unat (in_w s - in_r s) \<le> unat (in_e s - in_r s) \<and>
     unat (in_e s - in_r s) \<le> INPUT_BUF \<and> 10 \<notin> set (line s)"

text \<open>What one character does to the two, and whether it finishes the line.\<close>

definition edited :: "uint \<Rightarrow> uchar list \<times> uchar list \<Rightarrow> (uchar list \<times> uchar list) \<times> bool" where
  "edited c v = (case v of (fin, ln) \<Rightarrow>
     if c = 0x15 then ((fin, []), False)
     else if c = 0x08 \<or> c = 0x7F then ((fin, butlast ln), False)
     else if c \<noteq> 0 \<and> length fin + length ln < INPUT_BUF then
       let c' = (if c = 13 then 10 else c); ln' = ln @ [ucast c'] in
       if c' = 10 \<or> c' = 4 \<or> length fin + length ln' = INPUT_BUF then ((fin @ ln', []), True) else ((fin, ln'), False)
     else ((fin, ln), False))"

lemma input_all:
  assumes "input_inv s"
  shows "contents INPUT_BUF (in_buf s) (in_r s) (in_e s) = ready s @ line s"
    "unat (in_e s - in_r s) = length (ready s) + length (line s)"
proof -
  show e: "contents INPUT_BUF (in_buf s) (in_r s) (in_e s) = ready s @ line s"
    unfolding ready_def line_def by (rule input_ring.contents_append) (use assms in \<open>simp add: input_inv_def\<close>)
  show "unat (in_e s - in_r s) = length (ready s) + length (line s)"
    using arg_cong [OF e, of length] by simp
qed

lemma input_shown:
  assumes "only_shown out s s'"
  shows "ready s' = ready s" "line s' = line s" "input_inv s' = input_inv s" "in_e s' = in_e s" "in_w s' = in_w s"
    "in_r s' = in_r s" "in_buf s' = in_buf s" "cons_lock s' = cons_lock s"
  using assms by (auto simp: only_shown_def ready_def line_def input_inv_def)

lemma input_back:
  assumes i: "input_inv s" and ne: "in_e s \<noteq> in_w s"
  shows "input_inv (s\<lparr>in_e := in_e s - 1\<rparr>)" "line (s\<lparr>in_e := in_e s - 1\<rparr>) = butlast (line s)" "ready (s\<lparr>in_e := in_e s - 1\<rparr>) = ready s"
proof -
  let ?s = "s\<lparr>in_e := in_e s - 1\<rparr>"
  show l: "line ?s = butlast (line s)" unfolding line_def using input_ring.contents_unpush [of "in_w s" "in_e s"] ne by simp
  show "ready ?s = ready s" by (simp add: ready_def)
  have "line s \<noteq> []" using ne input_ring.contents_empty_iff [of "in_buf s" "in_w s" "in_e s"] by (auto simp: line_def)
  then have "0 < length (line s)" by simp
  moreover have "in_e s - 1 - in_r s = (in_e s - in_r s) - 1" by simp
  ultimately have "unat (in_e s - 1 - in_r s) = unat (in_e s - in_r s) - 1"
    using input_all(2) [OF i] unat_minus_one [of "in_e s - in_r s"] by (metis add_pos_nonneg less_numeral_extra(3) unat_0 zero_le add.commute)
  moreover have "unat (in_w s - in_r s) = length (ready s)" by (simp add: ready_def)
  moreover have "length (ready s) \<le> length (ready s) + length (line s) - 1" using \<open>0 < length (line s)\<close> by linarith
  ultimately show "input_inv ?s"
    using i l input_all(2) [OF i] by (auto simp: input_inv_def dest: in_set_butlastD)
qed

lemma kill_line_ok:
  assumes "input_inv s" "screen_ok s" "length (line s) \<le> n"
  shows "ok (kill_line n) s (\<lambda>_ s'. input_inv s' \<and> screen_ok s' \<and> ready s' = ready s \<and> line s' = [] \<and> cons_lock s' = cons_lock s)"
  using assms
proof (induction n arbitrary: s)
  case 0
  then show ?case by (simp add: wp)
next
  case (Suc n)
  have empty: "in_e s \<noteq> in_w s \<longleftrightarrow> line s \<noteq> []"
    using input_ring.contents_empty_iff [of "in_buf s" "in_w s" "in_e s"] by (auto simp: line_def)
  show ?case
  proof (cases "in_e s = in_w s")
    case True
    then show ?thesis using Suc.prems empty by (simp add: wp)
  next
    case False
    let ?s = "s\<lparr>in_e := in_e s - 1\<rparr>"
    have "in_buf s ! slot INPUT_BUF (in_e s - 1) = last (line s)"
      using input_ring.contents_last [of "in_w s" "in_e s" "in_buf s"] False by (simp add: line_def)
    then have n10: "in_buf s ! slot INPUT_BUF (in_e s - 1) \<noteq> 10"
      using Suc.prems(1) False empty last_in_set [of "line s"] by (metis input_inv_def)
    note bk = input_back [OF Suc.prems(1) False]
    have "ok (consputc BACKSPACE) ?s (\<lambda>_ t. ok (kill_line n) t
        (\<lambda>_ s'. input_inv s' \<and> screen_ok s' \<and> ready s' = ready s \<and> line s' = [] \<and> cons_lock s' = cons_lock s))"
    proof (rule ok_mono [OF consputc_ok])
      show "screen_ok ?s" using Suc.prems(2) by (simp add: screen_ok_def)
      fix u t assume t: "screen_ok t \<and> only_shown (echoed BACKSPACE) ?s t"
      note sh = input_shown [OF t [THEN conjunct2]]
      have "length (line t) \<le> n" using Suc.prems(3) bk(2) sh(2) by simp
      with Suc.IH [of t] show "ok (kill_line n) t (\<lambda>_ s'. input_inv s' \<and> screen_ok s' \<and> ready s' = ready s \<and> line s' = [] \<and> cons_lock s' = cons_lock s)"
        using t bk sh by simp
    qed
    then show ?thesis using False n10 by (simp add: ok_bnd ok_gets ok_seqk ok_upd)
  qed
qed

text \<open>Storing a character at the end of the line.\<close>

definition typed :: "uchar \<Rightarrow> console \<Rightarrow> console" where
  "typed b s = s\<lparr>in_buf := (in_buf s)[slot INPUT_BUF (in_e s) := b], in_e := in_e s + 1\<rparr>"

lemma contents_keep:
  assumes l: "length b = INPUT_BUF" and w: "unat (w - r) \<le> unat (e - r)" "unat (e - r) < INPUT_BUF"
  shows "contents INPUT_BUF (b[slot INPUT_BUF e := c]) r w = contents INPUT_BUF b r w"
proof -
  have "e = r + of_nat (unat (e - r))" by simp
  then show ?thesis
    unfolding contents_def using input_ring.ring_bytes_update [of "unat (w - r)" "unat (e - r)" b r c] w l by simp
qed

lemma typed_ok:
  assumes i: "input_inv s" and n: "length (ready s) + length (line s) < INPUT_BUF"
  shows "ready (typed b s) = ready s" "line (typed b s) = line s @ [b]"
    "unat (in_e (typed b s) - in_r (typed b s)) = Suc (length (ready s) + length (line s))" "length (in_buf (typed b s)) = INPUT_BUF"
    "in_w (typed b s) = in_w s" "in_r (typed b s) = in_r s" "cons_lock (typed b s) = cons_lock s"
proof -
  have l: "length (in_buf s) = INPUT_BUF" "unat (in_w s - in_r s) \<le> unat (in_e s - in_r s)" using i by (simp_all add: input_inv_def)
  note a = input_all [OF i]
  show "ready (typed b s) = ready s"
    unfolding ready_def typed_def using contents_keep [OF l] a(2) n by simp
  have "unat (in_e s - in_w s) < INPUT_BUF" using n by (simp add: line_def)
  then show "line (typed b s) = line s @ [b]"
    unfolding line_def typed_def using input_ring.contents_push [OF l(1), of "in_e s" "in_w s" b] by simp
  show "unat (in_e (typed b s) - in_r (typed b s)) = Suc (length (ready s) + length (line s))"
    using input_ring.unat_Suc_diff [of "in_e s" "in_r s"] a(2) n by (simp add: typed_def INPUT_BUF_def)
  show "length (in_buf (typed b s)) = INPUT_BUF" using l by (simp add: typed_def)
qed (simp_all add: typed_def)

lemma edit_char_ok:
  assumes i: "input_inv s" and sc: "screen_ok s" and c: "c < 256"
  shows "ok (edit_char c) s (\<lambda>fin s'. input_inv s' \<and> screen_ok s' \<and> ((ready s', line s'), fin) = edited c (ready s, line s) \<and> cons_lock s' = cons_lock s)"
proof -
  have empty: "in_e s \<noteq> in_w s \<longleftrightarrow> line s \<noteq> []"
    using input_ring.contents_empty_iff [of "in_buf s" "in_w s" "in_e s"] by (auto simp: line_def)
  consider "c = 0x15" | "c = 0x08 \<or> c = 0x7F" | "c \<noteq> 0x15" "c \<noteq> 0x08" "c \<noteq> 0x7F" by blast
  then show ?thesis
  proof cases
    case 1
    have "length (line s) = unat (in_e s - in_w s)" by (simp add: line_def)
    then show ?thesis
      using 1 kill_line_ok [OF i sc, of "unat (in_e s - in_w s)"]
      by (simp add: edit_char_def ok_bnd ok_gets ok_seqk ok_ret edited_def)
  next
    case 2
    then have ne: "c \<noteq> 0x15" by auto
    show ?thesis
    proof (cases "in_e s = in_w s")
      case True
      then show ?thesis using 2 ne i sc empty by (simp add: edit_char_def ok_bnd ok_gets ok_seqk ok_ret ok_whenk edited_def)
    next
      case False
      note bk = input_back [OF i False]
      have "ok (consputc BACKSPACE) (s\<lparr>in_e := in_e s - 1\<rparr>) (\<lambda>_ s'. input_inv s' \<and> screen_ok s' \<and> ready s' = ready s \<and> line s' = butlast (line s) \<and> cons_lock s' = cons_lock s)"
        by (rule ok_mono [OF consputc_ok]) (use sc bk input_shown in \<open>auto simp: screen_ok_def\<close>)
      then show ?thesis using 2 ne False
        by (simp add: edit_char_def ok_bnd ok_gets ok_seqk ok_ret ok_whenk ok_upd edited_def)
    qed
  next
    case 3
    have room: "in_e s - in_r s < of_nat INPUT_BUF \<longleftrightarrow> length (ready s) + length (line s) < INPUT_BUF"
      using input_all(2) [OF i] by (simp add: word_less_nat_alt INPUT_BUF_def)
    show ?thesis
    proof (cases "c \<noteq> 0 \<and> length (ready s) + length (line s) < INPUT_BUF")
      case False
      then consider "c = 0" | "\<not> length (ready s) + length (line s) < INPUT_BUF" by blast
      then show ?thesis
        by cases (use 3 i sc room in \<open>simp_all add: edit_char_def ok_bnd ok_gets ok_ret edited_def\<close>)
    next
      case True
      define d where "d = (if c = 13 then 10 else c)"
      have d: "d < 256" "(ucast d :: uchar) = 10 \<longleftrightarrow> d = 10"
      proof -
        show "d < 256" using c by (simp add: d_def)
        then have "unat (ucast d :: uchar) = unat d" by (simp add: unsigned_ucast_eq word_less_nat_alt take_bit_nat_eq_self)
        then show "(ucast d :: uchar) = 10 \<longleftrightarrow> d = 10" by (simp add: word_unat_eq_iff)
      qed
      note ty = typed_ok [OF i True [THEN conjunct2], of "ucast d"]
      let ?P = "\<lambda>fin s'. input_inv s' \<and> screen_ok s' \<and> ((ready s', line s'), fin) = edited c (ready s, line s) \<and> cons_lock s' = cons_lock s"
      have "ok (consputc d) (typed (ucast d) s) (\<lambda>_ t. ok (if d = 10 \<or> d = 4 \<or> in_e t = in_r t + of_nat INPUT_BUF then
            seqk (upd (\<lambda>s. s\<lparr>in_w := in_e s\<rparr>)) (ret True) else ret False) t ?P)"
      proof (rule ok_mono [OF consputc_ok])
        show "screen_ok (typed (ucast d) s)" using sc by (simp add: screen_ok_def typed_def)
        fix u t assume t: "screen_ok t \<and> only_shown (echoed d) (typed (ucast d) s) t"
        note sh = input_shown [OF t [THEN conjunct2]]
        have full: "in_e t = in_r t + of_nat INPUT_BUF \<longleftrightarrow> Suc (length (ready s) + length (line s)) = INPUT_BUF"
        proof -
          have "in_e t = in_r t + of_nat INPUT_BUF \<longleftrightarrow> in_e t - in_r t = of_nat INPUT_BUF" by (auto simp: algebra_simps)
          also have "\<dots> \<longleftrightarrow> unat (in_e t - in_r t) = INPUT_BUF" by (simp add: word_unat_eq_iff INPUT_BUF_def)
          finally show ?thesis using ty(3) sh by simp
        qed
        have len: "unat (in_w t - in_r t) = length (ready t)" by (simp add: ready_def)
        have inv: "length (in_buf t) = INPUT_BUF" "unat (in_e t - in_r t) = length (ready t) + length (line t)" "unat (in_e t - in_r t) \<le> INPUT_BUF"
          using ty sh True by simp_all
        have all: "contents INPUT_BUF (in_buf t) (in_r t) (in_e t) = ready t @ line t"
          unfolding ready_def line_def by (rule input_ring.contents_append) (use inv len in simp)
        have fin: "ready (t\<lparr>in_w := in_e t\<rparr>) = ready t @ line t" "line (t\<lparr>in_w := in_e t\<rparr>) = []"
          using all input_ring.contents_empty_iff [of "in_buf t" "in_e t" "in_e t"] by (simp_all add: ready_def line_def)
        have it: "input_inv t" if "d \<noteq> 10"
          using that inv len d(2) i ty(2) sh by (simp add: input_inv_def)
        have fi: "input_inv (t\<lparr>in_w := in_e t\<rparr>)" using inv fin by (simp add: input_inv_def)
        have ed: "edited c (ready s, line s) = (if d = 10 \<or> d = 4 \<or> Suc (length (ready s) + length (line s)) = INPUT_BUF
            then ((ready s @ line s @ [ucast d], []), True) else ((ready s, line s @ [ucast d]), False))"
          using 3 True by (simp add: edited_def d_def Let_def)
        show "ok (if d = 10 \<or> d = 4 \<or> in_e t = in_r t + of_nat INPUT_BUF then
            seqk (upd (\<lambda>s. s\<lparr>in_w := in_e s\<rparr>)) (ret True) else ret False) t ?P"
          using t fi it full fin ty sh by (auto simp: ed wp screen_ok_def)
      qed
      then show ?thesis
        using 3 True room by (simp add: edit_char_def ok_bnd ok_gets ok_seqk ok_upd Let_def d_def [symmetric] typed_def [symmetric])
    qed
  qed
qed

section \<open>Reading a line\<close>

text \<open>
  What a read of \<open>n\<close> bytes, of which \<open>target\<close> were asked for in all, takes from the finished bytes and what it
  leaves; it has to wait when they run out first.
\<close>

fun taken :: "nat \<Rightarrow> nat \<Rightarrow> uchar list \<Rightarrow> (uchar list \<times> uchar list) option" where
  "taken target 0 xs = Some ([], xs)"
| "taken target (Suc n) [] = None"
| "taken target (Suc n) (c # xs) =
     (if c = 4 then Some ([], if Suc n < target then c # xs else xs)
      else if c = 10 then Some ([c], xs)
      else map_option (\<lambda>(bs, rest). (c # bs, rest)) (taken target n xs))"

lemma input_next:
  assumes i: "input_inv s" and ne: "in_r s \<noteq> in_w s"
  shows "ready s = in_buf s ! slot INPUT_BUF (in_r s) # ready (s\<lparr>in_r := in_r s + 1\<rparr>)" "input_inv (s\<lparr>in_r := in_r s + 1\<rparr>)"
    "line (s\<lparr>in_r := in_r s + 1\<rparr>) = line s"
proof -
  let ?s = "s\<lparr>in_r := in_r s + 1\<rparr>"
  show r: "ready s = in_buf s ! slot INPUT_BUF (in_r s) # ready ?s"
    unfolding ready_def using input_ring.contents_pop [OF ne] by simp
  show l: "line ?s = line s" by (simp add: line_def)
  have "unat (in_e s - (in_r s + 1)) = unat (in_e s - in_r s) - 1"
  proof -
    have "in_e s - in_r s \<noteq> 0" using input_all(2) [OF i] r by (auto simp: unat_eq_0 [symmetric])
    then have "unat (in_e s - in_r s - 1) = unat (in_e s - in_r s) - 1" by (rule unat_minus_one)
    moreover have "in_e s - (in_r s + 1) = in_e s - in_r s - 1" by simp
    ultimately show ?thesis by (simp only:)
  qed
  moreover have "unat (in_w s - (in_r s + 1)) = length (ready ?s)" "unat (in_w s - in_r s) = length (ready s)"
    by (simp_all add: ready_def)
  ultimately show "input_inv ?s" using i l r unfolding input_inv_def by (simp, linarith)
qed

lemma read_loop_ok:
  assumes "input_inv (cons s)" "taken target n (ready (cons s)) = Some (bs, rest)" "n \<le> target"
  shows "ok (read_loop target n) s (\<lambda>v s'. v = Some bs \<and> (\<exists>c. s' = s\<lparr>cons := c\<rparr> \<and> cons_lock c = cons_lock (cons s) \<and>
     input_inv c \<and> ready c = rest \<and> line c = line (cons s)))"
  using assms
proof (induction n arbitrary: s bs)
  case 0
  then show ?case by (auto simp: wp intro!: exI [of _ "cons s"])
next
  case (Suc n)
  let ?c = "in_buf (cons s) ! slot INPUT_BUF (in_r (cons s))" and ?t = "(cons s)\<lparr>in_r := in_r (cons s) + 1\<rparr>"
  let ?s = "s\<lparr>cons := ?t\<rparr>"
  have ne: "in_r (cons s) \<noteq> in_w (cons s)"
  proof
    assume "in_r (cons s) = in_w (cons s)"
    then have "ready (cons s) = []" using input_ring.contents_empty_iff by (simp add: ready_def)
    then show False using Suc.prems(2) by simp
  qed
  note nx = input_next [OF Suc.prems(1) ne]
  consider "?c = 4" | "?c \<noteq> 4" "?c = 10" | "?c \<noteq> 4" "?c \<noteq> 10" by blast
  then show ?case
  proof cases
    case 1
    have undo: "?t\<lparr>in_r := in_r ?t - 1\<rparr> = cons s" by simp
    show ?thesis
    proof (cases "Suc n < target")
      case True
      then have "bs = []" "rest = ready (cons s)" using 1 Suc.prems(2) nx(1) by simp_all
      then show ?thesis using 1 ne True Suc.prems(1)
        by (simp add: ok_bnd ok_gets Let_def ok_seqk upd_cons_def ok_upd ok_whenk ok_ret undo exI [of _ "cons s"])
    next
      case False
      then have "bs = []" "rest = ready ?t" using 1 Suc.prems(2) nx(1) by simp_all
      then show ?thesis using 1 ne False nx
        by (simp add: ok_bnd ok_gets Let_def ok_seqk upd_cons_def ok_upd ok_whenk ok_ret) (rule exI [of _ ?t], simp)
    qed
  next
    case 2
    then have "bs = [10]" "rest = ready ?t" using Suc.prems(2) nx(1) by simp_all
    then show ?thesis using 2 ne nx
      by (simp add: ok_bnd ok_gets Let_def ok_seqk upd_cons_def ok_upd ok_ret) (rule exI [of _ ?t], simp)
  next
    case 3
    then obtain bs' where b: "taken target n (ready ?t) = Some (bs', rest)" "bs = ?c # bs'"
      using Suc.prems(2) nx(1) by (auto simp: split: option.splits)
    have "ok (read_loop target n) ?s (\<lambda>v s'. v = Some bs' \<and> (\<exists>c. s' = ?s\<lparr>cons := c\<rparr> \<and> cons_lock c = cons_lock (cons ?s) \<and>
     input_inv c \<and> ready c = rest \<and> line c = line (cons ?s)))"
      by (rule Suc.IH) (use nx(2) b(1) Suc.prems(3) in auto)
    then have "ok (read_loop target n) ?s (\<lambda>v s'. map_option (Cons ?c) v = Some bs \<and> (\<exists>c. s' = s\<lparr>cons := c\<rparr> \<and>
      cons_lock c = cons_lock (cons s) \<and> input_inv c \<and> ready c = rest \<and> line c = line (cons s)))"
      by (rule ok_mono) (use b(2) nx(3) in auto)
    then show ?thesis using 3 ne by (simp add: ok_bnd ok_gets Let_def ok_seqk upd_cons_def ok_upd ok_ret)
  qed
qed

lemma lock_cons_eq: "cons_lock (cons s) = Unlocked \<Longrightarrow> lock_cons s =
     Done () (s\<lparr>ps := (ps s)\<lparr>pcpu := pushed (pcpu (ps s))\<rparr>, cons := (cons s)\<lparr>cons_lock := Mine\<rparr>\<rparr>)"
  by (simp add: lock_cons_def f_acquire_eq)

lemma unlock_cons_eq: "cons_lock (cons s) = Mine \<Longrightarrow> pcpu (ps s) = pushed c \<Longrightarrow> cli_calm c \<Longrightarrow> unlock_cons s =
     Done () (s\<lparr>ps := (ps s)\<lparr>pcpu := c\<rparr>, cons := (cons s)\<lparr>cons_lock := Unlocked\<rparr>\<rparr>)"
  unfolding unlock_cons_def by (subst f_release_eq [where c = c]) (simp_all add: cli_calm_depth popped_pushed Let_def)

lemma input_lock [simp]:
  "input_inv (c\<lparr>cons_lock := l\<rparr>) = input_inv c" "ready (c\<lparr>cons_lock := l\<rparr>) = ready c" "line (c\<lparr>cons_lock := l\<rparr>) = line c"
  by (simp_all add: input_inv_def ready_def line_def)

lemma consoleread_ok:
  assumes h: "ilock_held i s" "i_valid (inodes s ! i)" and c: "cons_lock (cons s) = Unlocked" "input_inv (cons s)"
    and t: "taken n n (ready (cons s)) = Some (bs, rest)"
  shows "ok (consoleread i n) s (\<lambda>(r, out) s'. r = int (length bs) \<and> out = bs \<and> ilock_held i s' \<and>
     cons_lock (cons s') = Unlocked \<and> input_inv (cons s') \<and> ready (cons s') = rest \<and> line (cons s') = line (cons s))"
proof -
  let ?p = "(ps s)\<lparr>procs := map (woken (ChanInodeLock i)) (procs (ps s))\<rparr>"
  let ?free = "\<lparr>sl_locked = False, sl_lk = Unlocked, sl_pid = 0\<rparr>"
  define s1 where "s1 = (set_inode_lock i ?free s)\<lparr>ps := ?p\<rparr>"
  have calm: "calm (ps s)" "i < length (inodes s)" "i_ref (inodes s ! i) \<ge> 1" using h by (simp_all add: ilock_held_def)
  have s1: "cons s1 = cons s" "ps s1 = ?p" "inodes s1 = (inodes s)[i := (inodes s ! i)\<lparr>i_lock := ?free\<rparr>]"
    by (simp_all add: s1_def set_inode_lock_def set_inode_def)
  have c1: "calm (ps s1)" "cli_calm (pcpu (ps s1))" using calm(1) by (auto simp: s1 calm_def split: option.splits)
  define s2 where "s2 = s1\<lparr>ps := (ps s1)\<lparr>pcpu := pushed (pcpu (ps s1))\<rparr>, cons := (cons s1)\<lparr>cons_lock := Mine\<rparr>\<rparr>"
  have "ok (read_loop n n) s2 (\<lambda>v s'. v = Some bs \<and> (\<exists>d. s' = s2\<lparr>cons := d\<rparr> \<and> cons_lock d = cons_lock (cons s2) \<and>
     input_inv d \<and> ready d = rest \<and> line d = line (cons s2)))"
    by (rule read_loop_ok) (use c t in \<open>simp_all add: s2_def s1\<close>)
  then obtain d where d: "read_loop n n s2 = Done (Some bs) (s2\<lparr>cons := d\<rparr>)" "cons_lock d = Mine" "input_inv d" "ready d = rest"
    "line d = line (cons s)" by (auto simp: ok_Done s2_def s1)
  let ?s3 = "s1\<lparr>cons := d\<lparr>cons_lock := Unlocked\<rparr>\<rparr>"
  have u: "unlock_cons (s2\<lparr>cons := d\<rparr>) = Done () ?s3"
    using d(2) c1(2) by (subst unlock_cons_eq [where c = "pcpu (ps s1)"]) (simp_all add: s2_def)
  have f: "ilock_free i ?s3" "i_valid (inodes ?s3 ! i)"
    using c1 calm h(2) by (simp_all add: ilock_free_def s1 inode_lock_def)
  note il = ilock_valid [OF f]
  have held: "ilock_held i (set_inode_lock i \<lparr>sl_locked = True, sl_lk = Unlocked, sl_pid = mypid (ps ?s3)\<rparr> ?s3)"
    using c1 calm by (simp add: ilock_held_def set_inode_lock_def set_inode_def inode_lock_def s1)
  have "lock_cons s1 = Done () s2" unfolding s2_def by (rule lock_cons_eq) (simp add: s1 c)
  then have "consoleread i n s = Done (int (length bs), bs) (set_inode_lock i \<lparr>sl_locked = True, sl_lk = Unlocked, sl_pid = mypid (ps ?s3)\<rparr> ?s3)"
    by (simp add: consoleread_def seqk_def bnd_def iunlock_eq [OF h(1)] s1_def [symmetric] d(1) u il ret_def)
  then show ?thesis using held d by (simp add: ok_def) (simp add: set_inode_lock_def set_inode_def)
qed

section \<open>The interrupt handler\<close>

text \<open>All characters of one interrupt: the input they leave and whether one of them finished a line.\<close>

fun edits :: "uint list \<Rightarrow> uchar list \<times> uchar list \<Rightarrow> (uchar list \<times> uchar list) \<times> bool" where
  "edits [] v = (v, False)"
| "edits (c # cs) v = (if c = 0x10 then edits cs v
     else let (v', fin) = edited c v; (v'', fin') = edits cs v' in (v'', fin \<or> fin'))"

definition wakes :: "bool \<Rightarrow> chan \<Rightarrow> psys \<Rightarrow> psys" where
  "wakes b ch p = (if b then p\<lparr>procs := map (woken ch) (procs p)\<rparr> else p)"

lemma wakes_wakes: "wakes a ch (wakes b ch p) = wakes (a \<or> b) ch p"
  by (simp add: wakes_def woken_idem)

text \<open>The lock of the table is free, and the processor has interrupts off for the console's lock.\<close>

lemma intr_loop_ok:
  assumes "input_inv (cons s)" "screen_ok (cons s)" "\<forall>c\<in>set cs. c < 256" "ptable_lock (ps s) = Unlocked"
    "pcpu (ps s) = pushed k" "cli_calm k"
  shows "ok (intr_loop cs dump) s (\<lambda>d s'. d = (dump \<or> 0x10 \<in> set cs) \<and> (\<exists>c. s' = s\<lparr>ps := wakes (snd (edits cs (ready (cons s), line (cons s)))) ChanInput (ps s), cons := c\<rparr> \<and>
     input_inv c \<and> screen_ok c \<and> cons_lock c = cons_lock (cons s) \<and> (ready c, line c) = fst (edits cs (ready (cons s), line (cons s)))))"
  using assms
proof (induction cs arbitrary: s dump)
  case Nil
  then show ?case by (auto simp: wp wakes_def intro!: exI [of _ "cons s"])
next
  case (Cons c cs)
  show ?case
  proof (cases "c = 0x10")
    case True
    then show ?thesis using Cons.IH [of s True] Cons.prems by simp
  next
    case False
    let ?v = "(ready (cons s), line (cons s))"
    obtain v fin where e: "edited c ?v = (v, fin)" by (cases "edited c ?v")
    have "c < 256" using Cons.prems(3) by simp
    from edit_char_ok [OF Cons.prems(1,2) this]
    obtain t where t: "edit_char c (cons s) = Done fin t" "input_inv t" "screen_ok t" "(ready t, line t) = v" "cons_lock t = cons_lock (cons s)"
      unfolding e by (auto simp: ok_Done)
    let ?s = "s\<lparr>ps := wakes fin ChanInput (ps s), cons := t\<rparr>"
    have w: "whenk fin (psop (wakeup ChanInput)) (s\<lparr>cons := t\<rparr>) = Done () ?s"
    proof (cases fin)
      case True
      have "0 \<le> cpu_ncli (pushed k)" using cli_calm_depth [OF Cons.prems(6)] by (simp add: pushed_def)
      then show ?thesis using True Cons.prems(4-6)
        by (simp add: whenk_def psop_def zoom_def wakeup_eq wakes_def popped_pushed)
    qed (simp add: whenk_def ret_def wakes_def)
    have "ok (intr_loop cs dump) ?s (\<lambda>d s'. d = (dump \<or> 0x10 \<in> set cs) \<and> (\<exists>c. s' = ?s\<lparr>ps := wakes (snd (edits cs (ready (cons ?s), line (cons ?s)))) ChanInput (ps ?s), cons := c\<rparr> \<and>
       input_inv c \<and> screen_ok c \<and> cons_lock c = cons_lock (cons ?s) \<and> (ready c, line c) = fst (edits cs (ready (cons ?s), line (cons ?s)))))"
      by (rule Cons.IH) (use t Cons.prems in \<open>auto simp: wakes_def\<close>)
    moreover have "intr_loop (c # cs) dump s = intr_loop cs dump ?s"
      using False by (simp add: bnd_def seqk_def consop_def zoom_def t(1) w)
    moreover have "edits (c # cs) ?v = (fst (edits cs v), fin \<or> snd (edits cs v))" using False e by (simp add: case_prod_unfold Let_def)
    ultimately show ?thesis
      using False t(4,5) by (auto simp: ok_Done wakes_wakes disj_commute)
  qed
qed

lemma consoleintr_ok:
  assumes i: "input_inv (cons s)" and sc: "screen_ok (cons s)" and cs: "\<forall>c\<in>set cs. c < 256" and l: "cons_lock (cons s) = Unlocked"
    and p: "ptable_lock (ps s) = Unlocked" "cli_calm (pcpu (ps s))"
  shows "ok (consoleintr cs) s (\<lambda>d s'. d = (0x10 \<in> set cs) \<and> (\<exists>c. s' = s\<lparr>ps := wakes (snd (edits cs (ready (cons s), line (cons s)))) ChanInput (ps s), cons := c\<rparr> \<and>
     input_inv c \<and> screen_ok c \<and> cons_lock c = Unlocked \<and> (ready c, line c) = fst (edits cs (ready (cons s), line (cons s)))))"
proof -
  let ?s = "s\<lparr>ps := (ps s)\<lparr>pcpu := pushed (pcpu (ps s))\<rparr>, cons := (cons s)\<lparr>cons_lock := Mine\<rparr>\<rparr>"
  let ?e = "edits cs (ready (cons s), line (cons s))"
  have "ok (intr_loop cs False) ?s (\<lambda>d s'. d = (False \<or> 0x10 \<in> set cs) \<and> (\<exists>c. s' = ?s\<lparr>ps := wakes (snd (edits cs (ready (cons ?s), line (cons ?s)))) ChanInput (ps ?s), cons := c\<rparr> \<and>
     input_inv c \<and> screen_ok c \<and> cons_lock c = cons_lock (cons ?s) \<and> (ready c, line c) = fst (edits cs (ready (cons ?s), line (cons ?s)))))"
    by (rule intr_loop_ok) (use i sc cs p in \<open>auto simp: screen_ok_def\<close>)
  then obtain c where c: "intr_loop cs False ?s = Done (0x10 \<in> set cs) (?s\<lparr>ps := wakes (snd ?e) ChanInput (ps ?s), cons := c\<rparr>)"
    "input_inv c" "screen_ok c" "cons_lock c = Mine" "(ready c, line c) = fst ?e" by (auto simp: ok_Done)
  have "unlock_cons (?s\<lparr>ps := wakes (snd ?e) ChanInput (ps ?s), cons := c\<rparr>) =
      Done () (s\<lparr>ps := wakes (snd ?e) ChanInput (ps s), cons := c\<lparr>cons_lock := Unlocked\<rparr>\<rparr>)"
    using c(4) p(2) by (subst unlock_cons_eq [where c = "pcpu (ps s)"]) (simp_all add: wakes_def)
  then have "consoleintr cs s = Done (0x10 \<in> set cs) (s\<lparr>ps := wakes (snd ?e) ChanInput (ps s), cons := c\<lparr>cons_lock := Unlocked\<rparr>\<rparr>)"
    by (simp add: consoleintr_def seqk_def bnd_def lock_cons_eq [OF l] c(1) ret_def)
  then show ?thesis
    using c by (auto simp: ok_def screen_ok_def intro!: exI [of _ "c\<lparr>cons_lock := Unlocked\<rparr>"])
qed

section \<open>Formatted output\<close>

lemma echoed_byte: "echoed (ucast (c :: uchar)) = [c]"
proof -
  have l: "unat c < 256" using unsigned_less [of c] by simp
  then have "unat (ucast c :: uint) = unat c" by (simp add: unsigned_ucast_eq take_bit_nat_eq_self)
  then have "(ucast c :: uint) \<noteq> BACKSPACE" using l by (auto simp: BACKSPACE_def)
  moreover have "ucast (ucast c :: uint) = c" by (rule bit_word_eqI) (simp add: bit_simps)
  ultimately show ?thesis by (simp add: echoed_def)
qed

lemma put_all_ok:
  assumes "screen_ok (cons s)"
  shows "ok (foreach out (\<lambda>c. consop (consputc (ucast c)))) s
     (\<lambda>_ s'. \<exists>c. s' = s\<lparr>cons := c\<rparr> \<and> screen_ok c \<and> only_shown out (cons s) c)"
  using assms
proof (induction out arbitrary: s)
  case Nil
  then show ?case using only_shown_refl by (auto simp: wp intro!: exI [of _ "cons s"])
next
  case (Cons b out)
  obtain c where c: "consputc (ucast b) (cons s) = Done () c" "screen_ok c" "only_shown [b] (cons s) c"
    using consputc_ok [OF Cons.prems, of "ucast b"] by (auto simp: ok_Done echoed_byte)
  have "ok (foreach out (\<lambda>c. consop (consputc (ucast c)))) (s\<lparr>cons := c\<rparr>)
     (\<lambda>_ s'. \<exists>d. s' = s\<lparr>cons := c, cons := d\<rparr> \<and> screen_ok d \<and> only_shown out (cons (s\<lparr>cons := c\<rparr>)) d)"
    by (rule Cons.IH) (use c in simp)
  then have "ok (foreach out (\<lambda>c. consop (consputc (ucast c)))) (s\<lparr>cons := c\<rparr>)
     (\<lambda>_ s'. \<exists>d. s' = s\<lparr>cons := d\<rparr> \<and> screen_ok d \<and> only_shown (b # out) (cons s) d)"
    by (rule ok_mono) (use only_shown_trans [OF c(3)] in auto)
  moreover have "consop (consputc (ucast b)) s = Done () (s\<lparr>cons := c\<rparr>)" by (simp add: consop_def zoom_def c(1))
  ultimately show ?case by (simp add: ok_seqk) (simp add: ok_def)
qed

end
