(* ===== verification/IoProps.thy ===== *)
theory IoProps
  imports Pipe ConsoleData FsExample
begin

text \<open>
  Properties of pipes, the console and open files (\<^verbatim>\<open>kernel/pipe.c\<close>, \<^verbatim>\<open>kernel/console.c\<close>, \<^verbatim>\<open>kernel/file.c\<close>).
\<close>

section \<open>Pipes\<close>

text \<open>
  C27: a pipe carries bytes in order and loses none. A write that fits returns its length after
  appending the caller's bytes; a read then returns as many bytes as there are, up to the number asked
  for, leaves exactly the first ones of the queue in the caller's memory, changes no other user
  byte, and keeps the rest for the next read. The indices may wrap around.
\<close>

theorem pipe_write_read:
  assumes "pipe_ready p q s" and "user_ok fr (kps s)" and "0 \<le> n" and "length (pipe_bytes q) + nat n \<le> PIPESIZE"
    and "\<forall>k < nat n. can_load (kps s) (wa + of_nat k)"
    and "0 \<le> m" and "m < 4294967296" and "\<forall>k < nat m. can_store (kps s) (ra + of_nat k)" and "pipe_bytes q \<noteq> [] \<or> n > 0"
  shows "ok (bnd (pipewrite p wa n) (\<lambda>w. bnd (piperead p ra m) (\<lambda>r. ret (w, r)))) s (\<lambda>(w, r) s'.
     let bs = pipe_bytes q @ map (\<lambda>k. ubyte (kps s) (wa + of_nat k)) [0..<nat n] in
     w = n \<and> r = min m (int (length bs)) \<and> (\<exists>q'. pipe_ready p q' s' \<and> pipe_bytes q' = drop (nat m) bs) \<and>
     (\<forall>x. can_load (kps s) x \<longrightarrow> ubyte (kps s') x =
        (if unat (x - ra) < nat r then bs ! unat (x - ra) else ubyte (kps s) x)))"
proof -
  define bs where "bs = pipe_bytes q @ map (\<lambda>k. ubyte (kps s) (wa + of_nat k)) [0..<nat n]"
  let ?u = "(kps s)\<lparr>procs := map (woken (ChanPipeR p)) (procs (kps s))\<rparr>"
  have same: "can_load ?u x = can_load (kps s) x" "can_store ?u x = can_store (kps s) x" "ubyte ?u x = ubyte (kps s) x" for x
    by (simp_all add: can_load_def can_store_def ubyte_def upaddr_def)
  have uk: "user_ok fr ?u" using assms(2) by (simp add: user_ok_def)
  have "ok (pipewrite p wa n) s (\<lambda>v s'. v = n \<and> (\<exists>q'. pipe_ready p q' s' \<and> pipe_bytes q' = bs \<and>
     pi_readopen q' = pi_readopen q \<and> pi_writeopen q' = pi_writeopen q) \<and> kps s' = ?u)"
    unfolding bs_def by (rule pipewrite_ok) (use assms in auto)
  then have "ok (pipewrite p wa n) s (\<lambda>w s1. ok (piperead p ra m) s1 (\<lambda>r s'. w = n \<and> r = min m (int (length bs)) \<and>
     (\<exists>q'. pipe_ready p q' s' \<and> pipe_bytes q' = drop (nat m) bs) \<and>
     (\<forall>x. can_load (kps s) x \<longrightarrow> ubyte (kps s') x = (if unat (x - ra) < nat r then bs ! unat (x - ra) else ubyte (kps s) x))))"
  proof (rule ok_mono)
    fix w s1 assume "w = n \<and> (\<exists>q'. pipe_ready p q' s1 \<and> pipe_bytes q' = bs \<and>
     pi_readopen q' = pi_readopen q \<and> pi_writeopen q' = pi_writeopen q) \<and> kps s1 = ?u"
    then obtain q1 where 1: "w = n" "pipe_ready p q1 s1" "pipe_bytes q1 = bs" "kps s1 = ?u" by blast
    have ne: "pipe_bytes q1 \<noteq> [] \<or> \<not> pi_writeopen q1" using assms(9) 1(3) by (auto simp: bs_def)
    have st: "can_store (kps s1) (ra + of_nat k)" if "k < min (nat m) (length (pipe_bytes q1))" for k
      using that assms(8) by (simp add: 1(4) same)
    note rd = piperead_ok [OF 1(2) assms(6,7) ne uk [folded 1(4)] st]
    show "ok (piperead p ra m) s1 (\<lambda>r s'. w = n \<and> r = min m (int (length bs)) \<and>
     (\<exists>q'. pipe_ready p q' s' \<and> pipe_bytes q' = drop (nat m) bs) \<and>
     (\<forall>x. can_load (kps s) x \<longrightarrow> ubyte (kps s') x = (if unat (x - ra) < nat r then bs ! unat (x - ra) else ubyte (kps s) x)))"
    proof (rule ok_mono [OF rd])
      fix r s' assume 2: "r = min m (int (length (pipe_bytes q1))) \<and>
        (\<exists>q'. pipe_ready p q' s' \<and> pipe_bytes q' = drop (nat m) (pipe_bytes q1) \<and>
           pi_readopen q' = pi_readopen q1 \<and> pi_writeopen q' = pi_writeopen q1) \<and>
        (\<forall>x. can_load (kps s1) x \<longrightarrow> ubyte (kps s') x = (if unat (x - ra) < length (take (nat m) (pipe_bytes q1))
           then take (nat m) (pipe_bytes q1) ! unat (x - ra) else ubyte (kps s1) x))"
      then have r: "nat r = length (take (nat m) bs)" unfolding 1(3) using assms(6) by (auto simp: min_def nat_le_iff)
      have "ubyte (kps s') x = (if unat (x - ra) < nat r then bs ! unat (x - ra) else ubyte (kps s) x)" if "can_load (kps s) x" for x
        using 2 that unfolding 1(3) 1(4) same r by simp
      then show "w = n \<and> r = min m (int (length bs)) \<and> (\<exists>q'. pipe_ready p q' s' \<and> pipe_bytes q' = drop (nat m) bs) \<and>
     (\<forall>x. can_load (kps s) x \<longrightarrow> ubyte (kps s') x = (if unat (x - ra) < nat r then bs ! unat (x - ra) else ubyte (kps s) x))"
        using 2 1(1) unfolding 1(3) by blast
    qed
  qed
  then show ?thesis by (simp add: ok_bnd ok_ret Let_def bs_def [symmetric])
qed

definition ex_pipe :: pipe where
  "ex_pipe = \<lparr>pi_lock = Unlocked, pi_data = 8 # replicate 510 0 @ [7], pi_nread = 0xFFFFFFFF, pi_nwrite = 1,
     pi_readopen = True, pi_writeopen = True\<rparr>"

definition ex_ksys :: ksys where
  "ex_ksys = \<lparr>fs = ex_fs, ftable_lock = Unlocked, files = [], pipes = [0x80409000 \<mapsto> ex_pipe]\<rparr>"

lemma ex_kps: "kps ex_ksys = ex_sys"
  by (simp add: ex_ksys_def ex_fs_def)

lemma ex_user_ok: "user_ok ex_free ex_sys"
  using ex_user_inv by (simp add: user_ok_def ex_sys_def)

lemma ex_can_store: "PGROUNDDOWN v = 0 \<or> PGROUNDDOWN v = 0x1000 \<or> PGROUNDDOWN v = 0x2000 \<Longrightarrow> can_store ex_sys v \<and> can_load ex_sys v"
  using ex_present [of v] by (auto simp: can_store_def can_load_def ex_sys_def ex_km_def SHAREDBASE_def ex_pte_parent PTE_W_def)

lemma ex_page: "k < 4096 \<Longrightarrow> PGROUNDDOWN (0x1000 + of_nat k) = 0x1000" "k < 4096 \<Longrightarrow> PGROUNDDOWN (0x2000 + of_nat k) = 0x2000"
  by (rule PGROUNDDOWN_off; simp add: aligned_def)+

lemma ex_pipe_bytes: "pipe_bytes ex_pipe = [7, 8]"
proof -
  have "[0..<2] = [0, 1 :: nat]" by (simp add: upt_rec)
  then show ?thesis
    by (simp add: pipe_bytes_def contents_def ring_bytes_def ex_pipe_def slot_def PIPESIZE_def nth_append)
qed

theorem pipe_write_read_witness:
  "ok (bnd (pipewrite 0x80409000 0x1000 2) (\<lambda>w. bnd (piperead 0x80409000 0x2000 3) (\<lambda>r. ret (w, r)))) ex_ksys (\<lambda>(w, r) s'.
     w = 2 \<and> r = 3 \<and> ubyte (kps s') 0x2000 = 7 \<and> ubyte (kps s') 0x2001 = 8)"
proof -
  have r: "pipe_ready 0x80409000 ex_pipe ex_ksys"
    using ex_calm by (simp add: pipe_ready_def ex_ksys_def ex_fs_def pipe_inv_def) (simp add: ex_pipe_def PIPESIZE_def)
  have "ok (bnd (pipewrite 0x80409000 0x1000 2) (\<lambda>w. bnd (piperead 0x80409000 0x2000 3) (\<lambda>r. ret (w, r)))) ex_ksys (\<lambda>(w, r) s'.
     let bs = pipe_bytes ex_pipe @ map (\<lambda>k. ubyte (kps ex_ksys) (0x1000 + of_nat k)) [0..<nat 2] in
     w = 2 \<and> r = min 3 (int (length bs)) \<and> (\<exists>q'. pipe_ready 0x80409000 q' s' \<and> pipe_bytes q' = drop (nat 3) bs) \<and>
     (\<forall>x. can_load (kps ex_ksys) x \<longrightarrow> ubyte (kps s') x =
        (if unat (x - 0x2000) < nat r then bs ! unat (x - 0x2000) else ubyte (kps ex_ksys) x)))"
    by (rule pipe_write_read [where fr = ex_free])
      (use r ex_user_ok ex_page ex_can_store in \<open>auto simp: ex_kps ex_pipe_bytes PIPESIZE_def\<close>)
  then show ?thesis
    using ex_can_store [of "0x2000"] ex_can_store [of "0x2001"] ex_page(2) [of 0] ex_page(2) [of 1]
    by (auto simp: ok_Done ex_kps ex_pipe_bytes Let_def)
qed



section \<open>The console\<close>

text \<open>
  C32: the ring of the console input implements line editing. After an interrupt that delivers the
  characters \<open>cs\<close>, the finished input and the line under edit are what the editing rules (erase one character, kill
  the line, finish the line at a newline, end of file or full buffer, drop characters when the buffer is
  full) make of them, readers are woken exactly if a line was finished, and a
  process listing is asked for exactly by control-P. A process that then reads \<open>n\<close> bytes gets the finished
  input up to the end of the line, the end of file or \<open>n\<close> bytes, and the rest stays for the next read.
\<close>

theorem console_line:
  assumes "input_inv (cons s)" and "screen_ok (cons s)" and "cons_lock (cons s) = Unlocked" and "\<forall>c\<in>set cs. c < 256"
    and "ilock_held i s" and "i_valid (inodes s ! i)"
    and "taken n n (fst (fst (edits cs (ready (cons s), line (cons s))))) = Some (bs, rest)"
  shows "ok (bnd (consoleintr cs) (\<lambda>dump. bnd (consoleread i n) (\<lambda>r. ret (dump, r)))) s (\<lambda>(dump, r, out) s'.
     dump = (0x10 \<in> set cs) \<and> r = int (length bs) \<and> out = bs \<and> ready (cons s') = rest \<and>
     line (cons s') = snd (fst (edits cs (ready (cons s), line (cons s)))) \<and> input_inv (cons s') \<and> ilock_held i s') \<and>
    ok (consoleintr cs) s (\<lambda>_ s'. ps s' = wakes (snd (edits cs (ready (cons s), line (cons s)))) ChanInput (ps s) \<and>
     screen_ok (cons s') \<and> cons_lock (cons s') = Unlocked)"
proof -
  let ?e = "edits cs (ready (cons s), line (cons s))"
  have calm: "ptable_lock (ps s) = Unlocked" "cli_calm (pcpu (ps s))" "calm (ps s)"
    using assms(5) by (simp_all add: ilock_held_def calm_def)
  obtain c where c: "consoleintr cs s = Done (0x10 \<in> set cs) (s\<lparr>ps := wakes (snd ?e) ChanInput (ps s), cons := c\<rparr>)"
    "input_inv c" "screen_ok c" "cons_lock c = Unlocked" "(ready c, line c) = fst ?e"
    using consoleintr_ok [OF assms(1,2,4,3) calm(1,2)] by (auto simp: ok_Done)
  let ?s = "s\<lparr>ps := wakes (snd ?e) ChanInput (ps s), cons := c\<rparr>"
  have v: "ready c = fst (fst ?e)" "line c = snd (fst ?e)" using c(5) by (metis fst_conv, metis snd_conv)
  have pid: "mypid (wakes b ch (ps s)) = mypid (ps s)" for b ch
    using calm(3) by (auto simp: mypid_def wakes_def calm_def woken_def split: option.splits)
  have held: "ilock_held i ?s" "i_valid (inodes ?s ! i)"
    using assms(5,6) calm(3) pid by (auto simp: ilock_held_def inode_lock_def wakes_def calm_def split: option.splits)
  have "ok (consoleread i n) ?s (\<lambda>(r, out) s'. r = int (length bs) \<and> out = bs \<and> ilock_held i s' \<and>
     cons_lock (cons s') = Unlocked \<and> input_inv (cons s') \<and> ready (cons s') = rest \<and> line (cons s') = line (cons ?s))"
    by (rule consoleread_ok [OF held]) (use c v assms(7) in simp_all)
  then have "ok (bnd (consoleintr cs) (\<lambda>dump. bnd (consoleread i n) (\<lambda>r. ret (dump, r)))) s (\<lambda>(dump, r, out) s'.
     dump = (0x10 \<in> set cs) \<and> r = int (length bs) \<and> out = bs \<and> ready (cons s') = rest \<and>
     line (cons s') = snd (fst ?e) \<and> input_inv (cons s') \<and> ilock_held i s')"
    unfolding ok_bnd by (subst ok_def) (auto simp: c(1) ok_ret v elim!: ok_mono)
  then show ?thesis using c by (simp add: ok_def)
qed

definition ex_tty :: fsys where
  "ex_tty = ex_fs\<lparr>inodes := [ex_ino\<lparr>i_lock := \<lparr>sl_locked = True, sl_lk = Unlocked, sl_pid = mypid ex_sys\<rparr>\<rparr>]\<rparr>"

theorem console_line_witness:
  "ok (bnd (consoleintr [97, 98, 8, 99, 13]) (\<lambda>dump. bnd (consoleread 0 10) (\<lambda>r. ret (dump, r)))) ex_tty
     (\<lambda>(dump, r, out) s'. \<not> dump \<and> r = 3 \<and> out = [97, 99, 10] \<and> ready (cons s') = [] \<and> line (cons s') = [])"
proof -
  have c: "cons ex_tty = ex_cons" "ps ex_tty = ex_sys" by (simp_all add: ex_tty_def ex_fs_def)
  have r: "ready ex_cons = []" "line ex_cons = []"
    using input_ring.contents_empty_iff by (simp_all add: ready_def line_def ex_cons_def)
  have e: "edits [97, 98, 8, 99, 13] ([], []) = (([97, 99, 10], []), True)"
    by (simp add: edited_def INPUT_BUF_def)
  have h: "ilock_held 0 ex_tty" "i_valid (inodes ex_tty ! 0)"
    using ex_calm by (simp_all add: ilock_held_def c inode_lock_def) (simp_all add: ex_tty_def ex_ino_def)
  have i: "input_inv (cons ex_tty)" "screen_ok (cons ex_tty)" "cons_lock (cons ex_tty) = Unlocked"
    unfolding c input_inv_def r by (simp_all add: ex_cons_def INPUT_BUF_def screen_ok_def)
  have "taken 10 10 [97, 99, 10] = Some ([97, 99, 10], [])" by code_simp
  then have t: "taken 10 10 (fst (fst (edits [97, 98, 8, 99, 13] (ready (cons ex_tty), line (cons ex_tty))))) = Some ([97, 99, 10], [])"
    by (simp add: c r e del: edits.simps)
  show ?thesis
    using console_line [OF i _ h t] by (auto simp: c r e ok_Done simp del: edits.simps)
qed

text \<open>
  C34: the characters that \<open>printint\<close> puts denote the number it was given, read as a signed number when
  asked to, also for the smallest one; they are at most eleven for decimal and eight for hexadecimal
  numbers, so the buffer of sixteen suffices.
\<close>

theorem printint_roundtrip:
  assumes "base = 10 \<or> base = 16"
  shows "read_int base (printint xx base sign) = (if sign then sint xx else uint xx) \<and>
    length (printint xx base sign) \<le> (if base = 10 then 11 else 9) \<and> (\<not> sign \<longrightarrow> length (printint xx 16 sign) \<le> 8)"
proof -
  have b: "2 \<le> base" "base \<le> 16" using assms by auto
  let ?n = "sign \<and> xx <s 0"
  let ?x = "if ?n then - xx else xx"
  note d = digit_loop_number [OF b, of "unat ?x"]
  have out: "printint xx base sign = (if ?n then [45] else []) @ rev (digit_loop (unat ?x) base)"
    by (simp add: printint_def Let_def)
  have plain: "read_int base (rev (digit_loop x base)) = int (number base (rev (digit_loop x base)))" if "45 \<notin> set (digit_loop x base)" for x
    using that digit_loop_not_Nil [of x base] by (auto simp: read_int_def split: list.split)
  have minus: "read_int base ([45] @ ds) = - int (number base ds)" for ds by (simp add: read_int_def)
  have "read_int base (printint xx base sign) = (if sign then sint xx else uint xx)"
  proof (cases ?n)
    case True
    then show ?thesis using d neg_value [of xx] unfolding out by (simp only: if_P minus)
  next
    case False
    then have "read_int base (printint xx base sign) = int (unat xx)"
      using d plain [of "unat xx"] unfolding out by (simp only: if_False append_Nil simp_thms)
    then show ?thesis using False nonneg_value [of xx] by auto
  qed
  moreover have "length (digit_loop x base) \<le> (if base = 10 then 10 else 8)" if "x < 4294967296" for x
    using assms length_digit_loop [of base x 9] length_digit_loop [of base x 7] that by auto
  then have "length (printint xx base sign) \<le> (if base = 10 then 11 else 9)"
    using unat_lt32 [of ?x] unfolding out by (fastforce split: if_splits)
  moreover have "length (printint xx 16 False) \<le> 8"
    using length_digit_loop [of 16 "unat xx" 7] unat_lt32 [of xx] by (simp add: printint_def)
  ultimately show ?thesis by simp
qed

theorem printint_roundtrip_witness:
  "read_int 10 (printint 0x80000000 10 True) = -2147483648 \<and> printint (- 42) 10 True = [45, 52, 50] \<and>
   read_int 16 (printint 0xBEEF 16 False) = 0xBEEF"
proof -
  have "printint (- 42) 10 True = [45, 52, 50]" by code_simp
  then show ?thesis using printint_roundtrip [of 10 "0x80000000" True] printint_roundtrip [of 16 "0xBEEF" False] by simp
qed

text \<open>
  C35: formatted output stays on the screen. When no process holds the console, \<open>cprintf\<close> returns, with
  the lock free again, has sent exactly the expanded format to the serial port if there is one, has
  the cursor on one of the 24 rows, and has changed no cell of the video memory beyond them.
\<close>

theorem cprintf_on_screen:
  assumes "format fmt args = Some out" and "screen_ok (cons s)" and "cons_lock (cons s) = Unlocked" and "cli_calm (pcpu (ps s))"
  shows "ok (cprintf fmt args) s (\<lambda>_ s'. screen_ok (cons s') \<and> cons_lock (cons s') = Unlocked \<and> ps s' = ps s \<and>
     uart_out (cons s') = uart_out (cons s) @ (if uart_on (cons s) then out else []) \<and>
     (\<forall>k \<ge> 24 * 80. crt (cons s') k = crt (cons s) k))"
proof (cases "cons_locking (cons s)")
  case False
  obtain u c where c: "foreach out (\<lambda>c. consop (consputc (ucast c))) s = Done u (s\<lparr>cons := c\<rparr>)" "screen_ok c" "only_shown out (cons s) c"
    using put_all_ok [OF assms(2)] by (auto simp: ok_Done)
  then show ?thesis
    using False assms(1,3) by (auto simp: ok_def cprintf_def bnd_def gets_def seqk_def whenk_def ret_def only_shown_def)
next
  case True
  let ?s = "s\<lparr>ps := (ps s)\<lparr>pcpu := pushed (pcpu (ps s))\<rparr>, cons := (cons s)\<lparr>cons_lock := Mine\<rparr>\<rparr>"
  have sc: "screen_ok (cons ?s)" using assms(2) by (simp add: screen_ok_def)
  obtain u c where c: "foreach out (\<lambda>c. consop (consputc (ucast c))) ?s = Done u (?s\<lparr>cons := c\<rparr>)" "screen_ok c" "only_shown out (cons ?s) c"
    using put_all_ok [OF sc] by (auto simp: ok_Done)
  have lk: "cons_lock c = Mine" using input_shown(8) [OF c(3)] by simp
  have "unlock_cons (?s\<lparr>cons := c\<rparr>) = Done () (s\<lparr>cons := c\<lparr>cons_lock := Unlocked\<rparr>\<rparr>)"
    using lk assms(4) by (subst unlock_cons_eq [where c = "pcpu (ps s)"]) simp_all
  then have "cprintf fmt args s = Done () (s\<lparr>cons := c\<lparr>cons_lock := Unlocked\<rparr>\<rparr>)"
    using True assms(1) c(1) by (simp add: cprintf_def bnd_def gets_def seqk_def whenk_def lock_cons_eq [OF assms(3)])
  then show ?thesis using c(2,3) by (auto simp: ok_def screen_ok_def only_shown_def)
qed

theorem cprintf_on_screen_witness:
  "ok (cprintf [112, 105, 100, 32, 37, 100, 10] [Num 42]) (ex_fs\<lparr>cons := ex_cons\<lparr>uart_on := True, crt_pos := 1919\<rparr>\<rparr>)
     (\<lambda>_ s'. uart_out (cons s') = [112, 105, 100, 32, 52, 50, 10] \<and> screen_ok (cons s'))"
proof -
  have f: "format [112, 105, 100, 32, 37, 100, 10] [Num 42] = Some [112, 105, 100, 32, 52, 50, 10]" by code_simp
  let ?s = "ex_fs\<lparr>cons := ex_cons\<lparr>uart_on := True, crt_pos := 1919\<rparr>\<rparr>"
  have "screen_ok (cons ?s)" "cons_lock (cons ?s) = Unlocked" "cli_calm (pcpu (ps ?s))"
    using ex_calm by (simp_all add: screen_ok_def ex_cons_def ex_fs_def calm_def)
  from cprintf_on_screen [OF f this] show ?thesis by (rule ok_mono) (simp add: ex_cons_def)
qed

end
