(* ===== verification/SysProps.thy ===== *)
theory SysProps
  imports Sysfile Pipe Example
begin

text \<open>
  Properties of system-call arguments and of the table of open files (\<^verbatim>\<open>kernel/syscall.c\<close>, \<^verbatim>\<open>kernel/sysfile.c\<close>,
  \<^verbatim>\<open>kernel/file.c\<close>).
\<close>

section \<open>Checked arguments\<close>

text \<open>All memory below the size of the running process is there.\<close>

definition whole :: "proc \<Rightarrow> psys \<Rightarrow> bool" where
  "whole p s \<longleftrightarrow> unat (p_sz p) \<le> unat SHAREDBASE \<and> (\<forall>v. unat v < unat (p_sz p) \<longrightarrow> can_load s v)"

lemma whole_at: "whole p s \<Longrightarrow> unat a + k < unat (p_sz p) \<Longrightarrow> can_load s (a + of_nat k) \<and> unat (a + of_nat k) = unat a + k"
proof -
  assume w: "whole p s" and k: "unat a + k < unat (p_sz p)"
  have "unat (of_nat k :: uint) = k" using k unat_lt32 [of "p_sz p"] by (intro unat_of_nat32) linarith
  then have "unat (a + of_nat k) = unat a + k" using k unat_lt32 [of "p_sz p"] by (subst unat_add32) simp_all
  then show ?thesis using w k by (simp add: whole_def)
qed

lemma fetchint_ok:
  assumes "running i p s" "whole p s"
  shows "\<exists>r. fetchint a s = Done r s \<and> (r \<noteq> None \<longleftrightarrow> unat a + 4 \<le> unat (p_sz p))"
proof (cases "a \<ge> p_sz p \<or> a + 4 > p_sz p")
  case True
  have "\<not> unat a + 4 \<le> unat (p_sz p)"
  proof
    assume le: "unat a + 4 \<le> unat (p_sz p)"
    then have "unat (a + 4) = unat a + 4" using unat_lt32 [of "p_sz p"] by (subst unat_add32) simp_all
    then show False using True le by (auto simp: word_le_nat_alt word_less_nat_alt)
  qed
  then show ?thesis using True assms(1) by (simp add: fetchint_def bnd_def cur_running ret_def)
next
  case False
  have b: "unat a < unat (p_sz p)" "unat (p_sz p) \<le> 0x70000000 \<or> unat (p_sz p) \<le> unat SHAREDBASE"
    using False assms(2) by (simp_all add: word_le_nat_alt whole_def)
  have "unat (a + 4) = unat a + 4"
    using b assms(2) by (subst unat_add32) (simp_all add: whole_def SHAREDBASE_def)
  then have le: "unat a + 4 \<le> unat (p_sz p)" using False by (simp add: word_less_nat_alt)
  have l: "can_load s (a + of_nat k)" if "k < 4" for k using whole_at [OF assms(2), of a k] le that by simp
  have "\<exists>v. uload32 a s = Done v s"
    using l [of 0] l [of 1] l [of 2] l [of 3] by (simp add: uload32_def bnd_def uload8_eq ret_def)
  then show ?thesis using False assms(1) le by (auto simp: fetchint_def bnd_def cur_running ret_def)
qed

lemma fetchstr_loop_ok:
  assumes "whole p s" "unat a + n = unat (p_sz p)"
  shows "\<exists>r. fetchstr_loop n a len s = Done r s \<and> (case r of
      Some l \<Rightarrow> len \<le> l \<and> unat a + (l - len) < unat (p_sz p) \<and> ubyte s (a + of_nat (l - len)) = 0 \<and>
        (\<forall>k < l - len. ubyte s (a + of_nat k) \<noteq> 0)
    | None \<Rightarrow> \<forall>k < n. ubyte s (a + of_nat k) \<noteq> 0)"
  using assms(2)
proof (induction n arbitrary: a len)
  case 0
  then show ?case by (simp add: ret_def)
next
  case (Suc n)
  have l: "can_load s a" using whole_at [OF assms(1), of a 0] Suc.prems by simp
  show ?case
  proof (cases "ubyte s a = 0")
    case True
    then show ?thesis using l Suc.prems by (simp add: bnd_def uload8_eq ret_def)
  next
    case False
    have a1: "unat (a + 1) = unat a + 1"
      using Suc.prems unat_lt32 [of "p_sz p"] by (subst unat_add32) simp_all
    have shift: "a + 1 + of_nat k = a + of_nat (Suc k)" for k by (simp add: add.assoc)
    obtain r where r: "fetchstr_loop n (a + 1) (Suc len) s = Done r s" "case r of
      Some l \<Rightarrow> Suc len \<le> l \<and> unat (a + 1) + (l - Suc len) < unat (p_sz p) \<and> ubyte s (a + 1 + of_nat (l - Suc len)) = 0 \<and>
        (\<forall>k < l - Suc len. ubyte s (a + 1 + of_nat k) \<noteq> 0)
    | None \<Rightarrow> \<forall>k < n. ubyte s (a + 1 + of_nat k) \<noteq> 0"
      using Suc.IH [of "a + 1" "Suc len"] Suc.prems a1 by auto
    have step: "(\<forall>k < Suc m. ubyte s (a + of_nat k) \<noteq> 0) \<longleftrightarrow> (\<forall>k < m. ubyte s (a + of_nat (Suc k)) \<noteq> 0)" for m
      using False by (auto simp: less_Suc_eq_0_disj simp del: of_nat_Suc)
    have "case r of
      Some l \<Rightarrow> len \<le> l \<and> unat a + (l - len) < unat (p_sz p) \<and> ubyte s (a + of_nat (l - len)) = 0 \<and>
        (\<forall>k < l - len. ubyte s (a + of_nat k) \<noteq> 0)
    | None \<Rightarrow> \<forall>k < Suc n. ubyte s (a + of_nat k) \<noteq> 0"
    proof (cases r)
      case None
      then show ?thesis using r(2) step [of n] by (simp add: shift del: of_nat_Suc)
    next
      case (Some l)
      then have "Suc len \<le> l" using r(2) by simp
      then obtain m where m: "l = Suc len + m" using le_iff_add by blast
      then have d: "l - len = Suc m" "l - Suc len = m" by simp_all
      show ?thesis using Some r(2) a1 step [of m] unfolding m d(1) [unfolded m] d(2) [unfolded m] by (simp add: shift d [unfolded m] del: of_nat_Suc)
    qed
    then show ?thesis using False l r(1) by (simp add: bnd_def uload8_eq)
  qed
qed

lemma argint_ok:
  assumes "running i p s" "whole p s"
  shows "\<exists>r. argint n s = Done r s"
  using fetchint_ok [OF assms, of "tf_esp (p_tf p) + 4 + 4 * of_nat n"]
  by (auto simp: argint_def bnd_def cur_running [OF assms(1)])

text \<open>
  C36: the kernel's checks of system-call arguments are exact. For a process whose memory below its size is
  there, an integer is fetched exactly when its four bytes lie below the size; a pointer is accepted only if the
  range of bytes it stands for lies below the size, whatever wraps around; a string is accepted exactly
  when it starts below the size and has its terminator there, and its length is the place of the first
  one. None of the checks changes the state or faults. As the size is at most the start of the shared area, no call
  accepts memory of that area.
\<close>

theorem argument_checks:
  assumes "running i p s" and "whole p s" and "sz < 2147483648"
  shows "ok (fetchint a) s (\<lambda>r s'. s' = s \<and> (r \<noteq> None \<longleftrightarrow> unat a + 4 \<le> unat (p_sz p))) \<and>
    ok (argptr n sz) s (\<lambda>r s'. s' = s \<and> (\<forall>v. r = Some v \<longrightarrow> 0 \<le> sz \<and> unat v + nat sz \<le> unat (p_sz p) \<and> unat v < unat SHAREDBASE)) \<and>
    ok (fetchstr a) s (\<lambda>r s'. s' = s \<and> (case r of
       Some len \<Rightarrow> unat a + len < unat (p_sz p) \<and> ubyte s (a + of_nat len) = 0 \<and> (\<forall>k < len. ubyte s (a + of_nat k) \<noteq> 0)
     | None \<Rightarrow> \<forall>k. unat a + k < unat (p_sz p) \<longrightarrow> ubyte s (a + of_nat k) \<noteq> 0))"
proof (intro conjI)
  show "ok (fetchint a) s (\<lambda>r s'. s' = s \<and> (r \<noteq> None \<longleftrightarrow> unat a + 4 \<le> unat (p_sz p)))"
    using fetchint_ok [OF assms(1,2), of a] by (auto simp: ok_Done)
  obtain r where r: "argint n s = Done r s" using argint_ok [OF assms(1,2)] by blast
  have sb: "unat (p_sz p) \<le> unat SHAREDBASE" using assms(2) by (simp add: whole_def)
  have "0 \<le> sz \<and> unat v + nat sz \<le> unat (p_sz p) \<and> unat v < unat SHAREDBASE"
    if "\<not> (sz < 0 \<or> v \<ge> p_sz p \<or> v + word_of_int sz > p_sz p)" for v
  proof -
    have lt: "unat v < unat (p_sz p)" using that by (simp add: word_le_nat_alt)
    have w: "unat (word_of_int sz :: uint) = nat sz"
      using that assms(3) by (simp add: unat_eq_nat_uint uint_word_of_int take_bit_eq_mod)
    have "unat (v + word_of_int sz) = unat v + nat sz"
      using lt sb assms(3) by (subst unat_add32) (simp_all add: w SHAREDBASE_def)
    then show ?thesis using that lt sb by (simp add: word_less_nat_alt)
  qed
  then show "ok (argptr n sz) s (\<lambda>r s'. s' = s \<and> (\<forall>v. r = Some v \<longrightarrow> 0 \<le> sz \<and> unat v + nat sz \<le> unat (p_sz p) \<and> unat v < unat SHAREDBASE))"
    by (cases r) (auto simp: ok_def argptr_def bnd_def r ret_def cur_running [OF assms(1)])
  show "ok (fetchstr a) s (\<lambda>r s'. s' = s \<and> (case r of
       Some len \<Rightarrow> unat a + len < unat (p_sz p) \<and> ubyte s (a + of_nat len) = 0 \<and> (\<forall>k < len. ubyte s (a + of_nat k) \<noteq> 0)
     | None \<Rightarrow> \<forall>k. unat a + k < unat (p_sz p) \<longrightarrow> ubyte s (a + of_nat k) \<noteq> 0))"
  proof (cases "a \<ge> p_sz p")
    case True
    then show ?thesis using assms(1) by (simp add: ok_def fetchstr_def bnd_def cur_running ret_def word_le_nat_alt)
  next
    case False
    then have lt: "unat a < unat (p_sz p)" by (simp add: word_le_nat_alt)
    then have "unat a + (unat (p_sz p) - unat a) = unat (p_sz p)" by simp
    from fetchstr_loop_ok [OF assms(2) this, of 0] False assms(1) show ?thesis
      by (auto simp: ok_def fetchstr_def bnd_def cur_running less_diff_conv add.commute split: option.splits)
  qed
qed

theorem argument_checks_witness:
  "ok (fetchint 0x2FFC) ex_sys (\<lambda>r _. r \<noteq> None) \<and> ok (fetchint 0x2FFD) ex_sys (\<lambda>r _. r = None)"
proof -
  have w: "whole ex_proc ex_sys"
  proof -
    have "can_load ex_sys v" if v: "unat v < 0x3000" for v
    proof -
      have "unat v div 4096 \<in> {0, 1, 2}" using v by auto
      then have "unat (PGROUNDDOWN v) \<in> {0, 0x1000, 0x2000}" by (auto simp: unat_PGROUNDDOWN)
      then have "PGROUNDDOWN v \<in> {0, 0x1000, 0x2000}" by (auto simp: word_unat_eq_iff)
      then show ?thesis using ex_present [of v] by (auto simp: can_load_def ex_sys_def ex_km_def SHAREDBASE_def)
    qed
    then show ?thesis by (simp add: whole_def ex_proc_def SHAREDBASE_def)
  qed
  note c = argument_checks [OF ex_running w, of 4]
  have sz: "p_sz ex_proc = 0x3000" by (simp add: ex_proc_def)
  show ?thesis
    using c [of "0x2FFC" 0] c [of "0x2FFD" 0] by (auto simp: ok_Done sz)
qed

end
