(* ===== verification/Frame.thy ===== *)
theory Frame
  imports Log
begin

text \<open>
  What an operation leaves alone: \<open>keeps f m\<close> says that \<open>m\<close>, whenever it returns, has not changed the part \<open>f\<close> of
  the state. The rules follow the structure of a computation; the collection \<open>keeps\<close> has one rule per
  construct and per operation.
\<close>

named_theorems keeps \<open>operations that leave a part of the state alone\<close>

definition keeps :: "('s \<Rightarrow> 'v) \<Rightarrow> ('s, 'a) kop \<Rightarrow> bool" where
  "keeps f m \<longleftrightarrow> (\<forall>s x s'. m s = Done x s' \<longrightarrow> f s' = f s)"

lemma keepsD: "keeps f m \<Longrightarrow> m s = Done x s' \<Longrightarrow> f s' = f s"
  by (simp add: keeps_def)

lemma keeps_ret [keeps]: "keeps f (ret x)"
  by (simp add: keeps_def ret_def)

lemma keeps_halt [keeps]: "keeps f (halt e)"
  by (simp add: keeps_def halt_def)

lemma keeps_panic [keeps]: "keeps f (panic msg)"
  by (simp add: keeps_def panic_def halt_def)

lemma keeps_gets [keeps]: "keeps f (gets g)"
  by (simp add: keeps_def gets_def)

lemma keeps_bnd [keeps]: "keeps f m \<Longrightarrow> (\<And>x. keeps f (k x)) \<Longrightarrow> keeps f (bnd m k)"
  by (auto simp: keeps_def bnd_def split: res.splits)

lemma keeps_seqk [keeps]: "keeps f m \<Longrightarrow> keeps f k \<Longrightarrow> keeps f (seqk m k)"
  by (simp add: seqk_def keeps_bnd)

lemma keeps_whenk [keeps]: "keeps f m \<Longrightarrow> keeps f (whenk b m)"
  by (simp add: whenk_def keeps_ret)

lemma keeps_if [keeps]: "keeps f m \<Longrightarrow> keeps f k \<Longrightarrow> keeps f (if b then m else k)"
  by simp

lemma keeps_case_option [keeps]: "keeps f m \<Longrightarrow> (\<And>x. keeps f (k x)) \<Longrightarrow> keeps f (case r of None \<Rightarrow> m | Some x \<Rightarrow> k x)"
  by (cases r) simp_all

lemma keeps_case_prod [keeps]: "(\<And>x y. keeps f (k x y)) \<Longrightarrow> keeps f (case r of (x, y) \<Rightarrow> k x y)"
  by (cases r) simp

lemma keeps_Let [keeps]: "(\<And>x. keeps f (k x)) \<Longrightarrow> keeps f (Let v k)"
  by (simp add: Let_def)

lemma keeps_foreach [keeps]: "(\<And>x. keeps f (k x)) \<Longrightarrow> keeps f (foreach xs k)"
  by (induction xs) (simp_all add: keeps_ret keeps_seqk)

lemma keeps_upd: "(\<And>s. f (g s) = f s) \<Longrightarrow> keeps f (upd g)"
  by (simp add: keeps_def upd_def)

lemma keeps_acquire: "(\<And>l s. f (put l s) = f s) \<Longrightarrow> keeps f (acquire get put)"
  by (auto simp: keeps_def acquire_def split: lockview.splits)

lemma keeps_release: "(\<And>l s. f (put l s) = f s) \<Longrightarrow> keeps f (release get put)"
  by (auto simp: keeps_def release_def split: if_splits)

text \<open>A part that the component of a \<open>zoom\<close> does not reach, and one that lies inside it.\<close>

lemma keeps_zoom_out: "(\<And>x s. f (put x s) = f s) \<Longrightarrow> keeps f (zoom get put m)"
  by (auto simp: keeps_def zoom_def split: res.splits)

lemma keeps_zoom_in: "keeps g m \<Longrightarrow> (\<And>x s. g x = g (get s) \<Longrightarrow> f (put x s) = f s) \<Longrightarrow> keeps f (zoom get put m)"
  by (auto simp: keeps_def zoom_def split: res.splits)

section \<open>The log beside the cache\<close>

text \<open>A part of the state that does not depend on the processes, the buffers and the disk.\<close>

definition beside_cache :: "(fsys \<Rightarrow> 'v) \<Rightarrow> bool" where
  "beside_cache f \<longleftrightarrow> (\<forall>s p. f (s\<lparr>ps := p\<rparr>) = f s) \<and> (\<forall>s b. f (s\<lparr>bufs := b\<rparr>) = f s) \<and> (\<forall>s l. f (s\<lparr>lru := l\<rparr>) = f s) \<and>
     (\<forall>s l. f (s\<lparr>bcache_lock := l\<rparr>) = f s) \<and> (\<forall>s d w. f (s\<lparr>disk := d, dwrites := w\<rparr>) = f s)"

lemma besideD:
  assumes "beside_cache f"
  shows "f (s\<lparr>ps := p\<rparr>) = f s" "f (s\<lparr>bufs := b\<rparr>) = f s" "f (s\<lparr>lru := l\<rparr>) = f s" "f (s\<lparr>bcache_lock := k\<rparr>) = f s"
    "f (s\<lparr>disk := d, dwrites := w\<rparr>) = f s"
  using assms unfolding beside_cache_def by blast+

lemma beside_psop [keeps]: "beside_cache f \<Longrightarrow> keeps f (psop m)"
  unfolding psop_def by (rule keeps_zoom_out) (rule besideD)

lemma beside_upd_buf [keeps]: "beside_cache f \<Longrightarrow> keeps f (upd_buf i g)"
  unfolding upd_buf_def set_buf_def by (rule keeps_upd) (rule besideD)

lemma keeps_get_buf [keeps]: "keeps f (get_buf i)"
  unfolding get_buf_def by (intro keeps)

lemma keeps_f_acquire: "beside_cache f \<Longrightarrow> (\<And>l s. f (put l s) = f s) \<Longrightarrow> keeps f (f_acquire get put)"
  unfolding f_acquire_def by (intro keeps keeps_acquire)

lemma keeps_f_release: "beside_cache f \<Longrightarrow> (\<And>l s. f (put l s) = f s) \<Longrightarrow> keeps f (f_release get put)"
  unfolding f_release_def by (intro keeps keeps_release)

lemma keeps_sleep: "beside_cache f \<Longrightarrow> (\<And>l s. f (put l s) = f s) \<Longrightarrow> keeps f (sleep ch get put)"
  unfolding sleep_def by (intro keeps keeps_f_release)

lemma beside_bcache [keeps]: "beside_cache f \<Longrightarrow> keeps f lock_bcache" "beside_cache f \<Longrightarrow> keeps f unlock_bcache"
  unfolding lock_bcache_def unlock_bcache_def
  by (rule keeps_f_acquire keeps_f_release, assumption, rule besideD, assumption)+

lemma beside_sleeplocks:
  assumes "beside_cache f" "\<And>l s. f (put l s) = f s"
  shows "keeps f (acquiresleep ch get put)" "keeps f (releasesleep ch get put)" "keeps f (holdingsleep get put)"
  unfolding acquiresleep_def releasesleep_def holdingsleep_def sl_acquire_def sl_release_def
  by (intro keeps keeps_f_acquire keeps_f_release keeps_sleep keeps_upd assms)+

lemma beside_buf_locks [keeps]:
  assumes "beside_cache f"
  shows "keeps f (buf_acquiresleep i)" "keeps f (buf_releasesleep i)" "keeps f (buf_holdingsleep i)"
proof -
  have p: "\<And>l s. f (set_buf_lock i l s) = f s" unfolding set_buf_lock_def set_buf_def by (rule besideD [OF assms])
  show "keeps f (buf_acquiresleep i)" unfolding buf_acquiresleep_def by (rule beside_sleeplocks(1) [where put = "set_buf_lock i", OF assms p])
  show "keeps f (buf_releasesleep i)" unfolding buf_releasesleep_def by (rule beside_sleeplocks(2) [where put = "set_buf_lock i", OF assms p])
  show "keeps f (buf_holdingsleep i)" unfolding buf_holdingsleep_def by (rule beside_sleeplocks(3) [where put = "set_buf_lock i", OF assms p])
qed

lemma beside_iderw [keeps]:
  assumes "beside_cache f"
  shows "keeps f (iderw i)"
proof -
  have w: "f (write_disk b bs s) = f s" for b bs s unfolding write_disk_def by (rule besideD [OF assms])
  show ?thesis unfolding iderw_def by (intro keeps keeps_upd assms w)
qed

lemma beside_bio [keeps]:
  assumes "beside_cache f"
  shows "keeps f (bget dev b)" "keeps f (bread dev b)" "keeps f (bwrite i)" "keeps f (brelse i)" "keeps f (bdata i)" "keeps f (set_bdata i d)"
proof -
  note k = keeps keeps_upd assms
  show g: "keeps f (bget dev b)" unfolding bget_def by (intro k)
  show "keeps f (bread dev b)" unfolding bread_def by (intro k g)
  show "keeps f (bwrite i)" unfolding bwrite_def by (intro k)
  show "keeps f (brelse i)" unfolding brelse_def by (intro k besideD)
  show "keeps f (bdata i)" unfolding bdata_def by (intro k)
  show "keeps f (set_bdata i d)" unfolding set_bdata_def by (intro k)
qed

end
