(* ===== verification/LogRes.thy ===== *)
theory LogRes
  imports Frame FsExample
begin

text \<open>
  Reservations in the log (\<open>begin_op\<close>, \<open>log_write\<close> and \<open>end_op\<close> of \<^verbatim>\<open>kernel/log.c\<close>): any number of operations in
  progress, each of which may log up to \<open>MAXOPBLOCKS\<close> new blocks, interleaved in any order.
\<close>

section \<open>What the operations do to the log\<close>

text \<open>The log without its lock.\<close>

definition open_log :: "logst \<Rightarrow> logst" where
  "open_log l = l\<lparr>log_lock := Unlocked\<rparr>"

lemma beside_log: "beside_cache log"
  by (simp add: beside_cache_def)

lemma safe_keeps: "keeps f m \<Longrightarrow> (\<And>x s'. f s' = f s \<Longrightarrow> Q x s') \<Longrightarrow> safe m s Q"
  by (rule safeI) (auto dest: keepsD)

lemma safe_lock_log [wp]: "safe lock_log s Q = (log_lock (log s) = Unlocked \<longrightarrow>
    Q () (s\<lparr>ps := (ps s)\<lparr>pcpu := pushed (pcpu (ps s))\<rparr>, log := (log s)\<lparr>log_lock := Mine\<rparr>\<rparr>))"
  by (simp add: safe_def lock_log_def f_acquire_eq Let_def split: lockview.split)

lemma safe_upd_log [wp]: "safe (upd_log f) s Q = Q () (s\<lparr>log := f (log s)\<rparr>)"
  by (simp add: upd_log_def wp)

lemma safe_unlock_log: "(\<And>p. Q () (s\<lparr>log := open_log (log s), ps := p\<rparr>)) \<Longrightarrow> safe unlock_log s Q"
  by (auto simp: unlock_log_def f_release_def wp psop_def open_log_def)

lemma commit_log: "safe commit s (\<lambda>_ s'. log s' = (log s)\<lparr>log_blocks := []\<rparr>)"
proof -
  have k: "keeps log write_log" "keeps log write_head" "keeps log install_trans"
    unfolding write_log_def log_block_def write_head_def install_trans_def install_block_def by (intro keeps beside_log)+
  have w: "safe (seqk (upd_log (\<lambda>l. l\<lparr>log_blocks := []\<rparr>)) write_head) s' (\<lambda>_ s''. log s'' = (log s')\<lparr>log_blocks := []\<rparr>)" for s'
    unfolding safe_seqk upd_log_def safe_upd by (rule safe_keeps [OF k(2)]) simp
  have "safe (seqk write_log (seqk write_head (seqk install_trans (seqk (upd_log (\<lambda>l. l\<lparr>log_blocks := []\<rparr>)) write_head)))) s
      (\<lambda>_ s'. log s' = (log s)\<lparr>log_blocks := []\<rparr>)"
    unfolding safe_seqk [of write_log] safe_seqk [of write_head] safe_seqk [of install_trans]
    by (intro safe_keeps [OF k(1)] safe_keeps [OF k(2)] safe_keeps [OF k(3)], rule safe_mono [OF w]) simp
  then show ?thesis by (simp add: commit_def wp)
qed

lemma begin_op_log:
  "safe begin_op s (\<lambda>_ s'. int (length (log_blocks (log s))) + (log_outstanding (log s) + 1) * int MAXOPBLOCKS \<le> int LOGSIZE \<and>
     \<not> log_committing (log s) \<and> open_log (log s') = open_log ((log s)\<lparr>log_outstanding := log_outstanding (log s) + 1\<rparr>))"
proof -
  have sl: "safe sleep_log t Q" for t Q
    unfolding sleep_log_def sleep_def
    by (auto simp: safe_def bnd_def gets_def panic_def halt_def seqk_def split: option.splits res.splits)
  show ?thesis
    unfolding begin_op_def
    by (auto simp: wp sl upd_log_def open_log_def intro!: safe_unlock_log)
qed

lemma log_write_log:
  "safe (log_write i) s (\<lambda>_ s'. length (log_blocks (log s)) < LOGSIZE \<and> 1 \<le> log_outstanding (log s) \<and>
     open_log (log s') = open_log ((log s)\<lparr>log_blocks := absorb (b_blockno (bufs s ! i)) (log_blocks (log s))\<rparr>))"
  unfolding log_write_def
  by (auto simp: wp upd_log_def upd_buf_def get_buf_def set_buf_def open_log_def intro!: safe_unlock_log)

lemma end_op_log:
  "safe end_op s (\<lambda>_ s'. \<not> log_committing (log s) \<and> open_log (log s') = open_log ((log s)\<lparr>log_outstanding := log_outstanding (log s) - 1,
     log_blocks := (if log_outstanding (log s) = 1 then [] else log_blocks (log s))\<rparr>))"
proof -
  have wk: "safe (psop (wakeup ch)) t (\<lambda>_ t'. log t' = log t)" for ch t
    by (rule safe_keeps [OF beside_psop [OF beside_log]]) simp
  have fin: "safe (seqk (psop (wakeup ChanLog)) unlock_log) t (\<lambda>_ t'. open_log (log t') = open_log (log t))" for t
    unfolding safe_seqk by (rule safe_mono [OF wk]) (rule safe_unlock_log, simp add: open_log_def)
  have com: "safe (seqk unlock_log (seqk commit (seqk lock_log (seqk (upd_log (\<lambda>l. l\<lparr>log_committing := False\<rparr>))
      (seqk (psop (wakeup ChanLog)) unlock_log))))) t
      (\<lambda>_ t'. open_log (log t') = open_log ((log t)\<lparr>log_blocks := [], log_committing := False\<rparr>))" for t
  proof -
    have A: "safe (seqk lock_log (seqk (upd_log (\<lambda>l. l\<lparr>log_committing := False\<rparr>)) (seqk (psop (wakeup ChanLog)) unlock_log))) u
        (\<lambda>_ t'. open_log (log t') = open_log ((log u)\<lparr>log_committing := False\<rparr>))" for u
      unfolding safe_seqk [of lock_log] safe_lock_log safe_seqk [of "upd_log _"] safe_upd_log
      by (intro impI, rule safe_mono [OF fin]) (simp add: open_log_def)
    have "safe (seqk commit (seqk lock_log (seqk (upd_log (\<lambda>l. l\<lparr>log_committing := False\<rparr>)) (seqk (psop (wakeup ChanLog)) unlock_log)))) u
        (\<lambda>_ t'. open_log (log t') = open_log ((log u)\<lparr>log_blocks := [], log_committing := False\<rparr>))" for u
      unfolding safe_seqk [of commit]
    proof (rule safe_mono [OF commit_log])
      fix x :: unit and s' :: fsys assume e: "log s' = (log u)\<lparr>log_blocks := []\<rparr>"
      show "safe (seqk lock_log (seqk (upd_log (\<lambda>l. l\<lparr>log_committing := False\<rparr>)) (seqk (psop (wakeup ChanLog)) unlock_log))) s'
          (\<lambda>_ t'. open_log (log t') = open_log ((log u)\<lparr>log_blocks := [], log_committing := False\<rparr>))"
        using A [of s'] unfolding e .
    qed
    then show ?thesis
      unfolding safe_seqk [of unlock_log] by (intro safe_unlock_log, rule safe_mono) (auto simp: open_log_def)
  qed
  show ?thesis
    unfolding end_op_def
    by (auto simp: safe_seqk [of lock_log] safe_lock_log safe_seqk [of "upd_log _"] safe_upd_log safe_bnd safe_gets safe_panic
        open_log_def intro!: safe_mono [OF com] safe_mono [OF fin])
qed
section \<open>Operations in progress\<close>

text \<open>
  The file system with the operations between their \<open>begin_op\<close> and \<open>end_op\<close>, each with the number of new
  blocks it may still log. An operation is admitted by \<open>begin_op\<close> with \<open>MAXOPBLOCKS\<close> blocks; a block that is
  in the log already costs nothing. What other code does leaves the log alone, up to its lock.
\<close>

record logging =
  lg_fs :: fsys
  lg_left :: "nat \<rightharpoonup> nat"

inductive log_step :: "logging \<Rightarrow> logging \<Rightarrow> bool" where
  starts: "lg_left z op = None \<Longrightarrow> begin_op (lg_fs z) = Done () s' \<Longrightarrow>
     log_step z \<lparr>lg_fs = s', lg_left = (lg_left z)(op \<mapsto> MAXOPBLOCKS)\<rparr>"
| logs: "lg_left z op = Some n \<Longrightarrow> b_blockno (bufs (lg_fs z) ! i) \<notin> set (log_blocks (log (lg_fs z))) \<Longrightarrow> 0 < n \<Longrightarrow>
     log_write i (lg_fs z) = Done () s' \<Longrightarrow> log_step z \<lparr>lg_fs = s', lg_left = (lg_left z)(op \<mapsto> n - 1)\<rparr>"
| absorbs: "lg_left z op = Some n \<Longrightarrow> b_blockno (bufs (lg_fs z) ! i) \<in> set (log_blocks (log (lg_fs z))) \<Longrightarrow>
     log_write i (lg_fs z) = Done () s' \<Longrightarrow> log_step z (z\<lparr>lg_fs := s'\<rparr>)"
| ends: "lg_left z op = Some n \<Longrightarrow> end_op (lg_fs z) = Done () s' \<Longrightarrow>
     log_step z \<lparr>lg_fs = s', lg_left = (lg_left z)(op := None)\<rparr>"
| elsewhere: "open_log (log s') = open_log (log (lg_fs z)) \<Longrightarrow> log_step z (z\<lparr>lg_fs := s'\<rparr>)"

definition unused :: "(nat \<rightharpoonup> nat) \<Rightarrow> nat" where
  "unused l = (\<Sum>op \<in> dom l. the (l op))"

definition reserved :: "logst \<Rightarrow> (nat \<rightharpoonup> nat) \<Rightarrow> bool" where
  "reserved l r \<longleftrightarrow> finite (dom r) \<and> log_outstanding l = int (card (dom r)) \<and> \<not> log_committing l \<and>
     (\<forall>op n. r op = Some n \<longrightarrow> n \<le> MAXOPBLOCKS) \<and> distinct (log_blocks l) \<and> length (log_blocks l) + unused r \<le> LOGSIZE"

definition log_inv :: "int \<Rightarrow> logging \<Rightarrow> bool" where
  "log_inv n z \<longleftrightarrow> reserved (log (lg_fs z)) (lg_left z) \<and> log_size (log (lg_fs z)) = n"

definition log_idle :: "int \<Rightarrow> logging \<Rightarrow> bool" where
  "log_idle n z \<longleftrightarrow> lg_left z = Map.empty \<and> log_outstanding (log (lg_fs z)) = 0 \<and> \<not> log_committing (log (lg_fs z)) \<and>
     log_blocks (log (lg_fs z)) = [] \<and> log_size (log (lg_fs z)) = n"

lemma reserved_open: "reserved (open_log l) r = reserved l r"
  by (simp add: reserved_def open_log_def)

lemma log_size_open: "log_size (open_log l) = log_size l"
  by (simp add: open_log_def)

lemma unused_set: "finite (dom r) \<Longrightarrow> unused (r(op \<mapsto> n)) = unused (r(op := None)) + n"
  by (simp add: unused_def sum.insert_remove)

lemma unused_drop: "finite (dom r) \<Longrightarrow> r op = Some n \<Longrightarrow> unused r = unused (r(op := None)) + n"
  using unused_set [of r op n] by (simp add: fun_upd_idem)

lemma unused_bound: "finite (dom r) \<Longrightarrow> (\<forall>op n. r op = Some n \<longrightarrow> n \<le> m) \<Longrightarrow> unused r \<le> card (dom r) * m"
  unfolding unused_def by (rule sum_bounded_above [where K = m, simplified]) auto

lemma reserved_start:
  assumes "reserved l r" and "r op = None" and "int (length (log_blocks l)) + (log_outstanding l + 1) * int MAXOPBLOCKS \<le> int LOGSIZE"
  shows "reserved (l\<lparr>log_outstanding := log_outstanding l + 1\<rparr>) (r(op \<mapsto> MAXOPBLOCKS))"
proof -
  have f: "finite (dom r)" and d: "op \<notin> dom r" and o: "log_outstanding l = int (card (dom r))" using assms by (auto simp: reserved_def)
  have "unused (r(op \<mapsto> MAXOPBLOCKS)) = unused r + MAXOPBLOCKS"
    using unused_set [OF f] assms(2) by (simp add: fun_upd_idem)
  moreover have "unused r \<le> card (dom r) * MAXOPBLOCKS"
    using unused_bound [OF f] assms(1) by (simp add: reserved_def)
  moreover have "length (log_blocks l) + (card (dom r) + 1) * MAXOPBLOCKS \<le> LOGSIZE"
    using assms(3) unfolding o by (simp add: algebra_simps flip: of_nat_le_iff [where ?'a = int])
  ultimately show ?thesis using assms(1) d f by (auto simp: reserved_def algebra_simps)
qed

lemma reserved_log:
  assumes "reserved l r" and "r op = Some n" and "b \<notin> set (log_blocks l)" and "0 < n"
  shows "reserved (l\<lparr>log_blocks := absorb b (log_blocks l)\<rparr>) (r(op \<mapsto> n - 1))"
proof -
  have f: "finite (dom r)" and d: "insert op (dom r) = dom r" using assms by (auto simp: reserved_def)
  have "unused r = unused (r(op \<mapsto> n - 1)) + 1"
    unfolding unused_set [OF f] unused_drop [OF f assms(2)] using assms(4) by simp
  moreover have "n \<le> MAXOPBLOCKS" using assms(1,2) by (simp add: reserved_def)
  ultimately show ?thesis using assms(1,3) d f by (auto simp: reserved_def absorb_def)
qed

lemma reserved_end:
  assumes "reserved l r" and "r op = Some n"
  shows "reserved (l\<lparr>log_outstanding := log_outstanding l - 1, log_blocks := (if log_outstanding l = 1 then [] else log_blocks l)\<rparr>)
     (r(op := None))"
proof -
  have f: "finite (dom r)" and d: "op \<in> dom r" using assms by (auto simp: reserved_def)
  have "unused (r(op := None)) \<le> unused r" using unused_drop [OF f assms(2)] by simp
  moreover have "int (card (dom r - {op})) = int (card (dom r)) - 1"
    using card.remove [OF f d] by simp
  ultimately show ?thesis using assms(1) f by (auto simp: reserved_def)
qed
lemma log_inv_opened: "open_log (log s') = open_log l \<Longrightarrow> reserved l r \<Longrightarrow> log_size l = n \<Longrightarrow>
    log_inv n \<lparr>lg_fs = s', lg_left = r\<rparr>"
  unfolding log_inv_def logging.simps by (metis reserved_open log_size_open)

lemma log_inv_step: "log_step z z' \<Longrightarrow> log_inv n z \<Longrightarrow> log_inv n z'"
proof (induction rule: log_step.induct)
  case (starts z op s')
  then show ?case
    using safeD [OF begin_op_log starts(2)] by (auto simp: log_inv_def [of _ z] intro!: log_inv_opened reserved_start)
next
  case (logs z op k i s')
  then show ?case
    using safeD [OF log_write_log logs(4)] by (auto simp: log_inv_def [of _ z] intro!: log_inv_opened reserved_log [simplified])
next
  case (absorbs z op k i s')
  then have "open_log (log s') = open_log (log (lg_fs z))"
    using safeD [OF log_write_log absorbs(3)] by (simp add: absorb_def)
  then show ?case using absorbs.prems log_inv_opened [of s' "log (lg_fs z)" "lg_left z" n] by (simp add: log_inv_def)
next
  case (ends z op k s')
  then show ?case
    using safeD [OF end_op_log ends(2)] by (auto simp: log_inv_def [of _ z] intro!: log_inv_opened reserved_end)
next
  case (elsewhere s' z)
  then show ?case using log_inv_opened [of s' "log (lg_fs z)" "lg_left z" n] by (simp add: log_inv_def)
qed

interpretation reservation: invariant_system "log_idle n" log_step "log_inv n" for n
proof
  show "log_idle n z \<Longrightarrow> log_inv n z" for z
    by (auto simp: log_idle_def log_inv_def reserved_def unused_def)
  show "log_inv n z \<Longrightarrow> log_step z z' \<Longrightarrow> log_inv n z'" for z z'
    by (rule log_inv_step)
qed

lemma unlock_log_returns: "log_lock (log t) = Mine \<Longrightarrow> pcpu (ps t) = pushed c \<Longrightarrow> cli_calm c \<Longrightarrow> \<exists>s'. unlock_log t = Done () s'"
  unfolding unlock_log_def by (subst f_release_eq [where c = c]) (simp_all add: cli_calm_depth popped_pushed Let_def)

lemma log_write_returns:
  assumes "log_lock (log s) = Unlocked" and "cli_calm (pcpu (ps s))" and "length (log_blocks (log s)) < LOGSIZE"
    and "int (length (log_blocks (log s))) < log_size (log s) - 1" and "1 \<le> log_outstanding (log s)" and "i < length (bufs s)"
  shows "\<exists>s'. log_write i s = Done () s'"
  using assms unlock_log_returns unfolding log_write_def lock_log_def f_acquire_eq
  by (simp add: bnd_def gets_def ret_def seqk_def Let_def get_buf_def upd_log_def upd_def upd_buf_def set_buf_def)

lemma begin_op_returns:
  assumes "log_lock (log s) = Unlocked" and "cli_calm (pcpu (ps s))" and "\<not> log_committing (log s)"
    and "int (length (log_blocks (log s))) + (log_outstanding (log s) + 1) * int MAXOPBLOCKS \<le> int LOGSIZE"
  shows "\<exists>s'. begin_op s = Done () s'"
  using assms unlock_log_returns unfolding begin_op_def lock_log_def f_acquire_eq
  by (simp add: bnd_def gets_def seqk_def Let_def upd_log_def upd_def)

section \<open>Properties\<close>

text \<open>Reachable states with a given number of blocks in the log, for a log of \<open>n\<close> blocks.\<close>

definition at_rest :: "uint \<Rightarrow> logging \<Rightarrow> fsys" where
  "at_rest b z = ex_fs\<lparr>log := open_log (log (lg_fs z)), bufs := [ex_buf\<lparr>b_blockno := b\<rparr>]\<rparr>"

definition filled :: "int \<Rightarrow> nat \<Rightarrow> (nat \<rightharpoonup> nat) \<Rightarrow> bool" where
  "filled n m r \<longleftrightarrow> (\<exists>z. reaches (log_idle n) log_step z \<and> length (log_blocks (log (lg_fs z))) = m \<and> lg_left z = r)"

lemma at_rest_simps:
  "log_lock (log (at_rest b z)) = Unlocked" "cli_calm (pcpu (ps (at_rest b z)))" "log (at_rest b z) = open_log (log (lg_fs z))"
  "bufs (at_rest b z) = [ex_buf\<lparr>b_blockno := b\<rparr>]"
  using ex_calm by (simp_all add: at_rest_def open_log_def calm_def ex_fs_def)

lemma reaches_at_rest: "reaches (log_idle n) log_step z \<Longrightarrow> reaches (log_idle n) log_step (z\<lparr>lg_fs := at_rest b z\<rparr>)"
  by (rule reaches_step, assumption, rule elsewhere) (simp add: at_rest_simps open_log_def)

lemma open_blocks: "log_blocks (open_log l) = log_blocks l"
  by (simp add: open_log_def)

lemma same_blocks: "open_log l = open_log l' \<Longrightarrow> log_blocks l = log_blocks l'"
  by (drule arg_cong [of _ _ log_blocks]) (simp add: open_blocks)

lemma filled_idle: "filled n 0 Map.empty"
proof -
  let ?z = "\<lparr>lg_fs = ex_fs\<lparr>log := ex_log\<lparr>log_outstanding := 0, log_blocks := [], log_size := n\<rparr>\<rparr>, lg_left = Map.empty\<rparr>"
  have "log_idle n ?z" by (simp add: log_idle_def ex_log_def)
  then show ?thesis unfolding filled_def by (intro exI [of _ ?z]) (simp add: reaches_init)
qed

lemma filled_start:
  assumes "filled n m r" and "r op = None" and "m + (card (dom r) + 1) * MAXOPBLOCKS \<le> LOGSIZE"
  shows "filled n m (r(op \<mapsto> MAXOPBLOCKS))"
proof -
  from assms(1) obtain z where z: "reaches (log_idle n) log_step z" "length (log_blocks (log (lg_fs z))) = m" "lg_left z = r"
    by (auto simp: filled_def)
  have inv: "log_inv n z" by (rule reservation.reachable_inv [OF z(1)])
  then have o: "log_outstanding (log (lg_fs z)) = int (card (dom r))" and c: "\<not> log_committing (log (lg_fs z))"
    by (simp_all add: log_inv_def reserved_def z(3))
  have "int m + (int (card (dom r)) + 1) * int MAXOPBLOCKS \<le> int LOGSIZE" using assms(3) by (simp add: algebra_simps flip: of_nat_le_iff [where ?'a = int])
  then obtain s' where s': "begin_op (at_rest 0 z) = Done () s'"
    using begin_op_returns [of "at_rest 0 z"] z(2) o c by (auto simp: at_rest_simps open_log_def)
  have "reaches (log_idle n) log_step \<lparr>lg_fs = s', lg_left = r(op \<mapsto> MAXOPBLOCKS)\<rparr>"
    using log_step.starts [of "z\<lparr>lg_fs := at_rest 0 z\<rparr>" op s'] s' assms(2) z(3) reaches_step [OF reaches_at_rest [OF z(1)]] by simp
  moreover have "log_blocks (log s') = log_blocks (log (lg_fs z))"
    using safeD [OF begin_op_log s'] by (auto simp: at_rest_simps open_blocks dest!: same_blocks)
  ultimately show ?thesis using z(2) unfolding filled_def by fastforce
qed

lemma filled_log:
  assumes "filled n m r" and "r op = Some k" and "0 < k" and "m < LOGSIZE" and "int m < n - 1"
  shows "filled n (Suc m) (r(op \<mapsto> k - 1))"
proof -
  from assms(1) obtain z where z: "reaches (log_idle n) log_step z" "length (log_blocks (log (lg_fs z))) = m" "lg_left z = r"
    by (auto simp: filled_def)
  let ?bs = "log_blocks (log (lg_fs z))"
  have "card (set ?bs) < CARD(uint)" using card_length [of ?bs] assms(4) by (simp add: z(2) card_word fs_consts)
  then obtain b where b: "b \<notin> set ?bs" by (metis UNIV_eq_I less_irrefl)
  have inv: "log_inv n z" by (rule reservation.reachable_inv [OF z(1)])
  have f: "finite (dom r)" and d: "op \<in> dom r" using inv assms(2) by (auto simp: log_inv_def reserved_def z(3))
  have "1 \<le> log_outstanding (log (lg_fs z))" using inv card.remove [OF f d] by (simp add: log_inv_def reserved_def z(3))
  moreover have "log_size (log (lg_fs z)) = n" using inv by (simp add: log_inv_def)
  ultimately obtain s' where s': "log_write 0 (at_rest b z) = Done () s'"
    using log_write_returns [of "at_rest b z" 0] z(2) assms(4,5) by (auto simp: at_rest_simps open_log_def)
  have "reaches (log_idle n) log_step \<lparr>lg_fs = s', lg_left = r(op \<mapsto> k - 1)\<rparr>"
    using log_step.logs [of "z\<lparr>lg_fs := at_rest b z\<rparr>" op k 0 s'] s' assms(2,3) z(3) b reaches_step [OF reaches_at_rest [OF z(1)]]
    by (simp add: at_rest_simps open_log_def)
  moreover have "log_blocks (log s') = ?bs @ [b]"
    using safeD [OF log_write_log s'] b by (auto simp: at_rest_simps absorb_def open_blocks dest!: same_blocks)
  ultimately show ?thesis using z(2) unfolding filled_def by fastforce
qed

lemma filled_logs:
  "filled n m r \<Longrightarrow> r op = Some k \<Longrightarrow> j \<le> k \<Longrightarrow> m + j \<le> LOGSIZE \<Longrightarrow> int (m + j) \<le> n - 1 \<Longrightarrow> filled n (m + j) (r(op \<mapsto> k - j))"
proof (induction j)
  case (Suc j)
  have "filled n (m + j) (r(op \<mapsto> k - j))" by (rule Suc.IH [OF Suc.prems(1,2)]) (use Suc.prems in auto)
  then have "filled n (Suc (m + j)) ((r(op \<mapsto> k - j))(op \<mapsto> k - j - 1))" by (rule filled_log) (use Suc.prems in auto)
  then show ?case by (simp only: fun_upd_upd add_Suc_right diff_diff_left Suc_eq_plus1 add.assoc)
qed (simp add: fun_upd_idem)

text \<open>
  The concrete situation: three operations have been admitted, and two of them have logged all their blocks.
\<close>

definition ex_left :: "nat \<rightharpoonup> nat" where
  "ex_left = [0 \<mapsto> 0, 1 \<mapsto> 0, 2 \<mapsto> 1]"

lemma filled_almost:
  assumes "int LOGSIZE \<le> n"
  shows "filled n 29 ex_left"
proof -
  have "filled n 0 [0 \<mapsto> 10]" using filled_start [OF filled_idle [of n], of 0] by (simp add: fs_consts)
  from filled_start [OF this, of 1] have "filled n 0 [0 \<mapsto> 10, 1 \<mapsto> 10]" by (simp add: fs_consts)
  from filled_start [OF this, of 2] have "filled n 0 [0 \<mapsto> 10, 1 \<mapsto> 10, 2 \<mapsto> 10]" by (simp add: fs_consts)
  from filled_logs [OF this, of 0 10 10] have "filled n 10 ([0 \<mapsto> 10, 1 \<mapsto> 10, 2 \<mapsto> 10](0 \<mapsto> 0))" using assms by (simp add: fs_consts)
  from filled_logs [OF this, of 1 10 10] have "filled n 20 ([0 \<mapsto> 10, 1 \<mapsto> 10, 2 \<mapsto> 10](0 \<mapsto> 0, 1 \<mapsto> 0))" using assms by (simp add: fs_consts)
  from filled_logs [OF this, of 2 10 9] have "filled n 29 ([0 \<mapsto> 10, 1 \<mapsto> 10, 2 \<mapsto> 10](0 \<mapsto> 0, 1 \<mapsto> 0, 2 \<mapsto> 1))" using assms by (simp add: fs_consts)
  moreover have "[0 \<mapsto> 10, 1 \<mapsto> 10, 2 \<mapsto> 10](0 \<mapsto> 0, 1 \<mapsto> 0, 2 \<mapsto> 1) = ex_left" by (auto simp: ex_left_def)
  ultimately show ?thesis by simp
qed


text \<open>
  C38: the log that \<^verbatim>\<open>mkfs\<close> makes is one block short. It has \<open>LOGSIZE\<close> blocks with the header, \<open>begin_op\<close> admits
  operations for \<open>LOGSIZE\<close> blocks, and \<open>log_write\<close> panics on the last one: three operations within their
  reservations reach the panic.
\<close>

theorem log_one_block_short:
  "\<exists>z op. reaches (log_idle (int LOGSIZE)) log_step z \<and> lg_left z op = Some 1 \<and>
     log_write 0 (lg_fs z) = Stop (Panic ''too big a transaction'')"
proof -
  have "filled (int LOGSIZE) 29 ex_left" by (rule filled_almost) simp
  then obtain z where z: "reaches (log_idle (int LOGSIZE)) log_step z" "length (log_blocks (log (lg_fs z))) = 29" "lg_left z = ex_left"
    by (auto simp: filled_def)
  have "log_size (log (lg_fs z)) = int LOGSIZE" using reservation.reachable_inv [OF z(1)] by (simp add: log_inv_def)
  then have "log_write 0 (lg_fs z) = Stop (Panic ''too big a transaction'')"
    by (simp add: log_write_def bnd_def gets_def panic_def halt_def z(2) fs_consts)
  then show ?thesis using z by (intro exI [of _ z] exI [of _ 2]) (simp add: ex_left_def)
qed

end
