(* ===== verification/Grep.thy ===== *)
theory Grep
  imports CString
begin

text \<open>
  The search program (\<^verbatim>\<open>user/grep.c\<close>): the matcher for patterns with the operators of its comment, against
  a declarative reading of patterns, and the loop that splits the input into lines. Strings are the
  lists of their bytes before the terminator, so that the null byte is the end of the list.
\<close>

section \<open>The matcher\<close>

text \<open>\<open>s[0]\<close> and \<open>s[1]\<close> of a terminated string.\<close>

definition at0 :: "uchar list \<Rightarrow> uchar" where
  "at0 s = (case s of [] \<Rightarrow> 0 | c # _ \<Rightarrow> c)"

definition at1 :: "uchar list \<Rightarrow> uchar" where
  "at1 s = (case s of _ # d # _ \<Rightarrow> d | _ \<Rightarrow> 0)"

text \<open>The byte 42 is \<open>*\<close>, 36 is \<open>$\<close>, 46 is \<open>.\<close>, 94 is \<open>^\<close> and 10 the end of a line.\<close>

function matchhere :: "uchar list \<Rightarrow> uchar list \<Rightarrow> bool"
  and matchstar :: "uchar \<Rightarrow> uchar list \<Rightarrow> uchar list \<Rightarrow> bool" where
  "matchhere re str =
     (if re = [] then True
      else if at1 re = 42 then matchstar (at0 re) (drop 2 re) str
      else if at0 re = 36 \<and> length re = 1 then str = []
      else if str \<noteq> [] \<and> (at0 re = 46 \<or> at0 re = at0 str) then matchhere (tl re) (tl str)
      else False)"
| "matchstar c re str =
     (if matchhere re str then True
      else if str \<noteq> [] \<and> (at0 str = c \<or> c = 46) then matchstar c re (tl str)
      else False)"
  by pat_completeness auto
termination
  by (relation "measure (\<lambda>a. case a of Inl (re, t) \<Rightarrow> 2 * (length re + length t) | Inr (c, re, t) \<Rightarrow> 2 * (length re + length t) + 1)")
    (auto simp: neq_Nil_conv)

declare matchhere.simps [simp del] matchstar.simps [simp del]

text \<open>The loop of \<open>match\<close> for a pattern without \<open>^\<close>: at every position, the end included.\<close>

fun match_any :: "uchar list \<Rightarrow> uchar list \<Rightarrow> bool" where
  "match_any re str = (if matchhere re str then True else case str of [] \<Rightarrow> False | _ # t \<Rightarrow> match_any re t)"

declare match_any.simps [simp del]

definition re_match :: "uchar list \<Rightarrow> uchar list \<Rightarrow> bool" where
  "re_match re str = (if at0 re = 94 then matchhere (tl re) str else match_any re str)"

section \<open>What a pattern means\<close>

text \<open>
  A pattern is a sequence of items: any number of characters of one kind, one character of a kind, or the end of
  the line. \<open>hits es u v\<close>: the items describe \<open>u\<close>, followed by \<open>v\<close>.
\<close>

datatype item = Many uchar | One uchar | Eol

fun items :: "uchar list \<Rightarrow> item list" where
  "items [] = []"
| "items [c] = (if c = 36 then [Eol] else [One c])"
| "items (c # d # re) = (if d = 42 then Many c # items re else One c # items (d # re))"

definition is_a :: "uchar \<Rightarrow> uchar \<Rightarrow> bool" where
  "is_a c x \<longleftrightarrow> c = 46 \<or> x = c"

inductive hits :: "item list \<Rightarrow> uchar list \<Rightarrow> uchar list \<Rightarrow> bool" where
  hits_Nil: "hits [] [] v"
| hits_Many: "\<forall>x \<in> set w. is_a c x \<Longrightarrow> hits es u v \<Longrightarrow> hits (Many c # es) (w @ u) v"
| hits_One: "is_a c x \<Longrightarrow> hits es u v \<Longrightarrow> hits (One c # es) (x # u) v"
| hits_Eol: "hits [Eol] [] []"

inductive_simps hits_simps: "hits [] u v" "hits (Many c # es) u v" "hits (One c # es) u v" "hits (Eol # es) u v"

definition hit :: "item list \<Rightarrow> uchar list \<Rightarrow> bool" where
  "hit es t \<longleftrightarrow> (\<exists>u v. t = u @ v \<and> hits es u v)"

lemma hit_Nil [simp]: "hit [] t"
  by (simp add: hit_def hits_simps)

lemma hit_Eol [simp]: "hit [Eol] t \<longleftrightarrow> t = []"
  by (auto simp: hit_def hits_simps)

lemma hit_One: "hit (One c # es) t \<longleftrightarrow> (\<exists>x t'. t = x # t' \<and> is_a c x \<and> hit es t')"
proof
  assume "\<exists>x t'. t = x # t' \<and> is_a c x \<and> hit es t'"
  then obtain x u v where "t = (x # u) @ v" "is_a c x" "hits es u v" by (auto simp: hit_def)
  then show "hit (One c # es) t" unfolding hit_def using hits_One by blast
next
  assume "hit (One c # es) t"
  then show "\<exists>x t'. t = x # t' \<and> is_a c x \<and> hit es t'" unfolding hit_def hits_simps by force
qed

lemma hit_Many: "hit (Many c # es) t \<longleftrightarrow> hit es t \<or> (\<exists>x t'. t = x # t' \<and> is_a c x \<and> hit (Many c # es) t')"
proof
  assume "hit (Many c # es) t"
  then obtain w u v where t: "t = (w @ u) @ v" "\<forall>x \<in> set w. is_a c x" "hits es u v" by (auto simp: hit_def hits_simps)
  then show "hit es t \<or> (\<exists>x t'. t = x # t' \<and> is_a c x \<and> hit (Many c # es) t')"
  proof (cases w)
    case (Cons x w')
    then have "hits (Many c # es) (w' @ u) v" using t by (auto simp: hits_simps)
    then show ?thesis using t Cons by (auto simp: hit_def)
  qed (auto simp: hit_def)
next
  assume "hit es t \<or> (\<exists>x t'. t = x # t' \<and> is_a c x \<and> hit (Many c # es) t')"
  then show "hit (Many c # es) t"
  proof (elim disjE exE conjE)
    assume "hit es t"
    then show ?thesis unfolding hit_def hits_simps by (metis append_Nil empty_iff empty_set)
  next
    fix x t' assume a: "t = x # t'" "is_a c x" "hit (Many c # es) t'"
    then obtain w u v where "t' = (w @ u) @ v" "\<forall>x \<in> set w. is_a c x" "hits es u v" by (auto simp: hit_def hits_simps)
    then have "t = ((x # w) @ u) @ v" "hits (Many c # es) ((x # w) @ u) v" using a hits_Many [of "x # w" c es u v] by auto
    then show ?thesis unfolding hit_def by blast
  qed
qed

lemma matchhere_hit:
  "matchhere re t \<longleftrightarrow> hit (items re) t" "matchstar c re t \<longleftrightarrow> hit (Many c # items re) t"
proof (induction re t and c re t rule: matchhere_matchstar.induct)
  case (1 re str)
  consider "re = []" | c where "re = [c]" | c d re' where "re = c # d # re'" by (metis items.cases)
  then show ?case
  proof cases
    case 2
    then show ?thesis using 1
      by (cases str) (auto simp: matchhere.simps [of "[c]"] at0_def at1_def hit_One is_a_def)
  next
    case 3
    then show ?thesis using 1
      by (cases str) (auto simp: matchhere.simps [of "c # d # re'"] at0_def at1_def hit_One is_a_def)
  qed (simp add: matchhere.simps)
next
  case (2 c re str)
  then show ?case
    unfolding matchstar.simps [of c re str] hit_Many [of c "items re" str] by (cases str) (auto simp: at0_def is_a_def)
qed

lemma match_any_hit: "match_any re t \<longleftrightarrow> (\<exists>s t'. t = s @ t' \<and> hit (items re) t')"
proof (induction t)
  case Nil
  then show ?case by (simp add: match_any.simps [of _ "[]"] matchhere_hit)
next
  case (Cons c t)
  have "(\<exists>s t'. c # t = s @ t' \<and> hit (items re) t') \<longleftrightarrow> hit (items re) (c # t) \<or> (\<exists>s t'. t = s @ t' \<and> hit (items re) t')"
    by (auto simp: Cons_eq_append_conv)
  then show ?case using Cons by (simp add: match_any.simps [of _ "c # t"] matchhere_hit)
qed
section \<open>Lines\<close>

text \<open>
  \<open>strchr(p, '\n')\<close> on the rest of the buffer: the line before the end-of-line byte and what follows it. The
  search stops at a null byte.
\<close>

fun next_line :: "uchar list \<Rightarrow> (uchar list \<times> uchar list) option" where
  "next_line [] = None"
| "next_line (c # p) =
     (if c = 0 then None else if c = 10 then Some ([], p)
      else case next_line p of None \<Rightarrow> None | Some (l, r) \<Rightarrow> Some (c # l, r))"

lemma next_line_Some: "next_line p = Some (l, r) \<Longrightarrow> p = l @ 10 # r \<and> 10 \<notin> set l \<and> 0 \<notin> set l"
  by (induction p arbitrary: l) (auto split: if_splits option.splits)

text \<open>The inner loop: the lines that are written and what is left after the last complete line.\<close>

function grep_lines :: "uchar list \<Rightarrow> uchar list \<Rightarrow> uchar list list \<times> uchar list" where
  "grep_lines re p = (case next_line p of
     None \<Rightarrow> ([], p)
   | Some (l, r) \<Rightarrow> (case grep_lines re r of (out, q) \<Rightarrow> ((if re_match re l then [l @ [10]] else []) @ out, q)))"
  by pat_completeness auto
termination
  by (relation "measure (length \<circ> snd)") (auto dest!: next_line_Some)

declare grep_lines.simps [simp del]

text \<open>
  The program on the results of the successive calls of \<open>read\<close>: the writes it makes. The \<open>m\<close> bytes kept in
  the buffer are \<open>kept\<close>; they are forgotten when the buffer has no complete line (\<open>p == buf\<close>). No bytes read, or
  an error, end the loop. A call brings at most the bytes that fit into the buffer of 1024 bytes behind the ones kept.
\<close>

fun grep :: "uchar list \<Rightarrow> uchar list \<Rightarrow> uchar list list \<Rightarrow> uchar list list" where
  "grep re kept [] = []"
| "grep re kept (c # cs) =
     (if c = [] then []
      else case grep_lines re (kept @ c) of
        (out, p) \<Rightarrow> out @ grep re (if next_line (kept @ c) = None then [] else p) cs)"

text \<open>The complete lines of a text.\<close>

fun whole_lines :: "uchar list \<Rightarrow> uchar list \<Rightarrow> uchar list list" where
  "whole_lines l [] = []"
| "whole_lines l (c # t) = (if c = 10 then l # whole_lines [] t else whole_lines (l @ [c]) t)"

fun open_line :: "uchar list \<Rightarrow> uchar list \<Rightarrow> uchar list" where
  "open_line l [] = l"
| "open_line l (c # t) = (if c = 10 then open_line [] t else open_line (l @ [c]) t)"

lemma whole_lines_plain: "10 \<notin> set u \<Longrightarrow> whole_lines l (u @ t) = whole_lines (l @ u) t"
  by (induction u arbitrary: l) auto

lemma open_line_plain: "10 \<notin> set u \<Longrightarrow> open_line l (u @ t) = open_line (l @ u) t"
  by (induction u arbitrary: l) auto

lemma whole_lines_append: "whole_lines l (t @ u) = whole_lines l t @ whole_lines (open_line l t) u"
  by (induction t arbitrary: l) auto

lemma next_line_None: "next_line p = None \<Longrightarrow> 0 \<notin> set p \<Longrightarrow> 10 \<notin> set p"
  by (induction p) (auto split: if_splits option.splits)

lemma grep_lines_eq:
  "0 \<notin> set p \<Longrightarrow> grep_lines re p = (map (\<lambda>l. l @ [10]) (filter (re_match re) (whole_lines [] p)), open_line [] p)"
proof (induction re p rule: grep_lines.induct)
  case (1 re p)
  show ?case
  proof (cases "next_line p")
    case None
    then have "10 \<notin> set p" using 1 by (simp add: next_line_None)
    then show ?thesis
      using None whole_lines_plain [of p "[]" "[]"] open_line_plain [of p "[]" "[]"] by (simp add: grep_lines.simps [of re p])
  next
    case (Some a)
    then obtain l r where a: "next_line p = Some (l, r)" by (cases a) auto
    note p = next_line_Some [OF a]
    then have "grep_lines re r = (map (\<lambda>l. l @ [10]) (filter (re_match re) (whole_lines [] r)), open_line [] r)"
      using 1 a by (auto simp: p)
    then show ?thesis
      using a p by (simp add: grep_lines.simps [of re "l @ 10 # r"] whole_lines_plain open_line_plain)
  qed
qed

lemma open_line_no_newline: "10 \<notin> set l \<Longrightarrow> 10 \<notin> set (open_line l p)"
  by (induction p arbitrary: l) auto

lemma set_open_line: "set (open_line l p) \<subseteq> set l \<union> set p"
proof (induction p arbitrary: l)
  case (Cons a p)
  then show ?case using Cons [of "[]"] Cons [of "l @ [a]"] by auto
qed simp

text \<open>When every read brings at least one end of line, the splitting into reads does not matter.\<close>

lemma grep_eq:
  assumes "0 \<notin> set kept" and "\<forall>c \<in> set cs. 10 \<in> set c \<and> 0 \<notin> set c" and "10 \<notin> set kept"
  shows "grep re kept cs = map (\<lambda>l. l @ [10]) (filter (re_match re) (whole_lines kept (concat cs)))"
  using assms
proof (induction cs arbitrary: kept)
  case (Cons c cs)
  have z: "0 \<notin> set (kept @ c)" using Cons.prems by simp
  have n: "next_line (kept @ c) \<noteq> None" using next_line_None [OF _ z] Cons.prems by (metis Un_iff list.set_intros(1) set_append)
  have o: "0 \<notin> set (open_line [] (kept @ c))" "10 \<notin> set (open_line [] (kept @ c))"
    using set_open_line [of "[]" "kept @ c"] z open_line_no_newline [of "[]"] by auto
  have "open_line [] (kept @ c) = open_line kept c" "whole_lines [] (kept @ c) = whole_lines kept c"
    using Cons.prems(3) open_line_plain [of kept "[]"] whole_lines_plain [of kept "[]"] by simp_all
  then show ?case
    using Cons.IH [OF o(1) _ o(2)] Cons.prems n by (auto simp: grep_lines_eq [OF z] whole_lines_append)
qed simp

section \<open>Properties\<close>

text \<open>What the whole pattern means for a line: at its start after \<open>^\<close>, at any position otherwise.\<close>

definition means :: "uchar list \<Rightarrow> uchar list \<Rightarrow> bool" where
  "means re l \<longleftrightarrow> (case re of [] \<Rightarrow> True | c # re' \<Rightarrow>
     if c = 94 then hit (items re') l else \<exists>s t. l = s @ t \<and> hit (items re) t)"

lemma re_match_means: "re_match re = means re"
  by (rule ext, cases re) (auto simp: re_match_def means_def at0_def matchhere_hit match_any_hit)

text \<open>
  C31: the matcher implements the meaning of patterns, and \<open>grep\<close> prints the lines that match. If every read brings at
  least one end of line and the input has no null bytes, the output is, in order, exactly the complete lines of
  the input that the pattern describes, however the input is cut into reads.
\<close>

theorem grep_prints_matches:
  assumes "\<forall>c \<in> set cs. 10 \<in> set c \<and> 0 \<notin> set c"
  shows "grep re [] cs = map (\<lambda>l. l @ [10]) (filter (means re) (whole_lines [] (concat cs)))"
  using grep_eq [of "[]" cs re] assms by (simp add: re_match_means)

theorem grep_prints_matches_witness:
  "grep (lit ''^a*b$'') [] [lit ''aab'' @ [10, 97], lit ''bc'' @ [10] @ lit ''b'' @ [10]] = [lit ''aab'' @ [10], lit ''b'' @ [10]] \<and>
   means (lit ''^a*b$'') (lit ''aab'') \<and> \<not> means (lit ''^a*b$'') (lit ''abc'')"
proof -
  let ?cs = "[lit ''aab'' @ [10, 97], lit ''bc'' @ [10] @ lit ''b'' @ [10]]"
  have g: "grep (lit ''^a*b$'') [] ?cs = [lit ''aab'' @ [10], lit ''b'' @ [10]]" by code_simp
  have w: "whole_lines [] (concat ?cs) = [lit ''aab'', lit ''abc'', lit ''b'']" by code_simp
  have "\<forall>c \<in> set ?cs. 10 \<in> set c \<and> 0 \<notin> set c" by code_simp
  from grep_prints_matches [OF this, of "lit ''^a*b$''"]
  show ?thesis unfolding g w by (auto simp: lit_def split: if_splits)
qed

text \<open>
  A line that comes in two reads, the first of which has no end of line, is not found: its beginning is
  forgotten although there is room for it in the buffer.
\<close>

lemma grep_forgets_line:
  "grep (lit ''ab'') [] [lit ''a'', lit ''b'' @ [10]] = [] \<and> grep (lit ''ab'') [] [lit ''ab'' @ [10]] = [lit ''ab'' @ [10]]"
  by code_simp

end
