(* ===== verification/Ulib.thy ===== *)
theory Ulib
  imports CString
begin

text \<open>
  The library of the user programs: the string routines and input of \<^verbatim>\<open>user/ulib.c\<close> and the formatted output
  of \<^verbatim>\<open>user/printf.c\<close>. Routines that write through pointers act on the memory of the program, by user
  address. Loops that only a terminator ends are partial; the lemmas show that they return on terminated strings.
\<close>

section \<open>Strings and memory\<close>

partial_function (option) strcpy_loop :: "addr \<Rightarrow> addr \<Rightarrow> memory \<Rightarrow> memory option" where
  "strcpy_loop s t m = (if m t = 0 then Some (m(s := m t)) else strcpy_loop (s + 1) (t + 1) (m(s := m t)))"

definition strcpy :: "addr \<Rightarrow> addr \<Rightarrow> memory \<Rightarrow> (addr \<times> memory) option" where
  "strcpy s t m = map_option (Pair s) (strcpy_loop s t m)"

fun zero_fill :: "addr \<Rightarrow> nat \<Rightarrow> memory \<Rightarrow> memory" where
  "zero_fill s 0 m = m"
| "zero_fill s (Suc n) m = zero_fill (s + 1) n (m(s := 0))"

text \<open>A count \<open>n\<close> that is not positive is 0.\<close>

fun u_strncpy :: "addr \<Rightarrow> addr \<Rightarrow> nat \<Rightarrow> memory \<Rightarrow> memory" where
  "u_strncpy s t 0 m = m"
| "u_strncpy s t (Suc n) m =
     (if m t = 0 then zero_fill (s + 1) n (m(s := m t)) else u_strncpy (s + 1) (t + 1) n (m(s := m t)))"

fun safe_loop :: "addr \<Rightarrow> addr \<Rightarrow> nat \<Rightarrow> memory \<Rightarrow> memory" where
  "safe_loop s t 0 m = m(s := 0)"
| "safe_loop s t (Suc n) m =
     (if m t = 0 then m(s := m t, s + 1 := 0) else safe_loop (s + 1) (t + 1) n (m(s := m t)))"

definition u_safestrcpy :: "addr \<Rightarrow> addr \<Rightarrow> int \<Rightarrow> memory \<Rightarrow> memory" where
  "u_safestrcpy s t n m = (if n \<le> 0 then m else safe_loop s t (nat n - 1) m)"

partial_function (option) strcmp :: "memory \<Rightarrow> addr \<Rightarrow> addr \<Rightarrow> int option" where
  "strcmp m p q = (if m p \<noteq> 0 \<and> m p = m q then strcmp m (p + 1) (q + 1) else Some (uint (m p) - uint (m q)))"

definition u_strlen :: "memory \<Rightarrow> addr \<Rightarrow> nat option" where
  "u_strlen m s = strlen (cstr m s)"

definition u_memset :: "addr \<Rightarrow> uint \<Rightarrow> uint \<Rightarrow> memory \<Rightarrow> memory" where
  "u_memset dst c n m = stosb dst (ucast c) (unat n) m"

partial_function (option) strchr :: "memory \<Rightarrow> addr \<Rightarrow> uchar \<Rightarrow> addr option" where
  "strchr m s c = (if m s = 0 then Some 0 else if m s = c then Some s else strchr m (s + 1) c)"

definition u_memmove :: "addr \<Rightarrow> addr \<Rightarrow> int \<Rightarrow> memory \<Rightarrow> memory" where
  "u_memmove vdst vsrc n m = copy_up vdst vsrc (nat n) m"

partial_function (option) atoi_loop :: "memory \<Rightarrow> addr \<Rightarrow> uint \<Rightarrow> uint option" where
  "atoi_loop m s n = (if 48 \<le> m s \<and> m s \<le> 57 then atoi_loop m (s + 1) (n * 10 + ucast (m s) - 48) else Some n)"

definition atoi :: "memory \<Rightarrow> addr \<Rightarrow> int option" where
  "atoi m s = map_option sint (atoi_loop m s 0)"

section \<open>Input\<close>

text \<open>
  \<open>gets\<close> on the bytes that the calls of \<open>read\<close> for one byte bring, up to the end of the input or an error: the
  bytes it writes at \<open>buf\<close> and the input that is left.
\<close>

fun gets_loop :: "nat \<Rightarrow> uchar list \<Rightarrow> uchar list \<times> uchar list" where
  "gets_loop 0 inp = ([], inp)"
| "gets_loop (Suc k) [] = ([], [])"
| "gets_loop (Suc k) (c # inp) =
     (if c = 10 \<or> c = 13 then ([c], inp) else (case gets_loop k inp of (l, r) \<Rightarrow> (c # l, r)))"

definition gets_line :: "int \<Rightarrow> uchar list \<Rightarrow> uchar list \<times> uchar list" where
  "gets_line mx inp = (case gets_loop (nat (mx - 1)) inp of (l, r) \<Rightarrow> (l @ [0], r))"

section \<open>Formatted output\<close>

text \<open>The bytes that \<open>putc\<close> writes one at a time to the descriptor.\<close>

definition u_digits :: "uchar list" where
  "u_digits = lit ''0123456789ABCDEF''"

function u_digit_loop :: "nat \<Rightarrow> nat \<Rightarrow> uchar list" where
  "u_digit_loop x base = u_digits ! (x mod base) #
     (if x div base = 0 \<or> base < 2 then [] else u_digit_loop (x div base) base)"
  by pat_completeness auto
termination
proof (relation "measure fst")
  fix x base :: nat
  assume "\<not> (x div base = 0 \<or> base < 2)"
  then have "0 < x" "1 < base" by (auto intro: gr0I)
  then show "((x div base, base), (x, base)) \<in> measure fst" by (simp add: div_less_dividend)
qed simp

declare u_digit_loop.simps [simp del]

definition u_printint :: "uint \<Rightarrow> nat \<Rightarrow> bool \<Rightarrow> uchar list" where
  "u_printint xx base sg =
     (let neg = (sg \<and> xx <s 0); x = (if neg then - xx else xx);
          buf = u_digit_loop (unat x) base @ (if neg then [45] else []) in rev buf)"

text \<open>The arguments: a number or a string that may be the null pointer. The state is whether a \<open>%\<close> has been
  read; an argument that is missing or of the wrong kind is \<open>None\<close>.\<close>

datatype uarg = UNum uint | UStr "uchar list option"

fun vprintf :: "bool \<Rightarrow> uchar list \<Rightarrow> uarg list \<Rightarrow> uchar list option" where
  "vprintf st [] ap = Some []"
| "vprintf False (c # fmt) ap =
     (if c = 37 then vprintf True fmt ap else map_option (Cons c) (vprintf False fmt ap))"
| "vprintf True (c # fmt) ap =
     (if c = 100 then (case ap of UNum n # ap' \<Rightarrow> map_option ((@) (u_printint n 10 True)) (vprintf False fmt ap') | _ \<Rightarrow> None)
      else if c = 120 \<or> c = 112 then (case ap of UNum n # ap' \<Rightarrow> map_option ((@) (u_printint n 16 False)) (vprintf False fmt ap') | _ \<Rightarrow> None)
      else if c = 115 then (case ap of
          UStr (Some s) # ap' \<Rightarrow> map_option ((@) s) (vprintf False fmt ap')
        | UStr None # ap' \<Rightarrow> map_option ((@) (lit ''(null)'')) (vprintf False fmt ap') | _ \<Rightarrow> None)
      else if c = 99 then (case ap of UNum n # ap' \<Rightarrow> map_option (Cons (ucast n)) (vprintf False fmt ap') | _ \<Rightarrow> None)
      else if c = 37 then map_option (Cons 37) (vprintf False fmt ap)
      else map_option (\<lambda>r. 37 # c # r) (vprintf False fmt ap))"

text \<open>What \<open>fprintf\<close> writes, and \<open>printf\<close> to descriptor 1.\<close>

definition fprintf :: "nat \<Rightarrow> uchar list \<Rightarrow> uarg list \<Rightarrow> (nat \<times> uchar) list option" where
  "fprintf fd fmt ap = map_option (map (Pair fd)) (vprintf False fmt ap)"

definition printf :: "uchar list \<Rightarrow> uarg list \<Rightarrow> (nat \<times> uchar) list option" where
  "printf fmt ap = fprintf 1 fmt ap"

section \<open>Strings with a terminator\<close>

text \<open>\<open>str_at m t bs\<close>: the bytes \<open>bs\<close> followed by a terminator are at \<open>t\<close>.\<close>

fun str_at :: "memory \<Rightarrow> addr \<Rightarrow> uchar list \<Rightarrow> bool" where
  "str_at m t [] \<longleftrightarrow> m t = 0"
| "str_at m t (c # bs) \<longleftrightarrow> c \<noteq> 0 \<and> m t = c \<and> str_at m (t + 1) bs"

lemma str_at_nth: "str_at m t bs \<Longrightarrow> k < length bs \<Longrightarrow> m (t + of_nat k) = bs ! k \<and> bs ! k \<noteq> 0"
proof (induction bs arbitrary: t k)
  case (Cons c bs)
  show ?case
  proof (cases k)
    case (Suc j)
    then have "m (t + 1 + of_nat j) = bs ! j \<and> bs ! j \<noteq> 0" using Cons by auto
    then show ?thesis using Suc by (simp add: algebra_simps)
  qed (use Cons.prems in auto)
qed simp

lemma str_at_end: "str_at m t bs \<Longrightarrow> m (t + of_nat (length bs)) = 0"
  by (induction bs arbitrary: t) (auto simp flip: add.assoc)

lemma str_atI: "\<forall>k < length bs. bs ! k \<noteq> 0 \<and> m (t + of_nat k) = bs ! k \<Longrightarrow> m (t + of_nat (length bs)) = 0 \<Longrightarrow> str_at m t bs"
proof (induction bs arbitrary: t)
  case (Cons c bs)
  have "str_at m (t + 1) bs"
  proof (rule Cons.IH)
    show "\<forall>k<length bs. bs ! k \<noteq> 0 \<and> m (t + 1 + of_nat k) = bs ! k" using Cons.prems(1) by (force simp: algebra_simps)
    show "m (t + 1 + of_nat (length bs)) = 0" using Cons.prems(2) by (simp add: algebra_simps)
  qed
  then show ?case using Cons.prems(1) by force
qed simp

lemma u_strlen_ok: "str_at m t bs \<Longrightarrow> u_strlen m t = Some (length bs)"
  unfolding u_strlen_def by (rule strlen_returns) (auto simp: cstr_def str_at_end dest: str_at_nth)

lemma strcmp_same: "str_at m p bs \<Longrightarrow> str_at m q bs \<Longrightarrow> strcmp m p q = Some 0"
  by (induction bs arbitrary: p q) (subst strcmp.simps, simp)+

lemma strcpy_loop_copy:
  assumes "str_at m t bs" and "Suc (length bs) \<le> unat (s - t)"
  shows "strcpy_loop s t m = Some (copy_up s t (Suc (length bs)) m)"
  using assms
proof (induction bs arbitrary: s t m)
  case Nil
  then show ?case by (subst strcpy_loop.simps) simp
next
  case (Cons c bs)
  have "str_at (m(s := m t)) (t + 1) bs"
  proof (rule str_atI)
    have ne: "t + 1 + of_nat k \<noteq> s" if "k \<le> length bs" for k
    proof
      assume "t + 1 + of_nat k = s"
      then have "s - t = of_nat (Suc k)" by (simp add: algebra_simps)
      moreover have "unat (of_nat (Suc k) :: uint) \<le> Suc k" by (simp only: unat_of_nat) simp
      ultimately show False using Cons.prems(2) that by simp
    qed
    have t: "str_at m (t + 1) bs" using Cons.prems by simp
    show "\<forall>k<length bs. bs ! k \<noteq> 0 \<and> (m(s := m t)) (t + 1 + of_nat k) = bs ! k" using str_at_nth [OF t] ne by simp
    show "(m(s := m t)) (t + 1 + of_nat (length bs)) = 0" using str_at_end [OF t] ne by simp
  qed
  moreover have "Suc (length bs) \<le> unat ((s + 1) - (t + 1))" using Cons.prems(2) by simp
  ultimately have "strcpy_loop (s + 1) (t + 1) (m(s := m t)) = Some (copy_up (s + 1) (t + 1) (Suc (length bs)) (m(s := m t)))"
    by (rule Cons.IH)
  then show ?case using Cons.prems by (subst strcpy_loop.simps) simp
qed
section \<open>Reading a number back\<close>

definition digits_value :: "uchar list \<Rightarrow> nat" where
  "digits_value ds = foldl (\<lambda>v c. v * 10 + (unat c - 48)) 0 ds"

definition is_digit :: "uchar \<Rightarrow> bool" where
  "is_digit c \<longleftrightarrow> 48 \<le> c \<and> c \<le> 57"

lemma is_digit_word: "is_digit c \<Longrightarrow> (ucast c - 48 :: uint) = of_nat (unat c - 48)"
proof -
  assume "is_digit c"
  then have "48 \<le> unat c" by (simp add: is_digit_def word_le_nat_alt)
  then show ?thesis by (simp add: of_nat_diff)
qed

lemma atoi_loop_digits:
  "\<forall>c \<in> set ds. is_digit c \<Longrightarrow> (\<forall>k < length ds. m (s + of_nat k) = ds ! k) \<Longrightarrow> \<not> is_digit (m (s + of_nat (length ds))) \<Longrightarrow>
   atoi_loop m s n = Some (foldl (\<lambda>v c. v * 10 + of_nat (unat c - 48)) n ds)"
proof (induction ds arbitrary: s n)
  case Nil
  then show ?case by (subst atoi_loop.simps) (auto simp: is_digit_def)
next
  case (Cons c ds)
  have c: "m s = c" using Cons.prems(2) by force
  have "atoi_loop m (s + 1) (n * 10 + of_nat (unat c - 48)) =
      Some (foldl (\<lambda>v c. v * 10 + of_nat (unat c - 48)) (n * 10 + of_nat (unat c - 48)) ds)"
  proof (rule Cons.IH)
    show "\<forall>k<length ds. m (s + 1 + of_nat k) = ds ! k" using Cons.prems(2) by (force simp: algebra_simps)
    show "\<not> is_digit (m (s + 1 + of_nat (length ds)))" using Cons.prems(3) by (simp add: algebra_simps)
  qed (use Cons.prems in auto)
  moreover have e: "n * 10 + ucast c - 48 = n * 10 + (of_nat (unat c - 48) :: uint)"
    using is_digit_word [of c] Cons.prems(1) by (simp add: algebra_simps)
  have "atoi_loop m s n = atoi_loop m (s + 1) (n * 10 + of_nat (unat c - 48))"
    unfolding e [symmetric] using c Cons.prems(1) by (subst atoi_loop.simps) (simp add: is_digit_def)
  ultimately show ?case by simp
qed

lemma digits_value_word: "foldl (\<lambda>v c. v * 10 + of_nat (unat c - 48)) (of_nat v) ds = (of_nat (foldl (\<lambda>v c. v * 10 + (unat c - 48)) v ds) :: uint)"
proof (induction ds arbitrary: v)
  case (Cons c ds)
  then show ?case using Cons [of "v * 10 + (unat c - 48)"] by simp
qed simp

lemma atoi_digits:
  assumes "\<forall>c \<in> set ds. is_digit c" and "str_at m s ds" and "digits_value ds < 2147483648"
  shows "atoi m s = Some (int (digits_value ds))"
proof -
  have "\<not> is_digit (m (s + of_nat (length ds)))" using str_at_end [OF assms(2)] by (simp add: is_digit_def)
  then have "atoi_loop m s 0 = Some (of_nat (digits_value ds))"
    using atoi_loop_digits [OF assms(1), of m s 0] str_at_nth [OF assms(2)] digits_value_word [of 0 ds] by (simp add: digits_value_def)
  then show ?thesis using assms(3) by (simp add: atoi_def signed_of_nat signed_take_bit_int_eq_self)
qed

lemma u_digits_nth: "x < 10 \<Longrightarrow> is_digit (u_digits ! x) \<and> unat (u_digits ! x) - 48 = x"
proof -
  have "\<forall>x\<in>set [0..<10]. is_digit (u_digits ! x) \<and> unat (u_digits ! x) - 48 = x" by code_simp
  then show "x < 10 \<Longrightarrow> is_digit (u_digits ! x) \<and> unat (u_digits ! x) - 48 = x" by simp
qed

lemma u_digit_loop_value:
  "digits_value (rev (u_digit_loop x 10)) = x \<and> (\<forall>c \<in> set (u_digit_loop x 10). is_digit c)"
proof (induction x rule: less_induct)
  case (less x)
  have d: "is_digit (u_digits ! (x mod 10))" "unat (u_digits ! (x mod 10)) - 48 = x mod 10" using u_digits_nth [of "x mod 10"] by simp_all
  show ?case
  proof (cases "x div 10 = 0")
    case True
    then have e: "u_digit_loop x 10 = [u_digits ! (x mod 10)]" by (subst u_digit_loop.simps) simp
    show ?thesis unfolding e using d True by (simp add: digits_value_def)
  next
    case False
    then have "x div 10 < x" by simp
    from less [OF this] have i: "digits_value (rev (u_digit_loop (x div 10) 10)) = x div 10" "\<forall>c \<in> set (u_digit_loop (x div 10) 10). is_digit c" by simp_all
    have e: "u_digit_loop x 10 = u_digits ! (x mod 10) # u_digit_loop (x div 10) 10" using False by (subst u_digit_loop.simps) simp
    show ?thesis unfolding e using i d by (simp add: digits_value_def)
  qed
qed

lemma printint_nonneg: "0 \<le> sint xx \<Longrightarrow> u_printint xx 10 True = rev (u_digit_loop (unat xx) 10)"
  by (simp add: u_printint_def word_sless_alt)

end
