(* ===== verification/Analyser.thy ===== *)
theory Analyser
  imports Shared Ulib
begin

text \<open>
  The three programs that use shared memory: \<^verbatim>\<open>user/dalle.c\<close> registers nine structures and starts its two
  children, \<^verbatim>\<open>user/liSa.c\<close> analyses a text sentence by sentence, and \<^verbatim>\<open>user/coMMa.c\<close> takes the commands of the
  user. The structures they share are one record; \<open>get_data\<close> gives a pointer to one of its fields, which is what
  the properties of the table of shared structures and of its mapping establish.
\<close>

section \<open>The parent\<close>

text \<open>The structures \<open>dalle\<close> registers, with the addresses of its variables as parameters.\<close>

record dalle_vars =
  v_file_path :: addr
  v_curr_sent_no :: addr
  v_longest_curr :: addr
  v_shortest_curr :: addr
  v_len_longest :: addr
  v_len_shortest :: addr
  v_longest_word :: addr
  v_shortest_word :: addr
  v_command :: addr

definition dalle_shares :: "dalle_vars \<Rightarrow> (string \<times> addr \<times> uint) list" where
  "dalle_shares v =
     [(''cs_longest'', v_longest_curr v, 20),
      (''cs_shortest'', v_shortest_curr v, 20),
      (''file_path'', v_file_path v, 20),
      (''curr_sent'', v_curr_sent_no v, 4),
      (''len_longest'', v_len_longest v, 4),
      (''len_shortest'', v_len_shortest v, 4),
      (''command'', v_command v, 4),
      (''longest_word'', v_longest_word v, 20),
      (''shortest_word'', v_shortest_word v, 20)]"

text \<open>Its calls of \<open>share_data\<close>, in order, with their results.\<close>

fun share_all :: "(string \<times> addr \<times> uint) list \<Rightarrow> shared list \<Rightarrow> int list \<times> shared list" where
  "share_all [] sh = ([], sh)"
| "share_all ((nm, a, n) # xs) sh =
     (case share_data (arr (lit nm)) a n 0 sh of (r, sh') \<Rightarrow> (case share_all xs sh' of (rs, sh'') \<Rightarrow> (r # rs, sh'')))"

section \<open>The structures\<close>

record board =
  b_file_path :: "uchar list"
  b_curr_sent :: uint
  b_cs_longest :: "uchar list"
  b_cs_shortest :: "uchar list"
  b_len_longest :: uint
  b_len_shortest :: uint
  b_longest_word :: "uchar list"
  b_shortest_word :: "uchar list"
  b_command :: uint

definition dalle_board :: "uchar list \<Rightarrow> board" where
  "dalle_board path = \<lparr>b_file_path = path, b_curr_sent = 0, b_cs_longest = [], b_cs_shortest = [], b_len_longest = 0,
     b_len_shortest = 0x7FFFFFFF, b_longest_word = [], b_shortest_word = [], b_command = 4\<rparr>"

text \<open>
  The path that \<open>dalle\<close> shares: its argument is copied over the array of 20 bytes without its terminator, and the 0 is
  written where the string in the array ends. A longer argument is written past the array, which is \<open>None\<close>.
\<close>

definition dalle_path :: "uchar list option \<Rightarrow> uchar list option" where
  "dalle_path arg =
     (let old = lit ''../home/README'' in
      case arg of None \<Rightarrow> Some old | Some a \<Rightarrow> if 20 < length a then None else Some (a @ drop (length a) old))"

section \<open>The analysis of a sentence\<close>

text \<open>
  The loop of \<open>check_current_setence\<close> over the bytes from \<open>i\<close> to \<open>end\<close>, with the start of the current word and the
  strings \<open>lw\<close> and \<open>sw\<close>. The array \<open>word\<close> has 30 bytes; a longer word is written past its end, which is \<open>None\<close>. A
  sentence ends at the byte 46 (\<open>.\<close>), 33 (\<open>!\<close>) or 63 (\<open>?\<close>), which the caller has found.
\<close>

definition terminated :: "uchar list \<Rightarrow> uchar list" where
  "terminated bs = takeWhile (\<lambda>c. c \<noteq> 0) bs"

function words_loop :: "uchar list \<Rightarrow> nat \<Rightarrow> nat \<Rightarrow> nat \<Rightarrow> uchar list \<Rightarrow> uchar list \<Rightarrow> (uchar list \<times> uchar list) option" where
  "words_loop buff fin i wstart lw sw =
     (if i > fin then Some (lw, sw)
      else if buff ! i = 32 \<or> i = fin then
        (let wlen = i - wstart; word = terminated (take wlen (drop wstart buff)) in
         if wlen \<ge> 30 then None
         else if wlen > length lw then words_loop buff fin (i + 1) (i + 1) word sw
         else if wlen < length sw then words_loop buff fin (i + 1) (i + 1) lw word
         else words_loop buff fin (i + 1) (i + 1) lw sw)
      else words_loop buff fin (i + 1) wstart lw sw)"
  by pat_completeness auto
termination
  by (relation "measure (\<lambda>(buff, fin, i, wstart, lw, sw). Suc fin - i)") auto

declare words_loop.simps [simp del]

text \<open>The rest of the function writes the strings, with their terminators, into shared arrays of 20 bytes.\<close>

definition check_current_setence :: "uchar list \<Rightarrow> nat \<Rightarrow> nat \<Rightarrow> board \<Rightarrow> board option" where
  "check_current_setence buff start fin b =
     (case words_loop buff fin start start (lit ''.'') (lit ''.....'') of
        None \<Rightarrow> None
      | Some (lw, sw) \<Rightarrow>
          if length lw \<ge> 20 \<or> length sw \<ge> 20 then None
          else
            (let b = b\<lparr>b_cs_shortest := sw, b_cs_longest := lw\<rparr>;
                 b = (if of_nat (length lw) > b_len_longest b then b\<lparr>b_len_longest := of_nat (length lw), b_longest_word := lw\<rparr> else b);
                 b = (if of_nat (length sw) < b_len_shortest b then b\<lparr>b_len_shortest := of_nat (length sw), b_shortest_word := sw\<rparr> else b)
             in Some b))"

section \<open>The child that analyses\<close>

definition ends_sentence :: "uchar \<Rightarrow> bool" where
  "ends_sentence c \<longleftrightarrow> c = 46 \<or> c = 33 \<or> c = 63"

text \<open>The search for the end of the sentence has no bound; past the text it reads memory that is not the text's.\<close>

function find_end :: "uchar list \<Rightarrow> nat \<Rightarrow> nat option" where
  "find_end buff i = (if i \<ge> length buff then None else if ends_sentence (buff ! i) then Some i else find_end buff (i + 1))"
  by pat_completeness auto
termination
  by (relation "measure (\<lambda>(buff, i). length buff - i)") auto

declare find_end.simps [simp del]

lemma find_end_Some: "find_end buff i = Some e \<Longrightarrow> i \<le> e \<and> e < length buff"
  by (induction buff i rule: find_end.induct) (subst (asm) (2) find_end.simps, auto split: if_splits)

text \<open>
  The values of \<open>command\<close> that successive looks at it give. Paused, the program looks until it sees 4 or 5; whether
  it goes on, ends, or has not seen either yet.
\<close>

datatype after_look = Go "uint list" | End | Waits

fun paused :: "uint list \<Rightarrow> after_look" where
  "paused [] = Waits"
| "paused (c # cs) = (if c = 4 then Go cs else if c = 5 then End else paused cs)"

definition look :: "uint list \<Rightarrow> after_look" where
  "look cs = (case cs of [] \<Rightarrow> Waits | c # cs' \<Rightarrow> if c = 3 then paused cs' else if c = 5 then End else Go cs')"

text \<open>The main loop of \<open>liSa\<close> on a text: the structures and whether the program has ended. \<open>None\<close> is an access outside
  of an array.\<close>

function lisa_loop :: "uchar list \<Rightarrow> nat \<Rightarrow> uint list \<Rightarrow> board \<Rightarrow> (board \<times> bool) option" where
  "lisa_loop buff i cs b =
     (if i \<ge> length buff then Some (b, True)
      else
        (let i = (if buff ! i = 32 then i + 1 else i);
             b = b\<lparr>b_curr_sent := b_curr_sent b + 1\<rparr> in
         case find_end buff i of
           None \<Rightarrow> None
         | Some e \<Rightarrow>
             (case check_current_setence buff i e b of
                None \<Rightarrow> None
              | Some b \<Rightarrow>
                  (case look cs of
                     Go cs' \<Rightarrow> lisa_loop buff (e + 1) cs' b
                   | End \<Rightarrow> Some (b, True)
                   | Waits \<Rightarrow> Some (b, False)))))"
  by pat_completeness auto
termination
proof (relation "measure (\<lambda>(buff, i, cs, b). length buff - i)", goal_cases)
  case (2 buff i cs b x xa e b' cs')
  then show ?case using find_end_Some [of buff _ e] by (force split: if_splits)
qed simp

declare lisa_loop.simps [simp del]
section \<open>The child that takes commands\<close>

text \<open>A buffer as memory at address 0.\<close>

definition mem_of :: "uchar list \<Rightarrow> memory" where
  "mem_of bs = (\<lambda>a. arr bs (unat a))"

text \<open>One command: what is printed, the structures and whether the program ends.\<close>

definition comma_command :: "int \<Rightarrow> board \<Rightarrow> (uchar list \<times> board \<times> bool) option" where
  "comma_command c b =
     (if c = 1 then
        (case vprintf False (lit ''Latest sentence %d: Local extrema => longest: %s :: shortest: %s'' @ [10])
           [UNum (b_curr_sent b), UStr (Some (b_cs_longest b)), UStr (Some (b_cs_shortest b))] of
           None \<Rightarrow> None | Some out \<Rightarrow> Some (out, b, False))
      else if c = 2 then
        (case vprintf False (lit ''Global extrema => longest: <%d> %s :: shortest <%d> %s '' @ [10])
           [UNum (b_len_longest b), UStr (Some (b_longest_word b)), UNum (b_len_shortest b), UStr (Some (b_shortest_word b))] of
           None \<Rightarrow> None | Some out \<Rightarrow> Some (out, b, False))
      else if c = 3 then Some (lit ''Pausing... '' @ [10], b\<lparr>b_command := 3\<rparr>, False)
      else if c = 4 then Some (lit ''Resuming... '' @ [10], b\<lparr>b_command := 4\<rparr>, False)
      else if c = 5 then Some ([], b\<lparr>b_command := 5\<rparr>, True)
      else Some ([], b, False))"

lemma gets_loop_shorter: "0 < k \<Longrightarrow> inp \<noteq> [] \<Longrightarrow> gets_loop k inp = (l, r) \<Longrightarrow> length r < length inp"
proof (induction k inp arbitrary: l r rule: gets_loop.induct)
  case (3 k c inp)
  show ?case
  proof (cases "c = 10 \<or> c = 13 \<or> k = 0 \<or> inp = []")
    case True
    then show ?thesis using 3(4) by (cases k; cases inp) (auto split: if_splits)
  next
    case False
    obtain l' r' where g: "gets_loop k inp = (l', r')" by fastforce
    then have "length r' < length inp" using 3(1) [of l' r'] False by auto
    then show ?thesis using 3(4) g False by auto
  qed
qed auto

lemma gets_line_shorter: "gets_line 20 inp = (l, r) \<Longrightarrow> inp \<noteq> [] \<Longrightarrow> length r < length inp"
  using gets_loop_shorter [of 19 inp] by (auto simp: gets_line_def split: prod.splits)

text \<open>
  The main loop on the bytes of the standard input, each line read with \<open>gets(buff, 20)\<close>: the output, the
  structures and whether the program has ended; without more input it waits.
\<close>

function comma_loop :: "uchar list \<Rightarrow> board \<Rightarrow> (uchar list \<times> board \<times> bool) option" where
  "comma_loop inp b =
     (if inp = [] then Some ([], b, False)
      else case gets_line 20 inp of (l, r) \<Rightarrow>
        (case atoi (mem_of l) 0 of
           None \<Rightarrow> None
         | Some c \<Rightarrow>
             (case comma_command c b of
                None \<Rightarrow> None
              | Some (out, b', ends) \<Rightarrow>
                  if ends then Some (out, b', True)
                  else map_option (\<lambda>(out', r'). (out @ out', r')) (comma_loop r b'))))"
  by pat_completeness auto
termination
  by (relation "measure (length \<circ> fst)") (auto dest: gets_line_shorter sym)

declare comma_loop.simps [simp del]

section \<open>Words\<close>

fun split_words :: "uchar list \<Rightarrow> uchar list list" where
  "split_words [] = [[]]"
| "split_words (c # t) = (if c = 32 then [] # split_words t else (c # hd (split_words t)) # tl (split_words t))"

lemma split_words_not_Nil [simp]: "split_words t \<noteq> []"
  by (cases t) auto

lemma split_words_plain: "32 \<notin> set u \<Longrightarrow> split_words u = [u]"
  by (induction u) auto

lemma split_words_space: "32 \<notin> set u \<Longrightarrow> split_words (u @ 32 # t) = u # split_words t"
  by (induction u) auto

definition word_step :: "uchar list \<Rightarrow> uchar list \<times> uchar list \<Rightarrow> uchar list \<times> uchar list" where
  "word_step w = (\<lambda>(lw, sw). if length w > length lw then (w, sw) else if length w < length sw then (lw, w) else (lw, sw))"

definition slice :: "uchar list \<Rightarrow> nat \<Rightarrow> nat \<Rightarrow> uchar list" where
  "slice buff a e = take (e - a) (drop a buff)"

lemma slice_split: "a \<le> i \<Longrightarrow> i < e \<Longrightarrow> e \<le> length buff \<Longrightarrow> slice buff a e = slice buff a i @ buff ! i # slice buff (Suc i) e"
proof -
  assume a: "a \<le> i" "i < e" "e \<le> length buff"
  then have "slice buff a e = take ((i - a) + (e - i)) (drop a buff)" by (simp add: slice_def)
  also have "\<dots> = slice buff a i @ take (e - i) (drop i buff)" using a by (simp only: take_add slice_def drop_drop) simp
  also have "take (e - i) (drop i buff) = buff ! i # slice buff (Suc i) e"
    using a by (simp add: slice_def Cons_nth_drop_Suc [symmetric] take_Cons' flip: Cons_nth_drop_Suc)
  finally show ?thesis .
qed

lemma length_slice [simp]: "e \<le> length buff \<Longrightarrow> length (slice buff a e) = e - a"
  by (simp add: slice_def)

lemma set_slice: "set (slice buff a e) \<subseteq> set buff"
  unfolding slice_def by (meson set_drop_subset set_take_subset subset_trans)

lemma words_loop_eq:
  assumes "0 \<notin> set buff" and "fin < length buff" and "wstart \<le> i" and "i \<le> fin" and "32 \<notin> set (slice buff wstart i)"
    and "\<forall>w \<in> set (split_words (slice buff wstart fin)). length w < 30"
  shows "words_loop buff fin i wstart lw sw = Some (fold word_step (split_words (slice buff wstart fin)) (lw, sw))"
  using assms(3-)
proof (induction "fin - i" arbitrary: i wstart lw sw)
  case 0
  then have i: "i = fin" by simp
  have t: "terminated (slice buff wstart fin) = slice buff wstart fin"
    unfolding terminated_def takeWhile_eq_all_conv using assms(1) set_slice by force
  have "split_words (slice buff wstart fin) = [slice buff wstart fin]" using 0 i by (simp add: split_words_plain)
  then show ?case using 0 i t assms(2)
    by (subst words_loop.simps) (simp add: words_loop.simps [of _ _ "Suc fin"] word_step_def Let_def flip: slice_def)
next
  case (Suc n)
  then have i: "i < fin" by simp
  let ?w = "slice buff wstart i"
  show ?case
  proof (cases "buff ! i = 32")
    case True
    have sp: "split_words (slice buff wstart fin) = ?w # split_words (slice buff (Suc i) fin)"
      using slice_split [of wstart i fin buff] Suc.prems i assms(2) True by (simp add: split_words_space)
    have t: "terminated ?w = ?w" unfolding terminated_def takeWhile_eq_all_conv using assms(1) set_slice by force
    have "words_loop buff fin (Suc i) (Suc i) l s = Some (fold word_step (split_words (slice buff (Suc i) fin)) (l, s))" for l s
      by (rule Suc.hyps(1)) (use Suc i sp in \<open>auto simp: slice_def\<close>)
    moreover have "i - wstart < 30" using Suc.prems(4) sp assms(2) i by simp
    ultimately show ?thesis using True i t sp assms(2)
      by (subst words_loop.simps) (simp add: word_step_def Let_def flip: slice_def)
  next
    case False
    have "32 \<notin> set (slice buff wstart (Suc i))"
      using slice_split [of wstart i "Suc i" buff] Suc.prems i assms(2) False by (auto simp: slice_def)
    then have "words_loop buff fin (Suc i) wstart lw sw = Some (fold word_step (split_words (slice buff wstart fin)) (lw, sw))"
      by (intro Suc.hyps(1)) (use Suc i in auto)
    then show ?thesis using False i by (subst words_loop.simps) simp
  qed
qed

lemma fold_longest:
  "(let l = fst (fold word_step ws (lw, sw)) in
     (l = lw \<or> l \<in> set ws) \<and> length lw \<le> length l \<and> (\<forall>w \<in> set ws. length w \<le> length l))"
proof (induction ws arbitrary: lw sw)
  case (Cons w ws)
  show ?case
    using Cons [of w sw] Cons [of lw w] Cons [of lw sw] by (auto simp: word_step_def Let_def)
qed simp

lemma fold_shortest:
  "length (snd (fold word_step ws (lw, sw))) \<le> length sw \<and> (snd (fold word_step ws (lw, sw)) = sw \<or> snd (fold word_step ws (lw, sw)) \<in> set ws)"
proof (induction ws arbitrary: lw sw)
  case (Cons w ws)
  show ?case
    using Cons [of w sw] Cons [of lw w] Cons [of lw sw] by (auto simp: word_step_def Let_def)
qed simp
section \<open>Properties\<close>

definition entry_of :: "string \<times> addr \<times> uint \<Rightarrow> shared" where
  "entry_of x = (case x of (nm, a, n) \<Rightarrow> \<lparr>sh_name = strncpy (arr (lit nm)) SHAREDNAME, sh_memstart = a, sh_size = n\<rparr>)"

lemma entry_of_simps: "sh_name (entry_of x) = strncpy (arr (lit (fst x))) SHAREDNAME" "sh_size (entry_of x) = snd (snd x)"
    "sh_memstart (entry_of x) = fst (snd x)"
  by (simp_all add: entry_of_def split: prod.splits)

definition apart_names :: "string list \<Rightarrow> bool" where
  "apart_names nms = sorted_wrt (\<lambda>x y. strncmp (arr (lit y)) (arr (strncpy (arr (lit x)) SHAREDNAME)) SHAREDNAME \<noteq> 0) nms"

lemma share_data_first_free:
  "\<forall>x \<in> set pre. sh_size x \<noteq> 0 \<and> strncmp nm (arr (sh_name x)) SHAREDNAME \<noteq> 0 \<Longrightarrow> sh_size y = 0 \<Longrightarrow>
   share_data nm a n i (pre @ y # post) =
     (int (i + length pre), pre @ \<lparr>sh_name = strncpy nm SHAREDNAME, sh_memstart = a, sh_size = n\<rparr> # post)"
  by (induction pre arbitrary: i) auto

lemma share_all_eq:
  "apart_names (map fst (old @ xs)) \<Longrightarrow> \<forall>x \<in> set (old @ xs). snd (snd x) \<noteq> 0 \<Longrightarrow> length xs \<le> length unused \<Longrightarrow>
   \<forall>y \<in> set unused. sh_size y = 0 \<Longrightarrow>
   share_all xs (map entry_of old @ unused) =
     (map int [length old..<length old + length xs], map entry_of (old @ xs) @ drop (length xs) unused)"
proof (induction xs arbitrary: old unused)
  case (Cons x xs)
  obtain nm a n where x: "x = (nm, a, n)" by (cases x)
  obtain y ys where u: "unused = y # ys" using Cons.prems(3) by (cases unused) auto
  have "share_data (arr (lit nm)) a n 0 (map entry_of old @ y # ys) = (int (length old), map entry_of (old @ [x]) @ ys)"
    using Cons.prems x u
    by (subst share_data_first_free) (auto simp: entry_of_simps entry_of_def [of "(nm, a, n)"] apart_names_def sorted_wrt_append sorted_wrt_map)
  moreover have "share_all xs (map entry_of (old @ [x]) @ ys) =
      (map int [length (old @ [x])..<length (old @ [x]) + length xs], map entry_of ((old @ [x]) @ xs) @ drop (length xs) ys)"
    by (rule Cons.IH) (use Cons.prems u in auto)
  ultimately show ?case using u x by (simp add: upt_conv_Cons del: upt_Suc)
qed simp

lemma get_data_entry:
  assumes "apart_names (map fst (xs @ (nm, a, n) # ys))"
  shows "get_data (arr (lit nm)) (map entry_of (xs @ (nm, a, n) # ys) @ zs) = Some a"
proof -
  have "\<forall>x \<in> set xs. strncmp (arr (lit nm)) (arr (sh_name (entry_of x))) SHAREDNAME \<noteq> 0"
    using assms by (auto simp: apart_names_def sorted_wrt_append entry_of_simps)
  then show ?thesis by (induction xs) (auto simp: entry_of_simps strncmp_strncpy)
qed

lemma dalle_names: "map fst (dalle_shares v) = [''cs_longest'', ''cs_shortest'', ''file_path'', ''curr_sent'', ''len_longest'',
    ''len_shortest'', ''command'', ''longest_word'', ''shortest_word'']"
  by (simp add: dalle_shares_def)

lemma byte_eq: "(of_nat (of_char c) :: uchar) = of_nat (of_char d) \<longleftrightarrow> c = d"
proof
  assume "(of_nat (of_char c) :: uchar) = of_nat (of_char d)"
  then have "unat (of_nat (of_char c) :: uchar) = unat (of_nat (of_char d) :: uchar)" by simp
  then show "c = d" by (simp add: unat_of_nat)
qed simp

fun differ :: "nat \<Rightarrow> string \<Rightarrow> string \<Rightarrow> bool" where
  "differ (Suc n) (c # x) (d # y) = (if c = d then differ n x y else c \<noteq> CHR 0x00)"
| "differ _ _ _ = False"

lemma strncmp_differ: "differ n y x \<Longrightarrow> CHR 0x00 \<notin> set x \<Longrightarrow> CHR 0x00 \<notin> set y \<Longrightarrow>
    strncmp (arr (lit y)) (arr (strncpy (arr (lit x)) n)) n \<noteq> 0"
proof (induction n y x rule: differ.induct)
  case (1 n d y c x)
  have z: "of_nat (of_char c) \<noteq> (0 :: uchar)" "of_nat (of_char d) \<noteq> (0 :: uchar)"
    using 1(3,4) byte_eq [of _ "CHR 0x00"] by auto
  have u: "uint a = uint b \<longleftrightarrow> a = b" for a b :: uchar by (rule word_uint_eq_iff [symmetric])
  have l: "arr (lit (e # w)) = arr (of_nat (of_char e) # lit w)" for e w by (simp add: lit_def)
  show ?case
    using 1 z by (auto simp: l arr_Cons_Suc byte_eq u split: if_splits)
qed simp_all

lemma apart_differ: "sorted_wrt (\<lambda>x y. differ SHAREDNAME y x) nms \<Longrightarrow> list_all (\<lambda>x. CHR 0x00 \<notin> set x) nms \<Longrightarrow> apart_names nms"
  unfolding apart_names_def by (erule sorted_wrt_mono_rel [rotated]) (simp add: strncmp_differ list_all_iff)

lemma dalle_apart: "apart_names (map fst (dalle_shares v))"
  unfolding dalle_names by (rule apart_differ) (simp_all add: SHAREDNAME_def numeral_nat)

text \<open>
  C5: the nine registrations of \<open>dalle\<close> all succeed in a table without entries in use, with the indices 0 to 8, although five of
  its names are longer than the ten bytes the table keeps of a name; and looking up each of the names afterwards gives the
  address of its variable.
\<close>

theorem dalle_registers:
  assumes "length sh = SHAREDCOUNT" and "\<forall>y \<in> set sh. sh_size y = 0"
  shows "fst (share_all (dalle_shares v) sh) = [0, 1, 2, 3, 4, 5, 6, 7, 8] \<and>
   (\<forall>(nm, a, n) \<in> set (dalle_shares v). get_data (arr (lit nm)) (snd (share_all (dalle_shares v) sh)) = Some a)"
proof -
  have len: "length (dalle_shares v) = 9" by (simp add: dalle_shares_def)
  have "share_all (dalle_shares v) (map entry_of [] @ sh) = (map int [length ([] :: (string \<times> addr \<times> uint) list)..<length ([] :: (string \<times> addr \<times> uint) list) + length (dalle_shares v)],
      map entry_of ([] @ dalle_shares v) @ drop (length (dalle_shares v)) sh)"
  proof (rule share_all_eq)
    show "apart_names (map fst ([] @ dalle_shares v))" using dalle_apart by simp
  qed (use assms in \<open>auto simp: dalle_shares_def SHAREDCOUNT_def\<close>)
  then have e: "share_all (dalle_shares v) sh = ([0, 1, 2, 3, 4, 5, 6, 7, 8], map entry_of (dalle_shares v) @ drop 9 sh)"
    using len by (simp add: upt_conv_Cons)
  have "get_data (arr (lit nm)) (map entry_of (dalle_shares v) @ drop 9 sh) = Some a" if "(nm, a, n) \<in> set (dalle_shares v)" for nm a n
  proof -
    from split_list [OF that] obtain xs ys where x: "dalle_shares v = xs @ (nm, a, n) # ys" by blast
    show ?thesis using get_data_entry [of xs nm a n ys "drop 9 sh"] dalle_apart [of v] unfolding x by simp
  qed
  then show ?thesis by (auto simp: e)
qed

definition no_shared :: shared where
  "no_shared = \<lparr>sh_name = replicate SHAREDNAME 0, sh_memstart = 0, sh_size = 0\<rparr>"

definition ex_vars :: dalle_vars where
  "ex_vars = \<lparr>v_file_path = 0x1000, v_curr_sent_no = 0x2000, v_longest_curr = 0x1020, v_shortest_curr = 0x1040,
     v_len_longest = 0x2004, v_len_shortest = 0x2008, v_longest_word = 0x1060, v_shortest_word = 0x1080, v_command = 0x200C\<rparr>"

theorem dalle_registers_witness:
  "fst (share_all (dalle_shares ex_vars) (replicate 10 no_shared)) = [0, 1, 2, 3, 4, 5, 6, 7, 8] \<and>
   get_data (arr (lit ''shortest_word'')) (snd (share_all (dalle_shares ex_vars) (replicate 10 no_shared))) = Some 0x1080"
proof -
  have "(''shortest_word'', 0x1080, 20) \<in> set (dalle_shares ex_vars)" by (simp add: dalle_shares_def ex_vars_def)
  then show ?thesis
    using dalle_registers [of "replicate 10 no_shared" ex_vars] by (fastforce simp: SHAREDCOUNT_def no_shared_def)
qed

text \<open>The text has no words of twenty bytes or more; \<open>tidy\<close>: nor null bytes, and its last sentence has an end.\<close>

definition short_words :: "uchar list \<Rightarrow> bool" where
  "short_words buff \<longleftrightarrow> (\<forall>a \<in> set [0..<length buff]. \<forall>e \<in> set [a..<length buff].
     list_all (\<lambda>c. \<not> ends_sentence c) (slice buff a e) \<longrightarrow> list_all (\<lambda>w. length w < 20) (split_words (slice buff a e)))"

definition tidy :: "uchar list \<Rightarrow> bool" where
  "tidy buff \<longleftrightarrow> 0 \<notin> set buff \<and> short_words buff \<and> buff \<noteq> [] \<and> ends_sentence (last buff)"

lemma short_wordsD: "short_words buff \<Longrightarrow> a \<le> e \<Longrightarrow> e < length buff \<Longrightarrow> list_all (\<lambda>c. \<not> ends_sentence c) (slice buff a e) \<Longrightarrow>
    \<forall>w \<in> set (split_words (slice buff a e)). length w < 20"
  unfolding short_words_def list_all_iff [of "\<lambda>w. length w < 20"]
  by (drule bspec [of _ _ a], simp, drule bspec [of _ _ e], simp_all)

lemma sentence_ok:
  assumes "0 \<notin> set buff" and "start \<le> fin" and "fin < length buff" and short: "\<forall>w \<in> set (split_words (slice buff start fin)). length w < 20"
  defines "ws \<equiv> split_words (slice buff start fin)"
  obtains lw sw b' where "check_current_setence buff start fin b = Some b'" and "b_cs_longest b' = lw" and "b_cs_shortest b' = sw"
    and "fold word_step ws (lit ''.'', lit ''.....'') = (lw, sw)" and "length lw < 20"
    and "b_len_longest b' = max (b_len_longest b) (of_nat (length lw))" and "b_len_shortest b' = min (b_len_shortest b) (of_nat (length sw))"
    and "b_curr_sent b' = b_curr_sent b" and "b_longest_word b' = (if of_nat (length lw) > b_len_longest b then lw else b_longest_word b)"
proof -
  obtain lw sw where f: "fold word_step ws (lit ''.'', lit ''.....'') = (lw, sw)" by fastforce
  have w: "words_loop buff fin start start (lit ''.'') (lit ''.....'') = Some (lw, sw)"
    using words_loop_eq [of buff fin start start] assms f by (fastforce simp: slice_def)
  have "lw = lit ''.'' \<or> lw \<in> set ws" using fold_longest [of ws "lit ''.''" "lit ''.....''"] f by (simp add: Let_def)
  then have l: "length lw < 20" using short by (auto simp: ws_def lit_def)
  have s: "length sw < 20" using fold_shortest [of ws "lit ''.''" "lit ''.....''"] f by (simp add: lit_def)
  let ?L = "of_nat (length lw) :: uint" and ?S = "of_nat (length sw) :: uint"
  let ?r = "b\<lparr>b_cs_shortest := sw, b_cs_longest := lw, b_len_longest := max (b_len_longest b) ?L,
     b_longest_word := (if ?L > b_len_longest b then lw else b_longest_word b), b_len_shortest := min (b_len_shortest b) ?S,
     b_shortest_word := (if ?S < b_len_shortest b then sw else b_shortest_word b)\<rparr>"
  have "check_current_setence buff start fin b = Some ?r"
    using l s by (cases "b_len_longest b < ?L"; cases "?S < b_len_shortest b")
      (simp_all add: check_current_setence_def w Let_def max_def min_def not_le not_less)
  from that [OF this] show thesis using f l by simp
qed


lemma find_end_first:
  assumes "i \<le> e" and "e < length buff" and "ends_sentence (buff ! e)" and "\<forall>k \<in> {i..<e}. \<not> ends_sentence (buff ! k)"
  shows "find_end buff i = Some e"
  using assms(1,4)
proof (induction i rule: inc_induct)
  case base
  then show ?case using assms(2,3) by (simp add: find_end.simps [of buff e])
next
  case (step n)
  then have "\<not> ends_sentence (buff ! n)" "find_end buff (Suc n) = Some e" by auto
  then show ?case using step(2) assms(2) by (simp add: find_end.simps [of buff n])
qed

lemma find_end_exists:
  assumes "i < length buff" and "ends_sentence (last buff)"
  obtains e where "find_end buff i = Some e" and "i \<le> e" and "e < length buff" and "ends_sentence (buff ! e)"
    and "list_all (\<lambda>c. \<not> ends_sentence c) (slice buff i e)"
proof -
  define e where "e = (LEAST k. i \<le> k \<and> k < length buff \<and> ends_sentence (buff ! k))"
  have "i \<le> length buff - 1 \<and> length buff - 1 < length buff \<and> ends_sentence (buff ! (length buff - 1))"
    using assms last_conv_nth [of buff] by (cases buff) auto
  from LeastI [of "\<lambda>k. i \<le> k \<and> k < length buff \<and> ends_sentence (buff ! k)", OF this]
  have e: "i \<le> e" "e < length buff" "ends_sentence (buff ! e)" unfolding e_def [symmetric] by blast+
  have before: "\<not> ends_sentence (buff ! k)" if "i \<le> k" "k < e" for k
    using not_less_Least [of k "\<lambda>k. i \<le> k \<and> k < length buff \<and> ends_sentence (buff ! k)", folded e_def] that e(2) by auto
  have "list_all (\<lambda>c. \<not> ends_sentence c) (slice buff i e)"
    using before e by (auto simp: list_all_length slice_def)
  with find_end_first [OF e] before e that show thesis by auto
qed

definition sentences :: "uchar list \<Rightarrow> nat" where
  "sentences t = length (filter ends_sentence t)"

lemma sentences_from:
  assumes "i \<le> e" and "e < length buff" and "ends_sentence (buff ! e)" and "list_all (\<lambda>c. \<not> ends_sentence c) (slice buff i e)"
  shows "sentences (drop i buff) = Suc (sentences (drop (Suc e) buff))"
proof -
  have "drop i buff = slice buff i (length buff)" by (simp add: slice_def)
  also have "\<dots> = slice buff i e @ buff ! e # drop (Suc e) buff" using slice_split [of i e "length buff" buff] assms by (simp add: slice_def)
  finally show ?thesis using assms(3,4) by (simp add: sentences_def list_all_iff filter_empty_conv)
qed

lemma lisa_loop_ok:
  "tidy buff \<Longrightarrow> list_all (\<lambda>c. c \<noteq> 3 \<and> c \<noteq> 5) cs \<Longrightarrow> sentences (drop i buff) \<le> length cs \<Longrightarrow>
   \<exists>b'. lisa_loop buff i cs b = Some (b', True) \<and> b_curr_sent b' = b_curr_sent b + of_nat (sentences (drop i buff)) \<and>
     b_len_longest b \<le> b_len_longest b'"
proof (induction "length buff - i" arbitrary: i cs b rule: less_induct)
  case less
  show ?case
  proof (cases "i < length buff")
    case False
    then show ?thesis by (simp add: lisa_loop.simps [of buff i] sentences_def)
  next
    case True
    define j where "j = (if buff ! i = 32 then i + 1 else i)"
    have lst: "ends_sentence (last buff)" "0 \<notin> set buff" using less.prems by (auto simp: tidy_def)
    have "j < length buff"
    proof (cases "buff ! i = 32")
      case sp: True
      then have "i \<noteq> length buff - 1" using lst(1) True last_conv_nth [of buff] by (cases buff) (auto simp: ends_sentence_def)
      then show ?thesis using True sp by (simp add: j_def)
    qed (use True in \<open>simp add: j_def\<close>)
    then obtain e where e: "find_end buff j = Some e" "j \<le> e" "e < length buff" "ends_sentence (buff ! e)"
        "list_all (\<lambda>c. \<not> ends_sentence c) (slice buff j e)" using find_end_exists lst(1) by blast
    have n: "sentences (drop i buff) = Suc (sentences (drop (Suc e) buff))"
      using sentences_from [OF e(2-5)] True by (auto simp: j_def sentences_def ends_sentence_def simp flip: Cons_nth_drop_Suc split: if_splits)
    then obtain c cs' where cs: "cs = c # cs'" using less.prems(3) by (cases cs) auto
    have "\<forall>w \<in> set (split_words (slice buff j e)). length w < 20"
      using less.prems(1) e short_wordsD [of buff j e] by (simp add: tidy_def)
    then obtain b1 where b1: "check_current_setence buff j e (b\<lparr>b_curr_sent := b_curr_sent b + 1\<rparr>) = Some b1"
        "b_curr_sent b1 = b_curr_sent b + 1" "b_len_longest b \<le> b_len_longest b1"
      by (rule sentence_ok [OF lst(2) e(2,3), of "b\<lparr>b_curr_sent := b_curr_sent b + 1\<rparr>"]) (auto intro: max.cobounded1)
    have "\<exists>b'. lisa_loop buff (Suc e) cs' b1 = Some (b', True) \<and> b_curr_sent b' = b_curr_sent b1 + of_nat (sentences (drop (Suc e) buff)) \<and>
        b_len_longest b1 \<le> b_len_longest b'"
      by (rule less.hyps) (use less.prems cs n e True j_def in \<open>auto split: if_splits\<close>)
    moreover have "lisa_loop buff i cs b = lisa_loop buff (Suc e) cs' b1"
      using True e(1) b1(1) less.prems(2) cs by (subst lisa_loop.simps) (simp add: j_def [symmetric] look_def)
    ultimately show ?thesis using b1(2,3) n by (auto simp: algebra_simps intro: order_trans)
  qed
qed

text \<open>
  C29: \<open>liSa\<close> reads the whole text. For a text without null bytes and long words whose last byte ends a sentence, and as long
  as it sees no command to pause or to end, it comes to the end of the text, has counted its sentences, and the
  greatest word length never went down.
\<close>

theorem lisa_reads_text:
  assumes "tidy buff" and "list_all (\<lambda>c. c \<noteq> 3 \<and> c \<noteq> 5) cs" and "sentences buff \<le> length cs"
  shows "\<exists>b'. lisa_loop buff 0 cs b = Some (b', True) \<and> b_curr_sent b' = b_curr_sent b + of_nat (sentences buff) \<and>
    b_len_longest b \<le> b_len_longest b'"
  using lisa_loop_ok [of buff cs 0 b] assms by simp

theorem lisa_reads_text_witness:
  "\<exists>b'. lisa_loop [97, 46, 32, 98, 33] 0 [4, 4] (dalle_board []) = Some (b', True) \<and> b_curr_sent b' = 2"
proof -
  have "tidy [97, 46, 32, 98, 33]" by code_simp
  then show ?thesis
    using lisa_reads_text [of "[97, 46, 32, 98, 33]" "[4, 4]" "dalle_board []"]
    by (auto simp: sentences_def ends_sentence_def dalle_board_def)
qed

text \<open>
  The shortest word is missed when each word is longer than the ones before: the words \<open>ab\<close> and \<open>cdefgh\<close> leave the string of
  five full stops that the search starts with.
\<close>

lemma shortest_word_missed:
  "map_option b_cs_shortest (check_current_setence [97, 98, 32, 99, 100, 101, 102, 103, 104, 46] 0 9 (dalle_board [])) = Some (lit ''.....'')"
proof -
  let ?t = "[97, 98, 32, 99, 100, 101, 102, 103, 104, 46] :: uchar list"
  have "split_words (slice ?t 0 9) = [[97, 98], [99, 100, 101, 102, 103, 104]]" by (simp add: slice_def)
  then have "words_loop ?t 9 0 0 (lit ''.'') (lit ''.....'') = Some ([99, 100, 101, 102, 103, 104], lit ''.....'')"
    using words_loop_eq [of ?t 9 0 0 "lit ''.''" "lit ''.....''"] by (simp add: slice_def word_step_def lit_def)
  then show ?thesis by (simp add: check_current_setence_def lit_def Let_def)
qed

text \<open>An argument shorter than the default path keeps the end of that path.\<close>

lemma dalle_path_keeps_tail:
  assumes "length a \<le> 14"
  shows "dalle_path (Some a) = Some (a @ drop (length a) (lit ''../home/README''))"
    and "dalle_path (Some a) = Some a \<longleftrightarrow> length a = 14"
  using assms by (auto simp: dalle_path_def lit_def)

end
