(* ===== verification/Ide.thy ===== *)
theory Ide
  imports Bio Sleeplock
begin

text \<open>
  The driver of the hard disk (\<^verbatim>\<open>kernel/ide.c\<close>): requests wait in a queue whose head the drive works on, and the
  interrupt handler finishes it and starts the next. The drive is a device outside the program; its record
  says what the driver relies on: registers hold what is written to them, a command takes its drive and sector from them,
  a write command takes its data from the data port and a read command gives the sector there.
\<close>

section \<open>The drive\<close>

text \<open>\<open>at_status k\<close> is the value of the \<open>k\<close>-th read of the status port; \<open>at_bus\<close> is what the data port gives when no read command
  is in progress.\<close>

record ata =
  at_status :: "nat \<Rightarrow> uchar"
  at_reads :: nat
  at_reg :: "uint \<Rightarrow> uchar"
  at_cmd :: "(bool \<times> bool \<times> nat) option"   \<comment> \<open>writing, drive 1, sector\<close>
  at_disk :: "bool \<Rightarrow> nat \<Rightarrow> uchar list"
  at_bus :: "uchar list"

definition at_sector :: "(uint \<Rightarrow> uchar) \<Rightarrow> nat" where
  "at_sector r = unat (r 0x1f3) + 256 * unat (r 0x1f4) + 65536 * unat (r 0x1f5) + 16777216 * (unat (r 0x1f6) mod 16)"

definition at_drive :: "(uint \<Rightarrow> uchar) \<Rightarrow> bool" where
  "at_drive r = (r 0x1f6 AND 0x10 \<noteq> 0)"

definition ata_outb :: "uint \<Rightarrow> uchar \<Rightarrow> ata \<Rightarrow> ata" where
  "ata_outb port v d =
     (if port = 0x1f7 then
        d\<lparr>at_cmd := (if v = 0x20 then Some (False, at_drive (at_reg d), at_sector (at_reg d))
                     else if v = 0x30 then Some (True, at_drive (at_reg d), at_sector (at_reg d)) else None)\<rparr>
      else d\<lparr>at_reg := (at_reg d)(port := v)\<rparr>)"

definition ata_outsl :: "uchar list \<Rightarrow> ata \<Rightarrow> ata" where
  "ata_outsl bs d = (case at_cmd d of
     Some (True, dr, n) \<Rightarrow> d\<lparr>at_disk := (at_disk d)(dr := (at_disk d dr)(n := bs))\<rparr> | _ \<Rightarrow> d)"

definition ata_insl :: "ata \<Rightarrow> uchar list" where
  "ata_insl d = (case at_cmd d of Some (False, dr, n) \<Rightarrow> at_disk d dr n | _ \<Rightarrow> at_bus d)"

section \<open>The driver\<close>

definition SECTOR_SIZE :: nat where "SECTOR_SIZE = 512"
definition IDE_BSY :: uchar where "IDE_BSY = 0x80"
definition IDE_DRDY :: uchar where "IDE_DRDY = 0x40"
definition IDE_DF :: uchar where "IDE_DF = 0x20"
definition IDE_ERR :: uchar where "IDE_ERR = 0x01"
definition IDE_CMD_READ :: uchar where "IDE_CMD_READ = 0x20"
definition IDE_CMD_WRITE :: uchar where "IDE_CMD_WRITE = 0x30"
definition IDE_CMD_RDMUL :: uchar where "IDE_CMD_RDMUL = 0xc4"
definition IDE_CMD_WRMUL :: uchar where "IDE_CMD_WRMUL = 0xc5"

lemmas ide_consts = SECTOR_SIZE_def IDE_BSY_def IDE_DRDY_def IDE_DF_def IDE_ERR_def IDE_CMD_READ_def IDE_CMD_WRITE_def
  IDE_CMD_RDMUL_def IDE_CMD_WRMUL_def

text \<open>\<open>idequeue\<close> is the list of the indices of the buffers that are linked by \<open>qnext\<close>.\<close>

record idesys =
  id_fs :: fsys
  idelock :: lockview
  idequeue :: "nat list"
  havedisk1 :: bool
  id_dev :: ata

definition idop :: "(fsys, 'a) kop \<Rightarrow> (idesys, 'a) kop" where
  "idop = zoom id_fs (\<lambda>f s. s\<lparr>id_fs := f\<rparr>)"

definition upd_dev :: "(ata \<Rightarrow> ata) \<Rightarrow> (idesys, unit) kop" where
  "upd_dev f = upd (\<lambda>s. s\<lparr>id_dev := f (id_dev s)\<rparr>)"

definition lock_ide :: "(idesys, unit) kop" where
  "lock_ide = seqk (idop (psop (cpuop pushcli))) (acquire idelock (\<lambda>l s. s\<lparr>idelock := l\<rparr>))"

definition unlock_ide :: "(idesys, unit) kop" where
  "unlock_ide = seqk (release idelock (\<lambda>l s. s\<lparr>idelock := l\<rparr>)) (idop (psop (cpuop popcli)))"

text \<open>The loop of \<open>idewait\<close> reads the status until the drive is ready; it spins for ever on one that never is.\<close>

partial_function (option) ready_at :: "(nat \<Rightarrow> uchar) \<Rightarrow> nat \<Rightarrow> nat option" where
  "ready_at st k = (if st k AND (IDE_BSY OR IDE_DRDY) \<noteq> IDE_DRDY then ready_at st (k + 1) else Some k)"

definition idewait :: "bool \<Rightarrow> (idesys, int) kop" where
  "idewait checkerr = bnd (gets id_dev) (\<lambda>d.
     case ready_at (at_status d) (at_reads d) of
       None \<Rightarrow> halt Spin
     | Some k \<Rightarrow>
         seqk (upd_dev (\<lambda>d. d\<lparr>at_reads := k + 1\<rparr>))
           (ret (if checkerr \<and> at_status d k AND (IDE_DF OR IDE_ERR) \<noteq> 0 then -1 else 0)))"

fun probe :: "nat \<Rightarrow> ata \<Rightarrow> bool \<times> ata" where
  "probe 0 d = (False, d)"
| "probe (Suc n) d =
     (if at_status d (at_reads d) \<noteq> 0 then (True, d\<lparr>at_reads := at_reads d + 1\<rparr>) else probe n (d\<lparr>at_reads := at_reads d + 1\<rparr>))"

text \<open>\<open>ideinit\<close> without the routing of the interrupt.\<close>

definition ideinit :: "(idesys, unit) kop" where
  "ideinit = seqk (upd (\<lambda>s. s\<lparr>idelock := Unlocked\<rparr>))
    (bnd (idewait False) (\<lambda>_.
     seqk (upd_dev (ata_outb 0x1f6 (0xe0 OR push_bit 4 1)))
    (seqk (upd (\<lambda>s. case probe 1000 (id_dev s) of (h, d) \<Rightarrow> s\<lparr>havedisk1 := havedisk1 s \<or> h, id_dev := d\<rparr>))
     (upd_dev (ata_outb 0x1f6 (0xe0 OR push_bit 4 0))))))"

definition idestart :: "nat \<Rightarrow> (idesys, unit) kop" where
  "idestart i = bnd (idop (get_buf i)) (\<lambda>b.
     if unat (b_blockno b) \<ge> FSSIZE then panic ''incorrect blockno''
     else
       (let sector_per_block = BSIZE div SECTOR_SIZE;
            sector = b_blockno b * of_nat sector_per_block;
            read_cmd = (if sector_per_block = 1 then IDE_CMD_READ else IDE_CMD_RDMUL);
            write_cmd = (if sector_per_block = 1 then IDE_CMD_WRITE else IDE_CMD_WRMUL) in
        if sector_per_block > 7 then panic ''idestart''
        else bnd (idewait False) (\<lambda>_.
          seqk (upd_dev (ata_outb 0x3f6 0))
         (seqk (upd_dev (ata_outb 0x1f2 (of_nat sector_per_block)))
         (seqk (upd_dev (ata_outb 0x1f3 (ucast (sector AND 0xff))))
         (seqk (upd_dev (ata_outb 0x1f4 (ucast (drop_bit 8 sector AND 0xff))))
         (seqk (upd_dev (ata_outb 0x1f5 (ucast (drop_bit 16 sector AND 0xff))))
         (seqk (upd_dev (ata_outb 0x1f6 (ucast (0xe0 OR push_bit 4 (b_dev b AND 1) OR (drop_bit 24 sector AND 0x0f)))))
         (if b_dirty b then seqk (upd_dev (ata_outb 0x1f7 write_cmd)) (upd_dev (ata_outsl (b_data b)))
          else upd_dev (ata_outb 0x1f7 read_cmd))))))))))"

definition ideintr :: "(idesys, unit) kop" where
  "ideintr = seqk lock_ide (bnd (gets idequeue) (\<lambda>q.
     case q of
       [] \<Rightarrow> unlock_ide
     | i # q' \<Rightarrow>
         seqk (upd (\<lambda>s. s\<lparr>idequeue := q'\<rparr>))
        (bnd (idop (get_buf i)) (\<lambda>b.
         bnd (if \<not> b_dirty b then idewait True else ret (-1)) (\<lambda>r.
         seqk (whenk (\<not> b_dirty b \<and> r \<ge> 0)
                (bnd (gets (\<lambda>s. ata_insl (id_dev s))) (\<lambda>bs. idop (upd_buf i (\<lambda>b. b\<lparr>b_data := bs\<rparr>)))))
        (seqk (idop (upd_buf i (\<lambda>b. b\<lparr>b_valid := True, b_dirty := False\<rparr>)))
        (seqk (idop (psop (wakeup (ChanBuf i))))
        (seqk (case q' of [] \<Rightarrow> ret () | j # _ \<Rightarrow> idestart j)
         unlock_ide))))))))"

text \<open>
  \<open>iderw\<close> in two parts. The first ends at the test of the waiting loop, with the lock held, and says whether the caller
  goes to sleep, which releases the lock (\<open>ide_request\<close>); the second is what the caller does when it is woken and has the
  lock again.
\<close>

definition ide_unfinished :: "nat \<Rightarrow> (idesys, bool) kop" where
  "ide_unfinished i = bnd (idop (get_buf i)) (\<lambda>b. ret (\<not> (b_valid b \<and> \<not> b_dirty b)))"

definition ide_submit :: "nat \<Rightarrow> (idesys, bool) kop" where
  "ide_submit i = bnd (idop (buf_holdingsleep i)) (\<lambda>h. bnd (idop (get_buf i)) (\<lambda>b. bnd (gets havedisk1) (\<lambda>d1.
     if \<not> h then panic ''iderw: buf not locked''
     else if b_valid b \<and> \<not> b_dirty b then panic ''iderw: nothing to do''
     else if b_dev b \<noteq> 0 \<and> \<not> d1 then panic ''iderw: ide disk 1 not present''
     else seqk lock_ide
         (seqk (upd (\<lambda>s. s\<lparr>idequeue := idequeue s @ [i]\<rparr>))
         (bnd (gets (\<lambda>s. hd (idequeue s))) (\<lambda>j.
          seqk (whenk (j = i) (idestart i))
          (ide_unfinished i)))))))"

definition ide_request :: "nat \<Rightarrow> (idesys, bool) kop" where
  "ide_request i = bnd (ide_submit i) (\<lambda>w. seqk unlock_ide (ret w))"

definition ide_woken :: "nat \<Rightarrow> (idesys, bool) kop" where
  "ide_woken i = bnd (ide_unfinished i) (\<lambda>w. if w then ret True else seqk unlock_ide (ret False))"

end
