(* ===== verification/IdeQueue.thy ===== *)
theory IdeQueue
  imports Ide FsExample
begin

text \<open>
  The disk driver serves its requests in the order in which they were made: the queue, the drive and the interrupt
  handler together behave like a disk that performs one transfer after the other.
\<close>

section \<open>Transfers\<close>

text \<open>What serving a buffer means: a dirty buffer goes to the disk, any other is filled from it.\<close>

definition on_drive :: "buf \<Rightarrow> bool" where
  "on_drive b \<longleftrightarrow> b_dev b AND 1 \<noteq> 0"

definition transfer :: "nat \<Rightarrow> buf list \<times> (bool \<Rightarrow> nat \<Rightarrow> uchar list) \<Rightarrow> buf list \<times> (bool \<Rightarrow> nat \<Rightarrow> uchar list)" where
  "transfer i = (\<lambda>(bs, d). let b = bs ! i; dr = on_drive b; n = unat (b_blockno b) in
     if b_dirty b then (bs[i := b\<lparr>b_valid := True, b_dirty := False\<rparr>], d(dr := (d dr)(n := b_data b)))
     else (bs[i := b\<lparr>b_data := d dr n, b_valid := True, b_dirty := False\<rparr>], d))"

definition put_block :: "buf \<Rightarrow> (bool \<Rightarrow> nat \<Rightarrow> uchar list) \<Rightarrow> (bool \<Rightarrow> nat \<Rightarrow> uchar list)" where
  "put_block b d = (if b_dirty b then d(on_drive b := (d (on_drive b))(unat (b_blockno b) := b_data b)) else d)"

text \<open>What the buffers and the disk are when the requests in the queue are done.\<close>

definition settled :: "idesys \<Rightarrow> buf list \<times> (bool \<Rightarrow> nat \<Rightarrow> uchar list)" where
  "settled s = fold transfer (idequeue s) (bufs (id_fs s), at_disk (id_dev s))"

lemma transfer_put: "transfer i (bs, put_block (bs ! i) d) = transfer i (bs, d)"
  by (simp add: transfer_def put_block_def Let_def)

section \<open>The drive at work\<close>

text \<open>A drive that becomes ready again and again and reports no errors.\<close>

definition works :: "ata \<Rightarrow> bool" where
  "works d \<longleftrightarrow> (\<forall>k. \<exists>j \<ge> k. at_status d j AND (IDE_BSY OR IDE_DRDY) = IDE_DRDY) \<and>
     (\<forall>k. at_status d k AND (IDE_DF OR IDE_ERR) = 0)"

definition waiting :: "buf \<Rightarrow> bool" where
  "waiting b \<longleftrightarrow> \<not> (b_valid b \<and> \<not> b_dirty b) \<and> unat (b_blockno b) < FSSIZE"

definition started :: "buf \<Rightarrow> ata \<Rightarrow> bool" where
  "started b d \<longleftrightarrow> at_cmd d = Some (b_dirty b, on_drive b, unat (b_blockno b)) \<and> put_block b (at_disk d) = at_disk d"

lemma works_same: "at_status d' = at_status d \<Longrightarrow> works d \<Longrightarrow> works d'"
  by (simp add: works_def)

lemma ready_at_returns: "\<exists>j \<ge> k. st j AND (IDE_BSY OR IDE_DRDY) = IDE_DRDY \<Longrightarrow> \<exists>j. ready_at st k = Some j"
proof -
  assume "\<exists>j \<ge> k. st j AND (IDE_BSY OR IDE_DRDY) = IDE_DRDY"
  then obtain j where "k \<le> j" "st j AND (IDE_BSY OR IDE_DRDY) = IDE_DRDY" by blast
  then show ?thesis
  proof (induction k rule: inc_induct)
    case base
    then show ?case by (subst ready_at.simps) simp
  next
    case (step n)
    then show ?case by (subst ready_at.simps) simp
  qed
qed

lemma ok_idewait:
  assumes "works (id_dev s)" and "\<And>k. Q 0 (s\<lparr>id_dev := (id_dev s)\<lparr>at_reads := k\<rparr>\<rparr>)"
  shows "ok (idewait c) s Q"
proof -
  from assms(1) obtain k where "ready_at (at_status (id_dev s)) (at_reads (id_dev s)) = Some k"
    using ready_at_returns unfolding works_def by blast
  then show ?thesis using assms by (simp add: idewait_def wp upd_dev_def works_def)
qed

lemma low_byte: "unat (ucast (w AND 0xff) :: uchar) = unat (w :: uint) mod 256"
proof -
  have "w AND 0xff = take_bit 8 w" by (simp add: take_bit_eq_mask mask_eq_exp_minus_1)
  then show ?thesis by (simp add: unsigned_ucast_eq unsigned_take_bit_eq take_bit_eq_mod unat_mod)
qed

lemma drive_byte:
  fixes x y :: uint
  assumes "x = 0 \<or> x = 1"
  shows "unat (ucast (0xe0 OR push_bit 4 x OR (0 AND y)) :: uchar) mod 16 = 0"
    and "(ucast (0xe0 OR push_bit 4 x OR (0 AND y)) :: uchar) AND 0x10 \<noteq> 0 \<longleftrightarrow> x \<noteq> 0"
  using assms by auto

lemma unat_drop: "unat (drop_bit n (w :: uint)) = unat w div 2 ^ n"
proof -
  have "take_bit 32 (unat w) = unat w" using unat_lt32 [of w] by (simp add: take_bit_nat_eq_self)
  then show ?thesis by (subst unsigned_drop_bit_eq) (simp add: drop_bit_eq_div)
qed

lemma drop_bit_zero: "unat (w :: uint) < 2 ^ n \<Longrightarrow> drop_bit n w = 0"
  using unat_drop [of n w] by (metis div_less unat_eq_zero)

lemma and_1_cases: "(w :: uint) AND 1 = 0 \<or> w AND 1 = 1"
  by (cases "even w") (simp_all add: and_one_eq even_iff_mod_2_eq_zero odd_iff_mod_2_eq_one)

lemma ok_upd_dev [wp]: "ok (upd_dev f) s Q = Q () (s\<lparr>id_dev := f (id_dev s)\<rparr>)"
  by (simp add: upd_dev_def wp)

lemma idestart_ok:
  assumes "i < length (bufs (id_fs s))" and "waiting (bufs (id_fs s) ! i)" and "works (id_dev s)"
  shows "ok (idestart i) s (\<lambda>_ s'. \<exists>d'. s' = s\<lparr>id_dev := d'\<rparr> \<and> works d' \<and> started (bufs (id_fs s) ! i) d' \<and>
     at_disk d' = put_block (bufs (id_fs s) ! i) (at_disk (id_dev s)))"
proof -
  let ?b = "bufs (id_fs s) ! i"
  have n: "unat (b_blockno ?b) < 1000" using assms(2) by (simp add: waiting_def fs_consts)
  have z: "drop_bit 16 (b_blockno ?b) = 0" "drop_bit 24 (b_blockno ?b) = 0"
    using n by (simp_all add: drop_bit_zero)
  have e8: "unat (drop_bit 8 (b_blockno ?b)) = unat (b_blockno ?b) div 256" using unat_drop [of 8] by simp
  define v where "v = (ucast (0xe0 OR push_bit 4 (b_dev ?b AND 1) OR (0 AND 0x0f)) :: uchar)"
  have v: "unat v mod 16 = 0" "v AND 0x10 \<noteq> 0 \<longleftrightarrow> on_drive ?b"
    using drive_byte [OF and_1_cases, of "b_dev ?b" "0x0f"] by (simp_all add: v_def on_drive_def)
  define d0 where "d0 k = ata_outb 0x1f6 v (ata_outb 0x1f5 (ucast (0 AND 0xff :: uint)) (ata_outb 0x1f4 (ucast (drop_bit 8 (b_blockno ?b) AND 0xff))
     (ata_outb 0x1f3 (ucast (b_blockno ?b AND 0xff)) (ata_outb 0x1f2 1 (ata_outb 0x3f6 0 ((id_dev s)\<lparr>at_reads := k\<rparr>))))))" for k
  have sector: "at_sector (at_reg (d0 k)) = unat (b_blockno ?b)" for k
    using n low_byte [of "b_blockno ?b"] low_byte [of "drop_bit 8 (b_blockno ?b)"] v(1) e8
    by (simp add: at_sector_def d0_def ata_outb_def)
  have drive: "at_drive (at_reg (d0 k)) = on_drive ?b" for k using v(2) by (simp add: at_drive_def d0_def ata_outb_def)
  have same: "at_disk (d0 k) = at_disk (id_dev s)" "at_status (d0 k) = at_status (id_dev s)" for k by (simp_all add: d0_def ata_outb_def)
  let ?Q = "\<lambda>s'. \<exists>d'. s' = s\<lparr>id_dev := d'\<rparr> \<and> works d' \<and> started ?b d' \<and> at_disk d' = put_block ?b (at_disk (id_dev s))"
  have wr: "?Q (s\<lparr>id_dev := ata_outsl (b_data ?b) (ata_outb 0x1f7 0x30 (d0 k))\<rparr>)" if "b_dirty ?b" for k
    by (intro exI conjI, rule refl) (use that assms(3) in
      \<open>simp_all add: ata_outsl_def ata_outb_def [of "0x1f7"] sector drive same started_def put_block_def works_same [OF _ assms(3)]\<close>)
  have rd: "?Q (s\<lparr>id_dev := ata_outb 0x1f7 0x20 (d0 k)\<rparr>)" if "\<not> b_dirty ?b" for k
    by (intro exI conjI, rule refl) (use that assms(3) in
      \<open>simp_all add: ata_outb_def [of "0x1f7"] sector drive same started_def put_block_def works_same [OF _ assms(3)]\<close>)
  have "ok (idewait False) s (\<lambda>_ s'. (b_dirty ?b \<longrightarrow> ?Q (s'\<lparr>id_dev := ata_outsl (b_data ?b) (ata_outb 0x1f7 0x30 (ata_outb 0x1f6 v (ata_outb 0x1f5 (ucast (0 AND 0xff :: uint))
      (ata_outb 0x1f4 (ucast (drop_bit 8 (b_blockno ?b) AND 0xff)) (ata_outb 0x1f3 (ucast (b_blockno ?b AND 0xff)) (ata_outb 0x1f2 1 (ata_outb 0x3f6 0 (id_dev s'))))))))\<rparr>)) \<and>
     (\<not> b_dirty ?b \<longrightarrow> ?Q (s'\<lparr>id_dev := ata_outb 0x1f7 0x20 (ata_outb 0x1f6 v (ata_outb 0x1f5 (ucast (0 AND 0xff :: uint))
      (ata_outb 0x1f4 (ucast (drop_bit 8 (b_blockno ?b) AND 0xff)) (ata_outb 0x1f3 (ucast (b_blockno ?b AND 0xff)) (ata_outb 0x1f2 1 (ata_outb 0x3f6 0 (id_dev s')))))))\<rparr>)))"
    by (rule ok_idewait [OF assms(3)]) (use wr rd in \<open>simp add: d0_def\<close>)
  then show ?thesis
    using n assms(1) by (simp add: idestart_def idop_def wp get_buf_def fs_consts ide_consts Let_def z v_def)
qed

section \<open>The queue\<close>

definition ide_inv :: "idesys \<Rightarrow> bool" where
  "ide_inv s \<longleftrightarrow> idelock s = Unlocked \<and> calm (ps (id_fs s)) \<and> works (id_dev s) \<and> distinct (idequeue s) \<and>
     (\<forall>i \<in> set (idequeue s). i < length (bufs (id_fs s)) \<and> waiting (bufs (id_fs s) ! i)) \<and>
     (\<forall>i q. idequeue s = i # q \<longrightarrow> started (bufs (id_fs s) ! i) (id_dev s))"

text \<open>The state with the driver's lock taken.\<close>

definition held :: "idesys \<Rightarrow> idesys" where
  "held s = s\<lparr>id_fs := (id_fs s)\<lparr>ps := (ps (id_fs s))\<lparr>pcpu := pushed (pcpu (ps (id_fs s)))\<rparr>\<rparr>, idelock := Mine\<rparr>"

lemma ok_lock_ide: "ide_inv s \<Longrightarrow> ok lock_ide s Q = Q () (held s)"
  by (simp add: lock_ide_def wp idop_def psop_def cpuop_def ide_inv_def held_def)

lemma ok_unlock_ide:
  assumes "idelock s = Mine" and "pcpu (ps (id_fs s)) = pushed c" and "cli_calm c"
    and "Q () (s\<lparr>idelock := Unlocked, id_fs := (id_fs s)\<lparr>ps := (ps (id_fs s))\<lparr>pcpu := c\<rparr>\<rparr>\<rparr>)"
  shows "ok unlock_ide s Q"
proof -
  have "\<not> cpu_if (pushed c)" "0 < cpu_ncli (pushed c)" using cli_calm_depth [OF assms(3)] by (simp_all add: pushed_def)
  then show ?thesis using assms by (simp add: unlock_ide_def wp idop_def psop_def cpuop_def popped_pushed)
qed

definition can_submit :: "nat \<Rightarrow> idesys \<Rightarrow> bool" where
  "can_submit i s \<longleftrightarrow> ide_inv s \<and> i < length (bufs (id_fs s)) \<and> waiting (bufs (id_fs s) ! i) \<and> i \<notin> set (idequeue s) \<and>
     b_lock (bufs (id_fs s) ! i) = mine (id_fs s) \<and> (b_dev (bufs (id_fs s) ! i) = 0 \<or> havedisk1 s)"

lemma held_simps: "bufs (id_fs (held s)) = bufs (id_fs s)" "id_dev (held s) = id_dev s" "idequeue (held s) = idequeue s"
    "idelock (held s) = Mine" "pcpu (ps (id_fs (held s))) = pushed (pcpu (ps (id_fs s)))"
  by (simp_all add: held_def)

lemma ok_release_held:
  assumes "cli_calm (pcpu (ps (id_fs s)))" and "s' = (held s)\<lparr>idequeue := q, id_dev := d\<rparr>" and "idelock s = Unlocked"
    and "Q () (s\<lparr>idequeue := q, id_dev := d\<rparr>)"
  shows "ok unlock_ide s' Q"
proof (rule ok_unlock_ide [OF _ _ assms(1)])
  have "s'\<lparr>idelock := Unlocked, id_fs := (id_fs s')\<lparr>ps := (ps (id_fs s'))\<lparr>pcpu := pcpu (ps (id_fs s))\<rparr>\<rparr>\<rparr> = s\<lparr>idequeue := q, id_dev := d\<rparr>"
    using assms(2,3) by (auto simp: held_def intro!: idesys.equality fsys.equality psys.equality)
  then show "Q () (s'\<lparr>idelock := Unlocked, id_fs := (id_fs s')\<lparr>ps := (ps (id_fs s'))\<lparr>pcpu := pcpu (ps (id_fs s))\<rparr>\<rparr>\<rparr>)"
    using assms(4) by simp
qed (simp_all add: assms(2) held_simps)

lemma ide_request_ok:
  assumes "can_submit i s"
  shows "ok (ide_request i) s (\<lambda>w s'. w \<and> ide_inv s' \<and> idequeue s' = idequeue s @ [i] \<and> settled s' = transfer i (settled s) \<and> id_fs s' = id_fs s)"
    (is "ok _ s ?Q")
proof -
  let ?b = "bufs (id_fs s) ! i"
  have inv: "ide_inv s" and i: "i < length (bufs (id_fs s))" "waiting ?b" "i \<notin> set (idequeue s)" and lk: "b_lock ?b = mine (id_fs s)"
    and dev: "b_dev ?b = 0 \<or> havedisk1 s" using assms by (simp_all add: can_submit_def)
  have c: "calm (ps (id_fs s))" "cli_calm (pcpu (ps (id_fs s)))" "idelock s = Unlocked" "works (id_dev s)"
    using inv by (simp_all add: ide_inv_def calm_def)
  have fl: "b_valid ?b \<Longrightarrow> b_dirty ?b" using i(2) by (auto simp: waiting_def)
  have fin: "ok unlock_ide ((held s)\<lparr>idequeue := idequeue s @ [i], id_dev := d\<rparr>) (\<lambda>_ s'. ?Q True s')"
    if "works d" "\<forall>j q. idequeue s @ [i] = j # q \<longrightarrow> started (bufs (id_fs s) ! j) d"
      "fold transfer (idequeue s @ [i]) (bufs (id_fs s), at_disk d) = transfer i (settled s)" for d
    by (rule ok_release_held [OF c(2) refl c(3)]) (use that inv i in \<open>auto simp: ide_inv_def settled_def\<close>)
  have K: "ok (ide_unfinished i) t P = P True t" if "bufs (id_fs t) = bufs (id_fs s)" for t P
    using that i fl by (auto simp: ide_unfinished_def wp idop_def get_buf_def)
  have rest: "ok (whenk (hd (idequeue s @ [i]) = i) (idestart i)) ((held s)\<lparr>idequeue := idequeue s @ [i]\<rparr>) (\<lambda>_ s'. ok (ide_unfinished i) s' (\<lambda>w s'. ok unlock_ide s' (\<lambda>_ s''. ?Q w s'')))"
  proof (cases "idequeue s")
    case Nil
    have "ok (idestart i) ((held s)\<lparr>idequeue := idequeue s @ [i]\<rparr>) (\<lambda>_ s'. \<exists>d'. s' = ((held s)\<lparr>idequeue := idequeue s @ [i]\<rparr>)\<lparr>id_dev := d'\<rparr> \<and>
        works d' \<and> started ?b d' \<and> at_disk d' = put_block ?b (at_disk (id_dev s)))"
      using idestart_ok [of i "(held s)\<lparr>idequeue := idequeue s @ [i]\<rparr>"] i c by (simp add: held_simps)
    then have "ok (idestart i) ((held s)\<lparr>idequeue := idequeue s @ [i]\<rparr>) (\<lambda>_ s'. ok (ide_unfinished i) s' (\<lambda>w s'. ok unlock_ide s' (\<lambda>_ s''. ?Q w s'')))"
      by (rule ok_mono) (use Nil fin in \<open>auto simp: settled_def transfer_put K held_simps\<close>)
    then show ?thesis using Nil by (simp add: ok_whenk)
  next
    case (Cons j q)
    have "ok unlock_ide ((held s)\<lparr>idequeue := idequeue s @ [i], id_dev := id_dev s\<rparr>) (\<lambda>_ s'. ?Q True s')"
      by (rule fin) (use Cons inv c in \<open>auto simp: ide_inv_def settled_def\<close>)
    moreover have "(held s)\<lparr>idequeue := idequeue s @ [i], id_dev := id_dev s\<rparr> = (held s)\<lparr>idequeue := idequeue s @ [i]\<rparr>"
      by (simp add: held_def)
    ultimately have "ok unlock_ide ((held s)\<lparr>idequeue := idequeue s @ [i]\<rparr>) (\<lambda>_ s'. ?Q True s')" by (simp only:)
    then show ?thesis using Cons i(3) by (auto simp: ok_whenk K held_simps)
  qed
  have "ok (buf_holdingsleep i) (id_fs s) P = P True (id_fs s)" for P
    using buf_holdingsleep_eq [OF c(1) i(1) lk] by (simp add: ok_def)
  then have "ok (ide_submit i) s (\<lambda>w s'. ok unlock_ide s' (\<lambda>_ s''. ?Q w s''))"
    using rest fl dev i(1)
    by (auto simp: ide_submit_def idop_def wp get_buf_def ok_lock_ide [OF inv] held_simps)
  then show ?thesis by (simp add: ide_request_def wp)
qed

lemma transfer_done: "i < length bs \<Longrightarrow> transfer i (bs, d) =
    (bs[i := (bs ! i)\<lparr>b_data := (if b_dirty (bs ! i) then b_data (bs ! i) else d (on_drive (bs ! i)) (unat (b_blockno (bs ! i)))),
       b_valid := True, b_dirty := False\<rparr>], put_block (bs ! i) d)"
  by (simp add: transfer_def put_block_def Let_def)

lemma ok_wakeup_ide:
  assumes "calm p" and "ps (id_fs s) = p\<lparr>pcpu := pushed (pcpu p)\<rparr>"
  shows "ok (idop (psop (wakeup ch))) s Q = Q () (s\<lparr>id_fs := (id_fs s)\<lparr>ps := p\<lparr>procs := map (woken ch) (procs p), pcpu := pushed (pcpu p)\<rparr>\<rparr>\<rparr>)"
proof -
  have c: "ptable_lock (ps (id_fs s)) = Unlocked" "0 \<le> cpu_ncli (pcpu (ps (id_fs s)))" "cli_calm (pcpu p)"
    using assms cli_calm_depth [of "pcpu p"] by (auto simp: calm_def pushed_def)
  then show ?thesis
    using assms(2) by (simp add: idop_def psop_def ok_zoom) (simp add: ok_def wakeup_eq popped_pushed)
qed

lemma ok_get_buf_ide: "i < length (bufs (id_fs s)) \<Longrightarrow> ok (idop (get_buf i)) s Q = Q (bufs (id_fs s) ! i) s"
  by (simp add: idop_def get_buf_def wp)

lemma ok_upd_buf_ide: "ok (idop (upd_buf i f)) s Q = Q () (s\<lparr>id_fs := set_buf i f (id_fs s)\<rparr>)"
  by (simp add: idop_def upd_buf_def wp)

text \<open>The buffer at the head when its request is done, and the state in which the handler starts the next request.\<close>

definition served :: "nat \<Rightarrow> idesys \<Rightarrow> buf" where
  "served i s = (let b = bufs (id_fs s) ! i in b\<lparr>b_data := (if b_dirty b then b_data b else at_disk (id_dev s) (on_drive b) (unat (b_blockno b))),
     b_valid := True, b_dirty := False\<rparr>)"

definition serving :: "nat \<Rightarrow> ata \<Rightarrow> idesys \<Rightarrow> idesys" where
  "serving i d s = s\<lparr>id_fs := (id_fs s)\<lparr>bufs := (bufs (id_fs s))[i := served i s],
     ps := (ps (id_fs s))\<lparr>procs := map (woken (ChanBuf i)) (procs (ps (id_fs s))), pcpu := pushed (pcpu (ps (id_fs s)))\<rparr>\<rparr>,
     idelock := Mine, idequeue := tl (idequeue s), id_dev := d\<rparr>"

definition intr_done :: "nat \<Rightarrow> idesys \<Rightarrow> idesys \<Rightarrow> bool" where
  "intr_done i s s' \<longleftrightarrow> ide_inv s' \<and> idequeue s' = tl (idequeue s) \<and> settled s' = settled s \<and>
     b_valid (bufs (id_fs s') ! i) \<and> \<not> b_dirty (bufs (id_fs s') ! i) \<and>
     procs (ps (id_fs s')) = map (woken (ChanBuf i)) (procs (ps (id_fs s)))"

lemma ide_invD:
  assumes "ide_inv s" and "idequeue s = i # q"
  shows "i < length (bufs (id_fs s))" "started (bufs (id_fs s) ! i) (id_dev s)" "calm (ps (id_fs s))" "works (id_dev s)"
    "idelock s = Unlocked" "distinct (i # q)" "\<forall>j \<in> set q. j < length (bufs (id_fs s)) \<and> waiting (bufs (id_fs s) ! j)"
  using assms by (auto simp: ide_inv_def)

lemma settled_head:
  assumes "ide_inv s" and "idequeue s = i # q"
  shows "settled s = fold transfer q ((bufs (id_fs s))[i := served i s], at_disk (id_dev s))"
  using ide_invD(1,2) [OF assms] assms(2) by (simp add: settled_def transfer_done served_def Let_def started_def)

lemma serving_unlock:
  assumes inv: "ide_inv s" and q: "idequeue s = i # q" and d: "works d"
    and "fold transfer q ((bufs (id_fs s))[i := served i s], at_disk d) = settled s"
    and "\<forall>j r. q = j # r \<longrightarrow> started (bufs (id_fs s) ! j) d"
  shows "ok unlock_ide (serving i d s) (\<lambda>_. intr_done i s)"
proof (rule ok_unlock_ide)
  let ?p = "ps (id_fs s)"
  note I = ide_invD [OF inv q]
  have bj: "(bufs (id_fs s))[i := served i s] ! j = bufs (id_fs s) ! j" if "j \<in> set q" for j using I(6) that by (cases "j = i") auto
  show "idelock (serving i d s) = Mine" "pcpu (ps (id_fs (serving i d s))) = pushed (pcpu ?p)" "cli_calm (pcpu ?p)"
    using I(3) by (simp_all add: serving_def calm_def)
  let ?t = "(serving i d s)\<lparr>idelock := Unlocked, id_fs := (id_fs (serving i d s))\<lparr>ps := (ps (id_fs (serving i d s)))\<lparr>pcpu := pcpu ?p\<rparr>\<rparr>\<rparr>"
  have "settled ?t = settled s" unfolding assms(4) [symmetric] by (simp add: settled_def serving_def q)
  then show "intr_done i s ?t"
    unfolding intr_done_def using assms(3,5) I bj q
    by (auto simp: serving_def ide_inv_def calm_def served_def Let_def split: option.splits)
qed

lemma serving_next:
  assumes inv: "ide_inv s" and q: "idequeue s = i # q" and d: "works d" "at_disk d = at_disk (id_dev s)"
  shows "ok (case q of [] \<Rightarrow> ret () | j # _ \<Rightarrow> idestart j) (serving i d s) (\<lambda>_ s'. ok unlock_ide s' (\<lambda>_. intr_done i s))"
proof (cases q)
  case Nil
  then show ?thesis using serving_unlock [OF inv q d(1)] d(2) settled_head [OF inv q] by (simp add: ok_ret)
next
  case (Cons j r)
  note I = ide_invD [OF inv q]
  let ?bs = "(bufs (id_fs s))[i := served i s]"
  have bj: "?bs ! j = bufs (id_fs s) ! j" using I(6) Cons by (cases "j = i") auto
  have "ok (idestart j) (serving i d s) (\<lambda>_ s'. \<exists>d'. s' = (serving i d s)\<lparr>id_dev := d'\<rparr> \<and> works d' \<and> started (?bs ! j) d' \<and>
      at_disk d' = put_block (?bs ! j) (at_disk (id_dev s)))"
    using idestart_ok [of j "serving i d s"] I(7) bj Cons d by (simp add: serving_def)
  then have "ok (idestart j) (serving i d s) (\<lambda>_ s'. ok unlock_ide s' (\<lambda>_. intr_done i s))"
  proof (rule ok_mono)
    fix s' assume "\<exists>d'. s' = (serving i d s)\<lparr>id_dev := d'\<rparr> \<and> works d' \<and> started (?bs ! j) d' \<and> at_disk d' = put_block (?bs ! j) (at_disk (id_dev s))"
    then obtain d' where d': "s' = serving i d' s" "works d'" "started (?bs ! j) d'" "at_disk d' = put_block (?bs ! j) (at_disk (id_dev s))"
      by (auto simp: serving_def)
    have "fold transfer q (?bs, at_disk d') = settled s" using settled_head [OF inv q] Cons d'(4) by (simp add: transfer_put)
    then show "ok unlock_ide s' (\<lambda>_. intr_done i s)" using serving_unlock [OF inv q d'(2)] d' Cons bj by simp
  qed
  then show ?thesis using Cons by simp
qed

text \<open>The handler after the data of the buffer are in place.\<close>

lemma intr_rest:
  assumes inv: "ide_inv s" and q: "idequeue s = i # q" and d: "works d" "at_disk d = at_disk (id_dev s)"
    and c: "c\<lparr>b_valid := True, b_dirty := False\<rparr> = served i s"
    and u: "u = (held s)\<lparr>idequeue := q, id_fs := (id_fs (held s))\<lparr>bufs := (bufs (id_fs s))[i := c]\<rparr>, id_dev := d\<rparr>"
  shows "ok (seqk (idop (upd_buf i (\<lambda>b. b\<lparr>b_valid := True, b_dirty := False\<rparr>))) (seqk (idop (psop (wakeup (ChanBuf i))))
     (seqk (case q of [] \<Rightarrow> ret () | j # _ \<Rightarrow> idestart j) unlock_ide))) u (\<lambda>_. intr_done i s)"
proof -
  note I = ide_invD [OF inv q]
  let ?p = "ps (id_fs s)" and ?v = "u\<lparr>id_fs := set_buf i (\<lambda>b. b\<lparr>b_valid := True, b_dirty := False\<rparr>) (id_fs u)\<rparr>"
  have e: "?v\<lparr>id_fs := (id_fs ?v)\<lparr>ps := ?p\<lparr>procs := map (woken (ChanBuf i)) (procs ?p), pcpu := pushed (pcpu ?p)\<rparr>\<rparr>\<rparr> = serving i d s"
    using c I(1) q by (simp add: u serving_def held_def set_buf_def)
  have v: "ps (id_fs ?v) = ?p\<lparr>pcpu := pushed (pcpu ?p)\<rparr>" by (simp add: u held_def set_buf_def)
  show ?thesis unfolding ok_seqk ok_upd_buf_ide ok_wakeup_ide [OF I(3) v] e by (rule serving_next [OF inv q d])
qed

lemma ideintr_ok:
  assumes inv: "ide_inv s" and q: "idequeue s = i # q"
  shows "ok ideintr s (\<lambda>_. intr_done i s)"
proof -
  note I = ide_invD [OF inv q]
  let ?b = "bufs (id_fs s) ! i" and ?u = "(held s)\<lparr>idequeue := q\<rparr>"
  let ?rest = "seqk (idop (upd_buf i (\<lambda>b. b\<lparr>b_valid := True, b_dirty := False\<rparr>))) (seqk (idop (psop (wakeup (ChanBuf i))))
     (seqk (case q of [] \<Rightarrow> ret () | j # _ \<Rightarrow> idestart j) unlock_ide))"
  let ?read = "bnd (gets (\<lambda>s. ata_insl (id_dev s))) (\<lambda>bs. idop (upd_buf i (\<lambda>b. b\<lparr>b_data := bs\<rparr>)))"
  have "ok (bnd (if \<not> b_dirty ?b then idewait True else ret (-1)) (\<lambda>r. seqk (whenk (\<not> b_dirty ?b \<and> r \<ge> 0) ?read) ?rest)) ?u (\<lambda>_. intr_done i s)"
  proof (cases "b_dirty ?b")
    case True
    have "ok ?rest ?u (\<lambda>_. intr_done i s)"
      by (rule intr_rest [OF inv q I(4) refl, of ?b]) (use True in \<open>simp_all add: served_def held_def Let_def\<close>)
    then show ?thesis using True by (simp add: ok_bnd ok_ret ok_seqk [of "whenk _ _"] ok_whenk)
  next
    case False
    have data: "ata_insl ((id_dev s)\<lparr>at_reads := k\<rparr>) = at_disk (id_dev s) (on_drive ?b) (unat (b_blockno ?b))" for k
      using I(2) False by (simp add: ata_insl_def started_def)
    have "ok ?rest (?u\<lparr>id_dev := (id_dev s)\<lparr>at_reads := k\<rparr>, id_fs := set_buf i (\<lambda>b. b\<lparr>b_data := ata_insl ((id_dev s)\<lparr>at_reads := k\<rparr>)\<rparr>) (id_fs ?u)\<rparr>) (\<lambda>_. intr_done i s)" for k
      by (rule intr_rest [OF inv q, where c = "?b\<lparr>b_data := at_disk (id_dev s) (on_drive ?b) (unat (b_blockno ?b))\<rparr>" and d = "(id_dev s)\<lparr>at_reads := k\<rparr>"])
        (use False I(4) works_same [of "(id_dev s)\<lparr>at_reads := k\<rparr>" "id_dev s"] in \<open>simp_all add: data held_def set_buf_def served_def Let_def\<close>)
    then have "ok (idewait True) ?u (\<lambda>r s'. ok (seqk (whenk (\<not> b_dirty ?b \<and> r \<ge> 0) ?read) ?rest) s' (\<lambda>_. intr_done i s))"
      by (intro ok_idewait) (use False I(4) in \<open>simp_all add: held_simps ok_seqk [of "whenk _ _"] ok_whenk ok_bnd ok_gets ok_upd_buf_ide\<close>)
    then show ?thesis using False by (simp add: ok_bnd)
  qed
  then show ?thesis
    using I(1) q by (simp add: ideintr_def ok_seqk [of lock_ide] ok_lock_ide [OF inv] ok_bnd [of "gets _"] ok_gets held_simps
      ok_seqk [of "upd _"] ok_upd ok_bnd [of "idop (get_buf _)"] ok_get_buf_ide)
qed
lemma interrupts_settle:
  "ide_inv s \<Longrightarrow> ok (repeatk (length (idequeue s)) ideintr) s (\<lambda>_ s'. ide_inv s' \<and> idequeue s' = [] \<and>
     (bufs (id_fs s'), at_disk (id_dev s')) = settled s)"
proof (induction "idequeue s" arbitrary: s)
  case Nil
  then show ?case by (simp add: wp settled_def flip: Nil(1))
next
  case (Cons i q)
  have "ok ideintr s (\<lambda>_ s'. ok (repeatk (length q) ideintr) s' (\<lambda>_ s''. ide_inv s'' \<and> idequeue s'' = [] \<and>
      (bufs (id_fs s''), at_disk (id_dev s'')) = settled s))"
  proof (rule ok_mono [OF ideintr_ok [OF Cons.prems Cons.hyps(2) [symmetric]]])
    fix s' assume "intr_done i s s'"
    then have s': "ide_inv s'" "idequeue s' = q" "settled s' = settled s" using Cons.hyps(2) [symmetric] by (auto simp: intr_done_def)
    show "ok (repeatk (length q) ideintr) s' (\<lambda>_ s''. ide_inv s'' \<and> idequeue s'' = [] \<and> (bufs (id_fs s''), at_disk (id_dev s'')) = settled s)"
      using Cons.hyps(1) [of s'] s' by simp
  qed
  then show ?case by (simp add: wp flip: Cons.hyps(2))
qed

text \<open>The in-memory disk does the same transfer at once.\<close>

lemma memory_disk_transfer:
  assumes "calm (ps s)" and "i < length (bufs s)" and "b_lock (bufs s ! i) = mine s" and "\<not> (b_valid (bufs s ! i) \<and> \<not> b_dirty (bufs s ! i))"
    and "b_dev (bufs s ! i) = 1" and "unat (b_blockno (bufs s ! i)) < disksize s"
  shows "ok (iderw i) s (\<lambda>_ s'. bufs s' = fst (transfer i (bufs s, \<lambda>_ n. disk s (of_nat n))) \<and>
     (\<forall>b. disk s' b = snd (transfer i (bufs s, \<lambda>_ n. disk s (of_nat n))) True (unat b)))"
proof -
  have "ok (buf_holdingsleep i) s P = P True s" for P
    using buf_holdingsleep_eq [OF assms(1-3)] by (simp add: ok_def)
  then show ?thesis
    using assms by (cases "b_dirty (bufs s ! i)") (simp_all add: word_unat_eq_iff [of _ "b_blockno (bufs s ! i)"] iderw_def wp get_buf_def
      upd_buf_def set_buf_def write_disk_def transfer_def Let_def on_drive_def,
      (rule arg_cong [where f = "list_update (bufs s) i"], rule buf.equality, simp_all)+)
qed

section \<open>Properties\<close>

text \<open>
  C8: the disk driver serves requests in order. With a drive that becomes ready and reports no errors, a request
  returns to the point where its caller goes to sleep and adds one transfer after all those still in the queue; and
  as many interrupts as there are requests in the queue finish all of them, after which the buffers and the
  disk are what the transfers make of them one after the other.
\<close>

theorem ide_serves_in_order:
  assumes "ide_inv s"
  shows "(\<forall>i. can_submit i s \<longrightarrow> ok (ide_request i) s (\<lambda>w s'. w \<and> ide_inv s' \<and> idequeue s' = idequeue s @ [i] \<and> settled s' = transfer i (settled s))) \<and>
    ok (repeatk (length (idequeue s)) ideintr) s (\<lambda>_ s'. ide_inv s' \<and> idequeue s' = [] \<and> (bufs (id_fs s'), at_disk (id_dev s')) = settled s)"
proof (intro conjI allI impI)
  fix i assume "can_submit i s"
  then show "ok (ide_request i) s (\<lambda>w s'. w \<and> ide_inv s' \<and> idequeue s' = idequeue s @ [i] \<and> settled s' = transfer i (settled s))"
    by (rule ok_mono [OF ide_request_ok]) auto
qed (rule interrupts_settle [OF assms])

definition ex_ata :: ata where
  "ex_ata = \<lparr>at_status = (\<lambda>_. 0x40), at_reads = 0, at_reg = (\<lambda>_. 0), at_cmd = None, at_disk = (\<lambda>_ _. replicate 512 0), at_bus = []\<rparr>"

definition ex_ide :: idesys where
  "ex_ide = \<lparr>id_fs = ex_fs\<lparr>bufs := [ex_dirty\<lparr>b_lock := mine ex_fs\<rparr>]\<rparr>, idelock = Unlocked, idequeue = [], havedisk1 = True, id_dev = ex_ata\<rparr>"

lemma ex_ide_ok: "ide_inv ex_ide" "can_submit 0 ex_ide"
proof -
  show "ide_inv ex_ide"
    using ex_calm by (auto simp: ide_inv_def ex_ide_def ex_fs_def works_def ex_ata_def ide_consts)
  then show "can_submit 0 ex_ide"
    by (simp add: can_submit_def) (simp add: ex_ide_def waiting_def mine_def fs_consts ex_fs_def)
qed

theorem ide_serves_in_order_witness:
  "\<exists>s1 s2 ws. ide_request 0 ex_ide = Done True s1 \<and> idequeue s1 = [0] \<and> repeatk 1 ideintr s1 = Done ws s2 \<and>
     idequeue s2 = [] \<and> at_disk (id_dev s2) True 50 = replicate 512 7"
proof -
  obtain s1 where s1: "ide_request 0 ex_ide = Done True s1" "ide_inv s1" "idequeue s1 = [0]" "settled s1 = transfer 0 (settled ex_ide)"
    using ide_serves_in_order [OF ex_ide_ok(1)] ex_ide_ok(2) by (auto simp: ok_Done ex_ide_def)
  then obtain ws s2 where s2: "repeatk 1 ideintr s1 = Done ws s2" "idequeue s2 = []" "(bufs (id_fs s2), at_disk (id_dev s2)) = settled s1"
    using ide_serves_in_order [OF s1(2)] by (auto simp: ok_Done simp del: repeatk.simps)
  have "snd (settled s1) True 50 = replicate 512 7"
    unfolding s1(4) by (simp add: settled_def ex_ide_def transfer_def Let_def on_drive_def)
  then show ?thesis using s1 s2 by (metis snd_conv)
qed

end
