(* ===== verification/Kbd.thy ===== *)
theory Kbd
  imports Console
begin

text \<open>
  The keyboard (\<^verbatim>\<open>kernel/kbd.c\<close> with the tables of \<^verbatim>\<open>kernel/kbd.h\<close>): the state machine that turns the scan codes
  of keys pressed and released into characters. The controller is the list of the scan codes that
  wait in it.
\<close>

section \<open>Tables\<close>

text \<open>A C array with the values of its initialiser, in order and by index, and 0 elsewhere.\<close>

definition initialised :: "uchar list \<Rightarrow> (nat \<times> uchar) list \<Rightarrow> nat \<Rightarrow> uchar" where
  "initialised vs ds k = (case map_of ds k of Some v \<Rightarrow> v | None \<Rightarrow> if k < length vs then vs ! k else 0)"

definition SHIFT :: uint where "SHIFT = 1"
definition CTL :: uint where "CTL = 2"
definition ALT :: uint where "ALT = 4"
definition CAPSLOCK :: uint where "CAPSLOCK = 8"
definition NUMLOCK :: uint where "NUMLOCK = 16"
definition SCROLLLOCK :: uint where "SCROLLLOCK = 32"
definition E0ESC :: uint where "E0ESC = 64"

definition shiftcode :: "nat \<Rightarrow> uchar" where
  "shiftcode = initialised [] [(0x1D, ucast CTL), (0x2A, ucast SHIFT), (0x36, ucast SHIFT), (0x38, ucast ALT), (0x9D, ucast CTL), (0xB8, ucast ALT)]"

definition togglecode :: "nat \<Rightarrow> uchar" where
  "togglecode = initialised [] [(0x3A, ucast CAPSLOCK), (0x45, ucast NUMLOCK), (0x46, ucast SCROLLLOCK)]"

definition normalmap :: "nat \<Rightarrow> uchar" where
  "normalmap = initialised
     [0, 27, 49, 50, 51, 52, 53, 54, 55, 56, 57, 48, 45, 61, 8, 9,
      113, 119, 101, 114, 116, 121, 117, 105, 111, 112, 91, 93, 10, 0, 97, 115,
      100, 102, 103, 104, 106, 107, 108, 59, 39, 96, 0, 92, 122, 120, 99, 118,
      98, 110, 109, 44, 46, 47, 0, 42, 0, 32, 0, 0, 0, 0, 0, 0,
      0, 0, 0, 0, 0, 0, 0, 55, 56, 57, 45, 52, 53, 54, 43, 49,
      50, 51, 48, 46, 0, 0, 0, 0]
     [(0x9C, 10), (0xB5, 47), (0xC8, 226), (0xD0, 227), (0xC9, 230), (0xD1, 231), (0xCB, 228), (0xCD, 229), (0x97, 224), (0xCF, 225), (0xD2, 232), (0xD3, 233)]"

definition shiftmap :: "nat \<Rightarrow> uchar" where
  "shiftmap = initialised
     [0, 27, 33, 64, 35, 36, 37, 94, 38, 42, 40, 41, 95, 43, 8, 9,
      81, 87, 69, 82, 84, 89, 85, 73, 79, 80, 123, 125, 10, 0, 65, 83,
      68, 70, 71, 72, 74, 75, 76, 58, 34, 126, 0, 124, 90, 88, 67, 86,
      66, 78, 77, 60, 62, 63, 0, 42, 0, 32, 0, 0, 0, 0, 0, 0,
      0, 0, 0, 0, 0, 0, 0, 55, 56, 57, 45, 52, 53, 54, 43, 49,
      50, 51, 48, 46, 0, 0, 0, 0]
     [(0x9C, 10), (0xB5, 47), (0xC8, 226), (0xD0, 227), (0xC9, 230), (0xD1, 231), (0xCB, 228), (0xCD, 229), (0x97, 224), (0xCF, 225), (0xD2, 232), (0xD3, 233)]"

definition ctlmap :: "nat \<Rightarrow> uchar" where
  "ctlmap = initialised
     [0, 0, 0, 0, 0, 0, 0, 0, 0, 0, 0, 0, 0, 0, 0, 0,
      17, 23, 5, 18, 20, 25, 21, 9, 15, 16, 0, 0, 13, 0, 1, 19,
      4, 6, 7, 8, 10, 11, 12, 0, 0, 0, 0, 28, 26, 24, 3, 22,
      2, 14, 13, 0, 0, 239, 0, 0]
     [(0x9C, 13), (0xB5, 239), (0xC8, 226), (0xD0, 227), (0xC9, 230), (0xD1, 231), (0xCB, 228), (0xCD, 229), (0x97, 224), (0xCF, 225), (0xD2, 232), (0xD3, 233)]"

definition charcode :: "uint \<Rightarrow> nat \<Rightarrow> uchar" where
  "charcode m = [normalmap, shiftmap, ctlmap, ctlmap] ! unat m"

section \<open>The state machine\<close>

text \<open>\<open>kbdgetc\<close> after it has read a scan code: the result and the modifiers.\<close>

definition kbd_code :: "uint \<Rightarrow> uchar \<Rightarrow> uint \<times> uint" where
  "kbd_code shift code =
     (let data = ucast code :: uint in
      if data = 0xE0 then (0, shift OR E0ESC)
      else if data AND 0x80 \<noteq> 0 then
        (let data = (if shift AND E0ESC \<noteq> 0 then data else data AND 0x7F) in
         (0, shift AND NOT (ucast (shiftcode (unat data)) OR E0ESC)))
      else
        (let data = (if shift AND E0ESC \<noteq> 0 then data OR 0x80 else data);
             shift = (if shift AND E0ESC \<noteq> 0 then shift AND NOT E0ESC else shift);
             shift = shift OR ucast (shiftcode (unat data));
             shift = shift XOR ucast (togglecode (unat data));
             c = ucast (charcode (shift AND (CTL OR SHIFT)) (unat data)) :: uint;
             c = (if shift AND CAPSLOCK \<noteq> 0 then
                    (if 97 \<le> c \<and> c \<le> 122 then c + 65 - 97 else if 65 \<le> c \<and> c \<le> 90 then c + 97 - 65 else c)
                  else c) in
         (c, shift)))"

text \<open>With no scan code waiting \<open>kbdgetc\<close> returns -1, and \<open>consoleintr\<close> stops calling it.\<close>

definition kbdgetc :: "uint \<Rightarrow> uchar list \<Rightarrow> int \<times> uint \<times> uchar list" where
  "kbdgetc shift codes = (case codes of
     [] \<Rightarrow> (-1, shift, [])
   | code # rest \<Rightarrow> (case kbd_code shift code of (c, shift') \<Rightarrow> (uint c, shift', rest)))"

fun kbd_chars :: "uint \<Rightarrow> uchar list \<Rightarrow> uint list \<times> uint" where
  "kbd_chars shift codes = (case codes of
     [] \<Rightarrow> ([], shift)
   | code # rest \<Rightarrow> (case kbdgetc shift codes of (c, shift', _) \<Rightarrow>
       (case kbd_chars shift' rest of (cs, shift'') \<Rightarrow> (of_int c # cs, shift''))))"

definition kbdintr :: "uint \<Rightarrow> uchar list \<Rightarrow> (fsys, bool \<times> uint) kop" where
  "kbdintr shift codes = (case kbd_chars shift codes of (cs, shift') \<Rightarrow>
     bnd (consoleintr cs) (\<lambda>dump. ret (dump, shift')))"

section \<open>Typing\<close>

text \<open>
  The scan codes of somebody who types a character: its key pressed and released, between a press and a release of
  the left shift key if it needs one.
\<close>

definition typing :: "uchar \<Rightarrow> uchar list" where
  "typing c = (case find (\<lambda>k. normalmap k = c) [0..<84] of
     Some k \<Rightarrow> [of_nat k, of_nat k OR 0x80]
   | None \<Rightarrow> (case find (\<lambda>k. shiftmap k = c) [0..<84] of
       Some k \<Rightarrow> [0x2A, of_nat k, of_nat k OR 0x80, 0xAA] | None \<Rightarrow> []))"

definition typable :: "uchar \<Rightarrow> bool" where
  "typable c \<longleftrightarrow> c \<noteq> 0 \<and> typing c \<noteq> []"

declare kbd_chars.simps [simp del]

lemma kbd_chars_Nil [simp]: "kbd_chars s [] = ([], s)"
  by (simp add: kbd_chars.simps)

lemma kbd_chars_Cons [simp]: "kbd_chars s (k # ks) = (case kbd_code s k of (c, s') \<Rightarrow> (case kbd_chars s' ks of (cs, s'') \<Rightarrow> (c # cs, s'')))"
  by (simp add: kbd_chars.simps [of _ "k # ks"] kbdgetc_def split: prod.splits)

lemma kbd_chars_append:
  "kbd_chars s (xs @ ys) = (case kbd_chars s xs of (cs, s') \<Rightarrow> (case kbd_chars s' ys of (ds, s'') \<Rightarrow> (cs @ ds, s'')))"
  by (induction xs arbitrary: s) (auto split: prod.splits)

lemma and_bit7: "w AND 0x80 = 0 \<longleftrightarrow> \<not> bit w 7" for w :: uint
  using and_exp_eq_0_iff_not_bit [of w 7] by simp

lemma code_word: "k < 128 \<Longrightarrow> (ucast (of_nat k :: uchar) :: uint) = of_nat k"
  by (simp add: word_unat_eq_iff unsigned_ucast_eq unat_of_nat take_bit_nat_eq_self)

lemma bit7_less: "k < 128 \<Longrightarrow> \<not> bit (of_nat k :: uint) 7"
  by (simp add: bit_of_nat_iff bit_iff_odd [of k])

lemma low_7: "k < 128 \<Longrightarrow> (of_nat k OR 0x80) AND 0x7F = (of_nat k :: uint)"
proof -
  assume k: "k < 128"
  have m: "w AND 0x7F = take_bit 7 w" for w :: uint by (simp add: take_bit_eq_mask mask_eq_exp_minus_1)
  have "(of_nat k OR 0x80) AND 0x7F = (of_nat k AND 0x7F :: uint)" by (simp add: bit.conj_disj_distrib2)
  also have "\<dots> = of_nat k" using k unfolding m by (simp add: take_bit_of_nat take_bit_nat_eq_self)
  finally show ?thesis .
qed

lemma press_key:
  assumes "k < 128" and "shiftcode k = 0" and "togglecode k = 0" and "s = 0 \<or> s = SHIFT"
  shows "kbd_code s (of_nat k) = (ucast (if s = 0 then normalmap k else shiftmap k), s)"
proof -
  have "of_nat k \<noteq> (0xE0 :: uint)" using assms(1) by (simp add: word_unat_eq_iff unat_of_nat)
  moreover have "(of_nat k :: uint) AND 0x80 = 0" using bit7_less [OF assms(1)] by (simp add: and_bit7)
  moreover have "unat (of_nat k :: uint) = k" using assms(1) by (simp add: unat_of_nat)
  ultimately show ?thesis
    using assms by (auto simp: kbd_code_def code_word SHIFT_def E0ESC_def CTL_def CAPSLOCK_def charcode_def)
qed

lemma release_key:
  assumes "k < 128" and "k \<noteq> 0x60" and "s AND E0ESC = 0"
  shows "kbd_code s (of_nat k OR 0x80) = (0, s AND NOT (ucast (shiftcode k) OR E0ESC))"
proof -
  have w: "(ucast (of_nat k OR 0x80 :: uchar) :: uint) = of_nat k OR 0x80" using code_word [OF assms(1)] by (simp add: unsigned_or_eq)
  have u: "unat (of_nat k :: uint) = k" using assms(1) by (simp add: unat_of_nat)
  have "of_nat k OR 0x80 \<noteq> (0xE0 :: uint)"
  proof
    assume "of_nat k OR 0x80 = (0xE0 :: uint)"
    then have "(of_nat k OR 0x80) AND 0x7F = (0xE0 AND 0x7F :: uint)" by simp
    then have "(of_nat k :: uint) = 0x60" unfolding low_7 [OF assms(1)] by simp
    then show False using u assms(2) by simp
  qed
  moreover have "(of_nat k OR 0x80) AND 0x80 \<noteq> (0 :: uint)" unfolding and_bit7 by (simp add: bit_or_iff)
  ultimately show ?thesis using assms(3) by (simp add: kbd_code_def w low_7 [OF assms(1)] u)
qed
lemma table_modifiers:
  "k < 84 \<Longrightarrow> shiftcode k \<noteq> 0 \<or> togglecode k \<noteq> 0 \<Longrightarrow> k \<in> {0x1D, 0x2A, 0x36, 0x38, 0x3A, 0x45, 0x46}"
  by (auto simp: shiftcode_def togglecode_def initialised_def split: if_splits)

lemma normalmap_modifiers:
  "k \<in> {0x1D, 0x2A, 0x36, 0x38, 0x3A, 0x45, 0x46} \<Longrightarrow> normalmap k = 0"
  unfolding normalmap_def initialised_def by auto

lemma shiftmap_modifiers:
  "k \<in> {0x1D, 0x2A, 0x36, 0x38, 0x3A, 0x45, 0x46} \<Longrightarrow> shiftmap k = 0"
  unfolding shiftmap_def initialised_def by auto

lemma no_modifier:
  assumes "k < 84" and "normalmap k \<noteq> 0 \<or> shiftmap k \<noteq> 0"
  shows "shiftcode k = 0" "togglecode k = 0"
  using table_modifiers [OF assms(1)] normalmap_modifiers [of k] shiftmap_modifiers [of k] assms(2) by blast+

lemma press_shift: "kbd_code 0 0x2A = (0, SHIFT)"
proof -
  have "shiftcode 42 = 1" "togglecode 42 = 0"
    by (simp_all add: shiftcode_def togglecode_def initialised_def SHIFT_def)
  then show ?thesis
    by (simp add: kbd_code_def E0ESC_def CTL_def SHIFT_def CAPSLOCK_def charcode_def shiftmap_modifiers)
qed

lemma release_shift: "kbd_code SHIFT 0xAA = (0, 0)"
  by (simp add: kbd_code_def shiftcode_def initialised_def E0ESC_def SHIFT_def)

text \<open>A key pressed and released under a constant shift state gives its character and leaves the state.\<close>

lemma strike:
  assumes "k < 84" and "s = 0 \<or> s = SHIFT" and "(if s = 0 then normalmap k else shiftmap k) = c" and "c \<noteq> 0"
  shows "kbd_chars s [of_nat k, of_nat k OR 0x80] = ([ucast c, 0], s)"
proof -
  have z: "shiftcode k = 0" "togglecode k = 0" using assms no_modifier [of k] by (auto split: if_splits)
  have "kbd_code s (of_nat k) = (ucast c, s)" using press_key [of k s] z assms by simp
  moreover have "kbd_code s (of_nat k OR 0x80) = (0, s)"
    using release_key [of k s] z assms(1,2) by (auto simp: E0ESC_def SHIFT_def)
  ultimately show ?thesis by simp
qed

lemma ucast_eq_0: "(ucast c :: uint) = 0 \<longleftrightarrow> c = 0" for c :: uchar
proof
  assume "(ucast c :: uint) = 0"
  then have "unat (ucast c :: uint) = 0" by simp
  then show "c = 0" using unsigned_less [of c, where 'a = nat] by (simp add: unsigned_ucast_eq take_bit_nat_eq_self unsigned_eq_0_iff)
qed simp

lemma typing_one:
  assumes "typable c"
  shows "\<exists>rs. kbd_chars 0 (typing c) = (rs, 0) \<and> filter (\<lambda>r. r \<noteq> 0) rs = [ucast c]"
proof -
  have c: "c \<noteq> 0" using assms by (simp add: typable_def)
  then have c': "(ucast c :: uint) \<noteq> 0" by (simp add: ucast_eq_0)
  show ?thesis
  proof (cases "find (\<lambda>k. normalmap k = c) [0..<84]")
    case (Some k)
    then have "k < 84" "normalmap k = c" by (auto simp: find_Some_iff)
    then show ?thesis using strike [of k 0 c] c c' Some by (simp add: typing_def)
  next
    case None
    then obtain k where f: "find (\<lambda>k. shiftmap k = c) [0..<84] = Some k"
      using assms by (auto simp: typable_def typing_def split: option.splits)
    then have "k < 84" "shiftmap k = c" by (auto simp: find_Some_iff)
    then have "kbd_chars SHIFT [of_nat k, of_nat k OR 0x80] = ([ucast c, 0], SHIFT)"
      using strike [of k SHIFT c] c by (simp add: SHIFT_def)
    then have "kbd_chars SHIFT ([of_nat k, of_nat k OR 0x80] @ [0xAA]) = ([ucast c, 0, 0], 0)"
      unfolding kbd_chars_append by (simp add: release_shift)
    then have "kbd_chars 0 (typing c) = ([0, ucast c, 0, 0], 0)"
      using None f by (simp add: typing_def press_shift del: kbd_chars_Cons) (simp add: kbd_chars_Cons [of 0] press_shift)
    then show ?thesis using c' by simp
  qed
qed

lemma typableI:
  assumes "k < 84" and "normalmap k = c \<or> shiftmap k = c" and "c \<noteq> 0"
  shows "typable c"
proof -
  have "find (\<lambda>k. normalmap k = c) [0..<84] \<noteq> None \<or> find (\<lambda>k. shiftmap k = c) [0..<84] \<noteq> None"
    using assms by (auto simp: find_None_iff)
  then show ?thesis using assms(3) by (auto simp: typable_def typing_def split: option.splits)
qed

text \<open>
  C33: Somebody who types a text at the keyboard, key by key and with the shift key where a character needs it,
  has that text delivered: the characters that \<open>kbdgetc\<close> returns over the scan codes, apart from the zeroes it
  returns for releases and modifiers (which \<open>consoleintr\<close> ignores), are those of the text in order, and no modifier
  is left held at the end.
\<close>

theorem typing_roundtrip:
  assumes "list_all typable cs"
  shows "filter (\<lambda>r. r \<noteq> 0) (fst (kbd_chars 0 (concat (map typing cs)))) = map ucast cs
       \<and> snd (kbd_chars 0 (concat (map typing cs))) = 0"
  using assms
proof (induction cs)
  case (Cons c cs)
  obtain rs where "kbd_chars 0 (typing c) = (rs, 0)" "filter (\<lambda>r. r \<noteq> 0) rs = [ucast c]"
    using typing_one [of c] Cons.prems by auto
  then show ?case using Cons by (auto simp: kbd_chars_append split: prod.splits)
qed simp

lemma typable_H: "typable 72"
  by (rule typableI [of 35]) (simp_all add: shiftmap_def normalmap_def initialised_def)

lemma typable_i: "typable 105"
  by (rule typableI [of 23]) (simp_all add: shiftmap_def normalmap_def initialised_def)

theorem typing_roundtrip_witness:
  "list_all typable [72, 105] \<and> snd (kbd_chars 0 (concat (map typing [72, 105]))) = 0"
proof -
  have l: "list_all typable [72, 105]" by (simp add: typable_H typable_i)
  show ?thesis using l conjunct2 [OF typing_roundtrip [OF l]] by (rule conjI)
qed

end
