(* ===== verification/Spec2Isabelle.thy ===== *)
theory Spec2Isabelle
  imports UserSpace Gates Smp Sysfile MemProps SchedProps LogProps FileProps IoProps SysProps LogRes Grep Analyser IdeQueue Kbd
begin

text \<open>
  A verification of the xv6 operating system with memory shared between a parent and its children. The paths below are
  relative to \<^verbatim>\<open>src/\<close>; a definition has the name of the function it models wherever that is possible.

  \<^bold>\<open>The system.\<close> A process registers parts of its memory under names (\<open>share_data\<close>); \<open>fork\<close> gives the child a copy of the
  table of these structures, and \<open>exec\<close> of the programs \<open>comma\<close> and \<open>lisa\<close> maps the frames of the parent into the
  new address space, above \<open>SHAREDBASE\<close>, where \<open>get_data\<close> finds them. Below this lie the parts of xv6: the page allocator
  and the page tables, processes and their scheduler, system calls and traps, the file system on its log, its buffer
  cache and a disk, pipes and the console. Above it lie the three user programs that share memory, and \<open>grep\<close>.

  \<^bold>\<open>How code is written in the model.\<close> A routine is a function from a state to \<open>Done\<close> with its result and the new state, or
  \<open>Stop\<close> with the reason for which it does not return: a panic, a fault, an endless wait for a lock, sleep, or the end of
  the process (\<open>Prelude\<close>). Integers are machine words. Memory is a function from 32-bit addresses to bytes; the free list
  of \<^verbatim>\<open>kernel/kalloc.c\<close> and the page tables of \<^verbatim>\<open>kernel/vm.c\<close> live in its bytes. The states extend one another: the pages
  (\<open>kmem\<close>), the processes and the processor (\<open>psys\<close>), the disk, caches, log and console (\<open>fsys\<close>), and the open files and
  pipes (\<open>ksys\<close>). A property of a routine is a weakest precondition \<open>ok\<close>, which says that the routine returns and
  what holds then. Code that other processors or processes can interrupt is a step relation, and its properties hold in
  every state that any interleaving reaches.

  \<^bold>\<open>Foundations.\<close>
  \<^item> \<open>Prelude\<close>: types, results, memory and their rules.
  \<^item> \<open>CString\<close>: \<^verbatim>\<open>kernel/string.c\<close>, each routine against what it computes.
  \<^item> \<open>Ring\<close>: the byte rings of pipes and console, with indices that wrap around.
  \<^item> \<open>Frame\<close>: what an operation leaves alone.

  \<^bold>\<open>Memory.\<close>
  \<^item> \<open>Mmu\<close> and \<open>Gates\<close>: \<^verbatim>\<open>kernel/memlayout.h\<close>, \<^verbatim>\<open>kernel/mmu.h\<close>, the descriptor tables of \<open>seginit\<close> and \<open>tvinit\<close>.
  \<^item> \<open>Kalloc\<close>: \<^verbatim>\<open>kernel/kalloc.c\<close>. The locale \<open>page_allocator\<close> is its contract.
  \<^item> \<open>Vm\<close>, \<open>AddrSpace\<close>, \<open>UserSpace\<close>, \<open>UserMem\<close>: \<^verbatim>\<open>kernel/vm.c\<close>. Mapping, growing, copying and taking down an address space,
    with an account of every page; a failure gives back every page that was taken.
  \<^item> \<open>Shared\<close>: \<open>sys_share_data\<close> and \<open>sys_get_data\<close> of \<^verbatim>\<open>kernel/sysfile.c\<close>, \<open>access_shared_memory\<close> of \<^verbatim>\<open>kernel/vm.c\<close>, and the
    inheritance and clearing of the table in \<^verbatim>\<open>kernel/proc.c\<close>. A byte of a mapped structure is the same byte of
    physical memory in parent and child.
  \<^item> \<open>Example\<close> and \<open>MemProps\<close>: a concrete machine and the properties of these components.

  \<^bold>\<open>Processors and processes.\<close>
  \<^item> \<open>Spinlock\<close>: \<^verbatim>\<open>kernel/spinlock.c\<close>, on one processor and as a protocol of all of them. The locale \<open>invariant_system\<close> is
    the induction over reachable states that every protocol uses.
  \<^item> \<open>ProcDefs\<close>, \<open>Sched\<close>, \<open>Proc\<close>: \<^verbatim>\<open>kernel/proc.c\<close> and \<^verbatim>\<open>kernel/sysproc.c\<close>.
  \<^item> \<open>Smp\<close> and \<open>SleepWake\<close>: the process table under all processors, and the protocol of \<open>sleep\<close> and \<open>wakeup\<close>.
  \<^item> \<open>SchedProps\<close>: mutual exclusion, one processor for each running process, no lost wakeup, and a scheduler that
    passes over nobody.
  \<^item> \<open>Syscall\<close>, \<open>Exec\<close>, \<open>Sysfile\<close>, \<open>SysProps\<close>: \<^verbatim>\<open>kernel/syscall.c\<close>, \<^verbatim>\<open>kernel/exec.c\<close>, \<^verbatim>\<open>kernel/sysfile.c\<close>, \<^verbatim>\<open>kernel/trap.c\<close>,
    and the checks of system-call arguments.

  \<^bold>\<open>File system.\<close>
  \<^item> \<open>FsDefs\<close>, \<open>Sleeplock\<close>, \<open>InodeLock\<close>: the state, \<^verbatim>\<open>kernel/sleeplock.c\<close>, and the locale \<open>sleeplock_at\<close> for every place that
    holds such a lock.
  \<^item> \<open>Bio\<close>, \<open>BlockSpec\<close>, \<open>Cache\<close>: \<^verbatim>\<open>kernel/bio.c\<close> with the in-memory disk of \<^verbatim>\<open>kernel/memide.c\<close>; the contract \<open>block_cache\<close>.
  \<^item> \<open>Ide\<close>, \<open>IdeQueue\<close>: \<^verbatim>\<open>kernel/ide.c\<close>. The queue of requests behaves like a disk that makes each transfer at once.
  \<^item> \<open>Log\<close>, \<open>Commit\<close>, \<open>Tx\<close>, \<open>LogProps\<close>, \<open>LogRes\<close>: \<^verbatim>\<open>kernel/log.c\<close>. A commit is atomic under a crash at any disk write, a
    transaction fulfils the contract \<open>logged_cache\<close>, and the reservations of \<open>begin_op\<close> bound what is logged.
  \<^item> \<open>Inode\<close>, \<open>Alloc\<close>, \<open>Dir\<close>, \<open>FileData\<close>, \<open>FileProps\<close>: \<^verbatim>\<open>kernel/fs.c\<close>. Blocks allocated are fresh, and bytes written are
    read back.
  \<^item> \<open>File\<close>, \<open>Pipe\<close>: \<^verbatim>\<open>kernel/file.c\<close>, \<^verbatim>\<open>kernel/pipe.c\<close>. \<open>Console\<close>, \<open>ConsoleData\<close>, \<open>Kbd\<close>: \<^verbatim>\<open>kernel/console.c\<close>,
    \<^verbatim>\<open>kernel/uart.c\<close>, \<^verbatim>\<open>kernel/kbd.c\<close>. \<open>IoProps\<close>: pipes deliver what they are given, input lines are edited and
    delivered, numbers are printed right. \<open>FsExample\<close> is the concrete file system of these properties.

  \<^bold>\<open>User programs.\<close>
  \<^item> \<open>Ulib\<close>: \<^verbatim>\<open>user/ulib.c\<close>, \<^verbatim>\<open>user/printf.c\<close>.
  \<^item> \<open>Analyser\<close>: \<^verbatim>\<open>user/dalle.c\<close>, \<^verbatim>\<open>user/liSa.c\<close>, \<^verbatim>\<open>user/coMMa.c\<close>.
  \<^item> \<open>Grep\<close>: \<^verbatim>\<open>user/grep.c\<close>, whose matcher implements a declarative meaning of patterns.

  \<^bold>\<open>Bounds.\<close> A loop over the pages of a range has fuel for 1048576 pages, all that a 32-bit address space holds, and one
  more where its condition is tested again at the end; a loop over bytes has fuel for their number, one over a directory
  for its entries, and one over a path for its length, since each round takes at least one of them. Fuel that runs out is the
  reason \<open>OutOfFuel\<close>, which the properties of mapping, growing, copying, freeing, reading and writing exclude because they
  show that the routine returns. Loops that only a terminator or a device ends are partial functions.

  \<^bold>\<open>Simplifications.\<close> A routine that switches contexts is given in its parts before and after \<open>swtch\<close>; one that goes to sleep
  stops there. Pointers into the tables of processes, files, inodes and buffers are indices. Trap frame and context are fields
  of a process instead of bytes of its kernel stack, and the fields of a pipe a record instead of bytes of its page. A transfer
  of the disk takes place at its command. Messages are part of the state only where the console is the subject.

  \<^bold>\<open>Not modelled.\<close>
  \<^item> \<^verbatim>\<open>bootloader/\<close>, the assembly files, \<^verbatim>\<open>kernel/main.c\<close>: machine code and the order of initialisation.
  \<^item> \<^verbatim>\<open>kernel/lapic.c\<close>, \<^verbatim>\<open>kernel/ioapic.c\<close>, \<^verbatim>\<open>kernel/picirq.c\<close>, \<^verbatim>\<open>kernel/mp.c\<close>, the ports of \<^verbatim>\<open>kernel/uart.c\<close>: device registers and
    tables of the firmware.
  \<^item> \<open>procdump\<close> of \<^verbatim>\<open>kernel/proc.c\<close> and \<open>idtinit\<close> of \<^verbatim>\<open>kernel/trap.c\<close>: printing, and a register of the processor.
  \<^item> \<^verbatim>\<open>tools/mkfs.c\<close>: it runs on the host and makes the first disk image.
  \<^item> \<^verbatim>\<open>user/sh.c\<close>, \<^verbatim>\<open>user/umalloc.c\<close>, the small programs and the tests in \<^verbatim>\<open>user/\<close>: clients of the system calls that the
    development does not reach.
\<close>

end
